(* ===== verification/Prelude.thy ===== *)
theory Prelude
  imports Main "HOL-Library.Word" "HOL-Library.Sublist"
begin

text \<open>
  Shared vocabulary of the development: the machine types, the pieces of the Rust
  standard library that the modelled functions call, and generic lemmas.

  A Rust \<open>&str\<close> is a \<^typ>\<open>string\<close> whose characters are its UTF-8 \<^emph>\<open>bytes\<close>
  (so \<^const>\<open>length\<close> is \<open>str::len\<close>), a Rust \<open>&[u8]\<close> payload is a list of
  8-bit words. \<open>usize\<close> is 64 bits wide. Integer parsing follows
  \<open>core::num::from_str_radix\<close>: one optional leading \<open>+\<close> (and, for signed types,
  \<open>-\<close>), at least one digit, and an error on overflow.
\<close>

type_synonym byte = "8 word"
type_synonym str = string

text \<open>Collections of simplification rules used across the components.\<close>

named_theorems wire_simps \<open>evaluation of the wire scanners\<close>
named_theorems bit_eval \<open>evaluation of bit-level parsers on concrete data\<close>
named_theorems stable_intros \<open>locality rules for bit-level parsers\<close>

section \<open>Bytes as characters\<close>

definition byte_of :: "char \<Rightarrow> nat" where
  "byte_of c = of_char c"

definition is_ascii_digit :: "char \<Rightarrow> bool" where
  "is_ascii_digit c \<longleftrightarrow> 48 \<le> byte_of c \<and> byte_of c \<le> 57"

definition digit_value :: "char \<Rightarrow> nat" where
  "digit_value c = byte_of c - 48"

definition is_continuation :: "char \<Rightarrow> bool" where
  "is_continuation c \<longleftrightarrow> 128 \<le> byte_of c \<and> byte_of c < 192"

definition is_ascii :: "char \<Rightarrow> bool" where
  "is_ascii c \<longleftrightarrow> byte_of c < 128"

lemma byte_of_less [simp]: "byte_of c < 256"
  by (simp add: byte_of_def)

lemma byte_of_eq_iff [simp]: "byte_of c = byte_of d \<longleftrightarrow> c = d"
  by (simp add: byte_of_def)

lemma is_ascii_digit_not_sep [simp]:
  "\<not> is_ascii_digit CHR ''.''" "\<not> is_ascii_digit CHR '',''" "\<not> is_ascii_digit CHR '';''"
  "\<not> is_ascii_digit CHR ''+''" "\<not> is_ascii_digit CHR ''-''"
  by (simp_all add: is_ascii_digit_def byte_of_def)

section \<open>Decimal numbers: \<open>format!("{}")\<close> and \<open>str::parse\<close>\<close>

fun digits_val :: "nat \<Rightarrow> str \<Rightarrow> nat" where
  "digits_val acc [] = acc"
| "digits_val acc (c # cs) = digits_val (10 * acc + digit_value c) cs"

definition parse_digits :: "str \<Rightarrow> nat option" where
  "parse_digits s = (if s \<noteq> [] \<and> list_all is_ascii_digit s then Some (digits_val 0 s) else None)"

text \<open>\<open>parse::<uW>()\<close> for a \<open>w\<close>-bit unsigned type.\<close>

definition parse_unsigned :: "nat \<Rightarrow> str \<Rightarrow> nat option" where
  "parse_unsigned w s =
     (case parse_digits (case s of [] \<Rightarrow> [] | c # cs \<Rightarrow> if c = CHR ''+'' then cs else s) of
        None \<Rightarrow> None
      | Some n \<Rightarrow> if n < 2 ^ w then Some n else None)"

text \<open>\<open>parse::<iW>()\<close> for a \<open>w\<close>-bit signed type.\<close>

definition parse_signed :: "nat \<Rightarrow> str \<Rightarrow> int option" where
  "parse_signed w s =
     (case s of
        [] \<Rightarrow> None
      | c # cs \<Rightarrow>
          if c = CHR ''-'' then
            (case parse_digits cs of
               None \<Rightarrow> None
             | Some n \<Rightarrow> if n \<le> 2 ^ (w - 1) then Some (- int n) else None)
          else
            (case parse_digits (if c = CHR ''+'' then cs else s) of
               None \<Rightarrow> None
             | Some n \<Rightarrow> if n < 2 ^ (w - 1) then Some (int n) else None))"

abbreviation parse_usize :: "str \<Rightarrow> nat option" where
  "parse_usize \<equiv> parse_unsigned 64"

abbreviation parse_u32 :: "str \<Rightarrow> nat option" where
  "parse_u32 \<equiv> parse_unsigned 32"

abbreviation parse_u8 :: "str \<Rightarrow> nat option" where
  "parse_u8 \<equiv> parse_unsigned 8"

abbreviation parse_i32 :: "str \<Rightarrow> int option" where
  "parse_i32 \<equiv> parse_signed 32"

abbreviation parse_i64 :: "str \<Rightarrow> int option" where
  "parse_i64 \<equiv> parse_signed 64"

definition digit_char :: "nat \<Rightarrow> char" where
  "digit_char d = ''0123456789'' ! d"

fun show_nat :: "nat \<Rightarrow> str" where
  "show_nat n = (if n < 10 then [digit_char n] else show_nat (n div 10) @ [digit_char (n mod 10)])"

declare show_nat.simps [simp del]

lemma byte_of_digit_char [simp]: "d < 10 \<Longrightarrow> byte_of (digit_char d) = 48 + d"
  by (auto simp: byte_of_def digit_char_def less_Suc_eq numeral_eq_Suc)

lemma is_ascii_digit_digit_char [simp]: "d < 10 \<Longrightarrow> is_ascii_digit (digit_char d)"
  by (simp add: is_ascii_digit_def)

lemma digit_value_digit_char [simp]: "d < 10 \<Longrightarrow> digit_value (digit_char d) = d"
  by (simp add: digit_value_def)

lemma digits_val_append: "digits_val acc (xs @ ys) = digits_val (digits_val acc xs) ys"
  by (induction xs arbitrary: acc) auto

lemma show_nat_nonempty [simp]: "show_nat n \<noteq> []"
  by (subst show_nat.simps) simp

lemma show_nat_digits [simp]: "list_all is_ascii_digit (show_nat n)"
proof (induction n rule: show_nat.induct)
  case (1 n)
  then show ?case by (cases "n < 10") (simp_all add: show_nat.simps [of n])
qed

lemma show_nat_digits_set: "c \<in> set (show_nat n) \<Longrightarrow> is_ascii_digit c"
  using show_nat_digits [of n] by (auto simp: list_all_iff)

lemma digits_val_show_nat [simp]: "digits_val 0 (show_nat n) = n"
proof (induction n rule: show_nat.induct)
  case (1 n)
  then show ?case
    by (cases "n < 10") (simp_all add: show_nat.simps [of n] digits_val_append)
qed

lemma parse_digits_show_nat [simp]: "parse_digits (show_nat n) = Some n"
  by (simp add: parse_digits_def)

lemma parse_unsigned_less: "parse_unsigned w s = Some n \<Longrightarrow> n < 2 ^ w"
  by (auto simp: parse_unsigned_def split: option.splits if_splits)

lemma parse_unsigned_Nil [simp]: "parse_unsigned w [] = None"
  by (simp add: parse_unsigned_def parse_digits_def)

lemma parse_unsigned_digits:
  "list_all is_ascii_digit s \<Longrightarrow> s \<noteq> [] \<Longrightarrow>
   parse_unsigned w s = (if digits_val 0 s < 2 ^ w then Some (digits_val 0 s) else None)"
  by (cases s) (auto simp: parse_unsigned_def parse_digits_def)

lemma parse_unsigned_show_nat [simp]:
  "parse_unsigned w (show_nat n) = (if n < 2 ^ w then Some n else None)"
  by (simp add: parse_unsigned_digits)

section \<open>String slices\<close>

text \<open>\<open>str::is_char_boundary\<close>.\<close>

definition is_char_boundary :: "str \<Rightarrow> nat \<Rightarrow> bool" where
  "is_char_boundary s i \<longleftrightarrow> i = 0 \<or> i = length s \<or> (i < length s \<and> \<not> is_continuation (s ! i))"

text \<open>\<open>str::find(c)\<close> followed by the two slices around the match.\<close>

fun split_at_char :: "char \<Rightarrow> str \<Rightarrow> (str \<times> str) option" where
  "split_at_char c [] = None"
| "split_at_char c (x # xs) =
     (if x = c then Some ([], xs)
      else map_option (\<lambda>(a, b). (x # a, b)) (split_at_char c xs))"

text \<open>\<open>str::trim_end_matches(c)\<close>.\<close>

definition trim_end_matches :: "char \<Rightarrow> str \<Rightarrow> str" where
  "trim_end_matches c s = rev (dropWhile (\<lambda>x. x = c) (rev s))"

text \<open>\<open>str::strip_prefix\<close>.\<close>

fun strip_prefix :: "str \<Rightarrow> str \<Rightarrow> str option" where
  "strip_prefix [] s = Some s"
| "strip_prefix (p # ps) [] = None"
| "strip_prefix (p # ps) (c # cs) = (if p = c then strip_prefix ps cs else None)"

lemma strip_prefix_Some [simp]: "strip_prefix p s = Some r \<longleftrightarrow> s = p @ r"
  by (induction p s rule: strip_prefix.induct) auto

lemma split_at_char_Some:
  "split_at_char c s = Some (a, b) \<longleftrightarrow> s = a @ c # b \<and> c \<notin> set a"
  by (induction s arbitrary: a b) (force simp: Cons_eq_append_conv)+

lemma split_at_char_None: "split_at_char c s = None \<longleftrightarrow> c \<notin> set s"
  by (induction s) auto

lemma split_at_char_append [simp]: "c \<notin> set a \<Longrightarrow> split_at_char c (a @ c # b) = Some (a, b)"
  by (simp add: split_at_char_Some)

lemma split_at_char_length: "split_at_char c s = Some (a, b) \<Longrightarrow> length b < length s"
  by (simp add: split_at_char_Some)

lemma trim_end_matches_snoc [simp]:
  "trim_end_matches c (s @ [x]) = (if x = c then trim_end_matches c s else s @ [x])"
  by (simp add: trim_end_matches_def)

lemma trim_end_matches_Nil [simp]: "trim_end_matches c [] = []"
  by (simp add: trim_end_matches_def)

lemma trim_end_matches_replicate: "\<exists>k. s = trim_end_matches c s @ replicate k c"
proof (induction s rule: rev_induct)
  case (snoc x xs)
  then obtain k where k: "xs = trim_end_matches c xs @ replicate k c" by blast
  show ?case
  proof (cases "x = c")
    case True
    have "xs @ [c] = (trim_end_matches c xs @ replicate k c) @ [c]" by (simp flip: k)
    also have "\<dots> = trim_end_matches c xs @ replicate (Suc k) c"
      by (simp add: replicate_append_same)
    finally show ?thesis using True by (metis trim_end_matches_snoc)
  qed (auto intro: exI [of _ 0])
qed simp

lemma trim_end_matches_idem:
  "s \<noteq> [] \<Longrightarrow> last s \<noteq> c \<Longrightarrow> trim_end_matches c s = s"
  by (cases s rule: rev_cases) auto

text \<open>\<open>str::contains\<close>.\<close>

fun contains :: "str \<Rightarrow> str \<Rightarrow> bool" where
  "contains p [] \<longleftrightarrow> p = []"
| "contains p (c # cs) \<longleftrightarrow> take (length p) (c # cs) = p \<or> contains p cs"

section \<open>Trimming and case\<close>

text \<open>The UTF-8 encodings of the characters with the Unicode property \<open>White_Space\<close>.\<close>

definition white_spaces :: "str list" where
  "white_spaces = [[CHR 0x09], [CHR 0x0A], [CHR 0x0B], [CHR 0x0C], [CHR 0x0D], [CHR 0x20],
     [CHR 0xC2, CHR 0x85], [CHR 0xC2, CHR 0xA0], [CHR 0xE1, CHR 0x9A, CHR 0x80],
     [CHR 0xE2, CHR 0x80, CHR 0x80], [CHR 0xE2, CHR 0x80, CHR 0x81], [CHR 0xE2, CHR 0x80, CHR 0x82],
     [CHR 0xE2, CHR 0x80, CHR 0x83], [CHR 0xE2, CHR 0x80, CHR 0x84], [CHR 0xE2, CHR 0x80, CHR 0x85],
     [CHR 0xE2, CHR 0x80, CHR 0x86], [CHR 0xE2, CHR 0x80, CHR 0x87], [CHR 0xE2, CHR 0x80, CHR 0x88],
     [CHR 0xE2, CHR 0x80, CHR 0x89], [CHR 0xE2, CHR 0x80, CHR 0x8A], [CHR 0xE2, CHR 0x80, CHR 0xA8],
     [CHR 0xE2, CHR 0x80, CHR 0xA9], [CHR 0xE2, CHR 0x80, CHR 0xAF], [CHR 0xE2, CHR 0x81, CHR 0x9F],
     [CHR 0xE3, CHR 0x80, CHR 0x80]]"

text \<open>The longest suffix that begins with none of the given non-empty texts.\<close>

function strip_all :: "str list \<Rightarrow> str \<Rightarrow> str" where
  "strip_all ps s =
     (case List.find (\<lambda>p. p \<noteq> [] \<and> take (length p) s = p) ps of
        None \<Rightarrow> s
      | Some p \<Rightarrow> strip_all ps (drop (length p) s))"
  by pat_completeness auto
termination
proof (relation "measure (\<lambda>(_, s). length s)", simp)
  fix ps :: "str list" and s p
  assume "List.find (\<lambda>p. p \<noteq> [] \<and> take (length p) s = p) ps = Some p"
  then have "p \<noteq> []" "take (length p) s = p" by (auto simp: find_Some_iff)
  then show "((ps, drop (length p) s), ps, s) \<in> measure (\<lambda>(_, s). length s)"
    by (cases s) auto
qed

declare strip_all.simps [simp del]

lemma strip_all_Nil [simp]: "strip_all ps [] = []"
proof -
  have "List.find (\<lambda>p. p \<noteq> [] \<and> take (length p) [] = p) ps = None" by (auto simp: find_None_iff)
  then show ?thesis by (subst strip_all.simps) simp
qed

text \<open>\<open>str::trim\<close>.\<close>

definition trim :: "str \<Rightarrow> str" where
  "trim s = rev (strip_all (map rev white_spaces) (rev (strip_all white_spaces s)))"

text \<open>\<open>to_ascii_lowercase\<close>.\<close>

definition ascii_lower :: "char \<Rightarrow> char" where
  "ascii_lower c = (if 65 \<le> byte_of c \<and> byte_of c \<le> 90 then char_of (byte_of c + 32) else c)"

definition to_ascii_lowercase :: "str \<Rightarrow> str" where
  "to_ascii_lowercase s = map ascii_lower s"

section \<open>UTF-8 structure\<close>

text \<open>
  The width the lead byte announces, as the scanners compute it: \<open>None\<close> for a lone
  continuation byte, four for every byte from \<open>0xF0\<close> up.
\<close>

definition char_width :: "char \<Rightarrow> nat option" where
  "char_width c =
     (let b = byte_of c in
      if b < 0x80 then Some 1
      else if b < 0xC0 then None
      else if b < 0xE0 then Some 2
      else if b < 0xF0 then Some 3
      else Some 4)"

lemma char_width_pos: "char_width c = Some w \<Longrightarrow> 0 < w \<and> w \<le> 4"
  by (auto simp: char_width_def Let_def split: if_splits)

lemma char_width_ascii [simp]: "is_ascii c \<Longrightarrow> char_width c = Some 1"
  by (simp add: char_width_def is_ascii_def)

lemma char_width_not_cont: "char_width c = Some w \<Longrightarrow> \<not> is_continuation c"
  by (auto simp: char_width_def is_continuation_def Let_def split: if_splits)

text \<open>
  A byte string in which every lead byte is followed by the continuation bytes it
  announces. Every Rust \<open>&str\<close> is one; so hypotheses stated with it are weaker than
  full UTF-8 validity.
\<close>

function utf8 :: "str \<Rightarrow> bool" where
  "utf8 s =
     (case s of
        [] \<Rightarrow> True
      | c # cs \<Rightarrow>
          (case char_width c of
             None \<Rightarrow> False
           | Some w \<Rightarrow>
               w \<le> length s \<and> list_all is_continuation (take (w - 1) cs) \<and> utf8 (drop (w - 1) cs)))"
  by pat_completeness auto
termination
  by (relation "measure length") auto

declare utf8.simps [simp del]

lemma utf8_Nil [simp]: "utf8 []"
  by (simp add: utf8.simps)

lemma utf8_Cons:
  "utf8 (c # cs) \<longleftrightarrow>
     (\<exists>w. char_width c = Some w \<and> w \<le> Suc (length cs) \<and>
          list_all is_continuation (take (w - 1) cs) \<and> utf8 (drop (w - 1) cs))"
  by (subst utf8.simps) (auto split: option.splits)

lemma utf8_Cons_ascii [simp]: "is_ascii c \<Longrightarrow> utf8 (c # cs) \<longleftrightarrow> utf8 cs"
  by (simp add: utf8_Cons)

lemma utf8_ascii: "list_all is_ascii s \<Longrightarrow> utf8 s"
  by (induction s) auto

lemma utf8_hd_not_cont: "utf8 (c # cs) \<Longrightarrow> \<not> is_continuation c"
  by (auto simp: utf8_Cons dest: char_width_not_cont)

lemma digit_is_ascii [simp]: "is_ascii_digit c \<Longrightarrow> is_ascii c"
  by (simp add: is_ascii_digit_def is_ascii_def)

lemma separators_ascii [simp]:
  "is_ascii CHR ''.''" "is_ascii CHR '',''" "is_ascii CHR '';''"
  by (simp_all add: is_ascii_def byte_of_def)

lemma parse_unsigned_ascii: "parse_unsigned w a = Some n \<Longrightarrow> list_all is_ascii a"
proof -
  assume p: "parse_unsigned w a = Some n"
  have plus: "is_ascii CHR ''+''" by (simp add: is_ascii_def byte_of_def)
  have "list_all is_ascii ds" if "parse_digits ds = Some m" for ds m
    using that by (auto simp: parse_digits_def list_all_iff split: if_splits)
  with p plus show ?thesis
    by (fastforce simp: parse_unsigned_def split: list.splits if_splits option.splits)
qed

lemma utf8_append_ascii: "list_all is_ascii xs \<Longrightarrow> utf8 (xs @ ys) \<longleftrightarrow> utf8 ys"
  by (induction xs) auto

lemmas [wire_simps] = char_width_def is_continuation_def is_ascii_def is_ascii_digit_def
  digit_value_def byte_of_def parse_unsigned_def parse_signed_def parse_digits_def
  is_char_boundary_def Let_def

section \<open>Generic facts\<close>

lemma of_bool_eq_Suc_0 [simp]: "of_bool b = Suc 0 \<longleftrightarrow> b" "Suc 0 = of_bool b \<longleftrightarrow> b"
  by (cases b; simp)+

lemma length_drop_less: "0 < n \<Longrightarrow> xs \<noteq> [] \<Longrightarrow> length (drop n xs) < length xs"
  by (cases xs) auto

lemma takeWhile_append_stop:
  "list_all P xs \<Longrightarrow> \<not> P y \<Longrightarrow> takeWhile P (xs @ y # ys) = xs"
  by (induction xs) auto

lemma dropWhile_append_stop:
  "list_all P xs \<Longrightarrow> \<not> P y \<Longrightarrow> dropWhile P (xs @ y # ys) = y # ys"
  by (induction xs) auto

lemma list_all_takeWhile [simp]: "list_all P (takeWhile P xs)"
  by (induction xs) auto

lemma length_filter_mono:
  "(\<And>x. x \<in> set xs \<Longrightarrow> P x \<Longrightarrow> Q x) \<Longrightarrow> length (filter P xs) \<le> length (filter Q xs)"
  by (induction xs) auto

lemma filter_covers:
  assumes "\<And>x. x \<in> set xs \<Longrightarrow> P x \<Longrightarrow> Q x" and "length (filter Q xs) \<le> length (filter P xs)"
  shows "\<forall>x \<in> set xs. Q x \<longrightarrow> P x"
  using assms
proof (induction xs)
  case (Cons x xs)
  have PQ: "\<And>y. y \<in> set xs \<Longrightarrow> P y \<Longrightarrow> Q y" "P x \<Longrightarrow> Q x" using Cons.prems(1) by simp_all
  then have "length (filter P xs) \<le> length (filter Q xs)" by (intro length_filter_mono)
  then have "length (filter Q xs) \<le> length (filter P xs)" and "Q x \<Longrightarrow> P x"
    using PQ(2) Cons.prems(2) by (auto split: if_splits)
  with Cons.IH [OF PQ(1)] show ?case by simp
qed simp

end
