(* ===== verification/Protocol.thy ===== *)
theory Protocol
  imports Prelude
begin

text \<open>
  The Guacamole instruction codec of \<^verbatim>\<open>src/src/protocol.rs\<close>: \<open>Instruction::encode\<close>
  and \<open>Instruction::parse\<close>, whose length prefixes count bytes, and the framing scanner
  \<open>last_instruction_boundary\<close>, whose length prefixes count UTF-8 characters.
\<close>

section \<open>Instructions, \<open>encode\<close> and \<open>parse\<close>\<close>

record instruction =
  i_opcode :: str
  i_args :: "str list"

datatype parse_error = ParseEmpty | MalformedElement | InvalidLength | Truncated | UnexpectedChar

definition encode_element :: "str \<Rightarrow> str" where
  "encode_element s = show_nat (length s) @ CHR ''.'' # s"

definition encode :: "instruction \<Rightarrow> str" where
  "encode i =
     encode_element (i_opcode i)
     @ concat (map (\<lambda>arg. CHR '','' # encode_element arg) (i_args i))
     @ [CHR '';'']"

text \<open>The \<open>loop\<close> of \<open>Instruction::parse\<close>, from \<open>remaining\<close>.\<close>

function parse_elements :: "str \<Rightarrow> parse_error + str list" where
  "parse_elements remaining =
     (case split_at_char CHR ''.'' remaining of
        None \<Rightarrow> Inl MalformedElement
      | Some (len_text, rest) \<Rightarrow>
          (case parse_usize len_text of
             None \<Rightarrow> Inl InvalidLength
           | Some len \<Rightarrow>
               if length rest < len then Inl Truncated
               else if \<not> is_char_boundary rest len then Inl Truncated
               else
                 (case drop len rest of
                    [] \<Rightarrow> Inr [take len rest]
                  | c # rest' \<Rightarrow>
                      if c = CHR '','' then
                        (case parse_elements rest' of
                           Inl e \<Rightarrow> Inl e
                         | Inr es \<Rightarrow> Inr (take len rest # es))
                      else Inl UnexpectedChar)))"
  by pat_completeness auto
termination
proof (relation "measure length", goal_cases)
  case (2 remaining x len_text rest len c rest')
  then have "length rest < length remaining" by (auto dest: split_at_char_length)
  moreover have "length rest' < length rest"
    using 2(6) by (metis length_drop length_Cons less_Suc_eq diff_le_self le_less_trans lessI
        less_le_trans)
  ultimately show ?case by simp
qed simp

declare parse_elements.simps [simp del]

definition parse :: "str \<Rightarrow> parse_error + instruction" where
  "parse data =
     (let data = trim_end_matches CHR '';'' data in
      if data = [] then Inl ParseEmpty
      else
        (case parse_elements data of
           Inl e \<Rightarrow> Inl e
         | Inr [] \<Rightarrow> Inl ParseEmpty
         | Inr (op # args) \<Rightarrow> Inr \<lparr>i_opcode = op, i_args = args\<rparr>))"

section \<open>\<open>last_instruction_boundary\<close>\<close>

text \<open>Skipping \<open>len\<close> UTF-8 characters of element data.\<close>

fun skip_chars :: "nat \<Rightarrow> str \<Rightarrow> (str \<times> str) option" where
  "skip_chars 0 s = Some ([], s)"
| "skip_chars (Suc n) s =
     (case s of
        [] \<Rightarrow> None
      | b # _ \<Rightarrow>
          (case char_width b of
             None \<Rightarrow> None
           | Some w \<Rightarrow>
               if length s < w then None
               else
                 (case skip_chars n (drop w s) of
                    None \<Rightarrow> None
                  | Some (v, r) \<Rightarrow> Some (take w s @ v, r))))"

text \<open>One element of the inner loop: its value, what follows its terminator, the terminator.\<close>

definition scan_element :: "str \<Rightarrow> (str \<times> str \<times> char) option" where
  "scan_element s =
     (let digits = takeWhile is_ascii_digit s; s1 = dropWhile is_ascii_digit s in
      if digits = [] then None
      else
        (case s1 of
           [] \<Rightarrow> None
         | c # s2 \<Rightarrow>
             if c \<noteq> CHR ''.'' then None
             else
               (case parse_usize digits of
                  None \<Rightarrow> None
                | Some len \<Rightarrow>
                    (case skip_chars len s2 of
                       None \<Rightarrow> None
                     | Some (v, s3) \<Rightarrow>
                         (case s3 of
                            [] \<Rightarrow> None
                          | t # s4 \<Rightarrow>
                              if t = CHR '','' \<or> t = CHR '';'' then Some (v, s4, t) else None)))))"

lemma skip_chars_Suc:
  "skip_chars (Suc n) s = Some (v, r) \<longleftrightarrow>
     (\<exists>b w v'. s \<noteq> [] \<and> hd s = b \<and> char_width b = Some w \<and> w \<le> length s \<and>
        skip_chars n (drop w s) = Some (v', r) \<and> v = take w s @ v')"
  by (cases s) (auto split: option.splits)

lemma skip_chars_split: "skip_chars n s = Some (v, r) \<Longrightarrow> s = v @ r"
proof (induction n arbitrary: s v r)
  case (Suc n)
  then obtain w v' where "skip_chars n (drop w s) = Some (v', r)" and v: "v = take w s @ v'"
    by (auto simp only: skip_chars_Suc)
  then have "drop w s = v' @ r" by (rule_tac Suc.IH)
  then have "take w s @ drop w s = v @ r" using v by simp
  then show ?case by simp
qed simp

lemma scan_element_length: "scan_element s = Some (v, r, t) \<Longrightarrow> length r < length s"
proof -
  assume a: "scan_element s = Some (v, r, t)"
  then obtain c s2 len t' where
    s1: "dropWhile is_ascii_digit s = c # s2" and sk: "skip_chars len s2 = Some (v, t' # r)"
    by (auto simp: scan_element_def Let_def split: list.splits option.splits if_splits)
  have "length (c # s2) \<le> length s" using length_dropWhile_le [of is_ascii_digit s] by (simp flip: s1)
  with skip_chars_split [OF sk] show ?thesis by simp
qed

text \<open>The inner loop: what follows the instruction, or \<open>None\<close> on the early returns.\<close>

function scan_instruction :: "str \<Rightarrow> str option" where
  "scan_instruction s =
     (case scan_element s of
        None \<Rightarrow> None
      | Some (_, r, t) \<Rightarrow> if t = CHR '';'' then Some r else scan_instruction r)"
  by pat_completeness auto
termination
  by (relation "measure length") (auto dest: scan_element_length)

declare scan_instruction.simps [simp del]

lemma scan_instruction_length: "scan_instruction s = Some r \<Longrightarrow> length r < length s"
proof (induction s rule: scan_instruction.induct)
  case (1 s)
  show ?case
  proof (cases "scan_element s")
    case None
    with 1 show ?thesis by (simp add: scan_instruction.simps [of s])
  next
    case (Some x)
    then obtain v r' t where x: "scan_element s = Some (v, r', t)" by (cases x) auto
    with 1 scan_element_length [OF x] show ?thesis
      by (fastforce simp: scan_instruction.simps [of s] split: if_splits)
  qed
qed

text \<open>The outer loop; \<open>buflen\<close> is \<open>buf.len()\<close>, so \<open>buflen - length rest\<close> is \<open>pos\<close>.\<close>

function boundary_loop :: "nat \<Rightarrow> str \<Rightarrow> nat option \<Rightarrow> nat option" where
  "boundary_loop buflen s last_end =
     (case scan_instruction s of
        None \<Rightarrow> last_end
      | Some rest \<Rightarrow>
          (let pos = buflen - length rest in
           if rest = [] then Some pos else boundary_loop buflen rest (Some pos)))"
  by pat_completeness auto
termination
  by (relation "measure (\<lambda>(_, s, _). length s)") (auto dest: scan_instruction_length)

declare boundary_loop.simps [simp del]

definition last_instruction_boundary :: "str \<Rightarrow> nat option" where
  "last_instruction_boundary buf = boundary_loop (length buf) buf None"

section \<open>\<open>parse\<close> after \<open>encode\<close>\<close>

lemma split_at_dot_encode_element [simp]:
  "split_at_char CHR ''.'' (show_nat n @ CHR ''.'' # rest) = Some (show_nat n, rest)"
  by (rule split_at_char_append) (auto dest: show_nat_digits_set)

lemma is_char_boundary_before_comma [simp]: "is_char_boundary (e @ CHR '','' # r) (length e)"
  by (simp add: is_char_boundary_def is_continuation_def byte_of_def)

lemma is_char_boundary_end [simp]: "is_char_boundary e (length e)"
  by (simp add: is_char_boundary_def)

lemma parse_elements_comma:
  "length e < 2 ^ 64 \<Longrightarrow>
   parse_elements (encode_element e @ CHR '','' # t) =
     (case parse_elements t of Inl x \<Rightarrow> Inl x | Inr es \<Rightarrow> Inr (e # es))"
  by (subst parse_elements.simps) (simp add: encode_element_def split: sum.splits)

lemma parse_elements_prefix:
  "list_all (\<lambda>e. length e < 2 ^ 64) es \<Longrightarrow>
   parse_elements (concat (map (\<lambda>e. encode_element e @ [CHR '','']) es) @ t) =
     (case parse_elements t of Inl x \<Rightarrow> Inl x | Inr ts \<Rightarrow> Inr (es @ ts))"
proof (induction es)
  case (Cons e es)
  then show ?case by (simp add: parse_elements_comma split: sum.splits)
qed (simp split: sum.splits)

lemma parse_elements_last:
  "length e < 2 ^ 64 \<Longrightarrow>
   parse_elements (show_nat (length e) @ CHR ''.'' # e) = Inr [e]"
  by (subst parse_elements.simps) simp

lemma parse_elements_cut:
  "n < 2 ^ 64 \<Longrightarrow> length e < n \<Longrightarrow>
   parse_elements (show_nat n @ CHR ''.'' # e) = Inl Truncated"
  by (subst parse_elements.simps) simp

lemma trim_end_matches_mid:
  "y \<noteq> c \<Longrightarrow> trim_end_matches c (xs @ y # ys) = xs @ y # trim_end_matches c ys"
proof (induction ys rule: rev_induct)
  case (snoc z zs)
  then show ?case
    using trim_end_matches_snoc [of c "xs @ y # zs" z] by simp
qed simp

lemma trim_end_matches_length:
  "length (trim_end_matches c s) < length s \<longleftrightarrow> s \<noteq> [] \<and> last s = c"
proof (cases s rule: rev_cases)
  case (snoc t x)
  obtain k where "t = trim_end_matches c t @ replicate k c"
    using trim_end_matches_replicate by blast
  then have "length (trim_end_matches c t) \<le> length t" by (metis length_append le_add1)
  with snoc show ?thesis by auto
qed simp

lemma encode_nonempty [simp]: "encode i \<noteq> []"
  by (simp add: encode_def)

text \<open>The elements of an instruction, in order, and the last of them.\<close>

definition instruction_elements :: "instruction \<Rightarrow> str list" where
  "instruction_elements i = i_opcode i # i_args i"

lemma concat_separator:
  "concat (map (\<lambda>x. c # f x) xs) @ [c] = c # concat (map (\<lambda>x. f x @ [c]) xs)"
  by (induction xs) auto

lemma encode_alt:
  assumes "instruction_elements i = es @ [e]"
  shows "encode i =
    concat (map (\<lambda>e. encode_element e @ [CHR '','']) es) @ encode_element e @ [CHR '';'']"
proof (cases es)
  case Nil
  with assms show ?thesis by (simp add: instruction_elements_def encode_def)
next
  case (Cons x xs)
  with assms have "i_opcode i = x" "i_args i = xs @ [e]"
    by (auto simp: instruction_elements_def)
  then have "encode i = encode_element x
      @ (concat (map (\<lambda>a. CHR '','' # encode_element a) xs) @ [CHR '','']) @ encode_element e @ [CHR '';'']"
    by (simp add: encode_def)
  then show ?thesis unfolding concat_separator using Cons by simp
qed

lemma parse_encode_spec:
  assumes "list_all (\<lambda>e. length e < 2 ^ 64) (instruction_elements i)"
  shows "parse (encode i) =
    (let e = last (instruction_elements i) in
     if e \<noteq> [] \<and> last e = CHR '';'' then Inl Truncated else Inr i)"
proof -
  obtain es e where ie: "instruction_elements i = es @ [e]"
    by (cases "instruction_elements i" rule: rev_cases) (auto simp: instruction_elements_def)
  let ?P = "concat (map (\<lambda>e. encode_element e @ [CHR '','']) es)"
  let ?t = "trim_end_matches CHR '';'' e"
  have "trim_end_matches CHR '';'' (encode i)
      = ?P @ show_nat (length e) @ CHR ''.'' # ?t"
    using trim_end_matches_mid [of "CHR ''.''" "CHR '';''" "?P @ show_nat (length e)" "e @ [CHR '';'']"]
    by (simp add: encode_alt [OF ie] encode_element_def)
  then have eq: "parse (encode i) =
     (case parse_elements (show_nat (length e) @ CHR ''.'' # ?t) of
        Inl x \<Rightarrow> Inl x
      | Inr ts \<Rightarrow> (case es @ ts of [] \<Rightarrow> Inl ParseEmpty
                  | op # as \<Rightarrow> Inr \<lparr>i_opcode = op, i_args = as\<rparr>))"
    using assms ie by (simp add: parse_def Let_def parse_elements_prefix split: sum.splits)
  have elen: "length e < 2 ^ 64" using assms ie by simp
  show ?thesis
  proof (cases "e \<noteq> [] \<and> last e = CHR '';''")
    case True
    then have "length ?t < length e" by (simp add: trim_end_matches_length)
    with elen have "parse_elements (show_nat (length e) @ CHR ''.'' # ?t) = Inl Truncated"
      by (rule_tac parse_elements_cut)
    with True eq ie show ?thesis by simp
  next
    case False
    then have "?t = e" by (cases "e = []") (auto intro: trim_end_matches_idem)
    with elen have "parse_elements (show_nat (length e) @ CHR ''.'' # ?t) = Inr [e]"
      by (simp add: parse_elements_last)
    moreover have "(case es @ [e] of [] \<Rightarrow> Inl ParseEmpty
        | op # as \<Rightarrow> Inr \<lparr>i_opcode = op, i_args = as\<rparr>) = Inr i"
      using ie by (cases i) (simp add: instruction_elements_def flip: ie)
    ultimately show ?thesis using False eq ie by auto
  qed
qed

text \<open>
  C8: what \<open>parse\<close> returns on the text \<open>encode\<close> produces. The instruction comes back
  unless its last element ends in a semicolon; then \<open>trim_end_matches(';')\<close> has eaten
  element data and the result is \<open>Truncated\<close>. The hypothesis is the \<open>usize\<close> bound on
  string lengths.
\<close>

theorem parse_encode:
  assumes "list_all (\<lambda>e. length e < 2 ^ 64) (instruction_elements i)"
  shows "parse (encode i) =
    (let e = last (instruction_elements i) in
     if e \<noteq> [] \<and> last e = CHR '';'' then Inl Truncated else Inr i)"
  using assms by (rule parse_encode_spec)

definition size_instruction :: instruction where
  "size_instruction = \<lparr>i_opcode = ''size'', i_args = [''0'', ''1024'', ''768'']\<rparr>"

theorem parse_encode_witness: "parse (encode size_instruction) = Inr size_instruction"
  by (subst parse_encode) (simp_all add: size_instruction_def instruction_elements_def)

lemma skip_chars_numeral [wire_simps]:
  "skip_chars (numeral k) s =
     (case s of
        [] \<Rightarrow> None
      | b # _ \<Rightarrow>
          (case char_width b of
             None \<Rightarrow> None
           | Some w \<Rightarrow>
               if length s < w then None
               else
                 (case skip_chars (pred_numeral k) (drop w s) of
                    None \<Rightarrow> None
                  | Some (v, r) \<Rightarrow> Some (take w s @ v, r))))"
  by (simp add: numeral_eq_Suc)

lemmas [wire_simps] = last_instruction_boundary_def boundary_loop.simps scan_instruction.simps
  scan_element_def

section \<open>The framing grammar and \<open>last_instruction_boundary\<close>\<close>

text \<open>
  The wire grammar with character-counting length prefixes: an element, an instruction
  (elements separated by commas, ended by a semicolon) and a run of instructions.
\<close>

inductive element_text :: "str \<Rightarrow> str \<Rightarrow> bool" where
  element: "list_all is_ascii_digit ds \<Longrightarrow> parse_usize ds = Some n \<Longrightarrow>
    skip_chars n v = Some (v, []) \<Longrightarrow> element_text v (ds @ CHR ''.'' # v)"

inductive instr_text :: "str list \<Rightarrow> str \<Rightarrow> bool" where
  last_element: "element_text v w \<Longrightarrow> instr_text [v] (w @ [CHR '';''])"
| more: "element_text v w \<Longrightarrow> instr_text vs t \<Longrightarrow> instr_text (v # vs) (w @ CHR '','' # t)"

inductive stream_text :: "str list list \<Rightarrow> str \<Rightarrow> bool" where
  stop: "stream_text [] []"
| instr: "instr_text vs w \<Longrightarrow> stream_text iss t \<Longrightarrow> stream_text (vs # iss) (w @ t)"

inductive_cases instr_textE: "instr_text vs t"
inductive_cases stream_textE: "stream_text iss t"
inductive_simps stream_text_Nil [simp]: "stream_text [] t"
inductive_simps stream_text_Cons: "stream_text (vs # iss) t"

lemma skip_chars_append:
  "skip_chars n s = Some (v, r) \<Longrightarrow> skip_chars n (s @ t) = Some (v, r @ t)"
proof (induction n arbitrary: s v)
  case (Suc n)
  then obtain w v' where w: "s \<noteq> []" "char_width (hd s) = Some w" "w \<le> length s"
      "skip_chars n (drop w s) = Some (v', r)" "v = take w s @ v'"
    by (auto simp only: skip_chars_Suc)
  have "skip_chars n (drop w s @ t) = Some (v', r @ t)" using w(4) by (rule Suc.IH)
  with w have "\<exists>v'. s @ t \<noteq> [] \<and> char_width (hd (s @ t)) = Some w \<and> w \<le> length (s @ t) \<and>
      skip_chars n (drop w (s @ t)) = Some (v', r @ t) \<and> v = take w (s @ t) @ v'"
    by (intro exI [of _ v']) simp
  then show ?case unfolding skip_chars_Suc by blast
qed simp

lemma skip_chars_exact: "skip_chars n s = Some (v, r) \<Longrightarrow> skip_chars n v = Some (v, [])"
proof (induction n arbitrary: s v)
  case (Suc n)
  then obtain w v' where w: "s \<noteq> []" "char_width (hd s) = Some w" "w \<le> length s"
      "skip_chars n (drop w s) = Some (v', r)" "v = take w s @ v'"
    by (auto simp only: skip_chars_Suc)
  have IH: "skip_chars n v' = Some (v', [])" using w(4) by (rule Suc.IH)
  have "0 < w" using char_width_pos w(2) by blast
  then have "v \<noteq> []" "hd v = hd s" "w \<le> length v" "drop w v = v'" "take w v = take w s"
    using w by (auto simp: hd_append hd_take)
  with IH w show ?case unfolding skip_chars_Suc by (intro exI conjI) auto
qed simp

lemma scan_element_complete:
  assumes "element_text v w" and "t = CHR '','' \<or> t = CHR '';''"
  shows "scan_element (w @ t # r) = Some (v, r, t)"
  using assms(1)
proof cases
  case (element ds n)
  have "ds \<noteq> []" using element(3) by (cases ds) simp_all
  moreover have "skip_chars n (v @ t # r) = Some (v, t # r)"
    using skip_chars_append [OF element(4), of "t # r"] by simp
  moreover have "takeWhile is_ascii_digit (ds @ CHR ''.'' # v @ t # r) = ds"
      "dropWhile is_ascii_digit (ds @ CHR ''.'' # v @ t # r) = CHR ''.'' # v @ t # r"
    using element(2) by (simp_all add: takeWhile_append_stop dropWhile_append_stop)
  ultimately show ?thesis using element(1,3) assms(2)
    by (simp add: scan_element_def)
qed

lemma scan_element_sound:
  assumes "scan_element s = Some (v, r, t)"
  shows "\<exists>w. element_text v w \<and> s = w @ t # r \<and> (t = CHR '','' \<or> t = CHR '';'')"
proof -
  let ?ds = "takeWhile is_ascii_digit s"
  obtain s2 n where "dropWhile is_ascii_digit s = CHR ''.'' # s2" and
    n: "parse_usize ?ds = Some n" "skip_chars n s2 = Some (v, t # r)" "t = CHR '','' \<or> t = CHR '';''"
    using assms
    by (auto simp: scan_element_def Let_def split: list.splits option.splits if_splits)
  then have "s = ?ds @ CHR ''.'' # s2" by (metis takeWhile_dropWhile_id)
  moreover have "s2 = v @ t # r" "skip_chars n v = Some (v, [])"
    using skip_chars_split [OF n(2)] skip_chars_exact [OF n(2)] .
  moreover have "element_text v (?ds @ CHR ''.'' # v)"
    using n calculation by (intro element_text.element) auto
  ultimately show ?thesis using n(3)
    by (intro exI [of _ "?ds @ CHR ''.'' # v"]) simp
qed

lemma scan_instruction_complete: "instr_text vs w \<Longrightarrow> scan_instruction (w @ r) = Some r"
proof (induction vs w rule: instr_text.induct)
  case (last_element v w)
  then show ?case
    by (subst scan_instruction.simps) (simp add: scan_element_complete)
next
  case (more v w vs t)
  then show ?case
    by (subst scan_instruction.simps) (simp add: scan_element_complete)
qed

lemma scan_instruction_sound: "scan_instruction s = Some r \<Longrightarrow> \<exists>vs w. instr_text vs w \<and> s = w @ r"
proof (induction s rule: scan_instruction.induct)
  case (1 s)
  then obtain v r' t where x: "scan_element s = Some (v, r', t)"
    by (subst (asm) (2) scan_instruction.simps) (auto split: option.splits)
  obtain w where w: "element_text v w" "s = w @ t # r'" "t = CHR '','' \<or> t = CHR '';''"
    using scan_element_sound [OF x] by blast
  show ?case
  proof (cases "t = CHR '';''")
    case True
    with 1(2) x have "r' = r" by (simp add: scan_instruction.simps [of s])
    with True w have "instr_text [v] (w @ [CHR '';''])" "s = (w @ [CHR '';'']) @ r"
      by (auto intro: instr_text.last_element)
    then show ?thesis by blast
  next
    case False
    with 1(2) x have "scan_instruction r' = Some r" by (simp add: scan_instruction.simps [of s])
    with 1(1) x False obtain vs w' where "instr_text vs w'" "r' = w' @ r" by blast
    with False w have "instr_text (v # vs) (w @ CHR '','' # w')" "s = (w @ CHR '','' # w') @ r"
      by (auto intro: instr_text.more)
    then show ?thesis by blast
  qed
qed

lemma scan_instruction_iff:
  "scan_instruction s = Some r \<longleftrightarrow> (\<exists>vs w. instr_text vs w \<and> s = w @ r)"
  using scan_instruction_complete scan_instruction_sound by blast

text \<open>\<open>n\<close> is the end of a non-empty run of complete instructions at the start of \<open>buf\<close>.\<close>

definition is_boundary :: "str \<Rightarrow> nat \<Rightarrow> bool" where
  "is_boundary buf n \<longleftrightarrow> n \<le> length buf \<and> (\<exists>iss. iss \<noteq> [] \<and> stream_text iss (take n buf))"

lemma is_boundary_step:
  assumes "scan_instruction s = Some r"
  shows "is_boundary s n \<longleftrightarrow>
    n = length s - length r \<or>
    (length s - length r \<le> n \<and> is_boundary r (n - (length s - length r)))"
proof -
  obtain vs w where w: "instr_text vs w" "s = w @ r" using assms by (auto simp: scan_instruction_iff)
  show ?thesis
  proof
    assume "is_boundary s n"
    then obtain vs' iss w' t where n: "n \<le> length s" "instr_text vs' w'" "stream_text iss t"
        "take n s = w' @ t"
      by (auto simp: is_boundary_def neq_Nil_conv stream_text_Cons)
    have "s = w' @ t @ drop n s" using n(4) append_take_drop_id [of n s] by simp
    then have "scan_instruction s = Some (t @ drop n s)"
      using scan_instruction_complete [OF n(2)] by metis
    with assms have r: "r = t @ drop n s" by simp
    then have t: "t = take (n - (length s - length r)) r"
        and le: "length s - length r \<le> n" "n - (length s - length r) = length t"
      using n(1) arg_cong [OF n(4), of length] by auto
    show "n = length s - length r \<or> (length s - length r \<le> n \<and> is_boundary r (n - (length s - length r)))"
    proof (cases "iss = []")
      case True
      with n(3) have "t = []" by simp
      with le show ?thesis by simp
    next
      case False
      with t le n(3) r show ?thesis by (auto simp: is_boundary_def)
    qed
  next
    assume "n = length s - length r \<or>
      (length s - length r \<le> n \<and> is_boundary r (n - (length s - length r)))"
    then consider "n = length w" | iss where "length w \<le> n" "n - length w \<le> length r"
        "stream_text iss (take (n - length w) r)"
      using w by (auto simp: is_boundary_def)
    then show "is_boundary s n"
    proof cases
      case 1
      have "stream_text [vs] (w @ [])"
        using stream_text.instr [OF w(1) stream_text.stop] .
      with 1 w show ?thesis by (auto simp: is_boundary_def)
    next
      case 2
      then have "stream_text (vs # iss) (w @ take (n - length w) r)"
        using w by (auto intro: stream_text.intros)
      with 2 w show ?thesis by (auto simp: is_boundary_def)
    qed
  qed
qed

lemma is_boundary_None:
  "scan_instruction s = None \<Longrightarrow> \<not> is_boundary s n"
proof
  assume none: "scan_instruction s = None" and "is_boundary s n"
  then obtain vs' iss w' t where "instr_text vs' w'" "take n s = w' @ t"
    by (auto simp: is_boundary_def neq_Nil_conv stream_text_Cons)
  then have "s = w' @ t @ drop n s" by (metis append.assoc append_take_drop_id)
  with scan_instruction_complete \<open>instr_text vs' w'\<close> none show False by (metis option.distinct(1))
qed

lemma boundary_loop_cases:
  assumes "length s \<le> buflen"
  shows "boundary_loop buflen s last_end = Some n \<and> (scan_instruction s \<noteq> None) \<longleftrightarrow>
    (\<exists>k. n = buflen - length s + k \<and> is_boundary s k \<and> (\<forall>m. is_boundary s m \<longrightarrow> m \<le> k))"
  using assms
proof (induction buflen s last_end arbitrary: n rule: boundary_loop.induct)
  case (1 buflen s last_end)
  show ?case
  proof (cases "scan_instruction s")
    case None
    then show ?thesis by (simp add: is_boundary_None)
  next
    case (Some r)
    let ?d = "length s - length r"
    have lr: "length r < length s" using Some by (rule scan_instruction_length)
    have step: "is_boundary s k \<longleftrightarrow> k = ?d \<or> (?d \<le> k \<and> is_boundary r (k - ?d))" for k
      using is_boundary_step [OF Some] .
    show ?thesis
    proof (cases "scan_instruction r")
      case None
      then have "boundary_loop buflen s last_end = Some (buflen - length r)"
        using Some
        by (simp add: boundary_loop.simps [of buflen s] boundary_loop.simps [of buflen r] Let_def)
      moreover have "is_boundary s k \<longleftrightarrow> k = ?d" for k
        using step None by (auto simp: is_boundary_None)
      ultimately show ?thesis using Some lr 1(2) by auto
    next
      case r: (Some r')
      then have "r \<noteq> []" using scan_instruction_length by fastforce
      then have "boundary_loop buflen s last_end = boundary_loop buflen r (Some (buflen - length r))"
        using Some by (simp add: boundary_loop.simps [of buflen s] Let_def)
      moreover have "boundary_loop buflen r (Some (buflen - length r)) = Some n \<longleftrightarrow>
        (\<exists>k. n = buflen - length r + k \<and> is_boundary r k \<and> (\<forall>m. is_boundary r m \<longrightarrow> m \<le> k))"
        using 1(1) [OF Some refl] \<open>r \<noteq> []\<close> lr 1(2) r by simp
      moreover have "(\<exists>k. n = buflen - length s + k \<and> is_boundary s k \<and> (\<forall>m. is_boundary s m \<longrightarrow> m \<le> k))
        \<longleftrightarrow> (\<exists>k. n = buflen - length r + k \<and> is_boundary r k \<and> (\<forall>m. is_boundary r m \<longrightarrow> m \<le> k))"
        (is "?L \<longleftrightarrow> ?R")
      proof
        assume ?L
        then obtain k where k: "n = buflen - length s + k" "is_boundary s k"
            "\<And>m. is_boundary s m \<Longrightarrow> m \<le> k" by blast
        have "is_boundary r (length r - length r')" using is_boundary_step [OF r] by blast
        then have "is_boundary s (?d + (length r - length r'))" by (simp add: step)
        then have "?d < k" using k(3) scan_instruction_length [OF r] by fastforce
        then have "is_boundary r (k - ?d)" using k(2) by (auto simp: step)
        moreover have "m \<le> k - ?d" if "is_boundary r m" for m
          using k(3) [of "m + ?d"] that by (simp add: step)
        ultimately show ?R using k(1) \<open>?d < k\<close> lr 1(2) by (intro exI [of _ "k - ?d"]) auto
      next
        assume ?R
        then obtain k where k: "n = buflen - length r + k" "is_boundary r k"
            "\<And>m. is_boundary r m \<Longrightarrow> m \<le> k" by blast
        have "m \<le> k + ?d" if "is_boundary s m" for m
          using that k(3) [of "m - ?d"] by (auto simp: step)
        then show ?L using k(1,2) lr 1(2) by (intro exI [of _ "k + ?d"]) (auto simp: step)
      qed
      ultimately show ?thesis using Some by simp
    qed
  qed
qed

lemma last_instruction_boundary_spec:
  "last_instruction_boundary buf = Some n \<longleftrightarrow>
     is_boundary buf n \<and> (\<forall>m. is_boundary buf m \<longrightarrow> m \<le> n)"
proof -
  have "last_instruction_boundary buf = Some n \<longleftrightarrow>
     last_instruction_boundary buf = Some n \<and> scan_instruction buf \<noteq> None"
    by (cases "scan_instruction buf")
      (simp_all add: last_instruction_boundary_def boundary_loop.simps [of _ buf])
  then show ?thesis
    using boundary_loop_cases [of buf "length buf" None n]
    by (simp add: last_instruction_boundary_def)
qed

text \<open>
  C4: \<open>last_instruction_boundary\<close> is exact. It returns \<open>n\<close> if and only if the first
  \<open>n\<close> bytes are a non-empty run of complete instructions of the wire grammar and no longer
  prefix is; so data after the cut is never part of a complete instruction, and a
  semicolon inside element data never produces a false boundary.
\<close>

theorem last_instruction_boundary_exact:
  "last_instruction_boundary buf = Some n \<longleftrightarrow>
     is_boundary buf n \<and> (\<forall>m. is_boundary buf m \<longrightarrow> m \<le> n)"
  by (rule last_instruction_boundary_spec)

theorem last_instruction_boundary_exact_witness:
  "is_boundary ''4.sync,1.1;4.si'' 11 \<and> \<not> is_boundary ''4.sync,1.1;4.si'' 15"
proof -
  have "last_instruction_boundary ''4.sync,1.1;4.si'' = Some 11"
    by (simp add: wire_simps)
  then show ?thesis
    using last_instruction_boundary_exact [of "''4.sync,1.1;4.si''" 11] by fastforce
qed

lemma is_boundary_append: "is_boundary buf n \<Longrightarrow> is_boundary (buf @ ext) n"
  by (auto simp: is_boundary_def)

lemma skip_chars_ascii: "list_all is_ascii v \<Longrightarrow> skip_chars (length v) v = Some (v, [])"
  by (induction v) auto

lemma element_text_ascii:
  "list_all is_ascii e \<Longrightarrow> length e < 2 ^ 64 \<Longrightarrow> element_text e (encode_element e)"
  unfolding encode_element_def
  by (rule element_text.element [where n = "length e"]) (simp_all add: skip_chars_ascii)

lemma instr_text_ascii_elements:
  assumes "list_all (\<lambda>e. list_all is_ascii e \<and> length e < 2 ^ 64) (es @ [e])"
  shows "instr_text (es @ [e])
    (concat (map (\<lambda>e. encode_element e @ [CHR '','']) es) @ encode_element e @ [CHR '';''])"
  using assms
proof (induction es)
  case Nil
  then show ?case using instr_text.last_element [OF element_text_ascii] by simp
next
  case (Cons x es)
  then show ?case using instr_text.more [OF element_text_ascii] by simp
qed

text \<open>
  framing of encoded instructions. For ASCII elements the byte-counting encoder agrees
  with the character-counting scanner: the text of any sequence of encoded instructions,
  followed by a partial instruction, is cut exactly where the last complete one ends.
\<close>

theorem encode_framed:
  assumes "list_all (\<lambda>i. list_all (\<lambda>e. list_all is_ascii e \<and> length e < 2 ^ 64)
      (instruction_elements i)) insts"
    and "insts \<noteq> []" and "scan_instruction tail = None"
  shows "last_instruction_boundary (concat (map encode insts) @ tail)
    = Some (length (concat (map encode insts)))"
proof -
  have instr: "\<exists>vs. instr_text vs (encode i)" if "i \<in> set insts" for i
  proof -
    obtain es e where ie: "instruction_elements i = es @ [e]"
      by (cases "instruction_elements i" rule: rev_cases) (auto simp: instruction_elements_def)
    moreover have "list_all (\<lambda>e. list_all is_ascii e \<and> length e < 2 ^ 64) (es @ [e])"
      using assms(1) that by (auto simp: list_all_iff simp flip: ie)
    ultimately have "instr_text (es @ [e]) (encode i)"
      unfolding encode_alt [OF ie] by (rule_tac instr_text_ascii_elements)
    then show ?thesis by blast
  qed
  have loop: "boundary_loop n (concat (map encode xs) @ tail) l =
      (if xs = [] then l else Some (n - length tail))" if "set xs \<subseteq> set insts" for n xs l
    using that
  proof (induction xs arbitrary: l)
    case Nil
    then show ?case using assms(3) by (simp add: boundary_loop.simps)
  next
    case (Cons i xs)
    then have "i \<in> set insts" by simp
    then obtain vs where "instr_text vs (encode i)" using instr by blast
    then have "scan_instruction (encode i @ concat (map encode xs) @ tail)
        = Some (concat (map encode xs) @ tail)"
      by (rule scan_instruction_complete)
    with Cons show ?case by (auto simp: boundary_loop.simps [of n "encode i @ _"] Let_def)
  qed
  from loop [of insts] assms(2) show ?thesis
    by (simp add: last_instruction_boundary_def)
qed

theorem encode_framed_witness:
  "last_instruction_boundary (concat (map encode [size_instruction]) @ ''4.sy'')
     = Some (length (concat (map encode [size_instruction])))"
  by (rule encode_framed)
    (simp_all add: size_instruction_def instruction_elements_def wire_simps)

text \<open>
  Outside ASCII the two length conventions disagree. The encoding of a clipboard
  instruction holding one two-byte character parses back, yet the framing scanner finds no
  complete instruction in it: \<open>encode\<close> counts bytes, \<open>last_instruction_boundary\<close>
  characters.
\<close>

theorem encode_not_framed_beyond_ascii:
  "let i = \<lparr>i_opcode = ''name'', i_args = [[CHR 0xC3, CHR 0xA9]]\<rparr> in
   parse (encode i) = Inr i \<and> last_instruction_boundary (encode i) = None"
proof -
  have "encode \<lparr>i_opcode = ''name'', i_args = [[CHR 0xC3, CHR 0xA9]]\<rparr>
      = ''4.name,2.'' @ [CHR 0xC3, CHR 0xA9, CHR '';'']"
    by (simp add: encode_def encode_element_def show_nat.simps digit_char_def)
  then show ?thesis
    by (simp add: wire_simps parse_def parse_elements.simps trim_end_matches_def)
qed

end
