(* ===== verification/Chunk.thy ===== *)
theory Chunk
  imports Protocol
begin

text \<open>
  A chunk of the guacd stream as the list of its instructions. \<open>read_elements\<close> and
  \<open>parse_chunk\<close> are the specification the components that walk a chunk are refined to;
  the locales \<open>chunk_walker\<close> and \<open>total_chunk_walker\<close> state what such a component's
  loop promises, and derive once what its callers rely on: the loop is a fold over the
  instructions, and cutting the stream into chunks does not change the component's state.
\<close>

section \<open>Instructions of a chunk\<close>

function read_elements :: "str \<Rightarrow> (str list \<times> str) option" where
  "read_elements s =
     (case scan_element s of
        None \<Rightarrow> None
      | Some (v, r, t) \<Rightarrow>
          if t = CHR '';'' then Some ([v], r)
          else map_option (\<lambda>(vs, r'). (v # vs, r')) (read_elements r))"
  by pat_completeness auto
termination
  by (relation "measure length") (auto dest: scan_element_length)

declare read_elements.simps [simp del]
lemmas [wire_simps] = read_elements.simps

lemma read_elements_complete: "instr_text vs w \<Longrightarrow> read_elements (w @ r) = Some (vs, r)"
proof (induction vs w rule: instr_text.induct)
  case (last_element v w)
  then show ?case by (subst read_elements.simps) (simp add: scan_element_complete)
next
  case (more v w vs t)
  then show ?case by (subst read_elements.simps) (simp add: scan_element_complete)
qed

lemma read_elements_sound:
  "read_elements s = Some (vs, r) \<Longrightarrow> \<exists>w. instr_text vs w \<and> s = w @ r"
proof (induction s arbitrary: vs rule: read_elements.induct)
  case (1 s)
  from 1(2) obtain v r' t where x: "scan_element s = Some (v, r', t)"
    by (subst (asm) read_elements.simps) (auto split: option.splits)
  obtain w where w: "element_text v w" "s = w @ t # r'" "t = CHR '','' \<or> t = CHR '';''"
    using scan_element_sound [OF x] by blast
  show ?case
  proof (cases "t = CHR '';''")
    case True
    with 1(2) x have "r' = r" "vs = [v]" by (simp_all add: read_elements.simps [of s])
    with True w show ?thesis
      by (intro exI [of _ "w @ [CHR '';'']"]) (auto intro: instr_text.last_element)
  next
    case False
    with 1(2) x obtain vs' where "read_elements r' = Some (vs', r)" "vs = v # vs'"
      by (auto simp: read_elements.simps [of s])
    moreover with 1(1) x False obtain w' where "instr_text vs' w'" "r' = w' @ r" by blast
    ultimately show ?thesis using w False
      by (intro exI [of _ "w @ CHR '','' # w'"]) (auto intro: instr_text.more)
  qed
qed

lemma instr_text_nonempty: "instr_text vs w \<Longrightarrow> w \<noteq> [] \<and> vs \<noteq> []"
  by (induction vs w rule: instr_text.induct) auto

lemma read_elements_length: "read_elements s = Some (vs, r) \<Longrightarrow> length r < length s"
  using read_elements_sound instr_text_nonempty by fastforce

lemma read_elements_scan:
  "scan_instruction s = map_option snd (read_elements s)"
proof (cases "read_elements s")
  case None
  have False if "scan_instruction s = Some r" for r
    using scan_instruction_sound [OF that] read_elements_complete None by fastforce
  then show ?thesis using None by (cases "scan_instruction s") simp_all
next
  case (Some x)
  then obtain w where "instr_text (fst x) w" "s = w @ snd x"
    using read_elements_sound [of s "fst x" "snd x"] by auto
  with Some show ?thesis by (simp add: scan_instruction_complete)
qed

lemma read_elements_Nil [simp]: "read_elements [] = None"
  by (simp add: wire_simps)

type_synonym chunk_instr = "str \<times> str list"

text \<open>The instructions of a chunk, each with its text, and what is left after the last.\<close>

function parse_chunk :: "str \<Rightarrow> chunk_instr list \<times> str" where
  "parse_chunk s =
     (case read_elements s of
        None \<Rightarrow> ([], s)
      | Some (vs, r) \<Rightarrow>
          (let (xs, t) = parse_chunk r in ((take (length s - length r) s, vs) # xs, t)))"
  by pat_completeness auto
termination
  by (relation "measure length") (auto dest: read_elements_length)

declare parse_chunk.simps [simp del]
lemmas [wire_simps] = parse_chunk.simps

definition complete_chunk :: "str \<Rightarrow> bool" where
  "complete_chunk s \<longleftrightarrow> snd (parse_chunk s) = []"

lemma parse_chunk_None: "read_elements s = None \<Longrightarrow> parse_chunk s = ([], s)"
  by (simp add: parse_chunk.simps)

lemma parse_chunk_Some:
  "read_elements s = Some (vs, r) \<Longrightarrow>
   parse_chunk s = ((take (length s - length r) s, vs) # fst (parse_chunk r), snd (parse_chunk r))"
  by (subst parse_chunk.simps) (simp add: split_beta Let_def)

lemma parse_chunk_induct [case_names stop instr]:
  assumes "\<And>s. read_elements s = None \<Longrightarrow> P s"
    and "\<And>s vs w r. read_elements s = Some (vs, r) \<Longrightarrow> instr_text vs w \<Longrightarrow> s = w @ r \<Longrightarrow> P r \<Longrightarrow> P s"
  shows "P s"
proof (induction s rule: length_induct)
  case (1 s)
  show ?case
  proof (cases "read_elements s")
    case None
    then show ?thesis by (rule assms(1))
  next
    case (Some x)
    then obtain vs r where x: "read_elements s = Some (vs, r)" by (cases x) auto
    with read_elements_sound [OF x] read_elements_length [OF x] 1 show ?thesis
      by (blast intro: assms(2))
  qed
qed

lemma parse_chunk_concat: "concat (map fst (fst (parse_chunk s))) @ snd (parse_chunk s) = s"
  by (induction s rule: parse_chunk_induct)
    (simp_all add: parse_chunk_None parse_chunk_Some)

lemma parse_chunk_instrs: "(w, vs) \<in> set (fst (parse_chunk s)) \<Longrightarrow> instr_text vs w"
proof (induction s rule: parse_chunk_induct)
  case (instr s vs' w' r)
  then show ?case by (auto simp: parse_chunk_Some)
qed (simp add: parse_chunk_None)

lemma parse_chunk_stream:
  "list_all (\<lambda>(w, vs). instr_text vs w) xs \<Longrightarrow>
   parse_chunk (concat (map fst xs) @ t) = (xs @ fst (parse_chunk t), snd (parse_chunk t))"
proof (induction xs)
  case (Cons x xs)
  obtain w vs where x: "x = (w, vs)" by (cases x)
  with Cons.prems have "instr_text vs w" by simp
  then have "read_elements (w @ concat (map fst xs) @ t) = Some (vs, concat (map fst xs) @ t)"
    by (rule read_elements_complete)
  from parse_chunk_Some [OF this] Cons x show ?case by simp
qed simp

lemma parse_chunk_append:
  assumes "complete_chunk a"
  shows "parse_chunk (a @ b) = (fst (parse_chunk a) @ fst (parse_chunk b), snd (parse_chunk b))"
proof -
  have "a = concat (map fst (fst (parse_chunk a)))"
    using parse_chunk_concat [of a] assms by (simp add: complete_chunk_def)
  moreover have "list_all (\<lambda>(w, vs). instr_text vs w) (fst (parse_chunk a))"
    by (auto simp: list_all_iff dest: parse_chunk_instrs)
  ultimately show ?thesis using parse_chunk_stream by metis
qed

lemma complete_chunk_append:
  "complete_chunk a \<Longrightarrow> complete_chunk (a @ b) \<longleftrightarrow> complete_chunk b"
  by (simp add: complete_chunk_def parse_chunk_append)

lemma complete_chunk_stream: "stream_text iss s \<Longrightarrow> complete_chunk s"
proof (induction iss s rule: stream_text.induct)
  case (instr vs w iss t)
  then show ?case
    by (simp add: complete_chunk_def parse_chunk_Some read_elements_complete)
qed (simp add: complete_chunk_def parse_chunk_None)

section \<open>Walking a chunk\<close>

text \<open>
  The shape of every rewriting loop: a state, an output accumulator, the text kept since
  the last rewrite, and a step that either keeps an instruction or emits a replacement.
\<close>

fun run_walk ::
  "('s \<Rightarrow> str list \<Rightarrow> 's \<times> 'o option) \<Rightarrow> ('a \<Rightarrow> str \<Rightarrow> 'o \<Rightarrow> 'a) \<Rightarrow> ('a \<Rightarrow> str \<Rightarrow> 'r) \<Rightarrow>
   's \<Rightarrow> 'a \<Rightarrow> str \<Rightarrow> chunk_instr list \<Rightarrow> str \<Rightarrow> 's \<times> 'r" where
  "run_walk step add fin st acc pend [] t = (st, fin acc (pend @ t))"
| "run_walk step add fin st acc pend ((w, vs) # xs) t =
     (case step st vs of
        (st', None) \<Rightarrow> run_walk step add fin st' acc (pend @ w) xs t
      | (st', Some x) \<Rightarrow> run_walk step add fin st' (add acc pend x) [] xs t)"

definition walk_state :: "('s \<Rightarrow> str list \<Rightarrow> 's \<times> 'o option) \<Rightarrow> 's \<Rightarrow> chunk_instr list \<Rightarrow> 's" where
  "walk_state step st xs = foldl (\<lambda>st (w, vs). fst (step st vs)) st xs"

lemma walk_state_simps [simp]:
  "walk_state step st [] = st"
  "walk_state step st ((w, vs) # xs) = walk_state step (fst (step st vs)) xs"
  "walk_state step st (xs @ ys) = walk_state step (walk_state step st xs) ys"
  by (simp_all add: walk_state_def)

lemma run_walk_state: "fst (run_walk step add fin st acc pend xs t) = walk_state step st xs"
  by (induction step add fin st acc pend xs t rule: run_walk.induct)
    (auto split: prod.splits option.splits)

lemma walk_state_inv:
  assumes "\<And>st vs. I st \<Longrightarrow> I (fst (step st vs))" and "I st"
  shows "I (walk_state step st xs)"
  using assms(2) by (induction xs arbitrary: st) (auto simp: assms(1))

text \<open>No step emits anything: the chunk is passed through whole.\<close>

fun quiet :: "('s \<Rightarrow> str list \<Rightarrow> 's \<times> 'o option) \<Rightarrow> 's \<Rightarrow> chunk_instr list \<Rightarrow> bool" where
  "quiet step st [] \<longleftrightarrow> True"
| "quiet step st ((w, vs) # xs) \<longleftrightarrow> snd (step st vs) = None \<and> quiet step (fst (step st vs)) xs"

lemma quiet_inv:
  assumes "\<And>st vs. I st \<Longrightarrow> I (fst (step st vs)) \<and> snd (step st vs) = None" and "I st"
  shows "quiet step st xs"
  using assms(2) by (induction xs arbitrary: st) (auto simp: assms(1))

lemma run_walk_quiet:
  "quiet step st xs \<Longrightarrow>
   snd (run_walk step add fin st acc pend xs t) = fin acc (pend @ concat (map fst xs) @ t)"
  by (induction step add fin st acc pend xs t rule: run_walk.induct)
    (auto split: prod.splits option.splits)

locale chunk_walker =
  fixes step :: "'s \<Rightarrow> str list \<Rightarrow> 's \<times> 'o option"
    and add :: "'a \<Rightarrow> str \<Rightarrow> 'o \<Rightarrow> 'a"
    and fin :: "'a \<Rightarrow> str \<Rightarrow> 'r"
    and loop :: "'s \<Rightarrow> 'a \<Rightarrow> str \<Rightarrow> str \<Rightarrow> 's \<times> 'r"
  assumes loop_end: "loop st acc pend [] = (st, fin acc pend)"
    and loop_instr: "read_elements s = Some (vs, r) \<Longrightarrow>
      loop st acc pend s =
        (case step st vs of
           (st', None) \<Rightarrow> loop st' acc (pend @ take (length s - length r) s) r
         | (st', Some x) \<Rightarrow> loop st' (add acc pend x) [] r)"
begin

lemma loop_complete:
  "complete_chunk s \<Longrightarrow> loop st acc pend s = run_walk step add fin st acc pend (fst (parse_chunk s)) []"
proof (induction s arbitrary: st acc pend rule: parse_chunk_induct)
  case (stop s)
  then have "s = []" by (simp add: complete_chunk_def parse_chunk_None)
  then show ?case by (simp add: loop_end parse_chunk_None)
next
  case (instr s vs w r)
  then have "complete_chunk r" by (simp add: complete_chunk_def parse_chunk_Some)
  with instr show ?case
    by (simp add: loop_instr parse_chunk_Some split: prod.split option.split)
qed

lemma loop_state_complete:
  "complete_chunk s \<Longrightarrow> fst (loop st acc pend s) = walk_state step st (fst (parse_chunk s))"
  by (simp add: loop_complete run_walk_state)

lemma loop_state_append:
  assumes "complete_chunk s" and "complete_chunk t"
  shows "fst (loop st acc pend (s @ t)) = fst (loop (fst (loop st acc pend s)) acc' pend' t)"
  using assms by (simp add: loop_state_complete complete_chunk_append parse_chunk_append)

lemma loop_quiet:
  assumes "complete_chunk s" and "quiet step st (fst (parse_chunk s))"
  shows "snd (loop st acc pend s) = fin acc (pend @ s)"
  using assms parse_chunk_concat [of s]
  by (simp add: loop_complete run_walk_quiet complete_chunk_def)

end

text \<open>
  What a walker sends, as a list of tokens: the characters it keeps and what its
  replacements expand to.
\<close>

fun walk_tokens ::
  "(char \<Rightarrow> 't) \<Rightarrow> ('o \<Rightarrow> 't list) \<Rightarrow> ('s \<Rightarrow> str list \<Rightarrow> 's \<times> 'o option) \<Rightarrow>
   's \<Rightarrow> chunk_instr list \<Rightarrow> 't list" where
  "walk_tokens ch ex step st [] = []"
| "walk_tokens ch ex step st ((w, vs) # xs) =
     (case step st vs of
        (st', None) \<Rightarrow> map ch w @ walk_tokens ch ex step st' xs
      | (st', Some x) \<Rightarrow> ex x @ walk_tokens ch ex step st' xs)"

lemma walk_tokens_append:
  "walk_tokens ch ex step st (xs @ ys) =
     walk_tokens ch ex step st xs @ walk_tokens ch ex step (walk_state step st xs) ys"
proof (induction xs arbitrary: st)
  case (Cons x xs)
  then show ?case by (cases x) (auto split: prod.splits option.splits)
qed simp

locale token_walker = chunk_walker step add fin loop
  for step :: "'s \<Rightarrow> str list \<Rightarrow> 's \<times> 'o option"
    and add :: "'a \<Rightarrow> str \<Rightarrow> 'o \<Rightarrow> 'a"
    and fin :: "'a \<Rightarrow> str \<Rightarrow> 'r"
    and loop :: "'s \<Rightarrow> 'a \<Rightarrow> str \<Rightarrow> str \<Rightarrow> 's \<times> 'r" +
  fixes ch :: "char \<Rightarrow> 't"
    and ex :: "'o \<Rightarrow> 't list"
    and sent :: "str \<Rightarrow> 'r \<Rightarrow> 't list"
    and held :: "'a \<Rightarrow> 't list"
    and start :: 'a
  assumes sent_fin: "acc \<noteq> start \<or> p = s \<Longrightarrow> sent s (fin acc p) = held acc @ map ch p"
    and held_start: "held start = []"
    and held_add: "held (add acc p x) = held acc @ map ch p @ ex x"
    and add_started: "add acc p x \<noteq> start"
begin

lemma sent_run:
  "acc \<noteq> start \<or> pend @ concat (map fst xs) @ t = s \<Longrightarrow>
   sent s (snd (run_walk step add fin st acc pend xs t)) =
     held acc @ map ch pend @ walk_tokens ch ex step st xs @ map ch t"
proof (induction xs arbitrary: st acc pend)
  case Nil
  then show ?case by (simp add: sent_fin)
next
  case (Cons x xs)
  obtain w vs where x: "x = (w, vs)" by (cases x)
  obtain st' q where step: "step st vs = (st', q)" by (cases "step st vs")
  show ?case
  proof (cases q)
    case None
    with Cons.IH [of acc "pend @ w" st'] Cons.prems x step show ?thesis by simp
  next
    case (Some y)
    with Cons.IH [of "add acc pend y" "[]" st'] x step show ?thesis
      by (simp add: add_started held_add)
  qed
qed

lemma sent_complete:
  assumes "complete_chunk s"
  shows "sent s (snd (loop st start [] s)) = walk_tokens ch ex step st (fst (parse_chunk s))"
  using assms sent_run [of start "[]" "fst (parse_chunk s)" "[]" s st] parse_chunk_concat [of s]
  by (simp add: loop_complete held_start complete_chunk_def)

lemma sent_append:
  assumes "complete_chunk s" and "complete_chunk t"
  shows "sent (s @ t) (snd (loop st start [] (s @ t))) =
    sent s (snd (loop st start [] s)) @ sent t (snd (loop (fst (loop st start [] s)) start [] t))"
  using assms
  by (simp add: sent_complete complete_chunk_append parse_chunk_append loop_state_complete
      walk_tokens_append)

end

locale total_chunk_walker = chunk_walker +
  assumes loop_stop: "read_elements s = None \<Longrightarrow> loop st acc pend s = (st, fin acc (pend @ s))"
begin

lemma loop_run:
  "loop st acc pend s =
     run_walk step add fin st acc pend (fst (parse_chunk s)) (snd (parse_chunk s))"
proof (induction s arbitrary: st acc pend rule: parse_chunk_induct)
  case (stop s)
  then show ?case by (simp add: loop_stop parse_chunk_None)
next
  case (instr s vs w r)
  then show ?case
    by (simp add: loop_instr parse_chunk_Some split: prod.split option.split)
qed

lemma loop_state: "fst (loop st acc pend s) = walk_state step st (fst (parse_chunk s))"
  by (simp add: loop_run run_walk_state)

lemma loop_pass:
  "quiet step st (fst (parse_chunk s)) \<Longrightarrow> snd (loop st acc pend s) = fin acc (pend @ s)"
  using parse_chunk_concat [of s] by (simp add: loop_run run_walk_quiet)

end

section \<open>Walkers that rewrite the text\<close>

text \<open>What goes on: the rewritten chunk, or the chunk itself when nothing was replaced.\<close>

definition forwarded :: "str \<Rightarrow> str option \<Rightarrow> str" where
  "forwarded text r = (case r of None \<Rightarrow> text | Some o' \<Rightarrow> o')"

definition held_text :: "str option \<Rightarrow> str" where
  "held_text out = (case out of None \<Rightarrow> [] | Some o' \<Rightarrow> o')"

definition add_replacement :: "str option \<Rightarrow> str \<Rightarrow> str \<Rightarrow> str option" where
  "add_replacement out pend new = Some (held_text out @ pend @ new)"

definition finish_text :: "str option \<Rightarrow> str \<Rightarrow> str option" where
  "finish_text out pend = map_option (\<lambda>o'. o' @ pend) out"

locale text_walker = chunk_walker step add_replacement finish_text loop
  for step :: "'s \<Rightarrow> str list \<Rightarrow> 's \<times> str option"
    and loop :: "'s \<Rightarrow> str option \<Rightarrow> str \<Rightarrow> str \<Rightarrow> 's \<times> str option"

sublocale text_walker \<subseteq> token_walker step add_replacement finish_text loop
  id "\<lambda>x. x" forwarded held_text None
  by unfold_locales
    (auto simp: add_replacement_def finish_text_def forwarded_def held_text_def split: option.splits)

text \<open>The instructions such a walker sends, where every replacement is complete.\<close>

fun walk_instrs :: "('s \<Rightarrow> str list \<Rightarrow> 's \<times> str option) \<Rightarrow> 's \<Rightarrow> chunk_instr list \<Rightarrow> chunk_instr list" where
  "walk_instrs step st [] = []"
| "walk_instrs step st ((w, vs) # xs) =
     (case step st vs of
        (st', None) \<Rightarrow> (w, vs) # walk_instrs step st' xs
      | (st', Some new) \<Rightarrow> fst (parse_chunk new) @ walk_instrs step st' xs)"

lemma complete_chunk_instr: "instr_text vs w \<Longrightarrow> complete_chunk (w @ s) \<longleftrightarrow> complete_chunk s"
  by (simp add: complete_chunk_def parse_chunk_Some read_elements_complete)

lemma parse_chunk_instr:
  "instr_text vs w \<Longrightarrow> parse_chunk (w @ s) = ((w, vs) # fst (parse_chunk s), snd (parse_chunk s))"
  by (simp add: parse_chunk_Some read_elements_complete)

lemma walk_tokens_framed:
  assumes "\<And>st vs st' new. good vs \<Longrightarrow> step st vs = (st', Some new) \<Longrightarrow> complete_chunk new"
    and "list_all (\<lambda>(w, vs). instr_text vs w \<and> good vs) xs"
  shows "parse_chunk (walk_tokens id (\<lambda>x. x) step st xs) = (walk_instrs step st xs, [])"
  using assms(2)
proof (induction xs arbitrary: st)
  case Nil
  then show ?case by (simp add: parse_chunk_None)
next
  case (Cons x xs)
  obtain w vs where x: "x = (w, vs)" by (cases x)
  obtain st' q where step: "step st vs = (st', q)" by (cases "step st vs")
  show ?case
  proof (cases q)
    case None
    moreover have "instr_text vs w" using Cons.prems x by simp
    ultimately show ?thesis using Cons x step by (simp add: parse_chunk_instr [of vs])
  next
    case (Some new)
    with assms(1) [of vs st st' new] Cons x step show ?thesis by (simp add: parse_chunk_append)
  qed
qed

end
