(* ===== verification/Binary_Blob.thy ===== *)
theory Binary_Blob
  imports Chunk
begin

text \<open>
  \<^verbatim>\<open>src/src/binary_blob.rs\<close>: the element parser \<open>element\<close>, the binary frame layout and
  \<open>BlobSplitter::split\<close>, which lifts the blobs of \<open>h264\<close> and \<open>audio\<close> streams out of
  the text into binary frames. The base64 engine is third-party code: its \<open>decode\<close> is
  the parameter \<open>dec\<close>.
\<close>

section \<open>Frames\<close>

definition FRAME_VERSION :: byte where "FRAME_VERSION = 1"
definition FRAME_TYPE_BLOB :: byte where "FRAME_TYPE_BLOB = 0"
definition HEADER_LEN :: nat where "HEADER_LEN = 8"

datatype out_frame = Text str | Binary "byte list"

text \<open>\<open>u32::to_le_bytes\<close>.\<close>

definition to_le_bytes :: "nat \<Rightarrow> byte list" where
  "to_le_bytes n = [of_nat n, of_nat (n div 2 ^ 8), of_nat (n div 2 ^ 16), of_nat (n div 2 ^ 24)]"

definition frame :: "nat \<Rightarrow> byte list \<Rightarrow> byte list" where
  "frame index payload = [FRAME_VERSION, FRAME_TYPE_BLOB, 0, 0] @ to_le_bytes index @ payload"

section \<open>The element parser\<close>

text \<open>\<open>element\<close> on the text from offset \<open>at\<close> on: value, what follows the terminator, terminator.\<close>

definition element_of :: "str \<Rightarrow> (str \<times> str \<times> char) option" where
  "element_of s =
     (let digits = takeWhile is_ascii_digit s; s1 = dropWhile is_ascii_digit s in
      if digits = [] then None
      else
        (case s1 of
           [] \<Rightarrow> None
         | c # s2 \<Rightarrow>
             if c \<noteq> CHR ''.'' then None
             else
               (case parse_usize digits of
                  None \<Rightarrow> None
                | Some len \<Rightarrow>
                    (case skip_chars len s2 of
                       None \<Rightarrow> None
                     | Some (v, s3) \<Rightarrow>
                         (case s3 of
                            [] \<Rightarrow> None
                          | t # s4 \<Rightarrow>
                              if t \<noteq> CHR '','' \<and> t \<noteq> CHR '';'' then None else Some (v, s4, t))))))"

definition element :: "str \<Rightarrow> nat \<Rightarrow> (str \<times> nat \<times> char) option" where
  "element text at =
     (case element_of (drop at text) of
        None \<Rightarrow> None
      | Some (v, r, t) \<Rightarrow> Some (v, length text - length r, t))"

lemma element_of_scan: "element_of s = scan_element s"
proof -
  have "(if t \<noteq> a \<and> t \<noteq> b then None else Some x) = (if t = a \<or> t = b then Some x else None)"
    for t a b :: char and x :: "str \<times> str \<times> char"
    by simp
  then show ?thesis unfolding element_of_def scan_element_def by (simp only:)
qed

section \<open>Reading one instruction\<close>

text \<open>
  The argument loop (at most \<open>limit\<close> values are kept) and the loop that walks off the end
  of the instruction; each stops with the terminator it has when an element is malformed.
\<close>

function collect_args :: "nat \<Rightarrow> str \<Rightarrow> char \<Rightarrow> str list \<Rightarrow> str list \<times> str \<times> char" where
  "collect_args limit next term args =
     (if term = CHR '','' \<and> length args < limit then
        (case element_of next of
           Some (v, after, t) \<Rightarrow> collect_args limit after t (args @ [v])
         | None \<Rightarrow> (args, next, term))
      else (args, next, term))"
  by pat_completeness auto
termination
  by (relation "measure (\<lambda>(_, n, _, _). length n)")
    (auto simp: element_of_scan dest: scan_element_length)

function walk_end :: "str \<Rightarrow> char \<Rightarrow> str \<times> char" where
  "walk_end next term =
     (if term = CHR '','' then
        (case element_of next of
           Some (_, after, t) \<Rightarrow> walk_end after t
         | None \<Rightarrow> (next, term))
      else (next, term))"
  by pat_completeness auto
termination
  by (relation "measure (\<lambda>(n, _). length n)")
    (auto simp: element_of_scan dest: scan_element_length)

declare collect_args.simps [simp del] walk_end.simps [simp del]

definition read_instruction :: "nat \<Rightarrow> str \<Rightarrow> (str \<times> str list \<times> str) option" where
  "read_instruction limit s =
     (case element_of s of
        None \<Rightarrow> None
      | Some (opcode, next, term) \<Rightarrow>
          (let (args, next, term) = collect_args limit next term [];
               (next, term) = walk_end next term
           in if term \<noteq> CHR '';'' then None else Some (opcode, args, next)))"

lemma walk_end_read:
  assumes "t = CHR '','' \<or> t = CHR '';''"
  shows "(if snd (walk_end s t) = CHR '';'' then Some (fst (walk_end s t)) else None)
    = (if t = CHR '';'' then Some s else map_option snd (read_elements s))"
  using assms
proof (induction s t rule: walk_end.induct)
  case (1 s t)
  show ?case
  proof (cases "t = CHR '';'' \<or> scan_element s = None")
    case True
    with 1(2) show ?thesis
      by (auto simp: walk_end.simps [of s] element_of_scan read_elements.simps [of s])
  next
    case False
    then obtain v r t' where x: "scan_element s = Some (v, r, t')" and t: "t = CHR '',''"
      using 1(2) by (cases "scan_element s") auto
    from scan_element_sound [OF x] have t': "t' = CHR '','' \<or> t' = CHR '';''" by blast
    have IH: "(if snd (walk_end r t') = CHR '';'' then Some (fst (walk_end r t')) else None)
       = (if t' = CHR '';'' then Some r else map_option snd (read_elements r))"
      using 1(1) x t t' by (simp add: element_of_scan)
    have "walk_end s t = walk_end r t'"
      using x t by (simp add: walk_end.simps [of s] element_of_scan)
    with IH x t t' show ?thesis
      by (cases "read_elements r") (auto simp: read_elements.simps [of s] split: if_splits)
  qed
qed

lemma collect_args_read:
  assumes "t = CHR '','' \<or> t = CHR '';''"
    and "c = collect_args limit s t acc"
  shows "(if snd (walk_end (fst (snd c)) (snd (snd c))) = CHR '';''
          then Some (fst c, fst (walk_end (fst (snd c)) (snd (snd c)))) else None)
    = (if t = CHR '';'' then Some (acc, s)
       else map_option (\<lambda>(vs, r). (acc @ take (limit - length acc) vs, r)) (read_elements s))"
  using assms(1) unfolding assms(2)
proof (induction limit s t acc rule: collect_args.induct)
  case (1 limit s t acc)
  show ?case
  proof (cases "t = CHR '';'' \<or> \<not> length acc < limit")
    case True
    then have c: "collect_args limit s t acc = (acc, s, t)"
      by (auto simp: collect_args.simps [of limit s])
    show ?thesis unfolding c fst_conv snd_conv
      using True 1(2) walk_end_read [OF 1(2), of s]
      by (cases "read_elements s") (auto split: if_splits)
  next
    case False
    then have t: "t = CHR '',''" and lim: "length acc < limit" using 1(2) by auto
    show ?thesis
    proof (cases "scan_element s")
      case None
      with t lim show ?thesis
        by (simp add: collect_args.simps [of limit s] element_of_scan walk_end.simps [of s]
            read_elements.simps [of s])
    next
      case (Some x)
      then obtain v r t' where x: "scan_element s = Some (v, r, t')" by (cases x) auto
      from scan_element_sound [OF x] have t': "t' = CHR '','' \<or> t' = CHR '';''" by blast
      have take: "take (limit - length acc) (v # vs) = v # take (limit - Suc (length acc)) vs" for vs
        using lim by (simp add: take_Cons')
      have c: "collect_args limit s t acc = collect_args limit r t' (acc @ [v])"
        using t lim x by (simp add: collect_args.simps [of limit s] element_of_scan)
      have IH: "(if snd (walk_end (fst (snd (collect_args limit r t' (acc @ [v]))))
              (snd (snd (collect_args limit r t' (acc @ [v]))))) = CHR '';''
          then Some (fst (collect_args limit r t' (acc @ [v])),
            fst (walk_end (fst (snd (collect_args limit r t' (acc @ [v]))))
              (snd (snd (collect_args limit r t' (acc @ [v])))))) else None)
        = (if t' = CHR '';'' then Some (acc @ [v], r)
          else map_option (\<lambda>(vs, r). ((acc @ [v]) @ take (limit - length (acc @ [v])) vs, r))
            (read_elements r))"
        using 1(1) x t lim t' by (simp add: element_of_scan)
      show ?thesis
        using IH x t t' take [of "[]"] unfolding c
        by (cases "read_elements r") (auto simp: read_elements.simps [of s] take)
    qed
  qed
qed

lemma read_instruction_read:
  "read_instruction limit s =
     map_option (\<lambda>(vs, r). (hd vs, take limit (tl vs), r)) (read_elements s)"
proof (cases "scan_element s")
  case None
  then show ?thesis
    by (simp add: read_instruction_def element_of_scan read_elements.simps [of s])
next
  case (Some x)
  then obtain v r t where x: "scan_element s = Some (v, r, t)" by (cases x) auto
  from scan_element_sound [OF x] have t: "t = CHR '','' \<or> t = CHR '';''" by blast
  let ?c = "collect_args limit r t []"
  have "read_instruction limit s = map_option (Pair v)
      (if snd (walk_end (fst (snd ?c)) (snd (snd ?c))) = CHR '';''
       then Some (fst ?c, fst (walk_end (fst (snd ?c)) (snd (snd ?c)))) else None)"
    using x by (simp add: read_instruction_def element_of_scan split_def Let_def)
  also have "\<dots> = map_option (Pair v) (if t = CHR '';'' then Some ([], r)
       else map_option (\<lambda>(vs, r). (take limit vs, r)) (read_elements r))"
    by (subst collect_args_read [OF t refl]) simp
  also have "\<dots> = map_option (\<lambda>(vs, r). (hd vs, take limit (tl vs), r)) (read_elements s)"
    using x t by (cases "read_elements r") (auto simp: read_elements.simps [of s])
  finally show ?thesis .
qed

section \<open>\<open>BlobSplitter::split\<close>\<close>

record blob_splitter =
  binary_streams :: "nat set"

definition blob_splitter_new :: blob_splitter where
  "blob_splitter_new = \<lparr>binary_streams = {}\<rparr>"

definition first_index :: "str list \<Rightarrow> nat option" where
  "first_index args = (case args of [] \<Rightarrow> None | a # _ \<Rightarrow> parse_u32 a)"

text \<open>The \<open>match (opcode, index)\<close> of the loop: the new set and the binary frame, if one is sent.\<close>

definition split_step ::
  "(str \<Rightarrow> byte list option) \<Rightarrow> blob_splitter \<Rightarrow> str \<Rightarrow> str list \<Rightarrow> blob_splitter \<times> byte list option" where
  "split_step dec sp opcode args =
     (case first_index args of
        None \<Rightarrow> (sp, None)
      | Some index \<Rightarrow>
          if opcode = ''h264'' \<or> opcode = ''audio'' then
            (sp\<lparr>binary_streams := insert index (binary_streams sp)\<rparr>, None)
          else if opcode = ''end'' then
            (sp\<lparr>binary_streams := binary_streams sp - {index}\<rparr>, None)
          else if opcode = ''blob'' \<and> index \<in> binary_streams sp then
            (case args of
               _ # payload # _ \<Rightarrow>
                 (case dec payload of
                    None \<Rightarrow> (sp, None)
                  | Some decoded \<Rightarrow> (sp, Some (frame index decoded)))
             | _ \<Rightarrow> (sp, None))
          else (sp, None))"

definition text_frame :: "str \<Rightarrow> out_frame list" where
  "text_frame t = (if t = [] then [] else [Text t])"

text \<open>
  The \<open>while\<close> loop. \<open>pend\<close> is \<open>text[pending..pos]\<close>, \<open>s\<close> is \<open>text[pos..]\<close> and
  \<open>out\<close> the frames pushed so far.
\<close>

function split_loop ::
  "(str \<Rightarrow> byte list option) \<Rightarrow> blob_splitter \<Rightarrow> out_frame list \<Rightarrow> str \<Rightarrow> str
    \<Rightarrow> blob_splitter \<times> out_frame list" where
  "split_loop dec sp out pend s =
     (if s = [] then (sp, out @ text_frame pend)
      else
        (case read_instruction 2 s of
           None \<Rightarrow> (sp, out @ text_frame (pend @ s))
         | Some (opcode, args, next) \<Rightarrow>
             (case split_step dec sp opcode args of
                (sp', None) \<Rightarrow>
                  split_loop dec sp' out (pend @ take (length s - length next) s) next
              | (sp', Some bytes) \<Rightarrow>
                  split_loop dec sp' (out @ text_frame pend @ [Binary bytes]) [] next)))"
  by pat_completeness auto
termination
  by (relation "measure (\<lambda>(_, _, _, _, s). length s)")
    (auto simp: read_instruction_read dest: read_elements_length)

declare split_loop.simps [simp del]

definition split :: "(str \<Rightarrow> byte list option) \<Rightarrow> blob_splitter \<Rightarrow> str \<Rightarrow> blob_splitter \<times> out_frame list" where
  "split dec sp text = split_loop dec sp [] [] text"

section \<open>What \<open>split\<close> sends\<close>

text \<open>The step over all elements of an instruction; the loop reads the first two arguments.\<close>

definition split_instr ::
  "(str \<Rightarrow> byte list option) \<Rightarrow> blob_splitter \<Rightarrow> str list \<Rightarrow> blob_splitter \<times> byte list option" where
  "split_instr dec sp vs = split_step dec sp (hd vs) (take 2 (tl vs))"

definition add_binary :: "out_frame list \<Rightarrow> str \<Rightarrow> byte list \<Rightarrow> out_frame list" where
  "add_binary out pend bytes = out @ text_frame pend @ [Binary bytes]"

definition add_text :: "out_frame list \<Rightarrow> str \<Rightarrow> out_frame list" where
  "add_text out pend = out @ text_frame pend"

text \<open>The stream the frames carry: characters of text and whole binary frames.\<close>

fun frame_tokens :: "out_frame \<Rightarrow> (byte list + char) list" where
  "frame_tokens (Text t) = map Inr t"
| "frame_tokens (Binary b) = [Inl b]"

definition frames_tokens :: "out_frame list \<Rightarrow> (byte list + char) list" where
  "frames_tokens fs = concat (map frame_tokens fs)"

lemma frames_tokens_simps [simp]:
  "frames_tokens [] = []"
  "frames_tokens (fs @ gs) = frames_tokens fs @ frames_tokens gs"
  "frames_tokens (f # fs) = frame_tokens f @ frames_tokens fs"
  "frames_tokens (text_frame t) = map Inr t"
  by (simp_all add: frames_tokens_def text_frame_def)

lemma split_loop_instr:
  "read_elements s = Some (vs, r) \<Longrightarrow>
   split_loop dec sp out pend s =
     (case split_instr dec sp vs of
        (sp', None) \<Rightarrow> split_loop dec sp' out (pend @ take (length s - length r) s) r
      | (sp', Some x) \<Rightarrow> split_loop dec sp' (add_binary out pend x) [] r)"
  by (subst split_loop.simps)
    (auto simp: read_instruction_read split_instr_def add_binary_def dest: read_elements_length)

lemma split_loop_stop:
  "read_elements s = None \<Longrightarrow> split_loop dec sp out pend s = (sp, add_text out (pend @ s))"
  by (subst split_loop.simps) (simp add: read_instruction_read add_text_def)

interpretation blob: total_chunk_walker "split_instr dec" add_binary add_text "split_loop dec" for dec
  by unfold_locales
    (simp_all add: split_loop_instr split_loop_stop add_text_def)

interpretation blob: token_walker "split_instr dec" add_binary add_text "split_loop dec"
  Inr "\<lambda>b. [Inl b]" "\<lambda>s. frames_tokens" frames_tokens "[]" for dec
  by unfold_locales (simp_all add: add_text_def add_binary_def)

text \<open>
  The frames \<open>fs\<close> carry the text \<open>s\<close>: text frames verbatim, and each binary frame in
  place of a \<open>blob\<close> instruction whose payload decodes to what the frame holds.
\<close>

inductive carries :: "(str \<Rightarrow> byte list option) \<Rightarrow> out_frame list \<Rightarrow> str \<Rightarrow> bool" for dec where
  nothing: "carries dec [] []"
| verbatim: "t \<noteq> [] \<Longrightarrow> carries dec fs s \<Longrightarrow> carries dec (Text t # fs) (t @ s)"
| blob: "instr_text (''blob'' # a # payload # rest) w \<Longrightarrow> parse_u32 a = Some index \<Longrightarrow>
    dec payload = Some bytes \<Longrightarrow> carries dec fs s \<Longrightarrow>
    carries dec (Binary (frame index bytes) # fs) (w @ s)"

lemma carries_append: "carries dec fs s \<Longrightarrow> carries dec gs t \<Longrightarrow> carries dec (fs @ gs) (s @ t)"
  by (induction fs s rule: carries.induct) (auto intro: carries.intros)

lemma carries_text_frame: "carries dec (text_frame t) t"
  using carries.verbatim [OF _ carries.nothing, of t] by (auto simp: text_frame_def intro: carries.nothing)

lemma split_step_Some:
  assumes "split_step dec sp opcode args = (sp', Some b)"
  shows "\<exists>a payload rest index bytes. opcode = ''blob'' \<and> args = a # payload # rest \<and>
    parse_u32 a = Some index \<and> index \<in> binary_streams sp \<and> dec payload = Some bytes \<and>
    b = frame index bytes \<and> sp' = sp"
proof -
  from assms obtain index where i: "first_index args = Some index"
    by (auto simp: split_step_def split: option.splits)
  with assms have op: "opcode = ''blob''" "index \<in> binary_streams sp"
    by (auto simp: split_step_def split: if_splits)
  with assms i obtain a payload rest where args: "args = a # payload # rest"
    by (auto simp: split_step_def split: list.splits)
  with assms i op obtain bytes where "dec payload = Some bytes" "b = frame index bytes" "sp' = sp"
    by (auto simp: split_step_def split: option.splits)
  with i op args show ?thesis by (auto simp: first_index_def)
qed

lemma split_instr_Some:
  assumes "split_instr dec sp vs = (sp', Some b)" and "vs \<noteq> []"
  shows "\<exists>a payload rest index bytes. vs = ''blob'' # a # payload # rest \<and>
    parse_u32 a = Some index \<and> index \<in> binary_streams sp \<and> dec payload = Some bytes \<and>
    b = frame index bytes \<and> sp' = sp"
proof -
  obtain a payload rest index bytes where *: "hd vs = ''blob''" "take 2 (tl vs) = a # payload # rest"
    "parse_u32 a = Some index" "index \<in> binary_streams sp" "dec payload = Some bytes"
    "b = frame index bytes" "sp' = sp"
    using split_step_Some [OF assms(1) [unfolded split_instr_def]] by blast
  have "tl vs = (a # payload # rest) @ drop 2 (tl vs)" using *(2) by (metis append_take_drop_id)
  then have "vs = ''blob'' # a # payload # (rest @ drop 2 (tl vs))"
    using *(1) assms(2) by (cases vs) auto
  with * show ?thesis by blast
qed

lemma run_walk_carries:
  assumes "list_all (\<lambda>(w, vs). instr_text vs w) xs" and "carries dec out before"
  shows "carries dec
    (snd (run_walk (split_instr dec) add_binary add_text sp out pend xs t))
    (before @ pend @ concat (map fst xs) @ t)"
  using assms
proof (induction xs arbitrary: sp out pend before)
  case Nil
  then show ?case by (simp add: add_text_def carries_append carries_text_frame)
next
  case (Cons x xs)
  obtain w vs where x: "x = (w, vs)" by (cases x)
  obtain sp' q where step: "split_instr dec sp vs = (sp', q)" by (cases "split_instr dec sp vs")
  show ?case
  proof (cases q)
    case None
    with Cons.IH [of out before sp' "pend @ w"] Cons.prems x step show ?thesis by simp
  next
    case (Some b)
    have w: "instr_text vs w" using Cons.prems x by simp
    then obtain a payload rest index bytes where "instr_text (''blob'' # a # payload # rest) w"
        "parse_u32 a = Some index" "dec payload = Some bytes" "b = frame index bytes"
      using split_instr_Some [OF step [unfolded Some]] instr_text_nonempty by blast
    then have "carries dec [Binary b] w" using carries.blob [OF _ _ _ carries.nothing] by fastforce
    then have "carries dec (add_binary out pend b) (before @ pend @ w)"
      using Cons.prems(2) by (simp add: add_binary_def carries_append carries_text_frame)
    with Cons.IH [of _ "before @ pend @ w" sp' "[]"] Cons.prems x step Some show ?thesis by simp
  qed
qed

lemma split_carries_spec: "carries dec (snd (split dec sp text)) text"
proof -
  have "list_all (\<lambda>(w, vs). instr_text vs w) (fst (parse_chunk text))"
    by (auto simp: list_all_iff dest: parse_chunk_instrs)
  from run_walk_carries [OF this carries.nothing, of dec sp "[]" "snd (parse_chunk text)"]
  show ?thesis by (simp add: split_def blob.loop_run parse_chunk_concat)
qed

text \<open>
  C30: nothing is lost or reordered by \<open>split\<close>. On every input, well-formed or not, the
  frames it returns carry the input text: text frames are contiguous pieces of it,
  verbatim, and every binary frame stands where a \<open>blob\<close> instruction stood and holds
  that blob's stream index and decoded payload.
\<close>

theorem split_carries: "carries dec (snd (split dec sp text)) text"
  by (rule split_carries_spec)

text \<open>
  chunking is invisible to \<open>split\<close>. Sending one chunk of complete instructions, or the
  same instructions in two chunks (the second with the splitter state left by the first),
  puts the same stream of characters and binary frames on the wire and leaves the same
  set of binary streams.
\<close>

theorem split_append:
  assumes "complete_chunk a" and "complete_chunk b"
  shows "frames_tokens (snd (split dec sp (a @ b))) =
      frames_tokens (snd (split dec sp a)) @ frames_tokens (snd (split dec (fst (split dec sp a)) b))
    \<and> fst (split dec sp (a @ b)) = fst (split dec (fst (split dec sp a)) b)"
  unfolding split_def using blob.sent_append [OF assms] blob.loop_state_append [OF assms] by blast

definition demo_dec :: "str \<Rightarrow> byte list option" where
  "demo_dec s = Some (map (\<lambda>c. of_nat (byte_of c)) s)"

theorem split_append_witness:
  "frames_tokens (snd (split demo_dec blob_splitter_new (''4.h264,1.3;'' @ ''4.blob,1.3,2.AB;'')))
    = map Inr ''4.h264,1.3;'' @ [Inl [1, 0, 0, 0, 3, 0, 0, 0, 65, 66]]"
proof -
  have "complete_chunk ''4.h264,1.3;''" "complete_chunk ''4.blob,1.3,2.AB;''"
    by (simp_all add: complete_chunk_def wire_simps)
  then show ?thesis
    using split_append [of "''4.h264,1.3;''" "''4.blob,1.3,2.AB;''" demo_dec blob_splitter_new]
    by (simp add: split_def split_loop.simps read_instruction_read wire_simps split_step_def
        first_index_def blob_splitter_new_def text_frame_def demo_dec_def frame_def
        to_le_bytes_def FRAME_VERSION_def FRAME_TYPE_BLOB_def)
qed

lemma of_nat_byte: "unat (of_nat n :: byte) = n mod 256"
  by (simp add: unat_of_nat)

definition from_le_bytes :: "byte list \<Rightarrow> nat" where
  "from_le_bytes bs = foldr (\<lambda>b n. unat b + 256 * n) bs 0"

lemma from_to_le_bytes: "n < 2 ^ 32 \<Longrightarrow> from_le_bytes (to_le_bytes n) = n"
proof -
  assume "n < 2 ^ 32"
  then have "n div 16777216 < 256" by (simp add: div_less_iff_less_mult)
  then have "from_le_bytes (to_le_bytes n) = n mod 256 + 256 * (n div 256 mod 256
      + 256 * (n div 256 div 256 mod 256 + 256 * (n div 256 div 256 div 256)))"
    by (simp add: from_le_bytes_def to_le_bytes_def of_nat_byte flip: div_mult2_eq)
  then show ?thesis by (simp only: mod_mult_div_eq)
qed

text \<open>
  the binary frame layout loses nothing: for 32-bit stream indices the frame is eight
  header bytes followed by the payload, and two frames are equal only if they carry the
  same index and the same payload.
\<close>

theorem frame_layout:
  assumes "i < 2 ^ 32" and "j < 2 ^ 32"
  shows "length (frame i p) = HEADER_LEN + length p \<and> drop HEADER_LEN (frame i p) = p
    \<and> from_le_bytes (take 4 (drop 4 (frame i p))) = i
    \<and> (frame i p = frame j q \<longleftrightarrow> i = j \<and> p = q)"
proof -
  have "length (to_le_bytes k) = 4" for k by (simp add: to_le_bytes_def)
  moreover have "to_le_bytes i = to_le_bytes j \<longleftrightarrow> i = j"
    using from_to_le_bytes assms by metis
  ultimately show ?thesis
    using assms by (auto simp: frame_def HEADER_LEN_def from_to_le_bytes)
qed

theorem frame_layout_witness:
  "from_le_bytes (take 4 (drop 4 (frame 258 [9]))) = 258 \<and> frame 258 [9] \<noteq> frame 259 [9]"
  using frame_layout [of 258 259 "[9]" "[9]"] by simp

section \<open>Slices of \<open>element\<close> lie on character boundaries\<close>

lemma utf8_take_drop:
  assumes "utf8 s" and "s \<noteq> []" and "char_width (hd s) = Some w"
  shows "utf8 (drop w s) \<and> (utf8 v \<longrightarrow> utf8 (take w s @ v))"
proof -
  obtain c cs where s: "s = c # cs" using assms(2) by (cases s) auto
  obtain k where k: "w = Suc k" using char_width_pos assms(3) by (cases w) auto
  with assms s show ?thesis by (auto simp: utf8_Cons)
qed

lemma skip_chars_utf8: "skip_chars n s = Some (v, r) \<Longrightarrow> utf8 s \<Longrightarrow> utf8 v \<and> utf8 r"
proof (induction n arbitrary: s v)
  case (Suc n)
  then obtain w v' where w: "s \<noteq> []" "char_width (hd s) = Some w" "w \<le> length s"
      "skip_chars n (drop w s) = Some (v', r)" "v = take w s @ v'"
    by (auto simp only: skip_chars_Suc)
  have "utf8 (drop w s)" using utf8_take_drop [OF Suc.prems(2) w(1,2)] by blast
  with Suc.IH [OF w(4)] have "utf8 v'" "utf8 r" by auto
  with w utf8_take_drop [OF Suc.prems(2) w(1,2)] show ?case by blast
qed simp

lemma scan_element_utf8:
  assumes "scan_element s = Some (v, r, t)" and "utf8 s"
  shows "utf8 v \<and> utf8 r"
proof -
  let ?ds = "takeWhile is_ascii_digit s"
  obtain s2 n where d: "dropWhile is_ascii_digit s = CHR ''.'' # s2" and
    n: "skip_chars n s2 = Some (v, t # r)" "t = CHR '','' \<or> t = CHR '';''"
    using assms(1) by (auto simp: scan_element_def Let_def split: list.splits option.splits if_splits)
  have "s = ?ds @ CHR ''.'' # s2" using d by (metis takeWhile_dropWhile_id)
  moreover have "list_all is_ascii ?ds"
    by (auto simp: list_all_iff dest: set_takeWhileD)
  ultimately have "utf8 s2" using assms(2) utf8_append_ascii by (metis separators_ascii(1) utf8_Cons_ascii)
  with skip_chars_utf8 [OF n(1)] n(2) show ?thesis by auto
qed

text \<open>
  \<open>element\<close> never slices inside a character. On a well-formed string and an offset at
  which a character starts, the value it returns and the text from the returned offset on
  are again well-formed; so the string slices of \<open>element\<close>, and those of the loops that
  continue from its result, cannot panic.
\<close>

theorem element_slices_on_boundaries:
  assumes "utf8 (drop at text)" and "element text at = Some (v, next, t)"
  shows "utf8 v \<and> utf8 (drop next text) \<and> at < next \<and> next \<le> length text"
proof -
  obtain r where e: "scan_element (drop at text) = Some (v, r, t)" "next = length text - length r"
    using assms(2) by (auto simp: element_def element_of_scan split: option.splits)
  obtain w where "drop at text = w @ t # r" using scan_element_sound [OF e(1)] by blast
  then have "drop (length (w @ [t])) (drop at text) = r" "length text - at = length w + 1 + length r"
    by (simp_all flip: length_drop)
  then have "drop next text = r" and "at < next"
    using e(2) by (auto simp: add.commute)
  with scan_element_utf8 [OF e(1) assms(1)] e(2) show ?thesis by simp
qed

theorem element_slices_on_boundaries_witness:
  "element ''4.sync,1.5;'' 7 = Some (''5'', 11, CHR '';'') \<and> utf8 ''5''"
proof -
  have "element ''4.sync,1.5;'' 7 = Some (''5'', 11, CHR '';'')"
    by (simp add: element_def element_of_scan wire_simps)
  moreover have "utf8 (drop 7 ''4.sync,1.5;'')" by (simp add: utf8_ascii is_ascii_def byte_of_def)
  ultimately show ?thesis using element_slices_on_boundaries by blast
qed

end
