(* ===== verification/Wire_Scan.thy ===== *)
theory Wire_Scan
  imports Chunk
begin

text \<open>
  The byte-counting scanners of \<^verbatim>\<open>src/src/frame_stats.rs\<close> (\<open>split_element\<close>,
  \<open>next_element\<close>, \<open>elements\<close>, \<open>nth_element\<close>, \<open>instruction_starts\<close>) that the
  telemetry and the reference probe read the stream with, compared with the
  character-counting framing of \<open>Chunk\<close>.
\<close>

section \<open>The scanners\<close>

definition split_element :: "str \<Rightarrow> (str \<times> str \<times> char) option" where
  "split_element data =
     (case split_at_char CHR ''.'' data of
        None \<Rightarrow> None
      | Some (len_text, rest) \<Rightarrow>
          (case parse_usize len_text of
             None \<Rightarrow> None
           | Some len \<Rightarrow>
               (let value_end = Suc (length len_text) + len in
                if 2 ^ 64 \<le> value_end then None
                else if length data < value_end \<or> \<not> is_char_boundary data value_end then None
                else
                  (case drop len rest of
                     [] \<Rightarrow> None
                   | sep # remainder \<Rightarrow>
                       if sep = CHR '','' \<or> sep = CHR '';''
                       then Some (take len rest, remainder, sep) else None))))"

definition next_element :: "str \<Rightarrow> (str \<times> str) option" where
  "next_element data = map_option (\<lambda>(v, r, _). (v, r)) (split_element data)"

lemma split_element_length: "split_element s = Some (v, r, t) \<Longrightarrow> length r < length s"
proof -
  assume "split_element s = Some (v, r, t)"
  then obtain a b len where "split_at_char CHR ''.'' s = Some (a, b)" "drop len b = t # r"
    by (auto simp: split_element_def Let_def split: option.splits list.splits if_splits)
  then have "length b < length s" "length (t # r) \<le> length b"
    by (auto dest: split_at_char_length) (metis length_drop diff_le_self length_Cons)
  then show ?thesis by simp
qed

function elements :: "str \<Rightarrow> str list" where
  "elements data =
     (case next_element data of
        None \<Rightarrow> []
      | Some (v, r) \<Rightarrow> v # elements r)"
  by pat_completeness auto
termination
  by (relation "measure length") (auto simp: next_element_def dest: split_element_length)

fun nth_element :: "str \<Rightarrow> nat \<Rightarrow> str option" where
  "nth_element data 0 = map_option fst (next_element data)"
| "nth_element data (Suc index) =
     (case next_element data of None \<Rightarrow> None | Some (_, r) \<Rightarrow> nth_element r index)"

text \<open>The \<open>loop\<close> of \<open>InstructionStarts::next\<close>: what follows the instruction at \<open>cursor\<close>.\<close>

function after_instruction :: "str \<Rightarrow> str" where
  "after_instruction cursor =
     (case split_element cursor of
        Some (_, r, t) \<Rightarrow> if t = CHR '';'' then r else after_instruction r
      | None \<Rightarrow> [])"
  by pat_completeness auto
termination
  by (relation "measure length") (auto dest: split_element_length)

declare elements.simps [simp del] after_instruction.simps [simp del]

lemma after_instruction_length: "s \<noteq> [] \<Longrightarrow> length (after_instruction s) < length s"
proof (induction s rule: after_instruction.induct)
  case (1 s)
  show ?case
  proof (cases "split_element s")
    case None
    then show ?thesis using "1.prems" by (simp add: after_instruction.simps [of s])
  next
    case (Some x)
    then obtain v r t where x: "split_element s = Some (v, r, t)" by (cases x) auto
    have lr: "length r < length s" using x by (rule split_element_length)
    show ?thesis
    proof (cases "t = CHR '';'' \<or> r = []")
      case True
      have "length (after_instruction []) = 0"
        by (simp add: after_instruction.simps split_element_def)
      with True x lr show ?thesis by (auto simp: after_instruction.simps [of s])
    next
      case False
      with "1.IH" x have "length (after_instruction r) < length r" by blast
      with False x lr show ?thesis by (simp add: after_instruction.simps [of s])
    qed
  qed
qed

function instruction_starts :: "str \<Rightarrow> str list" where
  "instruction_starts rest =
     (if rest = [] then [] else rest # instruction_starts (after_instruction rest))"
  by pat_completeness auto
termination
  by (relation "measure length") (auto dest: after_instruction_length)

declare instruction_starts.simps [simp del]

lemmas [wire_simps] = split_element_def next_element_def elements.simps after_instruction.simps
  instruction_starts.simps

lemma instruction_starts_Nil [simp]: "instruction_starts [] = []"
  by (simp add: instruction_starts.simps)

section \<open>Agreement with the framing on ASCII chunks\<close>

lemma skip_chars_ascii_take:
  "list_all is_ascii s \<Longrightarrow>
   skip_chars n s = (if n \<le> length s then Some (take n s, drop n s) else None)"
proof (induction n arbitrary: s)
  case (Suc n)
  then show ?case by (cases s) auto
qed simp

lemma ascii_char_boundary:
  assumes "list_all is_ascii s"
  shows "is_char_boundary s i \<longleftrightarrow> i \<le> length s"
proof -
  have "\<not> is_continuation (s ! i)" if "i < length s"
    using assms that by (fastforce simp: is_continuation_def is_ascii_def list_all_length)
  then show ?thesis by (auto simp: is_char_boundary_def)
qed

lemma split_element_of_scan:
  assumes "list_all is_ascii s" and "length s < 2 ^ 64" and "scan_element s = Some (v, r, t)"
  shows "split_element s = Some (v, r, t)"
proof -
  obtain w where w: "element_text v w" "s = w @ t # r" "t = CHR '','' \<or> t = CHR '';''"
    using scan_element_sound [OF assms(3)] by blast
  from w(1) show ?thesis
  proof cases
    case (element ds n)
    have v: "list_all is_ascii v" using assms(1) w(2) element(1) by simp
    then have "n = length v"
      using element(4) skip_chars_ascii_take [OF v, of n] by (auto split: if_splits)
    moreover have "CHR ''.'' \<notin> set ds" using element(2) by (auto simp: list_all_iff)
    ultimately show ?thesis
      using assms(1,2) w(2,3) element(1,3)
      by (auto simp: split_element_def ascii_char_boundary)
  qed
qed

lemma after_instruction_read:
  assumes "list_all is_ascii s" and "length s < 2 ^ 64" and "read_elements s = Some (vs, r)"
  shows "after_instruction s = r"
  using assms
proof (induction s arbitrary: vs rule: read_elements.induct)
  case (1 s)
  from "1.prems"(3) obtain v r' t where x: "scan_element s = Some (v, r', t)"
    by (subst (asm) read_elements.simps) (auto split: option.splits)
  then have sp: "split_element s = Some (v, r', t)"
    using "1.prems" by (rule_tac split_element_of_scan)
  obtain w where w: "s = w @ t # r'" using scan_element_sound [OF x] by blast
  show ?case
  proof (cases "t = CHR '';''")
    case True
    with x sp "1.prems"(3) show ?thesis
      by (simp add: after_instruction.simps [of s] read_elements.simps [of s])
  next
    case False
    with x "1.prems"(3) obtain vs' where "read_elements r' = Some (vs', r)"
      by (auto simp: read_elements.simps [of s])
    moreover have "list_all is_ascii r'" "length r' < 2 ^ 64" using "1.prems" w by simp_all
    ultimately have "after_instruction r' = r" using "1.IH" x False by blast
    with sp False show ?thesis by (simp add: after_instruction.simps [of s])
  qed
qed

text \<open>The suffixes of a chunk at which its instructions start.\<close>

fun suffixes_at :: "chunk_instr list \<Rightarrow> str list" where
  "suffixes_at [] = []"
| "suffixes_at ((w, vs) # xs) = (w @ concat (map fst xs)) # suffixes_at xs"

text \<open>
  on ASCII chunks that end on an instruction boundary, \<open>instruction_starts\<close> yields
  exactly the instructions the framing delimits, one slice per instruction, each running
  from its first byte to the end of the chunk; element data containing semicolons produces
  no extra start.
\<close>

theorem instruction_starts_exact:
  assumes "complete_chunk s" and "list_all is_ascii s" and "length s < 2 ^ 64"
  shows "instruction_starts s = suffixes_at (fst (parse_chunk s))"
  using assms
proof (induction s rule: parse_chunk_induct)
  case (stop s)
  then show ?case by (simp add: complete_chunk_def parse_chunk_None)
next
  case (instr s vs w r)
  then have r: "complete_chunk r" "after_instruction s = r"
    by (auto simp: complete_chunk_def parse_chunk_Some intro: after_instruction_read)
  then have "concat (map fst (fst (parse_chunk r))) = r"
    using parse_chunk_concat [of r] by (simp add: complete_chunk_def)
  moreover have "w \<noteq> []" using instr(2) instr_text_nonempty by blast
  ultimately show ?case
    using instr r instruction_starts.simps [of s] by (simp add: parse_chunk_Some)
qed

theorem instruction_starts_exact_witness:
  "instruction_starts ''4.name,3.a;b;4.sync,1.7;'' = [''4.name,3.a;b;4.sync,1.7;'', ''4.sync,1.7;'']"
  by (subst instruction_starts_exact)
    (simp_all add: complete_chunk_def wire_simps)

text \<open>
  On a chunk with one two-byte character the scanners part ways. The framing accepts
  the whole chunk, while the byte-counting scanner stops at the first instruction, so the
  \<open>sync\<close> after it is not seen by the telemetry or the probe.
\<close>

theorem instruction_starts_stops_beyond_ascii:
  "let s = ''4.name,1.'' @ [CHR 0xC3, CHR 0xA9] @ '';4.sync,1.7;'' in
   last_instruction_boundary s = Some (length s) \<and> length (fst (parse_chunk s)) = 2 \<and>
   instruction_starts s = [s]"
  by (simp add: wire_simps)

text \<open>
  \<open>elements\<close> does not stop at the end of its instruction. Applied to the arguments
  of an instruction it also returns the elements of the instructions that follow it in
  the chunk.
\<close>

theorem elements_run_past_instruction:
  assumes "list_all is_ascii s" and "length s < 2 ^ 64" and "read_elements s = Some (vs, r)"
  shows "elements s = vs @ elements r"
  using assms
proof (induction s arbitrary: vs rule: read_elements.induct)
  case (1 s)
  from "1.prems"(3) obtain v r' t where x: "scan_element s = Some (v, r', t)"
    by (subst (asm) read_elements.simps) (auto split: option.splits)
  then have sp: "split_element s = Some (v, r', t)"
    using "1.prems" by (rule_tac split_element_of_scan)
  obtain w where w: "s = w @ t # r'" using scan_element_sound [OF x] by blast
  show ?case
  proof (cases "t = CHR '';''")
    case True
    with x sp "1.prems"(3) show ?thesis
      by (simp add: elements.simps [of s] next_element_def read_elements.simps [of s])
  next
    case False
    with x "1.prems"(3) obtain vs' where vs': "read_elements r' = Some (vs', r)" "vs = v # vs'"
      by (auto simp: read_elements.simps [of s])
    moreover have "list_all is_ascii r'" "length r' < 2 ^ 64" using "1.prems" w by simp_all
    ultimately have "elements r' = vs' @ elements r" using "1.IH" x False by blast
    with sp vs' show ?thesis by (simp add: elements.simps [of s] next_element_def)
  qed
qed

theorem elements_run_past_instruction_witness:
  "elements ''1.3;4.sync,1.7;'' = [''3'', ''sync'', ''7'']"
proof -
  have "elements ''1.3;4.sync,1.7;'' = [''3''] @ elements ''4.sync,1.7;''"
    by (rule elements_run_past_instruction) (simp_all add: wire_simps)
  then show ?thesis by (simp add: wire_simps)
qed

end
