(* ===== verification/Bits.thy ===== *)
theory Bits
  imports Prelude "HOL-Library.Monad_Syntax"
begin

text \<open>
  The bit-level machinery of \<^verbatim>\<open>src/src/h264_sps.rs\<close>: \<open>BitReader\<close> and \<open>BitWriter\<close>,
  \<open>unescape\<close> and \<open>escape\<close>. A reader operation maps a reader to its value and the
  advanced reader, or \<open>None\<close> where the Rust returns \<open>None\<close>. \<open>u32\<close> arithmetic is
  that of a release build: shifts mask their amount and additions wrap.
\<close>

section \<open>\<open>BitReader\<close>\<close>

record bit_reader =
  br_data :: "byte list"
  br_pos :: nat

type_synonym 'a rd = "bit_reader \<Rightarrow> ('a \<times> bit_reader) option"

definition bit_reader_new :: "byte list \<Rightarrow> bit_reader" where
  "bit_reader_new data = \<lparr>br_data = data, br_pos = 0\<rparr>"

text \<open>Bit \<open>i\<close> of a byte string, most significant bit of each byte first.\<close>

definition bit_at :: "byte list \<Rightarrow> nat \<Rightarrow> bool" where
  "bit_at d i = bit (d ! (i div 8)) (7 - i mod 8)"

definition rd_bit :: "nat rd" where
  "rd_bit r =
     (if br_pos r div 8 < length (br_data r)
      then Some (of_bool (bit_at (br_data r) (br_pos r)), r\<lparr>br_pos := Suc (br_pos r)\<rparr>)
      else None)"

fun rd_bits_from :: "nat \<Rightarrow> nat \<Rightarrow> nat rd" where
  "rd_bits_from 0 value r = Some (value, r)"
| "rd_bits_from (Suc count) value r =
     do { (b, r) \<leftarrow> rd_bit r; rd_bits_from count ((2 * value + b) mod 2 ^ 32) r }"

definition rd_bits :: "nat \<Rightarrow> nat rd" where
  "rd_bits count r = rd_bits_from count 0 r"

text \<open>The run of zeros of an exp-Golomb codeword, given up at more than 32.\<close>

function rd_zeros :: "nat \<Rightarrow> nat rd" where
  "rd_zeros zeros r =
     do { (b, r) \<leftarrow> rd_bit r;
          if b \<noteq> 0 then Some (zeros, r)
          else if 32 < Suc zeros then None
          else rd_zeros (Suc zeros) r }"
  by pat_completeness auto
termination
  by (relation "measure (\<lambda>(z, _). 33 - z)") auto

declare rd_zeros.simps [simp del]

definition rd_ue :: "nat rd" where
  "rd_ue r =
     do { (zeros, r) \<leftarrow> rd_zeros 0 r;
          if zeros = 0 then Some (0, r)
          else do { (v, r) \<leftarrow> rd_bits zeros r;
                    Some ((2 ^ (zeros mod 32) - 1 + v) mod 2 ^ 32, r) } }"

text \<open>\<open>as i32\<close> of a \<open>u32\<close>.\<close>

definition to_i32 :: "nat \<Rightarrow> int" where
  "to_i32 n = (if n < 2 ^ 31 then int n else int n - 2 ^ 32)"

definition rd_se :: "int rd" where
  "rd_se r =
     do { (k, r) \<leftarrow> rd_ue r;
          Some (if k mod 2 = 0 then - to_i32 (k div 2) else to_i32 ((k + 1) div 2), r) }"

text \<open>\<open>for _ in 0..n\<close> over a reader step.\<close>

fun rd_repeat :: "nat \<Rightarrow> unit rd \<Rightarrow> unit rd" where
  "rd_repeat 0 f r = Some ((), r)"
| "rd_repeat (Suc n) f r = do { (_, r) \<leftarrow> f r; rd_repeat n f r }"

definition rd_skip :: "'a rd \<Rightarrow> unit rd" where
  "rd_skip f r = do { (_, r) \<leftarrow> f r; Some ((), r) }"

section \<open>Locality of reader operations\<close>

text \<open>
  Two byte strings agree on the bits from \<open>a\<close> up to \<open>b\<close>, which both have.
\<close>

definition agree :: "nat \<Rightarrow> nat \<Rightarrow> byte list \<Rightarrow> byte list \<Rightarrow> bool" where
  "agree a b d d' \<longleftrightarrow> b \<le> 8 * length d \<and> b \<le> 8 * length d' \<and>
     (\<forall>i. a \<le> i \<and> i < b \<longrightarrow> bit_at d i = bit_at d' i)"

text \<open>
  An operation is \<^emph>\<open>stable\<close> if it only moves forward, stays within its data, and its
  result depends on no bit but those it consumed.
\<close>

definition stable :: "'a rd \<Rightarrow> bool" where
  "stable p \<longleftrightarrow> (\<forall>r v r'. br_pos r \<le> 8 * length (br_data r) \<longrightarrow> p r = Some (v, r') \<longrightarrow>
     br_data r' = br_data r \<and> br_pos r \<le> br_pos r' \<and> br_pos r' \<le> 8 * length (br_data r) \<and>
     (\<forall>d'. agree (br_pos r) (br_pos r') (br_data r) d' \<longrightarrow>
        p \<lparr>br_data = d', br_pos = br_pos r\<rparr> = Some (v, \<lparr>br_data = d', br_pos = br_pos r'\<rparr>)))"

lemma stableI:
  assumes "\<And>d pos v r'. pos \<le> 8 * length d \<Longrightarrow> p \<lparr>br_data = d, br_pos = pos\<rparr> = Some (v, r') \<Longrightarrow>
     \<exists>pos'. r' = \<lparr>br_data = d, br_pos = pos'\<rparr> \<and> pos \<le> pos' \<and> pos' \<le> 8 * length d \<and>
     (\<forall>d'. agree pos pos' d d' \<longrightarrow>
        p \<lparr>br_data = d', br_pos = pos\<rparr> = Some (v, \<lparr>br_data = d', br_pos = pos'\<rparr>))"
  shows "stable p"
  unfolding stable_def
proof (intro allI impI, goal_cases)
  case (1 r v r')
  then show ?case using assms [of "br_pos r" "br_data r" v r'] by (cases r) auto
qed

lemma stableD:
  assumes "stable p" and "pos \<le> 8 * length d" and "p \<lparr>br_data = d, br_pos = pos\<rparr> = Some (v, r')"
  shows "\<exists>pos'. r' = \<lparr>br_data = d, br_pos = pos'\<rparr> \<and> pos \<le> pos' \<and> pos' \<le> 8 * length d \<and>
    (\<forall>d'. agree pos pos' d d' \<longrightarrow>
       p \<lparr>br_data = d', br_pos = pos\<rparr> = Some (v, \<lparr>br_data = d', br_pos = pos'\<rparr>))"
proof -
  have "br_data r' = d \<and> pos \<le> br_pos r' \<and> br_pos r' \<le> 8 * length d \<and>
     (\<forall>d'. agree pos (br_pos r') d d' \<longrightarrow>
        p \<lparr>br_data = d', br_pos = pos\<rparr> = Some (v, \<lparr>br_data = d', br_pos = br_pos r'\<rparr>))"
    using assms(1) [unfolded stable_def, rule_format, of "\<lparr>br_data = d, br_pos = pos\<rparr>" v r']
      assms(2,3) by auto
  moreover have "r' = \<lparr>br_data = br_data r', br_pos = br_pos r'\<rparr>" by simp
  ultimately show ?thesis by (intro exI [of _ "br_pos r'"]) simp
qed

lemma agree_mono: "agree a b d d' \<Longrightarrow> a \<le> a' \<Longrightarrow> b' \<le> b \<Longrightarrow> agree a' b' d d'"
  by (auto simp: agree_def)

lemma stable_return [stable_intros]: "stable (\<lambda>r. Some (v, r))"
  by (rule stableI) auto

lemma stable_fail [stable_intros]: "stable (\<lambda>r. None)"
  by (rule stableI) auto

lemma stable_bind [stable_intros]:
  assumes "stable f" and "\<And>v. stable (g v)"
  shows "stable (\<lambda>r. do { (v, r') \<leftarrow> f r; g v r' })"
proof (rule stableI)
  fix d pos v r'
  assume pos: "pos \<le> 8 * length d" and
    "do { (v, r') \<leftarrow> f \<lparr>br_data = d, br_pos = pos\<rparr>; g v r' } = Some (v, r')"
  then obtain u r1 where f: "f \<lparr>br_data = d, br_pos = pos\<rparr> = Some (u, r1)" and g: "g u r1 = Some (v, r')"
    by (auto simp: Option.bind_eq_Some_conv)
  obtain p1 where 1: "r1 = \<lparr>br_data = d, br_pos = p1\<rparr>" "pos \<le> p1" "p1 \<le> 8 * length d"
    "\<forall>d'. agree pos p1 d d' \<longrightarrow>
       f \<lparr>br_data = d', br_pos = pos\<rparr> = Some (u, \<lparr>br_data = d', br_pos = p1\<rparr>)"
    using stableD [OF assms(1) pos f] by blast
  obtain p2 where 2: "r' = \<lparr>br_data = d, br_pos = p2\<rparr>" "p1 \<le> p2" "p2 \<le> 8 * length d"
    "\<forall>d'. agree p1 p2 d d' \<longrightarrow>
       g u \<lparr>br_data = d', br_pos = p1\<rparr> = Some (v, \<lparr>br_data = d', br_pos = p2\<rparr>)"
    using stableD [OF assms(2) 1(3) g [unfolded 1(1)]] by blast
  show "\<exists>pos'. r' = \<lparr>br_data = d, br_pos = pos'\<rparr> \<and> pos \<le> pos' \<and> pos' \<le> 8 * length d \<and>
     (\<forall>d'. agree pos pos' d d' \<longrightarrow>
        do { (v, r') \<leftarrow> f \<lparr>br_data = d', br_pos = pos\<rparr>; g v r' }
          = Some (v, \<lparr>br_data = d', br_pos = pos'\<rparr>))"
  proof (intro exI [of _ p2] conjI allI impI)
    fix d'
    assume "agree pos p2 d d'"
    then have "agree pos p1 d d'" "agree p1 p2 d d'" using 1(2) 2(2) by (auto intro: agree_mono)
    with 1(4) 2(4) show "do { (v, r') \<leftarrow> f \<lparr>br_data = d', br_pos = pos\<rparr>; g v r' }
        = Some (v, \<lparr>br_data = d', br_pos = p2\<rparr>)"
      by simp
  qed (use 1 2 in auto)
qed

lemma stable_if [stable_intros]:
  "stable f \<Longrightarrow> stable g \<Longrightarrow> stable (\<lambda>r. if c then f r else g r)"
  by (cases c) auto

lemma stable_case_prod [stable_intros]:
  "(\<And>a b. stable (f a b)) \<Longrightarrow> stable (case v of (a, b) \<Rightarrow> f a b)"
  by (cases v) auto

lemma stable_pos [stable_intros]:
  assumes "\<And>n. stable (f n)"
  shows "stable (\<lambda>r. let n = br_pos r in f n r)"
proof (rule stableI)
  fix d pos v r'
  assume "pos \<le> 8 * length d" and
    "(let n = br_pos \<lparr>br_data = d, br_pos = pos\<rparr> in f n \<lparr>br_data = d, br_pos = pos\<rparr>) = Some (v, r')"
  then show "\<exists>pos'. r' = \<lparr>br_data = d, br_pos = pos'\<rparr> \<and> pos \<le> pos' \<and> pos' \<le> 8 * length d \<and>
     (\<forall>d'. agree pos pos' d d' \<longrightarrow>
        (let n = br_pos \<lparr>br_data = d', br_pos = pos\<rparr> in f n \<lparr>br_data = d', br_pos = pos\<rparr>)
          = Some (v, \<lparr>br_data = d', br_pos = pos'\<rparr>))"
    using stableD [OF assms [of pos]] by (simp add: Let_def)
qed

lemma stable_rd_bit [stable_intros]: "stable rd_bit"
  by (rule stableI) (auto simp: rd_bit_def agree_def split: if_splits)

lemma stable_rd_bits_from: "stable (rd_bits_from n v)"
proof (induction n arbitrary: v)
  case 0
  have "rd_bits_from 0 v = (\<lambda>r. Some (v, r))" by (rule ext) simp
  then show ?case by (simp add: stable_intros)
next
  case (Suc n)
  have "rd_bits_from (Suc n) v = (\<lambda>r. do { (b, r) \<leftarrow> rd_bit r; rd_bits_from n ((2 * v + b) mod 2 ^ 32) r })"
    by (rule ext) simp
  then show ?case by (simp only:) (intro stable_intros Suc)
qed

lemma stable_rd_bits [stable_intros]: "stable (rd_bits n)"
  using stable_rd_bits_from [of n 0] by (simp add: rd_bits_def [abs_def])

lemma stable_rd_zeros: "stable (rd_zeros z)"
proof (induction "33 - z" arbitrary: z rule: less_induct)
  case less
  have eq: "rd_zeros z = (\<lambda>r. do { (b, r) \<leftarrow> rd_bit r;
      if b \<noteq> 0 then Some (z, r) else if 32 < Suc z then None else rd_zeros (Suc z) r })"
    by (rule ext) (rule rd_zeros.simps)
  show ?case
  proof (cases "32 < Suc z")
    case True
    then show ?thesis by (subst eq) (simp only: if_True, intro stable_intros)
  next
    case False
    then have "stable (rd_zeros (Suc z))" by (intro less) auto
    then show ?thesis by (subst eq) (intro stable_intros)
  qed
qed

lemma stable_rd_ue [stable_intros]: "stable rd_ue"
  unfolding rd_ue_def [abs_def] by (intro stable_intros stable_rd_zeros)

lemma stable_rd_se [stable_intros]: "stable rd_se"
  unfolding rd_se_def [abs_def] by (intro stable_intros)

lemma stable_rd_repeat [stable_intros]:
  assumes "stable f"
  shows "stable (rd_repeat n f)"
proof (induction n)
  case 0
  have "rd_repeat 0 f = (\<lambda>r. Some ((), r))" by (rule ext) simp
  then show ?case by (simp add: stable_intros)
next
  case (Suc n)
  have "rd_repeat (Suc n) f = (\<lambda>r. do { (_, r) \<leftarrow> f r; rd_repeat n f r })" by (rule ext) simp
  then show ?case by (simp only:) (intro stable_intros Suc assms)
qed

lemma stable_rd_skip [stable_intros]: "stable f \<Longrightarrow> stable (rd_skip f)"
  unfolding rd_skip_def [abs_def] by (intro stable_intros)

text \<open>
  On data of the same length that agree from the reader's position on, a stable operation
  gives the same answer, failures included.
\<close>

lemma stable_same:
  assumes "stable p" and "pos \<le> 8 * length d" and "length d' = length d"
    and "\<And>i. pos \<le> i \<Longrightarrow> i < 8 * length d \<Longrightarrow> bit_at d i = bit_at d' i"
  shows "p \<lparr>br_data = d', br_pos = pos\<rparr> =
    map_option (\<lambda>(v, r). (v, r\<lparr>br_data := d'\<rparr>)) (p \<lparr>br_data = d, br_pos = pos\<rparr>)"
proof (cases "p \<lparr>br_data = d, br_pos = pos\<rparr>")
  case None
  have "p \<lparr>br_data = d', br_pos = pos\<rparr> = None"
  proof (rule ccontr)
    assume "p \<lparr>br_data = d', br_pos = pos\<rparr> \<noteq> None"
    then obtain v r' where s: "p \<lparr>br_data = d', br_pos = pos\<rparr> = Some (v, r')"
      using option.exhaust prod.exhaust by metis
    have le: "pos \<le> 8 * length d'" using assms(2,3) by simp
    obtain pos' where p': "r' = \<lparr>br_data = d', br_pos = pos'\<rparr>" "pos \<le> pos'" "pos' \<le> 8 * length d'"
      "\<forall>d''. agree pos pos' d' d'' \<longrightarrow>
        p \<lparr>br_data = d'', br_pos = pos\<rparr> = Some (v, \<lparr>br_data = d'', br_pos = pos'\<rparr>)"
      using stableD [OF assms(1) le s] by blast
    have "agree pos pos' d' d"
      using p'(3) assms(3,4) by (auto simp: agree_def)
    from p'(4) [rule_format, OF this] show False using None by simp
  qed
  with None show ?thesis by simp
next
  case (Some x)
  then obtain v r' where s: "p \<lparr>br_data = d, br_pos = pos\<rparr> = Some (v, r')" by (cases x) auto
  obtain pos' where p': "r' = \<lparr>br_data = d, br_pos = pos'\<rparr>" "pos \<le> pos'" "pos' \<le> 8 * length d"
    "\<forall>d''. agree pos pos' d d'' \<longrightarrow>
      p \<lparr>br_data = d'', br_pos = pos\<rparr> = Some (v, \<lparr>br_data = d'', br_pos = pos'\<rparr>)"
    using stableD [OF assms(1,2) s] by blast
  have "agree pos pos' d d'"
    using p' assms(3,4) by (auto simp: agree_def)
  from p'(4) [rule_format, OF this] show ?thesis using s p'(1) by simp
qed

section \<open>\<open>BitWriter\<close>\<close>

record bit_writer =
  bw_data :: "byte list"
  bw_bits :: nat

definition bit_writer_new :: bit_writer where
  "bit_writer_new = \<lparr>bw_data = [], bw_bits = 0\<rparr>"

definition wr_bit :: "nat \<Rightarrow> bit_writer \<Rightarrow> bit_writer" where
  "wr_bit value w =
     (let data = (if bw_bits w mod 8 = 0 then bw_data w @ [0] else bw_data w);
          at = length data - 1;
          data = (if value mod 2 = 1
                  then data[at := set_bit (7 - bw_bits w mod 8) (data ! at)] else data)
      in \<lparr>bw_data = data, bw_bits = Suc (bw_bits w)\<rparr>)"

text \<open>\<open>bits_of(value, count)\<close>: the low \<open>count\<close> bits, highest first.\<close>

fun wr_bits :: "nat \<Rightarrow> nat \<Rightarrow> bit_writer \<Rightarrow> bit_writer" where
  "wr_bits value 0 w = w"
| "wr_bits value (Suc i) w = wr_bits value i (wr_bit (value div 2 ^ i mod 2) w)"

text \<open>\<open>32 - leading_zeros\<close>: the width of a \<open>u32\<close>.\<close>

fun bit_width :: "nat \<Rightarrow> nat" where
  "bit_width n = (if n = 0 then 0 else Suc (bit_width (n div 2)))"

declare bit_width.simps [simp del]

definition wr_ue :: "nat \<Rightarrow> bit_writer \<Rightarrow> bit_writer" where
  "wr_ue value w =
     (let coded = (value + 1) mod 2 ^ 32; width = bit_width coded
      in wr_bits coded width (wr_bits 0 ((width + 2 ^ 32 - 1) mod 2 ^ 32) w))"

text \<open>The writer holds exactly the bits \<open>bs\<close>, padded with zero bits to a whole byte.\<close>

definition holds :: "bit_writer \<Rightarrow> bool list \<Rightarrow> bool" where
  "holds w bs \<longleftrightarrow> bw_bits w = length bs \<and> length (bw_data w) = (length bs + 7) div 8 \<and>
     (\<forall>i < 8 * length (bw_data w). bit_at (bw_data w) i = (i < length bs \<and> bs ! i))"

lemma ceil_div_8: "(n + 7) div 8 = n div 8 + (if n mod 8 = 0 then 0 else 1)" for n :: nat
proof (cases "n mod 8 = 0")
  case False
  then have "(n mod 8 + 7) div 8 = 1" by (intro div_nat_eqI) auto
  with False show ?thesis using div_add1_eq [of n 7 8] by simp
qed auto

lemma holds_new [simp]: "holds bit_writer_new []"
  by (simp add: holds_def bit_writer_new_def)

lemma bit_at_append_zero:
  assumes "i < 8 * Suc (length d)"
  shows "bit_at (d @ [0]) i = (i < 8 * length d \<and> bit_at d i)"
  using assms by (auto simp: bit_at_def nth_append div_less_iff_less_mult mult.commute)

lemma bit_at_set:
  assumes "k < length d" and "j < 8" and "i < 8 * length d"
  shows "bit_at (d[k := set_bit (7 - j) (d ! k)]) i = (i = 8 * k + j \<or> bit_at d i)"
proof -
  have "i mod 8 < 8" by simp
  then have "7 - i mod 8 = 7 - j \<longleftrightarrow> i mod 8 = j" using assms(2) by linarith
  moreover have "i = 8 * k + j \<longleftrightarrow> i div 8 = k \<and> i mod 8 = j" using assms(2) by auto
  moreover have "i div 8 < length d" using assms(3) by (simp add: div_less_iff_less_mult)
  ultimately show ?thesis using assms(1)
    by (auto simp: bit_at_def nth_list_update bit_set_bit_iff)
qed

lemma holds_wr_bit:
  assumes "holds w bs"
  shows "holds (wr_bit v w) (bs @ [odd v])"
proof -
  define n where "n = length bs"
  define d where "d = (if n mod 8 = 0 then bw_data w @ [0] else bw_data w)"
  define e where "e = (if v mod 2 = 1
    then d[length d - 1 := set_bit (7 - n mod 8) (d ! (length d - 1))] else d)"
  have w: "bw_bits w = n" "length (bw_data w) = (n + 7) div 8"
      "\<And>i. i < 8 * length (bw_data w) \<Longrightarrow> bit_at (bw_data w) i = (i < n \<and> bs ! i)"
    using assms by (auto simp: holds_def n_def)
  have len: "length d = n div 8 + 1"
    using w(2) by (simp add: d_def ceil_div_8)
  have dbits: "bit_at d i = (i < n \<and> bs ! i)" if "i < 8 * length d" for i
  proof (cases "n mod 8 = 0")
    case True
    then have "n = 8 * length (bw_data w)" using w(2) by (auto simp: ceil_div_8)
    with that True w(3) show ?thesis by (auto simp: d_def bit_at_append_zero)
  qed (use that w(3) in \<open>simp add: d_def\<close>)
  have set: "bit_at (d[length d - 1 := set_bit (7 - n mod 8) (d ! (length d - 1))]) i
      = (i = n \<or> bit_at d i)" if "i < 8 * length d" for i
    using bit_at_set [of "length d - 1" d "n mod 8" i] that len by simp
  have e: "wr_bit v w = \<lparr>bw_data = e, bw_bits = Suc n\<rparr>"
    by (simp add: wr_bit_def Let_def w(1) e_def d_def)
  have "bit_at e i = (i < Suc n \<and> (bs @ [odd v]) ! i)" if "i < 8 * length d" for i
    using set [OF that] dbits [OF that]
    by (cases "i < n"; cases "i = n")
      (simp_all add: nth_append odd_iff_mod_2_eq_one e_def flip: n_def)
  moreover have "length e = length d" "length d = (Suc n + 7) div 8"
    using len by (simp_all add: e_def)
  ultimately show ?thesis
    unfolding e holds_def by (simp flip: n_def)
qed


text \<open>The bits \<open>bits_of(value, count)\<close> writes.\<close>

definition bits_list :: "nat \<Rightarrow> nat \<Rightarrow> bool list" where
  "bits_list value count = map (\<lambda>i. odd (value div 2 ^ i)) (rev [0..<count])"

lemma bits_list_0 [simp]: "bits_list v 0 = []"
  by (simp add: bits_list_def)

lemma bits_list_Suc: "bits_list v (Suc n) = odd (v div 2 ^ n) # bits_list v n"
  by (simp add: bits_list_def)

lemma length_bits_list [simp]: "length (bits_list v n) = n"
  by (simp add: bits_list_def)

lemma bits_list_zero: "bits_list 0 n = replicate n False"
  by (induction n) (auto simp: bits_list_Suc)

lemma holds_wr_bits:
  "holds w bs \<Longrightarrow> holds (wr_bits v n w) (bs @ bits_list v n)"
proof (induction n arbitrary: w bs)
  case (Suc n)
  have "holds (wr_bit (v div 2 ^ n mod 2) w) (bs @ [odd (v div 2 ^ n)])"
    using holds_wr_bit [OF Suc.prems, of "v div 2 ^ n mod 2"] by (simp add: odd_iff_mod_2_eq_one)
  from Suc.IH [OF this] show ?case by (simp add: bits_list_Suc)
qed simp

lemma bit_width_0 [simp]: "bit_width 0 = 0"
  by (subst bit_width.simps) simp

lemma bit_width_bounds: "0 < n \<Longrightarrow> 2 ^ (bit_width n - 1) \<le> n \<and> n < 2 ^ bit_width n \<and> 0 < bit_width n"
proof (induction n rule: bit_width.induct)
  case (1 n)
  show ?case
  proof (cases "n div 2 = 0")
    case True
    then have "n = 1" using 1 by auto
    then show ?thesis by (simp add: bit_width.simps)
  next
    case False
    have n: "bit_width n = Suc (bit_width (n div 2))" using 1 by (simp add: bit_width.simps [of n])
    have ih: "2 ^ (bit_width (n div 2) - 1) \<le> n div 2" "n div 2 < 2 ^ bit_width (n div 2)"
        "0 < bit_width (n div 2)"
      using 1 False by auto
    then have "2 * 2 ^ (bit_width (n div 2) - 1) = (2::nat) ^ bit_width (n div 2)"
      by (simp flip: power_Suc)
    then show ?thesis using ih(1,2) n by simp linarith
  qed
qed

lemma bit_width_le: "n < 2 ^ k \<Longrightarrow> bit_width n \<le> k"
proof (induction k arbitrary: n)
  case (Suc k)
  then have "bit_width (n div 2) \<le> k" by simp
  then show ?case by (simp add: bit_width.simps [of n])
qed (simp add: bit_width.simps)

text \<open>The codeword of an unsigned exp-Golomb value.\<close>

definition ue_bits :: "nat \<Rightarrow> bool list" where
  "ue_bits v = replicate (bit_width (v + 1) - 1) False @ bits_list (v + 1) (bit_width (v + 1))"

lemma holds_wr_ue:
  assumes "holds w bs" and "v < 2 ^ 32 - 1"
  shows "holds (wr_ue v w) (bs @ ue_bits v)"
proof -
  have v: "(v + 1) mod 2 ^ 32 = v + 1" using assms(2) by simp
  have "0 < bit_width (v + 1)" "bit_width (v + 1) \<le> 32"
    using bit_width_bounds [of "v + 1"] bit_width_le [of "v + 1" 32] assms(2) by auto
  then have "(bit_width (v + 1) + 2 ^ 32 - 1) mod 2 ^ 32 = bit_width (v + 1) - 1"
    by (cases "bit_width (v + 1)") auto
  then show ?thesis
    unfolding wr_ue_def Let_def v ue_bits_def
    using holds_wr_bits [OF holds_wr_bits [OF assms(1)], of "v + 1" "bit_width (v + 1)" 0
        "bit_width (v + 1) - 1"]
    by (simp add: bits_list_zero)
qed

section \<open>Reading known bits\<close>

text \<open>The data has the bits \<open>bs\<close> at position \<open>pos\<close>.\<close>

definition reads :: "byte list \<Rightarrow> nat \<Rightarrow> bool list \<Rightarrow> bool" where
  "reads d pos bs \<longleftrightarrow> pos + length bs \<le> 8 * length d \<and>
     (\<forall>i < length bs. bit_at d (pos + i) = bs ! i)"

lemma holds_reads: "holds w (as @ bs) \<Longrightarrow> reads (bw_data w) (length as) bs"
  by (auto simp: holds_def reads_def nth_append)

lemma holds_reads_0: "holds w bs \<Longrightarrow> reads (bw_data w) 0 bs"
  using holds_reads [of w "[]" bs] by simp

lemma reads_append: "reads d pos (as @ bs) \<longleftrightarrow> reads d pos as \<and> reads d (pos + length as) bs"
proof -
  have "(\<forall>i < length as + length bs. bit_at d (pos + i) = (as @ bs) ! i) \<longleftrightarrow>
     (\<forall>i < length as. bit_at d (pos + i) = as ! i) \<and>
     (\<forall>i < length bs. bit_at d (pos + (length as + i)) = bs ! i)"
    (is "?l \<longleftrightarrow> ?a \<and> ?b")
  proof
    assume l: ?l
    have ?a using l by (auto simp: nth_append)
    moreover have ?b
    proof (intro allI impI)
      fix i assume "i < length bs"
      with l [rule_format, of "length as + i"] show "bit_at d (pos + (length as + i)) = bs ! i"
        by (simp add: nth_append)
    qed
    ultimately show "?a \<and> ?b" ..
  next
    assume ab: "?a \<and> ?b"
    show ?l
    proof (intro allI impI)
      fix i assume "i < length as + length bs"
      then show "bit_at d (pos + i) = (as @ bs) ! i"
        using ab [THEN conjunct1, rule_format, of i] ab [THEN conjunct2, rule_format, of "i - length as"]
        by (cases "i < length as") (auto simp: nth_append)
    qed
  qed
  then show ?thesis by (auto simp: reads_def add.assoc)
qed

lemma reads_drop: "reads d pos (as @ bs) \<Longrightarrow> n = pos + length as \<Longrightarrow> reads d n bs"
  using reads_append [of d pos as bs] by blast

lemma reads_Cons: "reads d pos (b # bs) \<longleftrightarrow> reads d pos [b] \<and> reads d (Suc pos) bs"
  using reads_append [of d pos "[b]" bs] by simp

lemma rd_bit_reads:
  "reads d pos (b # bs) \<Longrightarrow>
   rd_bit \<lparr>br_data = d, br_pos = pos\<rparr> = Some (of_bool b, \<lparr>br_data = d, br_pos = Suc pos\<rparr>)"
  by (auto simp: reads_def rd_bit_def div_less_iff_less_mult)

lemma reads_tl: "reads d pos (b # bs) \<Longrightarrow> reads d (Suc pos) bs"
  by (simp add: reads_Cons [of d pos b bs])

text \<open>The number a list of bits spells, most significant first.\<close>

fun bits_val :: "nat \<Rightarrow> bool list \<Rightarrow> nat" where
  "bits_val acc [] = acc"
| "bits_val acc (b # bs) = bits_val (2 * acc + of_bool b) bs"

lemma bits_val_acc: "bits_val acc bs = acc * 2 ^ length bs + bits_val 0 bs"
proof (induction bs arbitrary: acc)
  case (Cons b bs)
  show ?case
    using Cons.IH [of "2 * acc + of_bool b"] Cons.IH [of "of_bool b"]
    by (simp add: algebra_simps)
qed simp

lemma bits_val_less: "bits_val 0 bs < 2 ^ length bs"
proof (induction bs)
  case (Cons b bs)
  then show ?case using bits_val_acc [of "of_bool b" bs] by simp
qed simp

lemma bits_val_bits_list: "bits_val 0 (bits_list v n) = v mod 2 ^ n"
proof (induction n)
  case (Suc n)
  have "v mod 2 ^ Suc n = 2 ^ n * (v div 2 ^ n mod 2) + v mod 2 ^ n"
    using mod_mult2_eq [of v "2 ^ n" 2] by (simp add: mult.commute)
  moreover have "bits_val 0 (bits_list v (Suc n)) = of_bool (odd (v div 2 ^ n)) * 2 ^ n + v mod 2 ^ n"
    using Suc bits_val_acc [of "of_bool (odd (v div 2 ^ n))" "bits_list v n"] by (simp add: bits_list_Suc)
  ultimately show ?case by (simp add: odd_iff_mod_2_eq_one mult.commute)
qed simp

lemma rd_bits_from_reads:
  assumes "reads d pos (bs @ rest)" and "acc * 2 ^ length bs + bits_val 0 bs < 2 ^ 32"
  shows "rd_bits_from (length bs) acc \<lparr>br_data = d, br_pos = pos\<rparr>
     = Some (bits_val acc bs, \<lparr>br_data = d, br_pos = pos + length bs\<rparr>)"
  using assms
proof (induction bs arbitrary: acc pos)
  case (Cons b bs)
  have val: "bits_val acc (b # bs) < 2 ^ 32"
    using Cons.prems(2) bits_val_acc [of acc "b # bs"] by simp
  then have lt: "bits_val (2 * acc + of_bool b) bs < 2 ^ 32" by simp
  have "2 * acc + of_bool b \<le> bits_val (2 * acc + of_bool b) bs"
    using bits_val_acc [of "2 * acc + of_bool b" bs] by (simp add: trans_le_add1)
  with lt have "2 * acc + of_bool b < 2 ^ 32" by linarith
  moreover have "rd_bits_from (length bs) (2 * acc + of_bool b) \<lparr>br_data = d, br_pos = Suc pos\<rparr>
     = Some (bits_val (2 * acc + of_bool b) bs, \<lparr>br_data = d, br_pos = Suc pos + length bs\<rparr>)"
    using Cons.IH [of "Suc pos" "2 * acc + of_bool b"] reads_tl [of d pos b "bs @ rest"]
      Cons.prems(1) lt bits_val_acc [of "2 * acc + of_bool b" bs] by simp
  ultimately show ?case
    using rd_bit_reads [of d pos b "bs @ rest"] Cons.prems(1) by simp
qed simp

lemma rd_bits_reads:
  assumes "reads d pos (bs @ rest)" and "length bs \<le> 32"
  shows "rd_bits (length bs) \<lparr>br_data = d, br_pos = pos\<rparr>
     = Some (bits_val 0 bs, \<lparr>br_data = d, br_pos = pos + length bs\<rparr>)"
proof -
  have "bits_val 0 bs < 2 ^ 32"
    using bits_val_less [of bs] power_increasing [OF assms(2), of "2 :: nat"] by linarith
  then show ?thesis using rd_bits_from_reads [OF assms(1), of 0] by (simp add: rd_bits_def)
qed

lemma rd_zeros_reads:
  assumes "reads d pos (replicate z False @ True # rest)" and "k + z \<le> 32"
  shows "rd_zeros k \<lparr>br_data = d, br_pos = pos\<rparr> = Some (k + z, \<lparr>br_data = d, br_pos = pos + z + 1\<rparr>)"
  using assms
proof (induction z arbitrary: k pos)
  case 0
  then show ?case using rd_bit_reads [of d pos True rest] by (simp add: rd_zeros.simps [of k])
next
  case (Suc z)
  then have "rd_bit \<lparr>br_data = d, br_pos = pos\<rparr> = Some (0, \<lparr>br_data = d, br_pos = Suc pos\<rparr>)"
    and "reads d (Suc pos) (replicate z False @ True # rest)"
    using rd_bit_reads [of d pos False] reads_tl [of d pos False] by auto
  with Suc.IH [of "Suc pos" "Suc k"] Suc.prems(2) show ?case
    by (subst rd_zeros.simps) simp
qed

lemma rd_ue_reads:
  assumes "reads d pos (ue_bits v @ rest)" and "v < 2 ^ 32 - 1"
  shows "rd_ue \<lparr>br_data = d, br_pos = pos\<rparr>
     = Some (v, \<lparr>br_data = d, br_pos = pos + length (ue_bits v)\<rparr>)"
proof -
  define z where "z = bit_width (v + 1) - 1"
  have bw: "bit_width (v + 1) = Suc z" and lo: "2 ^ z \<le> v + 1"
    using bit_width_bounds [of "v + 1"] by (auto simp: z_def)
  have hi: "v + 1 < 2 * 2 ^ z"
    using bit_width_bounds [of "v + 1"] unfolding bw by simp
  have "bit_width (v + 1) \<le> 32" using bit_width_le [of "v + 1" 32] assms(2) by simp
  then have z: "z < 32" using bw by simp
  have top: "(v + 1) div 2 ^ z = 1" using lo hi by (intro div_nat_eqI) auto
  have ue: "ue_bits v = replicate z False @ True # bits_list (v + 1) z"
    unfolding ue_bits_def bw by (simp only: bits_list_Suc top) simp
  have r: "reads d pos (replicate z False @ True # (bits_list (v + 1) z @ rest))"
    using assms(1) by (simp add: ue)
  then have "reads d (pos + z + 1) (bits_list (v + 1) z @ rest)"
    using reads_tl [of d "pos + z" True] by (simp add: reads_append [of d pos "replicate z False"])
  then have "rd_bits z \<lparr>br_data = d, br_pos = pos + z + 1\<rparr>
      = Some ((v + 1) mod 2 ^ z, \<lparr>br_data = d, br_pos = pos + z + 1 + z\<rparr>)"
    using rd_bits_reads [of d "pos + z + 1" "bits_list (v + 1) z" rest] z
    by (simp add: bits_val_bits_list)
  moreover have "(v + 1) mod 2 ^ z = v + 1 - 2 ^ z"
    using mult_div_mod_eq [of "2 ^ z" "v + 1"] by (simp only: top)
  moreover have "length (ue_bits v) = 2 * z + 1" by (simp add: ue)
  ultimately show ?thesis
    using rd_zeros_reads [OF r, of 0] z lo hi assms(2)
    by (cases "z = 0") (auto simp: rd_ue_def)
qed


section \<open>Emulation prevention: \<open>unescape\<close> and \<open>escape\<close>\<close>

fun unescape :: "byte list \<Rightarrow> byte list" where
  "unescape (a # b # c # rest) =
     (if a = 0 \<and> b = 0 \<and> c = 3 then 0 # 0 # unescape rest
      else a # unescape (b # c # rest))"
| "unescape [a, b] = [a, b]"
| "unescape [a] = [a]"
| "unescape [] = []"

fun escape_from :: "nat \<Rightarrow> byte list \<Rightarrow> byte list" where
  "escape_from zeros [] = []"
| "escape_from zeros (b # rest) =
     (if 2 \<le> zeros \<and> b \<le> 3
      then 3 # b # escape_from (if b = 0 then 1 else 0) rest
      else b # escape_from (if b = 0 then Suc zeros else 0) rest)"

definition escape :: "byte list \<Rightarrow> byte list" where
  "escape rbsp = escape_from 0 rbsp"

text \<open>A byte string without \<open>00 00 00\<close>, \<open>00 00 01\<close> or \<open>00 00 02\<close>: it has no start code.\<close>

fun start_code_free :: "byte list \<Rightarrow> bool" where
  "start_code_free (a # b # c # rest) \<longleftrightarrow>
     \<not> (a = 0 \<and> b = 0 \<and> c \<le> 2) \<and> start_code_free (b # c # rest)"
| "start_code_free _ \<longleftrightarrow> True"

lemma unescape_Cons: "a \<noteq> 0 \<Longrightarrow> unescape (a # xs) = a # unescape xs"
  by (cases xs rule: unescape.cases) auto

lemma unescape_zero: "b \<noteq> 0 \<Longrightarrow> unescape (0 # b # xs) = 0 # b # unescape xs"
  by (cases xs) (simp_all add: unescape_Cons)

lemma unescape_zeros: "c \<noteq> 3 \<Longrightarrow> c \<noteq> 0 \<Longrightarrow> unescape (0 # 0 # c # xs) = 0 # 0 # c # unescape xs"
  by (simp add: unescape_zero)

text \<open>
  The three states of the escaper: with no zero pending, with one, with two (the pending
  zeros are already written, so the reader has to be taken back to them).
\<close>

lemma unescape_escape_from:
  "unescape (escape_from 0 xs) = xs"
  "unescape (0 # escape_from 1 xs) = 0 # xs"
  "unescape (0 # 0 # escape_from 2 xs) = 0 # 0 # xs"
proof (induction xs)
  case (Cons x xs)
  {
    case 1
    then show ?case using Cons.IH by (cases "x = 0") (simp_all add: unescape_Cons)
  next
    case 2
    then show ?case using Cons.IH
      by (cases "x = 0") (simp_all add: unescape_zero numeral_2_eq_2)
  next
    case 3
    have n: "x \<noteq> 0 \<and> x \<noteq> 3" if "\<not> x \<le> 3"
      using that by auto
    show ?case using Cons.IH n
      by (cases "x \<le> 3"; cases "x = 0") (simp_all add: unescape_zero unescape_zeros unescape_Cons)
  }
qed simp_all

lemma unescape_escape [simp]: "unescape (escape xs) = xs"
  by (simp add: escape_def unescape_escape_from)

lemma start_code_free_Cons: "a \<noteq> 0 \<Longrightarrow> start_code_free (a # xs) \<longleftrightarrow> start_code_free xs"
  by (cases xs rule: start_code_free.cases) auto

lemma start_code_free_zero: "b \<noteq> 0 \<Longrightarrow> start_code_free (0 # b # xs) \<longleftrightarrow> start_code_free xs"
  by (cases xs) (auto simp: start_code_free_Cons)

lemma start_code_free_zeros: "\<not> c \<le> 2 \<Longrightarrow> start_code_free (0 # 0 # c # xs) \<longleftrightarrow> start_code_free xs"
proof -
  assume "\<not> c \<le> 2"
  then have "c \<noteq> 0" by auto
  then show ?thesis using \<open>\<not> c \<le> 2\<close> by (simp add: start_code_free_zero)
qed

lemma start_code_free_escape_from:
  "start_code_free (escape_from 0 xs)"
  "start_code_free (0 # escape_from 1 xs)"
  "start_code_free (0 # 0 # escape_from 2 xs)"
proof (induction xs)
  case (Cons x xs)
  {
    case 1
    then show ?case using Cons.IH by (cases "x = 0") (simp_all add: start_code_free_Cons)
  next
    case 2
    then show ?case using Cons.IH
      by (cases "x = 0") (simp_all add: start_code_free_zero numeral_2_eq_2)
  next
    case 3
    have n: "\<not> x \<le> 2 \<and> x \<noteq> 0" if "\<not> x \<le> 3"
      using that by (auto simp: word_le_nat_alt)
    have three: "\<not> (3::byte) \<le> 2" by simp
    show ?case using Cons.IH n three
      by (cases "x \<le> 3"; cases "x = 0") (simp_all add: start_code_free_zero start_code_free_zeros start_code_free_Cons)
  }
qed simp_all

lemma length_escape_from:
  "z \<le> 2 \<Longrightarrow> 2 * length (escape_from z xs) \<le> 3 * length xs + z"
proof (induction xs arbitrary: z)
  case (Cons x xs)
  show ?case
    using Cons.prems Cons.IH [of 0] Cons.IH [of 1] Cons.IH [of "Suc z"]
    by (cases "x = 0"; cases "x \<le> 3"; cases "z = 2") auto
qed simp

text \<open>
  \<open>escape\<close> and \<open>unescape\<close> are inverse on every payload \<open>escape\<close> can be given, what
  \<open>escape\<close> writes contains none of the byte triples \<open>00 00 00\<close>, \<open>00 00 01\<close>, \<open>00 00 02\<close>
  (so it cannot be mistaken for a start code), and it is at most half as long again.
\<close>

theorem escape_roundtrip:
  "unescape (escape rbsp) = rbsp \<and> start_code_free (escape rbsp) \<and>
   2 * length (escape rbsp) \<le> 3 * length rbsp"
  using length_escape_from [of 0 rbsp] by (simp add: escape_def unescape_escape_from start_code_free_escape_from)


section \<open>Exp-Golomb round trip\<close>

text \<open>
  a value short of \<open>u32::MAX\<close> that the writer codes as unsigned exp-Golomb is the value
  the reader finds at that place, whatever was written before and is written after it, and
  the reader ends exactly where the writer did.
\<close>

theorem ue_roundtrip:
  assumes "holds w bs" and "v < 2 ^ 32 - 1"
  shows "rd_ue \<lparr>br_data = bw_data (wr_bits t n (wr_ue v w)), br_pos = bw_bits w\<rparr> =
     Some (v, \<lparr>br_data = bw_data (wr_bits t n (wr_ue v w)), br_pos = bw_bits (wr_ue v w)\<rparr>)"
proof -
  have w: "holds (wr_ue v w) (bs @ ue_bits v)" by (rule holds_wr_ue [OF assms])
  then have "bw_bits (wr_ue v w) = length bs + length (ue_bits v)" "bw_bits w = length bs"
    using assms(1) by (auto simp: holds_def)
  moreover have "reads (bw_data (wr_bits t n (wr_ue v w))) (length bs) (ue_bits v @ bits_list t n)"
    using holds_wr_bits [OF w, of t n] by (intro holds_reads) simp
  from rd_ue_reads [OF this assms(2)] calculation show ?thesis by simp
qed

theorem ue_roundtrip_witness:
  "holds bit_writer_new [] \<and>
   rd_ue \<lparr>br_data = bw_data (wr_bits 0 3 (wr_ue 15 bit_writer_new)), br_pos = bw_bits bit_writer_new\<rparr> =
     Some (15, \<lparr>br_data = bw_data (wr_bits 0 3 (wr_ue 15 bit_writer_new)),
                br_pos = bw_bits (wr_ue 15 bit_writer_new)\<rparr>)"
  using ue_roundtrip [of bit_writer_new "[]" 15 0 3] by simp

lemma bw_bits_wr_bits [simp]: "bw_bits (wr_bits v n w) = bw_bits w + n"
  by (induction n arbitrary: w) (simp_all add: wr_bit_def Let_def)

lemma bits_list_ones: "bits_list (2 ^ n - 1) n = replicate n True"
proof (rule nth_equalityI)
  fix i assume "i < length (bits_list (2 ^ n - 1) n)"
  then show "bits_list (2 ^ n - 1) n ! i = replicate n True ! i"
    using bit_mask_iff [where 'a = nat, of n "n - Suc i"]
    by (simp add: bits_list_def rev_nth bit_iff_odd mask_eq_exp_minus_1)
qed simp

lemma bits_val_ones: "bits_val 0 (replicate n True) = 2 ^ n - 1"
proof (induction n)
  case (Suc n)
  then show ?case using bits_val_acc [of 1 "replicate n True"] by simp
qed simp

text \<open>
  The reader accepts a codeword with 32 leading zeros, one longer than the largest legal
  one. In a release build, where the shift amount wraps to 0, it yields the low 32 bits alone,
  so \<open>u32::MAX\<close> when they are all ones; and given \<open>u32::MAX\<close> the writer's \<open>width - 1\<close>
  wraps and it writes \<open>2\<^sup>3\<^sup>2 - 1\<close> zero bits, half a gigabyte of them.
\<close>

theorem ue_max_wraps:
  assumes "reads d pos (replicate 32 False @ True # bits @ rest)" and "length bits = 32"
  shows "rd_ue \<lparr>br_data = d, br_pos = pos\<rparr>
      = Some (bits_val 0 bits, \<lparr>br_data = d, br_pos = pos + 65\<rparr>) \<and>
    (bits = replicate 32 True \<longrightarrow> bits_val 0 bits = 2 ^ 32 - 1) \<and>
    bw_bits (wr_ue (2 ^ 32 - 1) w) = bw_bits w + (2 ^ 32 - 1)"
proof -
  have "rd_zeros 0 \<lparr>br_data = d, br_pos = pos\<rparr> = Some (32, \<lparr>br_data = d, br_pos = pos + 33\<rparr>)"
    using rd_zeros_reads [OF assms(1), of 0] by simp
  moreover have "reads d (pos + 33) (bits @ rest)"
    using reads_tl [of d "pos + 32" True "bits @ rest"] assms(1)
    by (simp add: reads_append [of d pos "replicate 32 False"] add.commute)
  then have "rd_bits 32 \<lparr>br_data = d, br_pos = pos + 33\<rparr>
      = Some (bits_val 0 bits, \<lparr>br_data = d, br_pos = pos + 33 + 32\<rparr>)"
    using rd_bits_reads [of d "pos + 33" bits rest] assms(2) by simp
  moreover have "bits_val 0 bits < 2 ^ 32" using bits_val_less [of bits] assms(2) by simp
  moreover have "bw_bits (wr_ue (2 ^ 32 - 1) w) = bw_bits w + (2 ^ 32 - 1)"
    unfolding wr_ue_def Let_def bw_bits_wr_bits by (simp add: bit_width_0)
  ultimately show ?thesis
    using bits_val_ones [of 32] by (simp add: rd_ue_def)
qed

theorem ue_max_wraps_witness:
  "\<exists>d. reads d 0 (replicate 32 False @ True # replicate 32 True @ []) \<and>
     rd_ue \<lparr>br_data = d, br_pos = 0\<rparr> = Some (2 ^ 32 - 1, \<lparr>br_data = d, br_pos = 65\<rparr>)"
proof -
  define w where "w = wr_bits (2 ^ 32 - 1) 32 (wr_bit 1 (wr_bits 0 32 bit_writer_new))"
  have "holds (wr_bits 0 32 bit_writer_new) (replicate 32 False)"
    using holds_wr_bits [OF holds_new, of 0 32] by (simp add: bits_list_zero)
  from holds_wr_bits [OF holds_wr_bit [OF this, of 1], of "2 ^ 32 - 1" 32]
  have "holds w ((replicate 32 False @ [True]) @ bits_list (2 ^ 32 - 1) 32)"
    by (simp add: w_def)
  moreover have "bits_list (2 ^ 32 - 1) 32 = replicate 32 True"
    by (rule bits_list_ones)
  ultimately have r: "reads (bw_data w) 0 (replicate 32 False @ True # replicate 32 True @ [])"
    using holds_reads_0 by simp
  then show ?thesis using ue_max_wraps [OF r] by (intro exI [of _ "bw_data w"]) simp
qed


section \<open>Evaluation on concrete data\<close>

lemma rd_bits_from_numeral [bit_eval]:
  "rd_bits_from (numeral n) v r =
     do { (b, r) \<leftarrow> rd_bit r; rd_bits_from (pred_numeral n) ((2 * v + b) mod 2 ^ 32) r }"
  by (simp only: numeral_eq_Suc rd_bits_from.simps)

lemma wr_bits_numeral [bit_eval]:
  "wr_bits v (numeral n) w = wr_bits v (pred_numeral n) (wr_bit (v div 2 ^ pred_numeral n mod 2) w)"
  by (simp only: numeral_eq_Suc wr_bits.simps)

lemma rd_zeros_step [bit_eval]:
  "rd_bit r = Some (b, r') \<Longrightarrow>
   rd_zeros z r = (if b \<noteq> 0 then Some (z, r') else if 32 < Suc z then None else rd_zeros (Suc z) r')"
  by (subst rd_zeros.simps) simp

text \<open>Only the first step of a bind is simplified, so that a walk is evaluated outside in.\<close>

lemma bind_weak_cong: "x = y \<Longrightarrow> Option.bind x f = Option.bind y f"
  by simp

lemmas [bit_eval] = rd_bit_def rd_bits_def bit_at_def rd_ue_def rd_se_def to_i32_def rd_skip_def bit_reader_new_def
  wr_bit_def wr_ue_def bit_writer_new_def escape_def Let_def

end
