(* ===== verification/H264_Sps.thy ===== *)
theory H264_Sps
  imports Bits
begin

text \<open>
  Sequence parameter sets, \<^verbatim>\<open>src/src/h264_sps.rs\<close>: what an SPS signals about colour
  (\<open>ColourSignal\<close>), the walk over its syntax (\<open>parse_rbsp\<close>), and the three edits the proxy
  makes to it in flight: \<open>allow_frame_num_gaps\<close>, \<open>complete_colour_signalling\<close> and
  \<open>declare_no_reordering\<close>. The properties say what a decoder will read from the edited
  SPS, and that each edit is made once.
\<close>

section \<open>\<open>ColourSignal\<close>\<close>

record colour_signal =
  vui_present :: bool
  video_signal_type_present :: bool
  full_range :: bool
  primaries :: "nat option"
  transfer :: "nat option"
  matrix :: "nat option"

definition is_actionable :: "colour_signal \<Rightarrow> bool" where
  "is_actionable s \<longleftrightarrow> video_signal_type_present s \<and>
     (case primaries s of Some p \<Rightarrow> p \<noteq> 2 | None \<Rightarrow> False) \<and>
     (case transfer s of Some t \<Rightarrow> t \<noteq> 2 | None \<Rightarrow> False)"

definition needs_description :: "colour_signal \<Rightarrow> bool" where
  "needs_description s \<longleftrightarrow> vui_present s \<and> primaries s = None"

text \<open>
  The journal line of \<open>describe\<close>, by the text it chooses: the two early returns, or the
  four values with their formatting and the closing verdict.
\<close>

datatype shown = Absent | Unspecified | BT709 | Other nat

datatype verdict_text = Usable | No_description | Unusable

datatype description =
    No_signal_type
  | No_vui_at_all
  | Values (d_full_range: nat) (d_primaries: shown) (d_transfer: shown) (d_matrix: shown)
      (d_verdict: verdict_text)

definition fmt :: "nat option \<Rightarrow> shown" where
  "fmt v = (case v of None \<Rightarrow> Absent | Some n \<Rightarrow>
     if n = 2 then Unspecified else if n = 1 then BT709 else Other n)"

definition describe :: "colour_signal \<Rightarrow> description" where
  "describe s =
     (if \<not> video_signal_type_present s
      then (if vui_present s then No_signal_type else No_vui_at_all)
      else Values (of_bool (full_range s)) (fmt (primaries s)) (fmt (transfer s)) (fmt (matrix s))
        (if is_actionable s then Usable
         else if needs_description s then No_description
         else Unusable))"

section \<open>Walking the SPS\<close>

datatype splice_site = SignalType nat | Description nat | Splice_Nowhere

datatype reorder_site = NoVui nat | Flag nat | Reorder_Nowhere

record sps_prefix =
  sp_seq_parameter_set_id :: nat
  sp_chroma_array_type :: nat
  sp_separate_colour_plane :: bool

record parsed =
  p_signal :: colour_signal
  p_splice :: splice_site
  p_gaps_bit :: nat
  p_reorder :: reorder_site
  p_max_num_ref_frames :: nat

text \<open>One scaling list: \<open>size\<close> entries, coded as differences until one is zero.\<close>

fun scaling_list :: "nat \<Rightarrow> int \<Rightarrow> int \<Rightarrow> unit rd" where
  "scaling_list 0 prev nxt r = Some ((), r)"
| "scaling_list (Suc n) prev nxt r =
     do { (nxt, r) \<leftarrow> (if nxt \<noteq> 0
                       then do { (delta, r) \<leftarrow> rd_se r; Some ((prev + delta + 256) mod 256, r) }
                       else Some (nxt, r));
          scaling_list n (if nxt \<noteq> 0 then nxt else prev) nxt r }"

fun scaling_lists :: "nat \<Rightarrow> nat \<Rightarrow> unit rd" where
  "scaling_lists i 0 r = Some ((), r)"
| "scaling_lists i (Suc n) r =
     do { (present, r) \<leftarrow> rd_bit r;
          (_, r) \<leftarrow> (if present = 1 then scaling_list (if i < 6 then 16 else 64) 8 8 r
                     else Some ((), r));
          scaling_lists (Suc i) n r }"

definition high_profiles :: "nat list" where
  "high_profiles = [100, 110, 122, 244, 44, 83, 86, 118, 128, 138, 139, 134, 135]"

text \<open>The chroma format and scaling lists of the high profiles.\<close>

definition read_high_profile :: "(nat \<times> bool) rd" where
  "read_high_profile r =
     do { (chroma_format_idc, r) \<leftarrow> rd_ue r;
          (separate, r) \<leftarrow> (if chroma_format_idc = 3
                            then do { (b, r) \<leftarrow> rd_bit r; Some (b = 1, r) }
                            else Some (False, r));
          (_, r) \<leftarrow> rd_ue r;
          (_, r) \<leftarrow> rd_ue r;
          (_, r) \<leftarrow> rd_bit r;
          (lists, r) \<leftarrow> rd_bit r;
          (_, r) \<leftarrow> (if lists = 1 then scaling_lists 0 (if chroma_format_idc = 3 then 12 else 8) r
                     else Some ((), r));
          Some ((if separate then 0 else chroma_format_idc, separate), r) }"

definition read_sps_prefix :: "sps_prefix rd" where
  "read_sps_prefix r =
     do { (profile_idc, r) \<leftarrow> rd_bits 8 r;
          (_, r) \<leftarrow> rd_bits 8 r;
          (_, r) \<leftarrow> rd_bits 8 r;
          (seq_parameter_set_id, r) \<leftarrow> rd_ue r;
          (chroma, r) \<leftarrow> (if profile_idc \<in> set high_profiles then read_high_profile r
                          else Some ((1, False), r));
          Some (\<lparr>sp_seq_parameter_set_id = seq_parameter_set_id, sp_chroma_array_type = fst chroma,
                 sp_separate_colour_plane = snd chroma\<rparr>, r) }"

definition skip_hrd :: "unit rd" where
  "skip_hrd r =
     do { (n, r) \<leftarrow> rd_ue r;
          let cpb_cnt = (n + 1) mod 2 ^ 32;
          if 32 < cpb_cnt then None
          else do { (_, r) \<leftarrow> rd_bits 4 r;
                    (_, r) \<leftarrow> rd_bits 4 r;
                    (_, r) \<leftarrow> rd_repeat cpb_cnt (\<lambda>r. do { (_, r) \<leftarrow> rd_ue r; (_, r) \<leftarrow> rd_ue r; rd_skip rd_bit r }) r;
                    (_, r) \<leftarrow> rd_bits 5 r;
                    (_, r) \<leftarrow> rd_bits 5 r;
                    (_, r) \<leftarrow> rd_bits 5 r;
                    rd_skip (rd_bits 5) r } }"

text \<open>The VUI between the colour block and \<open>bitstream_restriction_flag\<close>.\<close>

definition vui_tail :: "unit rd" where
  "vui_tail r =
     do { (chroma_loc, r) \<leftarrow> rd_bit r;
          (_, r) \<leftarrow> (if chroma_loc = 1 then do { (_, r) \<leftarrow> rd_ue r; rd_skip rd_ue r } else Some ((), r));
          (timing, r) \<leftarrow> rd_bit r;
          (_, r) \<leftarrow> (if timing = 1
                     then do { (_, r) \<leftarrow> rd_bits 32 r; (_, r) \<leftarrow> rd_bits 32 r; rd_skip rd_bit r }
                     else Some ((), r));
          (nal_hrd, r) \<leftarrow> rd_bit r;
          (_, r) \<leftarrow> (if nal_hrd = 1 then skip_hrd r else Some ((), r));
          (vcl_hrd, r) \<leftarrow> rd_bit r;
          (_, r) \<leftarrow> (if vcl_hrd = 1 then skip_hrd r else Some ((), r));
          (_, r) \<leftarrow> (if nal_hrd = 1 \<or> vcl_hrd = 1 then rd_skip rd_bit r else Some ((), r));
          rd_skip rd_bit r }"

definition unrestricted_flag_bit :: "nat rd" where
  "unrestricted_flag_bit r =
     do { (_, r) \<leftarrow> vui_tail r;
          let at = br_pos r;
          (flag, r) \<leftarrow> rd_bit r;
          if flag = 0 then Some (at, r) else None }"

definition skip_pic_order_cnt :: "nat \<Rightarrow> unit rd" where
  "skip_pic_order_cnt pic_order_cnt_type r =
     (if pic_order_cnt_type = 0 then rd_skip rd_ue r
      else if pic_order_cnt_type = 1 then
        do { (_, r) \<leftarrow> rd_bit r;
             (_, r) \<leftarrow> rd_se r;
             (_, r) \<leftarrow> rd_se r;
             (cycle, r) \<leftarrow> rd_ue r;
             if 255 < cycle then None else rd_repeat cycle (rd_skip rd_se) r }
      else Some ((), r))"

text \<open>Up to \<open>gaps_in_frame_num_value_allowed_flag\<close>: the POC type and \<open>max_num_ref_frames\<close>.\<close>

definition sps_to_gaps :: "(nat \<times> nat) rd" where
  "sps_to_gaps r =
     do { (_, r) \<leftarrow> read_sps_prefix r;
          (_, r) \<leftarrow> rd_ue r;
          (pic_order_cnt_type, r) \<leftarrow> rd_ue r;
          (_, r) \<leftarrow> skip_pic_order_cnt pic_order_cnt_type r;
          (max_num_ref_frames, r) \<leftarrow> rd_ue r;
          Some ((pic_order_cnt_type, max_num_ref_frames), r) }"

text \<open>From there to \<open>vui_parameters_present_flag\<close>.\<close>

definition sps_to_vui :: "unit rd" where
  "sps_to_vui r =
     do { (_, r) \<leftarrow> rd_ue r;
          (_, r) \<leftarrow> rd_ue r;
          (frame_mbs_only, r) \<leftarrow> rd_bit r;
          (_, r) \<leftarrow> (if frame_mbs_only = 0 then rd_skip rd_bit r else Some ((), r));
          (_, r) \<leftarrow> rd_bit r;
          (crop, r) \<leftarrow> rd_bit r;
          if crop = 1
          then do { (_, r) \<leftarrow> rd_ue r; (_, r) \<leftarrow> rd_ue r; (_, r) \<leftarrow> rd_ue r; rd_skip rd_ue r }
          else Some ((), r) }"

text \<open>Everything before the VUI flag, with the position of the gaps flag.\<close>

definition sps_head :: "((nat \<times> nat) \<times> nat) rd" where
  "sps_head r =
     do { (counts, r) \<leftarrow> sps_to_gaps r;
          let gaps_bit = br_pos r;
          (_, r) \<leftarrow> rd_bit r;
          (_, r) \<leftarrow> sps_to_vui r;
          Some ((counts, gaps_bit), r) }"

text \<open>The aspect ratio and overscan fields of the VUI.\<close>

definition vui_head :: "unit rd" where
  "vui_head r =
     do { (aspect, r) \<leftarrow> rd_bit r;
          (_, r) \<leftarrow> (if aspect = 1
                     then do { (idc, r) \<leftarrow> rd_bits 8 r;
                               if idc = 255 then do { (_, r) \<leftarrow> rd_bits 16 r; rd_skip (rd_bits 16) r }
                               else Some ((), r) }
                     else Some ((), r));
          (overscan, r) \<leftarrow> rd_bit r;
          if overscan = 1 then rd_skip rd_bit r else Some ((), r) }"

definition no_colour :: "bool \<Rightarrow> colour_signal" where
  "no_colour vui = \<lparr>vui_present = vui, video_signal_type_present = False, full_range = False,
     primaries = None, transfer = None, matrix = None\<rparr>"

definition colour_block :: "(colour_signal \<times> splice_site) rd" where
  "colour_block r =
     (let signal_type_flag_bit = br_pos r in
      do { (present, r) \<leftarrow> rd_bit r;
           if present = 0 then Some ((no_colour True, SignalType signal_type_flag_bit), r)
           else
             do { (_, r) \<leftarrow> rd_bits 3 r;
                  (full, r) \<leftarrow> rd_bit r;
                  let description_flag_bit = br_pos r;
                  (flag, r) \<leftarrow> rd_bit r;
                  ((p, t, m), r) \<leftarrow>
                    (if flag = 1
                     then do { (p, r) \<leftarrow> rd_bits 8 r; (t, r) \<leftarrow> rd_bits 8 r; (m, r) \<leftarrow> rd_bits 8 r;
                               Some ((Some p, Some t, Some m), r) }
                     else Some ((None, None, None), r));
                  Some ((\<lparr>vui_present = True, video_signal_type_present = True, full_range = (full = 1),
                          primaries = p, transfer = t, matrix = m\<rparr>,
                         if p \<noteq> None then Splice_Nowhere else Description description_flag_bit), r) } })"

definition reorder_of :: "nat \<Rightarrow> bit_reader \<Rightarrow> reorder_site" where
  "reorder_of pic_order_cnt_type r =
     (case unrestricted_flag_bit r of
        Some (at, _) \<Rightarrow> if pic_order_cnt_type = 2 then Flag at else Reorder_Nowhere
      | None \<Rightarrow> Reorder_Nowhere)"

definition parse_rbsp :: "byte list \<Rightarrow> parsed option" where
  "parse_rbsp rbsp =
     do { (((pic_order_cnt_type, max_num_ref_frames), gaps_bit), r) \<leftarrow> sps_head (bit_reader_new rbsp);
          let vui_flag_bit = br_pos r;
          (vui, r) \<leftarrow> rd_bit r;
          if vui = 0
          then Some \<lparr>p_signal = no_colour False, p_splice = Splice_Nowhere, p_gaps_bit = gaps_bit,
                     p_reorder = (if pic_order_cnt_type = 2 then NoVui vui_flag_bit else Reorder_Nowhere),
                     p_max_num_ref_frames = max_num_ref_frames\<rparr>
          else
            do { (_, r) \<leftarrow> vui_head r;
                 ((signal, splice), r) \<leftarrow> colour_block r;
                 Some \<lparr>p_signal = signal, p_splice = splice, p_gaps_bit = gaps_bit,
                       p_reorder = reorder_of pic_order_cnt_type r,
                       p_max_num_ref_frames = max_num_ref_frames\<rparr> } }"

definition parse_sps :: "byte list \<Rightarrow> colour_signal option" where
  "parse_sps payload = map_option p_signal (parse_rbsp (unescape payload))"

section \<open>Editing the SPS\<close>

definition allow_frame_num_gaps :: "byte list \<Rightarrow> byte list option" where
  "allow_frame_num_gaps payload =
     (let rbsp = unescape payload in
      do { parsed \<leftarrow> parse_rbsp rbsp;
           let byte = p_gaps_bit parsed div 8;
           let mask = drop_bit (p_gaps_bit parsed mod 8) (0x80 :: byte);
           if byte < length rbsp
           then (if and (rbsp ! byte) mask \<noteq> 0 then None
                 else Some (escape (rbsp[byte := or (rbsp ! byte) mask])))
           else None })"

text \<open>\<open>for _ in 0..n { w.bit(r.bit()?) }\<close> and \<open>while let Some(bit) = r.bit() { w.bit(bit) }\<close>.\<close>

fun copy_bits :: "nat \<Rightarrow> bit_reader \<Rightarrow> bit_writer \<Rightarrow> (bit_reader \<times> bit_writer) option" where
  "copy_bits 0 r w = Some (r, w)"
| "copy_bits (Suc n) r w = do { (b, r) \<leftarrow> rd_bit r; copy_bits n r (wr_bit b w) }"

function copy_rest :: "bit_reader \<Rightarrow> bit_writer \<Rightarrow> bit_writer" where
  "copy_rest r w = (case rd_bit r of None \<Rightarrow> w | Some (b, r') \<Rightarrow> copy_rest r' (wr_bit b w))"
  by pat_completeness auto
termination
  by (relation "measure (\<lambda>(r, _). 8 * length (br_data r) - br_pos r)")
    (auto simp: rd_bit_def div_less_iff_less_mult split: if_splits)

declare copy_rest.simps [simp del]

text \<open>The frame both splices share: copy up to the flag, write, drop the flag, copy the rest.\<close>

definition splice_at :: "byte list \<Rightarrow> nat \<Rightarrow> (bit_writer \<Rightarrow> bit_writer) \<Rightarrow> byte list option" where
  "splice_at rbsp flag_at write =
     do { (r, w) \<leftarrow> copy_bits flag_at (bit_reader_new rbsp) bit_writer_new;
          let w = write w;
          (_, r) \<leftarrow> rd_bit r;
          Some (escape (bw_data (copy_rest r w))) }"

definition colour_insert :: "splice_site \<Rightarrow> bit_writer \<Rightarrow> bit_writer" where
  "colour_insert site w =
     (let w = wr_bit 1 w;
          w = (case site of SignalType _ \<Rightarrow> wr_bit 1 (wr_bits 1 1 (wr_bits 5 3 w)) | _ \<Rightarrow> w)
      in wr_bits 1 8 (wr_bits 1 8 (wr_bits 1 8 w)))"

definition complete_colour_signalling :: "byte list \<Rightarrow> byte list option" where
  "complete_colour_signalling payload =
     (let rbsp = unescape payload in
      do { parsed \<leftarrow> parse_rbsp rbsp;
           case p_splice parsed of
             Splice_Nowhere \<Rightarrow> None
           | SignalType at \<Rightarrow> splice_at rbsp at (colour_insert (p_splice parsed))
           | Description at \<Rightarrow> splice_at rbsp at (colour_insert (p_splice parsed)) })"

definition reordering_unbounded :: "byte list \<Rightarrow> bool" where
  "reordering_unbounded payload =
     (case parse_rbsp (unescape payload) of None \<Rightarrow> False | Some p \<Rightarrow> p_reorder p \<noteq> Reorder_Nowhere)"

definition reorder_insert :: "reorder_site \<Rightarrow> nat \<Rightarrow> bit_writer \<Rightarrow> bit_writer" where
  "reorder_insert site max_num_ref_frames w =
     (let w = wr_bit 1 w;
          w = (case site of NoVui _ \<Rightarrow> wr_bit 1 (wr_bit 0 (wr_bit 0 (wr_bit 0 (wr_bit 0 (wr_bit 0
                                        (wr_bit 0 (wr_bit 0 (wr_bit 0 w)))))))) | _ \<Rightarrow> w);
          w = wr_bit 1 w
      in wr_ue max_num_ref_frames (wr_ue 0 (wr_ue 15 (wr_ue 15 (wr_ue 1 (wr_ue 2 w))))))"

definition declare_no_reordering :: "byte list \<Rightarrow> byte list option" where
  "declare_no_reordering payload =
     (let rbsp = unescape payload in
      do { parsed \<leftarrow> parse_rbsp rbsp;
           case p_reorder parsed of
             Reorder_Nowhere \<Rightarrow> None
           | NoVui at \<Rightarrow> splice_at rbsp at (reorder_insert (p_reorder parsed) (p_max_num_ref_frames parsed))
           | Flag at \<Rightarrow> splice_at rbsp at (reorder_insert (p_reorder parsed) (p_max_num_ref_frames parsed)) })"

section \<open>Finding the SPS in an access unit\<close>

function next_start_code :: "byte list \<Rightarrow> nat \<Rightarrow> nat option" where
  "next_start_code data i =
     (if i + 3 \<le> length data then
        (if data ! i = 0 \<and> data ! (i + 1) = 0 \<and> (data ! (i + 2) = 1 \<or> data ! (i + 2) = 3) then
           (if data ! (i + 2) = 1 then Some i else next_start_code data (i + 3))
         else next_start_code data (i + 1))
      else None)"
  by pat_completeness auto
termination
  by (relation "measure (\<lambda>(data, i). length data - i)") auto

declare next_start_code.simps [simp del]

text \<open>The header position \<open>annexb[i..]\<close> starts with a start code for, if it does.\<close>

definition start_code_at :: "byte list \<Rightarrow> nat \<Rightarrow> nat option" where
  "start_code_at annexb i =
     (if take 4 (drop i annexb) = [0, 0, 0, 1] then Some (i + 4)
      else if take 3 (drop i annexb) = [0, 0, 1] then Some (i + 3)
      else None)"

lemma start_code_at_Some: "start_code_at annexb i = Some h \<Longrightarrow> i < h \<and> h \<le> i + 4"
  by (auto simp: start_code_at_def split: if_splits)

function sps_range_from :: "byte list \<Rightarrow> nat \<Rightarrow> (nat \<times> nat) option" where
  "sps_range_from annexb i =
     (if i + 4 < length annexb then
        (case start_code_at annexb i of
           None \<Rightarrow> sps_range_from annexb (i + 1)
         | Some header \<Rightarrow>
             let byte = annexb ! header in
             if and byte 0x80 = 0 \<and> and byte 0x1f = 7
             then Some (header + 1, case next_start_code annexb (header + 1) of
                                      None \<Rightarrow> length annexb | Some e \<Rightarrow> e)
             else sps_range_from annexb (header + 1))
      else None)"
  by pat_completeness auto
termination
  by (relation "measure (\<lambda>(annexb, i). length annexb - i)") (auto dest: start_code_at_Some)

declare sps_range_from.simps [simp del]

definition find_sps_range :: "byte list \<Rightarrow> (nat \<times> nat) option" where
  "find_sps_range annexb = sps_range_from annexb 0"

definition find_sps :: "byte list \<Rightarrow> colour_signal option" where
  "find_sps annexb =
     do { (a, b) \<leftarrow> find_sps_range annexb; parse_sps (take (b - a) (drop a annexb)) }"


section \<open>Locality of the walk\<close>

lemma stable_scaling_list [stable_intros]: "stable (scaling_list n p x)"
proof (induction n arbitrary: p x)
  case 0
  have "scaling_list 0 p x = (\<lambda>r. Some ((), r))" by (rule ext) simp
  then show ?case by (simp add: stable_intros)
next
  case (Suc n)
  have "scaling_list (Suc n) p x = (\<lambda>r. do { (y, r) \<leftarrow> (if x \<noteq> 0
      then do { (delta, r) \<leftarrow> rd_se r; Some ((p + delta + 256) mod 256, r) } else Some (x, r));
      scaling_list n (if y \<noteq> 0 then y else p) y r })"
    by (rule ext) simp
  then show ?case by (simp only:) (intro stable_intros Suc)
qed

lemma stable_scaling_lists [stable_intros]: "stable (scaling_lists i n)"
proof (induction n arbitrary: i)
  case 0
  have "scaling_lists i 0 = (\<lambda>r. Some ((), r))" by (rule ext) simp
  then show ?case by (simp add: stable_intros)
next
  case (Suc n)
  have "scaling_lists i (Suc n) = (\<lambda>r. do { (present, r) \<leftarrow> rd_bit r;
      (_, r) \<leftarrow> (if present = 1 then scaling_list (if i < 6 then 16 else 64) 8 8 r else Some ((), r));
      scaling_lists (Suc i) n r })"
    by (rule ext) simp
  then show ?case by (simp only:) (intro stable_intros Suc)
qed

lemma stable_read_high_profile [stable_intros]: "stable read_high_profile"
  unfolding read_high_profile_def [abs_def] by (intro stable_intros)

lemma stable_read_sps_prefix [stable_intros]: "stable read_sps_prefix"
  unfolding read_sps_prefix_def [abs_def] by (intro stable_intros)

lemma stable_skip_hrd [stable_intros]: "stable skip_hrd"
  unfolding skip_hrd_def [abs_def] Let_def by (intro stable_intros)

lemma stable_vui_tail [stable_intros]: "stable vui_tail"
  unfolding vui_tail_def [abs_def] by (intro stable_intros)

lemma stable_unrestricted_flag_bit [stable_intros]: "stable unrestricted_flag_bit"
  unfolding unrestricted_flag_bit_def [abs_def] by (intro stable_intros)

lemma stable_skip_pic_order_cnt [stable_intros]: "stable (skip_pic_order_cnt t)"
  unfolding skip_pic_order_cnt_def [abs_def] by (intro stable_intros)

lemma stable_sps_to_gaps [stable_intros]: "stable sps_to_gaps"
  unfolding sps_to_gaps_def [abs_def] by (intro stable_intros)

lemma stable_sps_to_vui [stable_intros]: "stable sps_to_vui"
  unfolding sps_to_vui_def [abs_def] by (intro stable_intros)

lemma stable_sps_head [stable_intros]: "stable sps_head"
  unfolding sps_head_def [abs_def] by (intro stable_intros)

lemma stable_vui_head [stable_intros]: "stable vui_head"
  unfolding vui_head_def [abs_def] by (intro stable_intros)

lemma stable_colour_block [stable_intros]: "stable colour_block"
  unfolding colour_block_def [abs_def] by (intro stable_intros)


text \<open>
  A successful parse, cut at the VUI flag: the head ends at a bit \<open>k\<close> inside the data; either
  that bit is clear, or the VUI follows.
\<close>

lemma rd_bit_Some:
  "rd_bit \<lparr>br_data = d, br_pos = k\<rparr> = Some (b, r) \<longleftrightarrow>
     k < 8 * length d \<and> b = of_bool (bit_at d k) \<and> r = \<lparr>br_data = d, br_pos = Suc k\<rparr>"
  by (auto simp: rd_bit_def div_less_iff_less_mult)

lemma sps_head_Some:
  assumes "sps_head (bit_reader_new d) = Some (x, r)"
  obtains k where "r = \<lparr>br_data = d, br_pos = k\<rparr>" and "k \<le> 8 * length d"
    and "\<And>d'. agree 0 k d d' \<Longrightarrow> sps_head (bit_reader_new d') = Some (x, \<lparr>br_data = d', br_pos = k\<rparr>)"
  using stableD [OF stable_sps_head, of 0 d x r] assms by (auto simp: bit_reader_new_def)

lemma parse_rbsp_Some:
  assumes "parse_rbsp d = Some p"
  obtains
    (no_vui) poc m g k where "sps_head (bit_reader_new d) = Some (((poc, m), g), \<lparr>br_data = d, br_pos = k\<rparr>)"
      "k < 8 * length d" "\<not> bit_at d k"
      "p = \<lparr>p_signal = no_colour False, p_splice = Splice_Nowhere, p_gaps_bit = g,
            p_reorder = (if poc = 2 then NoVui k else Reorder_Nowhere), p_max_num_ref_frames = m\<rparr>"
  | (vui) poc m g k r signal splice r'
    where "sps_head (bit_reader_new d) = Some (((poc, m), g), \<lparr>br_data = d, br_pos = k\<rparr>)"
      "k < 8 * length d" "bit_at d k"
      "vui_head \<lparr>br_data = d, br_pos = Suc k\<rparr> = Some ((), r)"
      "colour_block r = Some ((signal, splice), r')"
      "p = \<lparr>p_signal = signal, p_splice = splice, p_gaps_bit = g,
            p_reorder = reorder_of poc r', p_max_num_ref_frames = m\<rparr>"
proof -
  obtain poc m g r0 where h: "sps_head (bit_reader_new d) = Some (((poc, m), g), r0)"
    using assms by (auto simp: parse_rbsp_def Option.bind_eq_Some_conv)
  obtain k where r0: "r0 = \<lparr>br_data = d, br_pos = k\<rparr>" using sps_head_Some [OF h] by metis
  from assms h r0 obtain b r1 where b: "rd_bit \<lparr>br_data = d, br_pos = k\<rparr> = Some (b, r1)"
    by (auto simp: parse_rbsp_def Option.bind_eq_Some_conv)
  show thesis
  proof (cases "bit_at d k")
    case False
    then show thesis using assms h r0 b no_vui
      by (auto simp: parse_rbsp_def Option.bind_eq_Some_conv rd_bit_Some)
  next
    case True
    then have "b = 1" "r1 = \<lparr>br_data = d, br_pos = Suc k\<rparr>" "k < 8 * length d"
      using b by (auto simp: rd_bit_Some)
    then show thesis using assms h [unfolded r0] b True
      by (auto simp: parse_rbsp_def Option.bind_eq_Some_conv intro: vui [of poc m g k])
  qed
qed

lemma parse_rbsp_eval:
  assumes "sps_head (bit_reader_new d) = Some (((poc, m), g), \<lparr>br_data = d, br_pos = k\<rparr>)"
    and "k < 8 * length d"
  shows "parse_rbsp d =
     (if bit_at d k
      then do { (_, r) \<leftarrow> vui_head \<lparr>br_data = d, br_pos = Suc k\<rparr>;
                ((signal, splice), r) \<leftarrow> colour_block r;
                Some \<lparr>p_signal = signal, p_splice = splice, p_gaps_bit = g,
                      p_reorder = reorder_of poc r, p_max_num_ref_frames = m\<rparr> }
      else Some \<lparr>p_signal = no_colour False, p_splice = Splice_Nowhere, p_gaps_bit = g,
            p_reorder = (if poc = 2 then NoVui k else Reorder_Nowhere), p_max_num_ref_frames = m\<rparr>)"
  using assms by (simp add: parse_rbsp_def rd_bit_def div_less_iff_less_mult)

section \<open>The frame-number gaps flag\<close>

lemma bit_at_mask:
  assumes "i div 8 < length d"
  shows "and (d ! (i div 8)) (drop_bit (i mod 8) (0x80 :: byte)) \<noteq> 0 \<longleftrightarrow> bit_at d i"
    and "d[i div 8 := or (d ! (i div 8)) (drop_bit (i mod 8) (0x80 :: byte))]
      = d[i div 8 := set_bit (7 - i mod 8) (d ! (i div 8))]"
proof -
  have "drop_bit j (0x80 :: byte) = push_bit (7 - j) 1" if "j < 8" for j
  proof -
    from that have "j = 0 \<or> j = 1 \<or> j = 2 \<or> j = 3 \<or> j = 4 \<or> j = 5 \<or> j = 6 \<or> j = 7" by linarith
    then show ?thesis by (elim disjE) simp_all
  qed
  then have mask: "drop_bit (i mod 8) (0x80 :: byte) = push_bit (7 - i mod 8) 1" by simp
  show "and (d ! (i div 8)) (drop_bit (i mod 8) (0x80 :: byte)) \<noteq> 0 \<longleftrightarrow> bit_at d i"
    unfolding mask bit_at_def by (simp add: bit_iff_and_push_bit_not_eq_0)
  show "d[i div 8 := or (d ! (i div 8)) (drop_bit (i mod 8) (0x80 :: byte))]
      = d[i div 8 := set_bit (7 - i mod 8) (d ! (i div 8))]"
    unfolding mask by (simp add: set_bit_eq_or)
qed

lemma sps_gaps_bit:
  assumes "parse_rbsp d = Some p"
  shows "p_gaps_bit p < 8 * length d"
proof -
  have "sps_head (bit_reader_new d) = Some ((c, g), r) \<Longrightarrow> g < 8 * length d" for c g r
  proof -
    assume "sps_head (bit_reader_new d) = Some ((c, g), r)"
    then obtain c' r1 b r2 where 1: "sps_to_gaps (bit_reader_new d) = Some (c', r1)" and
      2: "rd_bit r1 = Some (b, r2)" and 3: "g = br_pos r1"
      by (auto simp: sps_head_def Option.bind_eq_Some_conv)
    then show ?thesis
      using stableD [OF stable_sps_to_gaps, of 0 d c' r1] by (auto simp: bit_reader_new_def rd_bit_Some)
  qed
  with assms show ?thesis by (auto elim!: parse_rbsp_Some)
qed


text \<open>A walk that succeeded does so again, with the same values, on data that agree where it went.\<close>

lemma stable_again:
  assumes "stable p" and "p \<lparr>br_data = d, br_pos = pos\<rparr> = Some (v, r)" and "pos \<le> 8 * length d"
    and "length d' = length d" and "\<And>i. pos \<le> i \<Longrightarrow> i < 8 * length d \<Longrightarrow> bit_at d i = bit_at d' i"
  obtains k where "r = \<lparr>br_data = d, br_pos = k\<rparr>" and "pos \<le> k" and "k \<le> 8 * length d"
    and "p \<lparr>br_data = d', br_pos = pos\<rparr> = Some (v, \<lparr>br_data = d', br_pos = k\<rparr>)"
proof -
  obtain k where k: "r = \<lparr>br_data = d, br_pos = k\<rparr>" "pos \<le> k" "k \<le> 8 * length d"
    "\<forall>d'. agree pos k d d' \<longrightarrow> p \<lparr>br_data = d', br_pos = pos\<rparr> = Some (v, \<lparr>br_data = d', br_pos = k\<rparr>)"
    using stableD [OF assms(1,3,2)] by blast
  have "agree pos k d d'" using k(3) assms(4,5) by (simp add: agree_def)
  with k show thesis using that by blast
qed

lemma reorder_of_same:
  assumes "pos \<le> 8 * length d" and "length d' = length d"
    and "\<And>i. pos \<le> i \<Longrightarrow> i < 8 * length d \<Longrightarrow> bit_at d i = bit_at d' i"
  shows "reorder_of poc \<lparr>br_data = d', br_pos = pos\<rparr> = reorder_of poc \<lparr>br_data = d, br_pos = pos\<rparr>"
  unfolding reorder_of_def
  using stable_same [OF stable_unrestricted_flag_bit assms] by (auto split: option.splits)

lemma sps_head_gaps_flip:
  assumes h: "sps_head (bit_reader_new d) = Some ((c, g), \<lparr>br_data = d, br_pos = k\<rparr>)"
    and len: "length d' = length d" and bits: "\<And>i. i < 8 * length d \<Longrightarrow> i \<noteq> g \<Longrightarrow> bit_at d i = bit_at d' i"
  shows "sps_head (bit_reader_new d') = Some ((c, g), \<lparr>br_data = d', br_pos = k\<rparr>) \<and> g < k"
proof -
  from h obtain b r2 where 1: "sps_to_gaps \<lparr>br_data = d, br_pos = 0\<rparr> = Some (c, \<lparr>br_data = d, br_pos = g\<rparr>)"
    and 2: "rd_bit \<lparr>br_data = d, br_pos = g\<rparr> = Some (b, r2)"
    and 3: "sps_to_vui r2 = Some ((), \<lparr>br_data = d, br_pos = k\<rparr>)"
    using stableD [OF stable_sps_to_gaps, of 0 d] unfolding sps_head_def bit_reader_new_def
    by (fastforce simp: Option.bind_eq_Some_conv)
  have g: "g < 8 * length d" and r2: "r2 = \<lparr>br_data = d, br_pos = Suc g\<rparr>" using 2 by (auto simp: rd_bit_Some)
  have "agree 0 g d d'" using g len bits by (auto simp: agree_def)
  then have "sps_to_gaps \<lparr>br_data = d', br_pos = 0\<rparr> = Some (c, \<lparr>br_data = d', br_pos = g\<rparr>)"
    using stableD [OF stable_sps_to_gaps _ 1] by auto
  moreover have "rd_bit \<lparr>br_data = d', br_pos = g\<rparr> = Some (of_bool (bit_at d' g), \<lparr>br_data = d', br_pos = Suc g\<rparr>)"
    using g len by (simp add: rd_bit_Some)
  moreover obtain "Suc g \<le> k" and
    "sps_to_vui \<lparr>br_data = d', br_pos = Suc g\<rparr> = Some ((), \<lparr>br_data = d', br_pos = k\<rparr>)"
    using g by (rule_tac stable_again [OF stable_sps_to_vui 3 [unfolded r2] _ len]) (auto simp: bits)
  ultimately show ?thesis by (simp add: sps_head_def bit_reader_new_def)
qed

lemma parse_rbsp_gaps_flip:
  assumes p: "parse_rbsp d = Some p" and len: "length d' = length d"
    and bits: "\<And>i. i < 8 * length d \<Longrightarrow> i \<noteq> p_gaps_bit p \<Longrightarrow> bit_at d i = bit_at d' i"
  shows "parse_rbsp d' = Some p"
  using p
proof (cases rule: parse_rbsp_Some)
  case (no_vui poc m g k)
  then have "p_gaps_bit p = g" by simp
  then have h: "sps_head (bit_reader_new d') = Some (((poc, m), g), \<lparr>br_data = d', br_pos = k\<rparr>)" "g < k"
    using sps_head_gaps_flip [OF no_vui(1) len] bits by auto
  moreover have "bit_at d' k = bit_at d k" using bits [of k] h(2) no_vui(2) \<open>p_gaps_bit p = g\<close> by simp
  ultimately show ?thesis using parse_rbsp_eval [OF h(1)] no_vui len by simp
next
  case (vui poc m g k r signal splice r')
  then have g: "p_gaps_bit p = g" by simp
  then have h: "sps_head (bit_reader_new d') = Some (((poc, m), g), \<lparr>br_data = d', br_pos = k\<rparr>)" "g < k"
    using sps_head_gaps_flip [OF vui(1) len] bits by auto
  have after: "bit_at d i = bit_at d' i" if "k \<le> i" "i < 8 * length d" for i
    using bits [of i] that h(2) g by simp
  obtain k2 where k2: "r = \<lparr>br_data = d, br_pos = k2\<rparr>" "Suc k \<le> k2" "k2 \<le> 8 * length d"
    "vui_head \<lparr>br_data = d', br_pos = Suc k\<rparr> = Some ((), \<lparr>br_data = d', br_pos = k2\<rparr>)"
    using vui(2) by (rule_tac stable_again [OF stable_vui_head vui(4) _ len]) (auto simp: after)
  obtain k3 where k3: "r' = \<lparr>br_data = d, br_pos = k3\<rparr>" "k2 \<le> k3" "k3 \<le> 8 * length d"
    "colour_block \<lparr>br_data = d', br_pos = k2\<rparr> = Some ((signal, splice), \<lparr>br_data = d', br_pos = k3\<rparr>)"
    using k2 by (rule_tac stable_again [OF stable_colour_block vui(5) [unfolded k2(1)] _ len]) (auto simp: after)
  have "reorder_of poc \<lparr>br_data = d', br_pos = k3\<rparr> = reorder_of poc r'"
    using k3 k2 by (simp only: k3(1)) (intro reorder_of_same len; simp add: after)
  moreover have "bit_at d' k" using after [of k] vui(2,3) by simp
  ultimately show ?thesis using parse_rbsp_eval [OF h(1)] vui(2,6) len k2(4) k3(4) by simp
qed

lemma allow_frame_num_gaps_spec:
  "(case parse_rbsp (unescape payload) of
      None \<Rightarrow> allow_frame_num_gaps payload = None
    | Some p \<Rightarrow>
        if bit_at (unescape payload) (p_gaps_bit p) then allow_frame_num_gaps payload = None
        else \<exists>out. allow_frame_num_gaps payload = Some out \<and>
          length (unescape out) = length (unescape payload) \<and>
          (\<forall>i < 8 * length (unescape payload).
             bit_at (unescape out) i = (i = p_gaps_bit p \<or> bit_at (unescape payload) i)) \<and>
          parse_rbsp (unescape out) = Some p \<and>
          allow_frame_num_gaps out = None)"
proof (cases "parse_rbsp (unescape payload)")
  case None
  then show ?thesis by (simp add: allow_frame_num_gaps_def)
next
  case (Some p)
  define d where "d = unescape payload"
  define g where "g = p_gaps_bit p"
  define d' where "d' = d[g div 8 := set_bit (7 - g mod 8) (d ! (g div 8))]"
  have p: "parse_rbsp d = Some p" using Some by (simp add: d_def)
  have "g < 8 * length d" using sps_gaps_bit [OF p] by (simp add: g_def)
  then have g8: "g div 8 < length d" by (simp add: div_less_iff_less_mult)
  have bits: "bit_at d' i = (i = g \<or> bit_at d i)" if "i < 8 * length d" for i
    using bit_at_set [OF g8, of "g mod 8" i] that by (simp add: d'_def)
  have len: "length d' = length d" by (simp add: d'_def)
  have allow: "allow_frame_num_gaps payload = (if bit_at d g then None else Some (escape d'))"
    using g8 bit_at_mask [OF g8]
    by (simp add: allow_frame_num_gaps_def Let_def p g_def [symmetric] d'_def flip: d_def)
  have p': "parse_rbsp d' = Some p"
    by (rule parse_rbsp_gaps_flip [OF p len]) (use bits in \<open>simp add: g_def\<close>)
  have "allow_frame_num_gaps (escape d') = None"
    using g8 len bit_at_mask(1) [of g d'] bits [of g] \<open>g < 8 * length d\<close>
    by (simp add: allow_frame_num_gaps_def Let_def p' g_def [symmetric])
  then show ?thesis
    using p' len bits allow unfolding d_def [symmetric] p by (simp flip: g_def)
qed

text \<open>
  \<open>allow_frame_num_gaps\<close> acts exactly on the SPS payloads it can read in which the gaps
  flag is clear. The payload it returns differs, once unescaped, in that one bit, which is
  now set; everything the walk reports about it (colour, edit positions, reference frames) is
  unchanged, and a second application does nothing.
\<close>

theorem allow_frame_num_gaps_sets_one_bit:
  "(case parse_rbsp (unescape payload) of
      None \<Rightarrow> allow_frame_num_gaps payload = None
    | Some p \<Rightarrow>
        if bit_at (unescape payload) (p_gaps_bit p) then allow_frame_num_gaps payload = None
        else \<exists>out. allow_frame_num_gaps payload = Some out \<and>
          length (unescape out) = length (unescape payload) \<and>
          (\<forall>i < 8 * length (unescape payload).
             bit_at (unescape out) i = (i = p_gaps_bit p \<or> bit_at (unescape payload) i)) \<and>
          parse_rbsp (unescape out) = Some p \<and>
          allow_frame_num_gaps out = None)"
  by (rule allow_frame_num_gaps_spec)


lemmas sps_eval = bit_eval read_sps_prefix_def high_profiles_def sps_to_gaps_def skip_pic_order_cnt_def
  sps_to_vui_def sps_head_def parse_rbsp_def vui_head_def colour_block_def no_colour_def reorder_of_def
  unrestricted_flag_bit_def vui_tail_def

text \<open>A baseline SPS with POC type 2, one reference frame and no VUI.\<close>

definition demo_sps :: "byte list" where
  "demo_sps = [66, 0, 10, 0xDA, 0x79]"

lemma demo_sps_parsed:
  "unescape demo_sps = demo_sps"
  "parse_rbsp demo_sps = Some \<lparr>p_signal = no_colour False, p_splice = Splice_Nowhere, p_gaps_bit = 32,
     p_reorder = NoVui 38, p_max_num_ref_frames = 1\<rparr>"
  by (simp_all add: demo_sps_def sps_eval cong: bind_weak_cong)

theorem allow_frame_num_gaps_sets_one_bit_witness:
  "\<exists>out. allow_frame_num_gaps demo_sps = Some out \<and> parse_rbsp (unescape out) = parse_rbsp demo_sps \<and>
     bit_at (unescape out) 32 \<and> \<not> bit_at demo_sps 32"
proof -
  have b: "\<not> bit_at demo_sps 32" and l: "32 < 8 * length demo_sps" 
    by (simp_all add: demo_sps_def bit_at_def)
  show ?thesis
    using allow_frame_num_gaps_sets_one_bit [of demo_sps] b l
    by (auto simp: demo_sps_parsed)
qed

section \<open>Splicing\<close>

definition data_bits :: "byte list \<Rightarrow> nat \<Rightarrow> nat \<Rightarrow> bool list" where
  "data_bits d a b = map (bit_at d) [a..<b]"

lemma length_data_bits [simp]: "length (data_bits d a b) = b - a"
  by (simp add: data_bits_def)

lemma data_bits_nth [simp]: "i < b - a \<Longrightarrow> data_bits d a b ! i = bit_at d (a + i)"
  by (simp add: data_bits_def)

lemma copy_bits_holds:
  assumes "holds w bs" and "pos + n \<le> 8 * length d"
  shows "\<exists>w'. copy_bits n \<lparr>br_data = d, br_pos = pos\<rparr> w = Some (\<lparr>br_data = d, br_pos = pos + n\<rparr>, w') \<and>
     holds w' (bs @ data_bits d pos (pos + n))"
  using assms
proof (induction n arbitrary: pos w bs)
  case (Suc n)
  have "rd_bit \<lparr>br_data = d, br_pos = pos\<rparr> = Some (of_bool (bit_at d pos), \<lparr>br_data = d, br_pos = Suc pos\<rparr>)"
    using Suc.prems(2) by (simp add: rd_bit_Some)
  moreover have "data_bits d pos (pos + Suc n) = bit_at d pos # data_bits d (Suc pos) (Suc pos + n)"
    by (simp add: data_bits_def upt_conv_Cons del: upt_Suc)
  ultimately show ?case
    using Suc.IH [OF holds_wr_bit [OF Suc.prems(1), of "of_bool (bit_at d pos)"], of "Suc pos"] Suc.prems(2)
    by simp
qed (simp add: data_bits_def)

lemma copy_rest_holds:
  "holds w bs \<Longrightarrow> holds (copy_rest \<lparr>br_data = d, br_pos = pos\<rparr> w) (bs @ data_bits d pos (8 * length d))"
proof (induction "8 * length d - pos" arbitrary: pos w bs)
  case 0
  then show ?case by (simp add: copy_rest.simps [of _ w] rd_bit_def data_bits_def div_less_iff_less_mult)
next
  case (Suc x)
  then have lt: "pos < 8 * length d" by simp
  then have "data_bits d pos (8 * length d) = bit_at d pos # data_bits d (Suc pos) (8 * length d)"
    by (simp add: data_bits_def upt_conv_Cons del: upt_Suc)
  moreover have "rd_bit \<lparr>br_data = d, br_pos = pos\<rparr> = Some (of_bool (bit_at d pos), \<lparr>br_data = d, br_pos = Suc pos\<rparr>)"
    using lt by (simp add: rd_bit_Some)
  ultimately show ?case
    using Suc.hyps(1) [OF _ holds_wr_bit [OF Suc.prems, of "of_bool (bit_at d pos)"], of "Suc pos"] Suc.hyps(2)
    by (simp add: copy_rest.simps [of _ w])
qed

text \<open>A write that appends the bits \<open>ins\<close>, whatever is there already.\<close>

definition appends :: "(bit_writer \<Rightarrow> bit_writer) \<Rightarrow> bool list \<Rightarrow> bool" where
  "appends write ins \<longleftrightarrow> (\<forall>w bs. holds w bs \<longrightarrow> holds (write w) (bs @ ins))"

lemma appends_compose: "appends f xs \<Longrightarrow> appends g ys \<Longrightarrow> appends (\<lambda>w. g (f w)) (xs @ ys)"
  by (fastforce simp: appends_def)

lemma appends_wr_bit: "appends (wr_bit v) [odd v]"
  by (simp add: appends_def holds_wr_bit)

lemma appends_wr_bits: "appends (wr_bits v n) (bits_list v n)"
  by (simp add: appends_def holds_wr_bits)

lemma appends_wr_ue: "v < 2 ^ 32 - 1 \<Longrightarrow> appends (wr_ue v) (ue_bits v)"
  by (simp add: appends_def holds_wr_ue)

lemma appends_wr_ue_any: "\<exists>xs. appends (wr_ue v) xs"
  unfolding wr_ue_def Let_def using appends_compose [OF appends_wr_bits appends_wr_bits] by blast

lemma splice_at_bits:
  assumes "appends write ins" and "at < 8 * length d"
  obtains d' where "splice_at d at write = Some (escape d')" and "agree 0 at d d'"
    and "reads d' at (ins @ data_bits d (Suc at) (8 * length d))"
proof -
  obtain w where 1: "copy_bits at (bit_reader_new d) bit_writer_new = Some (\<lparr>br_data = d, br_pos = at\<rparr>, w)"
      "holds w (data_bits d 0 at)"
    using copy_bits_holds [OF holds_new, of 0 at d] assms(2) by (auto simp: bit_reader_new_def)
  define e where "e = bw_data (copy_rest \<lparr>br_data = d, br_pos = Suc at\<rparr> (write w))"
  have "holds (write w) (data_bits d 0 at @ ins)" using assms(1) 1(2) by (simp add: appends_def)
  from copy_rest_holds [OF this, of d "Suc at"]
  have h: "holds (copy_rest \<lparr>br_data = d, br_pos = Suc at\<rparr> (write w))
      (data_bits d 0 at @ ins @ data_bits d (Suc at) (8 * length d))" by simp
  have "splice_at d at write = Some (escape e)"
    using assms(2) 1(1) by (simp add: splice_at_def rd_bit_def div_less_iff_less_mult e_def)
  moreover have "reads e 0 (data_bits d 0 at @ ins @ data_bits d (Suc at) (8 * length d))"
    unfolding e_def by (rule holds_reads_0 [OF h])
  then have "reads e 0 (data_bits d 0 at)" and r: "reads e at (ins @ data_bits d (Suc at) (8 * length d))"
    by (simp_all add: reads_append [of e 0 "data_bits d 0 at"])
  then have "agree 0 at d e" using assms(2) by (auto simp: agree_def reads_def)
  moreover note r
  ultimately show thesis using that by blast
qed


section \<open>Completing the colour signalling\<close>

text \<open>The two shapes of a colour block that can be completed.\<close>

lemma colour_block_SignalType:
  "colour_block \<lparr>br_data = d, br_pos = k\<rparr> = Some ((signal, SignalType at), r) \<longleftrightarrow>
     k < 8 * length d \<and> \<not> bit_at d k \<and> at = k \<and> signal = no_colour True \<and>
     r = \<lparr>br_data = d, br_pos = Suc k\<rparr>"
  by (auto simp: colour_block_def Let_def Option.bind_eq_Some_conv rd_bit_Some split: if_splits)

lemma rd_bits_Some:
  assumes "rd_bits n \<lparr>br_data = d, br_pos = k\<rparr> = Some (v, r)" and "k \<le> 8 * length d"
  shows "r = \<lparr>br_data = d, br_pos = k + n\<rparr> \<and> k + n \<le> 8 * length d"
proof -
  have "rd_bits_from n a \<lparr>br_data = d, br_pos = k\<rparr> = Some (v, r) \<Longrightarrow> k \<le> 8 * length d \<Longrightarrow>
      r = \<lparr>br_data = d, br_pos = k + n\<rparr> \<and> k + n \<le> 8 * length d" for a
    by (induction n arbitrary: a k) (fastforce simp: Option.bind_eq_Some_conv rd_bit_Some)+
  with assms show ?thesis unfolding rd_bits_def by blast
qed

lemma colour_block_Description:
  assumes "colour_block \<lparr>br_data = d, br_pos = k\<rparr> = Some ((signal, Description at), r)"
  shows "at = k + 5 \<and> at < 8 * length d \<and> bit_at d k \<and> \<not> bit_at d at \<and>
     signal = (no_colour True)\<lparr>video_signal_type_present := True, full_range := bit_at d (k + 4)\<rparr>"
proof -
  obtain v r1 where k: "k < 8 * length d" "bit_at d k"
      "rd_bits 3 \<lparr>br_data = d, br_pos = Suc k\<rparr> = Some (v, r1)"
    using assms by (auto simp: colour_block_def Let_def Option.bind_eq_Some_conv rd_bit_Some split: if_splits)
  then have "r1 = \<lparr>br_data = d, br_pos = k + 4\<rparr>" "k + 4 \<le> 8 * length d" using rd_bits_Some [OF k(3)] by auto
  with k assms show ?thesis
    by (auto simp: colour_block_def Let_def Option.bind_eq_Some_conv rd_bit_Some no_colour_def split: if_splits)
qed

text \<open>Reading a complete colour block: BT.709 three times over.\<close>

lemma colour_block_complete:
  assumes "reads d k ([True, a, b, c, full, True] @ bits_list 1 8 @ bits_list 1 8 @ bits_list 1 8 @ rest)"
  shows "colour_block \<lparr>br_data = d, br_pos = k\<rparr> =
    Some ((\<lparr>vui_present = True, video_signal_type_present = True, full_range = full, primaries = Some 1,
            transfer = Some 1, matrix = Some 1\<rparr>, Splice_Nowhere), \<lparr>br_data = d, br_pos = k + 30\<rparr>)"
proof -
  define B where "B = bits_list 1 8"
  have len [simp]: "length B = 8" and val [simp]: "bits_val 0 B = 1"
    by (simp_all add: B_def bits_val_bits_list)
  define V where "V = [a, b, c]"
  have lenV [simp]: "length V = 3" by (simp add: V_def)
  have r: "reads d k (True # V @ full # True # B @ B @ B @ rest)"
    using assms by (simp add: B_def V_def)
  have 1: "reads d (k + 1) (V @ full # True # B @ B @ B @ rest)" using reads_tl [OF r] by simp
  then have 4: "reads d (k + 4) (full # True # B @ B @ B @ rest)" by (rule reads_drop) simp
  have 5: "reads d (k + 5) (True # B @ B @ B @ rest)" using reads_tl [OF 4] by (simp add: add.commute)
  have 6: "reads d (k + 6) (B @ B @ B @ rest)" using reads_tl [OF 5] by (simp add: add.commute)
  then have 14: "reads d (k + 14) (B @ B @ rest)" by (rule reads_drop) simp
  then have 22: "reads d (k + 22) (B @ rest)" by (rule reads_drop) simp
  show ?thesis
    using rd_bit_reads [OF r] rd_bits_reads [OF 1] rd_bit_reads [OF 4] rd_bit_reads [OF 5]
      rd_bits_reads [OF 6] rd_bits_reads [OF 14] rd_bits_reads [OF 22]
    by (simp add: colour_block_def Let_def add.commute)
qed


lemma appends_colour_insert:
  "appends (colour_insert site)
     ([True] @ (case site of SignalType _ \<Rightarrow> [True, False, True, True, True] | _ \<Rightarrow> []) @
      bits_list 1 8 @ bits_list 1 8 @ bits_list 1 8)"
proof -
  have tail: "appends (\<lambda>w. wr_bits 1 8 (wr_bits 1 8 (wr_bits 1 8 w)))
      ((bits_list 1 8 @ bits_list 1 8) @ bits_list 1 8)"
    by (intro appends_compose appends_wr_bits)
  have block: "appends (\<lambda>w. wr_bit 1 (wr_bits 1 1 (wr_bits 5 3 w))) ((bits_list 5 3 @ bits_list 1 1) @ [odd (1 :: nat)])"
    by (rule appends_compose [OF appends_compose [OF appends_wr_bits appends_wr_bits] appends_wr_bit])
  have bits: "bits_list 5 3 = [True, False, True]" "bits_list (Suc 0) (Suc 0) = [True]"
    by (simp_all add: bits_list_def numeral_3_eq_3)
  show ?thesis
    using appends_compose [OF appends_compose [OF appends_wr_bit [of 1] block] tail]
      appends_compose [OF appends_wr_bit [of 1] tail]
    by (cases site) (simp_all add: colour_insert_def [abs_def] Let_def bits)
qed

text \<open>Replacing what follows the colour block's start leaves the walk up to it alone.\<close>

lemma parse_rbsp_respliced:
  assumes h: "sps_head (bit_reader_new d) = Some (((poc, m), g), \<lparr>br_data = d, br_pos = k\<rparr>)"
    and k: "k < 8 * length d" "bit_at d k"
    and v: "vui_head \<lparr>br_data = d, br_pos = Suc k\<rparr> = Some ((), \<lparr>br_data = d, br_pos = k2\<rparr>)"
    and a: "agree 0 k2 d d'"
    and c: "colour_block \<lparr>br_data = d', br_pos = k2\<rparr> = Some ((s, spl), r')"
  shows "parse_rbsp d' = Some \<lparr>p_signal = s, p_splice = spl, p_gaps_bit = g,
     p_reorder = reorder_of poc r', p_max_num_ref_frames = m\<rparr>"
proof -
  have v': "Suc k \<le> k2" "agree (Suc k) k2 d d'' \<Longrightarrow>
      vui_head \<lparr>br_data = d'', br_pos = Suc k\<rparr> = Some ((), \<lparr>br_data = d'', br_pos = k2\<rparr>)" for d''
    using stableD [OF stable_vui_head _ v] k by auto
  have "agree 0 k d d'" "agree (Suc k) k2 d d'" 
    using agree_mono [OF a, of 0 k] agree_mono [OF a, of "Suc k" k2] v'(1) by auto
  moreover have "k < 8 * length d'" "bit_at d' k" using a k(2) v'(1) by (auto simp: agree_def)
  moreover have "sps_head (bit_reader_new d') = Some (((poc, m), g), \<lparr>br_data = d', br_pos = k\<rparr>)"
    using \<open>agree 0 k d d'\<close> by (rule_tac sps_head_Some [OF h]) simp
  ultimately show ?thesis using v'(2) c parse_rbsp_eval [of d' poc m g k] by simp
qed

lemma colour_block_none:
  assumes "colour_block r = Some ((signal, spl), r')"
  shows "vui_present signal \<and> (primaries signal = None \<longleftrightarrow> spl \<noteq> Splice_Nowhere)"
  using assms by (auto simp: colour_block_def Let_def Option.bind_eq_Some_conv no_colour_def split: if_splits)

text \<open>The data after the spl, at the place where the walk finds the colour block.\<close>

lemma colour_splice:
  assumes c: "colour_block \<lparr>br_data = d, br_pos = k\<rparr> = Some ((signal, spl), r)"
    and at: "spl = SignalType at \<or> spl = Description at"
  obtains d' r' where "splice_at d at (colour_insert spl) = Some (escape d')" and "agree 0 k d d'"
    and "colour_block \<lparr>br_data = d', br_pos = k\<rparr> =
      Some ((\<lparr>vui_present = True, video_signal_type_present = True,
              full_range = (video_signal_type_present signal \<longrightarrow> full_range signal),
              primaries = Some 1, transfer = Some 1, matrix = Some 1\<rparr>, Splice_Nowhere), r')"
  using at
proof (elim disjE)
  assume s: "spl = SignalType at"
  then have k: "k < 8 * length d" "at = k" "signal = no_colour True" using c by (auto simp: colour_block_SignalType)
  obtain d' where d': "splice_at d at (colour_insert spl) = Some (escape d')" "agree 0 at d d'"
    "reads d' at (([True] @ [True, False, True, True, True] @ bits_list 1 8 @ bits_list 1 8 @ bits_list 1 8)
        @ data_bits d (Suc at) (8 * length d))"
    using splice_at_bits [OF appends_colour_insert, of at d spl] k by (auto simp: s)
  have "reads d' at ([True, True, False, True, True, True] @ bits_list 1 8 @ bits_list 1 8 @ bits_list 1 8
        @ data_bits d (Suc at) (8 * length d))" using d'(3) by simp
  from colour_block_complete [OF this] d' k that show thesis by (simp add: no_colour_def)
next
  assume s: "spl = Description at"
  have k: "at = k + 5" "at < 8 * length d" "bit_at d k"
      "signal = (no_colour True)\<lparr>video_signal_type_present := True, full_range := bit_at d (k + 4)\<rparr>"
    using colour_block_Description [OF c [unfolded s]] by auto
  obtain d' where d': "splice_at d at (colour_insert spl) = Some (escape d')" "agree 0 at d d'"
    "reads d' at (([True] @ bits_list 1 8 @ bits_list 1 8 @ bits_list 1 8) @ data_bits d (Suc at) (8 * length d))"
    using splice_at_bits [OF appends_colour_insert, of at d spl] k by (auto simp: s)
  have a: "bit_at d' i = bit_at d i" if "i < k + 5" for i using d'(2) that k(1) by (auto simp: agree_def)
  have "reads d' k (data_bits d k (k + 5))"
    using d'(2) k(1) a by (auto simp: reads_def agree_def)
  then have "reads d' k (data_bits d k (k + 5) @ [True] @ bits_list 1 8 @ bits_list 1 8 @ bits_list 1 8
      @ data_bits d (Suc at) (8 * length d))"
    using d'(3) k(1) reads_append [of d' k "data_bits d k (k + 5)"] by simp
  moreover have "data_bits d k (k + 5) = [True, bit_at d (k + 1), bit_at d (k + 2), bit_at d (k + 3), bit_at d (k + 4)]"
    using k(3) by (simp add: data_bits_def upt_conv_Cons numeral_eq_Suc)
  ultimately have "reads d' k ([True, bit_at d (k + 1), bit_at d (k + 2), bit_at d (k + 3), bit_at d (k + 4), True]
      @ bits_list 1 8 @ bits_list 1 8 @ bits_list 1 8 @ data_bits d (Suc at) (8 * length d))" by simp
  from colour_block_complete [OF this] d'(1,2) k that show thesis by (simp add: agree_mono [of 0 at])
qed

lemma complete_colour_signalling_spec:
  "(case parse_sps payload of
      None \<Rightarrow> complete_colour_signalling payload = None
    | Some s \<Rightarrow>
        if \<not> needs_description s then complete_colour_signalling payload = None
        else \<exists>out s'. complete_colour_signalling payload = Some out \<and> parse_sps out = Some s' \<and>
          s' = \<lparr>vui_present = True, video_signal_type_present = True,
                full_range = (video_signal_type_present s \<longrightarrow> full_range s),
                primaries = Some 1, transfer = Some 1, matrix = Some 1\<rparr> \<and>
          is_actionable s' \<and> d_verdict (describe s') = Usable \<and>
          complete_colour_signalling out = None)"
proof -
  define d where "d = unescape payload"
  show ?thesis
  proof (cases "parse_rbsp d")
    case None
    then show ?thesis by (simp add: parse_sps_def complete_colour_signalling_def flip: d_def)
  next
    case (Some p)
    show ?thesis using Some
    proof (cases rule: parse_rbsp_Some)
      case (no_vui poc m g k)
      then show ?thesis
        using Some by (simp add: parse_sps_def complete_colour_signalling_def no_colour_def
          needs_description_def flip: d_def)
    next
      case (vui poc m g k r signal spl r')
      obtain k2 where r: "r = \<lparr>br_data = d, br_pos = k2\<rparr>"
        using stableD [OF stable_vui_head _ vui(4)] vui(2) by auto
      show ?thesis
      proof (cases "spl = Splice_Nowhere")
        case True
        then show ?thesis using Some vui colour_block_none [OF vui(5)]
          by (simp add: parse_sps_def complete_colour_signalling_def needs_description_def flip: d_def)
      next
        case False
        then obtain at where at: "spl = SignalType at \<or> spl = Description at" by (cases spl) auto
        obtain d' r'' where d': "splice_at d at (colour_insert spl) = Some (escape d')" "agree 0 k2 d d'"
          "colour_block \<lparr>br_data = d', br_pos = k2\<rparr> =
            Some ((\<lparr>vui_present = True, video_signal_type_present = True,
              full_range = (video_signal_type_present signal \<longrightarrow> full_range signal),
              primaries = Some 1, transfer = Some 1, matrix = Some 1\<rparr>, Splice_Nowhere), r'')"
          using colour_splice [OF vui(5) [unfolded r] at] by blast
        have p': "parse_rbsp d' = Some \<lparr>p_signal = \<lparr>vui_present = True, video_signal_type_present = True,
              full_range = (video_signal_type_present signal \<longrightarrow> full_range signal),
              primaries = Some 1, transfer = Some 1, matrix = Some 1\<rparr>, p_splice = Splice_Nowhere,
            p_gaps_bit = g, p_reorder = reorder_of poc r'', p_max_num_ref_frames = m\<rparr>"
          by (rule parse_rbsp_respliced [OF vui(1-3) vui(4) [unfolded r] d'(2,3)])
        have c: "complete_colour_signalling payload = Some (escape d')"
          using at d'(1) Some vui(6) by (auto simp: complete_colour_signalling_def Let_def simp flip: d_def)
        show ?thesis
          using False Some vui(6) colour_block_none [OF vui(5)] p'
          by (simp add: parse_sps_def needs_description_def c is_actionable_def describe_def
              complete_colour_signalling_def [of "escape d'"] flip: d_def)
      qed
    qed
  qed
qed

text \<open>
  C34: \<open>complete_colour_signalling\<close> acts exactly on the readable SPS payloads that have a VUI but
  no colour description. The payload it returns is read back as full BT.709 signalling that a
  browser acts on; a range the host declared is kept, full range is written where it declared
  none. Applied to its own output it does nothing.
\<close>

theorem complete_colour_signalling_correct:
  "(case parse_sps payload of
      None \<Rightarrow> complete_colour_signalling payload = None
    | Some s \<Rightarrow>
        if \<not> needs_description s then complete_colour_signalling payload = None
        else \<exists>out s'. complete_colour_signalling payload = Some out \<and> parse_sps out = Some s' \<and>
          s' = \<lparr>vui_present = True, video_signal_type_present = True,
                full_range = (video_signal_type_present s \<longrightarrow> full_range s),
                primaries = Some 1, transfer = Some 1, matrix = Some 1\<rparr> \<and>
          is_actionable s' \<and> d_verdict (describe s') = Usable \<and>
          complete_colour_signalling out = None)"
  by (rule complete_colour_signalling_spec)


text \<open>The same SPS with a VUI that declares full range and no colour description.\<close>

definition demo_vui :: "byte list" where
  "demo_vui = [66, 0, 10, 0xDA, 0x7A, 0x6C, 0x04]"

lemma demo_vui_parsed:
  "unescape demo_vui = demo_vui"
  "parse_rbsp demo_vui = Some \<lparr>p_signal = (no_colour True)\<lparr>video_signal_type_present := True, full_range := True\<rparr>,
     p_splice = Description 46, p_gaps_bit = 32, p_reorder = Flag 52, p_max_num_ref_frames = 1\<rparr>"
  by (simp_all add: demo_vui_def sps_eval cong: bind_weak_cong)

theorem complete_colour_signalling_correct_witness:
  "\<exists>out s'. complete_colour_signalling demo_vui = Some out \<and> parse_sps out = Some s' \<and>
     full_range s' \<and> is_actionable s' \<and> complete_colour_signalling out = None"
  using complete_colour_signalling_correct [of demo_vui]
  by (auto simp: parse_sps_def demo_vui_parsed needs_description_def no_colour_def)

section \<open>Declaring no reordering\<close>

text \<open>
  What a decoder finds at \<open>bitstream_restriction_flag\<close>: the seven fields of the restriction,
  if the flag is set.
\<close>

definition read_restriction :: "nat list rd" where
  "read_restriction r =
     do { (flag, r) \<leftarrow> rd_bit r;
          if flag = 0 then None
          else do { (mv, r) \<leftarrow> rd_bit r; (a, r) \<leftarrow> rd_ue r; (b, r) \<leftarrow> rd_ue r; (c, r) \<leftarrow> rd_ue r;
                    (e, r) \<leftarrow> rd_ue r; (reorder, r) \<leftarrow> rd_ue r; (buffering, r) \<leftarrow> rd_ue r;
                    Some ([mv, a, b, c, e, reorder, buffering], r) } }"

definition restriction_of :: "byte list \<Rightarrow> nat list option" where
  "restriction_of rbsp =
     do { (_, r) \<leftarrow> sps_head (bit_reader_new rbsp);
          (vui, r) \<leftarrow> rd_bit r;
          if vui = 0 then None
          else do { (_, r) \<leftarrow> vui_head r; (_, r) \<leftarrow> colour_block r; (_, r) \<leftarrow> vui_tail r;
                    (fields, _) \<leftarrow> read_restriction r; Some fields } }"

lemma read_restriction_reads:
  assumes "reads d k ([True, True] @ ue_bits 2 @ ue_bits 1 @ ue_bits 15 @ ue_bits 15 @ ue_bits 0 @ ue_bits m @ rest)"
    and "m < 2 ^ 32 - 1"
  shows "\<exists>r. read_restriction \<lparr>br_data = d, br_pos = k\<rparr> = Some ([1, 2, 1, 15, 15, 0, m], r)"
proof -
  note rd = rd_ue_reads
  have 0: "reads d k (True # True # ue_bits 2 @ ue_bits 1 @ ue_bits 15 @ ue_bits 15 @ ue_bits 0 @ ue_bits m @ rest)"
    using assms(1) by simp
  note 1 = reads_tl [OF 0]
  note 2 = reads_tl [OF 1]
  note 3 = reads_drop [OF 2 refl]
  note 4 = reads_drop [OF 3 refl]
  note 5 = reads_drop [OF 4 refl]
  note 6 = reads_drop [OF 5 refl]
  note 7 = reads_drop [OF 6 refl]
  show ?thesis
    using rd_bit_reads [OF 0] rd_bit_reads [OF 1] rd [OF 2] rd [OF 3] rd [OF 4] rd [OF 5] rd [OF 6]
      rd [OF 7 assms(2)]
    by (simp add: read_restriction_def)
qed

lemma appends_reorder_insert:
  obtains tail where "appends (reorder_insert site m)
     ([True] @ (case site of NoVui _ \<Rightarrow> replicate 8 False @ [True] | _ \<Rightarrow> []) @ [True] @
      ue_bits 2 @ ue_bits 1 @ ue_bits 15 @ ue_bits 15 @ ue_bits 0 @ tail)"
    and "m < 2 ^ 32 - 1 \<Longrightarrow> tail = ue_bits m"
proof -
  obtain tail where t: "appends (wr_ue m) tail" "m < 2 ^ 32 - 1 \<Longrightarrow> tail = ue_bits m"
    using appends_wr_ue [of m] appends_wr_ue_any [of m] by (cases "m < 2 ^ 32 - 1") auto
  have one: "appends (wr_bit 1) [True]" and zero: "appends (wr_bit 0) [False]"
    using appends_wr_bit [of 1] appends_wr_bit [of 0] by auto
  note c = appends_compose
  have ue: "appends (wr_ue v) (ue_bits v)" if "v < 16" for v using appends_wr_ue [of v] that by simp
  note fields = c [OF c [OF c [OF c [OF c [OF c [OF one ue [of 2]] ue [of 1]] ue [of 15]] ue [of 15]] ue [of 0]] t(1)]
  note vui = c [OF c [OF c [OF c [OF c [OF c [OF c [OF c [OF zero zero] zero] zero] zero] zero] zero] zero] one]
  have r8: "replicate 8 False = [False, False, False, False, False, False, False, False]"
    by (simp add: numeral_eq_Suc)
  have "appends (reorder_insert site m)
     ([True] @ (case site of NoVui _ \<Rightarrow> replicate 8 False @ [True] | _ \<Rightarrow> []) @ [True] @
      ue_bits 2 @ ue_bits 1 @ ue_bits 15 @ ue_bits 15 @ ue_bits 0 @ tail)"
    using c [OF one fields] c [OF c [OF one vui] fields]
    by (cases site) (simp_all add: reorder_insert_def [abs_def] Let_def r8)
  with t(2) that show thesis by blast
qed


text \<open>An empty VUI, as \<open>declare_no_reordering\<close> writes it, up to the restriction flag.\<close>

lemma empty_vui_reads:
  assumes "reads d k (replicate 8 False @ rest)"
  shows "vui_head \<lparr>br_data = d, br_pos = k\<rparr> = Some ((), \<lparr>br_data = d, br_pos = k + 2\<rparr>)"
    and "colour_block \<lparr>br_data = d, br_pos = k + 2\<rparr> =
      Some ((no_colour True, SignalType (k + 2)), \<lparr>br_data = d, br_pos = k + 3\<rparr>)"
    and "vui_tail \<lparr>br_data = d, br_pos = k + 3\<rparr> = Some ((), \<lparr>br_data = d, br_pos = k + 8\<rparr>)"
proof -
  have b: "rd_bit \<lparr>br_data = d, br_pos = k + i\<rparr> = Some (0, \<lparr>br_data = d, br_pos = Suc (k + i)\<rparr>)" if "i < 8" for i
    using assms that by (simp add: reads_def rd_bit_Some nth_append)
  note bs = b [of 0, simplified] b [of 1, simplified] b [of 2, simplified] b [of 3, simplified]
    b [of 4, simplified] b [of 5, simplified] b [of 6, simplified] b [of 7, simplified]
  show "vui_head \<lparr>br_data = d, br_pos = k\<rparr> = Some ((), \<lparr>br_data = d, br_pos = k + 2\<rparr>)"
    using bs by (simp add: vui_head_def)
  show "colour_block \<lparr>br_data = d, br_pos = k + 2\<rparr> =
      Some ((no_colour True, SignalType (k + 2)), \<lparr>br_data = d, br_pos = k + 3\<rparr>)"
    using bs by (simp add: colour_block_def Let_def)
  show "vui_tail \<lparr>br_data = d, br_pos = k + 3\<rparr> = Some ((), \<lparr>br_data = d, br_pos = k + 8\<rparr>)"
    using bs by (simp add: vui_tail_def rd_skip_def add.commute)
qed

lemma unrestricted_flag_bit_Some:
  assumes "unrestricted_flag_bit \<lparr>br_data = d, br_pos = k\<rparr> = Some (at, r)" and "k \<le> 8 * length d"
  shows "vui_tail \<lparr>br_data = d, br_pos = k\<rparr> = Some ((), \<lparr>br_data = d, br_pos = at\<rparr>) \<and>
    k \<le> at \<and> at < 8 * length d"
  using assms stableD [OF stable_vui_tail assms(2)]
  by (fastforce simp: unrestricted_flag_bit_def Option.bind_eq_Some_conv rd_bit_Some split: if_splits)

lemma reorder_of_set:
  assumes "vui_tail r = Some ((), \<lparr>br_data = d, br_pos = at\<rparr>)" and "reads d at (True # rest)"
  shows "reorder_of poc r = Reorder_Nowhere"
  using assms(1) rd_bit_reads [OF assms(2)] by (simp add: reorder_of_def unrestricted_flag_bit_def)

text \<open>The walk on data whose bits from the restriction flag on were replaced.\<close>

lemma reorder_splice_Flag:
  assumes h: "sps_head (bit_reader_new d) = Some (((poc, m), g), \<lparr>br_data = d, br_pos = k\<rparr>)"
    and k: "k < 8 * length d" "bit_at d k"
    and v: "vui_head \<lparr>br_data = d, br_pos = Suc k\<rparr> = Some ((), \<lparr>br_data = d, br_pos = k2\<rparr>)"
    and c: "colour_block \<lparr>br_data = d, br_pos = k2\<rparr> = Some ((s, spl), \<lparr>br_data = d, br_pos = k3\<rparr>)"
    and t: "vui_tail \<lparr>br_data = d, br_pos = k3\<rparr> = Some ((), \<lparr>br_data = d, br_pos = at\<rparr>)"
    and a: "agree 0 at d d'" and r: "reads d' at (True # rest)"
  shows "parse_rbsp d' = Some \<lparr>p_signal = s, p_splice = spl, p_gaps_bit = g, p_reorder = Reorder_Nowhere,
       p_max_num_ref_frames = m\<rparr>"
    and "restriction_of d' = map_option fst (read_restriction \<lparr>br_data = d', br_pos = at\<rparr>)"
proof -
  have v': "Suc k \<le> k2" "k2 \<le> 8 * length d" "agree (Suc k) k2 d d' \<Longrightarrow>
      vui_head \<lparr>br_data = d', br_pos = Suc k\<rparr> = Some ((), \<lparr>br_data = d', br_pos = k2\<rparr>)"
    using stableD [OF stable_vui_head _ v] k by auto
  have c': "k2 \<le> k3" "k3 \<le> 8 * length d" "agree k2 k3 d d' \<Longrightarrow>
      colour_block \<lparr>br_data = d', br_pos = k2\<rparr> = Some ((s, spl), \<lparr>br_data = d', br_pos = k3\<rparr>)"
    using stableD [OF stable_colour_block v'(2) c] by auto
  have t': "k3 \<le> at" "agree k3 at d d' \<Longrightarrow>
      vui_tail \<lparr>br_data = d', br_pos = k3\<rparr> = Some ((), \<lparr>br_data = d', br_pos = at\<rparr>)"
    using stableD [OF stable_vui_tail c'(2) t] by auto
  have ag: "agree 0 k2 d d'" "agree (Suc k) k2 d d'" "agree k2 k3 d d'" "agree k3 at d d'" "agree 0 k d d'"
    using agree_mono [OF a] v'(1) c'(1) t'(1) by auto
  show "parse_rbsp d' = Some \<lparr>p_signal = s, p_splice = spl, p_gaps_bit = g, p_reorder = Reorder_Nowhere,
       p_max_num_ref_frames = m\<rparr>"
    using parse_rbsp_respliced [OF h k v ag(1) c'(3) [OF ag(3)]] reorder_of_set [OF t'(2) [OF ag(4)] r] by simp
  have h': "sps_head (bit_reader_new d') = Some (((poc, m), g), \<lparr>br_data = d', br_pos = k\<rparr>)"
    using ag(5) by (rule_tac sps_head_Some [OF h]) simp
  have "rd_bit \<lparr>br_data = d', br_pos = k\<rparr> = Some (1, \<lparr>br_data = d', br_pos = Suc k\<rparr>)"
    using a k v'(1) c'(1) t'(1) by (auto simp: rd_bit_Some agree_def)
  then show "restriction_of d' = map_option fst (read_restriction \<lparr>br_data = d', br_pos = at\<rparr>)"
    using h' v'(3) [OF ag(2)] c'(3) [OF ag(3)] t'(2) [OF ag(4)]
    by (cases "read_restriction \<lparr>br_data = d', br_pos = at\<rparr>") (auto simp: restriction_of_def)
qed

lemma reorder_splice_NoVui:
  assumes h: "sps_head (bit_reader_new d) = Some (((poc, m), g), \<lparr>br_data = d, br_pos = k\<rparr>)"
    and a: "agree 0 k d d'" and r: "reads d' k (True # replicate 8 False @ True # rest)"
  shows "parse_rbsp d' = Some \<lparr>p_signal = no_colour True, p_splice = SignalType (k + 3), p_gaps_bit = g,
       p_reorder = Reorder_Nowhere, p_max_num_ref_frames = m\<rparr>"
    and "restriction_of d' = map_option fst (read_restriction \<lparr>br_data = d', br_pos = k + 9\<rparr>)"
proof -
  have h': "sps_head (bit_reader_new d') = Some (((poc, m), g), \<lparr>br_data = d', br_pos = k\<rparr>)"
    using a by (rule_tac sps_head_Some [OF h]) simp
  note e = empty_vui_reads [OF reads_tl [OF r]]
  have "reads d' (k + 9) (True # rest)" using reads_drop [OF reads_tl [OF r], of "k + 9"] by simp
  then have ro: "reorder_of poc \<lparr>br_data = d', br_pos = Suc k + 3\<rparr> = Reorder_Nowhere"
    using reorder_of_set [OF e(3), of rest] by (simp add: add.commute)
  have b: "k < 8 * length d'" "bit_at d' k" "rd_bit \<lparr>br_data = d', br_pos = k\<rparr> = Some (1, \<lparr>br_data = d', br_pos = Suc k\<rparr>)"
    using rd_bit_reads [OF r] by (auto simp: rd_bit_Some)
  show "parse_rbsp d' = Some \<lparr>p_signal = no_colour True, p_splice = SignalType (k + 3), p_gaps_bit = g,
       p_reorder = Reorder_Nowhere, p_max_num_ref_frames = m\<rparr>"
    using parse_rbsp_eval [OF h' b(1)] b(2) e(1,2) ro by (simp add: numeral_3_eq_3)
  show "restriction_of d' = map_option fst (read_restriction \<lparr>br_data = d', br_pos = k + 9\<rparr>)"
    using h' b(3) e
    by (cases "read_restriction \<lparr>br_data = d', br_pos = k + 9\<rparr>") (auto simp: restriction_of_def add.commute)
qed


lemma declare_no_reordering_spec:
  "(case parse_rbsp (unescape payload) of
      None \<Rightarrow> declare_no_reordering payload = None \<and> \<not> reordering_unbounded payload
    | Some p \<Rightarrow>
        if \<not> reordering_unbounded payload then declare_no_reordering payload = None
        else \<exists>out. declare_no_reordering payload = Some out \<and>
          \<not> reordering_unbounded out \<and> declare_no_reordering out = None \<and>
          parse_sps out = Some ((p_signal p)\<lparr>vui_present := True\<rparr>) \<and>
          (p_max_num_ref_frames p < 2 ^ 32 - 1 \<longrightarrow>
             restriction_of (unescape out) = Some [1, 2, 1, 15, 15, 0, p_max_num_ref_frames p]))"
proof -
  define d where "d = unescape payload"
  show ?thesis
  proof (cases "parse_rbsp d")
    case None
    then show ?thesis by (simp add: reordering_unbounded_def declare_no_reordering_def flip: d_def)
  next
    case (Some p)
    note unfold = reordering_unbounded_def declare_no_reordering_def parse_sps_def Let_def
    obtain tail where app: "appends (reorder_insert (p_reorder p) (p_max_num_ref_frames p))
       ([True] @ (case p_reorder p of NoVui _ \<Rightarrow> replicate 8 False @ [True] | _ \<Rightarrow> []) @ [True] @
        ue_bits 2 @ ue_bits 1 @ ue_bits 15 @ ue_bits 15 @ ue_bits 0 @ tail)"
      and tail: "p_max_num_ref_frames p < 2 ^ 32 - 1 \<Longrightarrow> tail = ue_bits (p_max_num_ref_frames p)"
      using appends_reorder_insert by blast
    show ?thesis
    proof (cases "p_reorder p")
      case Reorder_Nowhere
      then show ?thesis using Some by (simp add: unfold flip: d_def)
    next
      case (NoVui k)
      obtain poc m g where h: "sps_head (bit_reader_new d) = Some (((poc, m), g), \<lparr>br_data = d, br_pos = k\<rparr>)"
        and k: "k < 8 * length d" and p: "p_signal p = no_colour False" "p_max_num_ref_frames p = m"
        using Some NoVui by (cases rule: parse_rbsp_Some) (auto simp: reorder_of_def split: if_splits option.splits)
      obtain d' where d': "splice_at d k (reorder_insert (p_reorder p) m) = Some (escape d')" "agree 0 k d d'"
        and r: "reads d' k (True # replicate 8 False @ True # True # ue_bits 2 @ ue_bits 1 @ ue_bits 15 @
          ue_bits 15 @ ue_bits 0 @ tail @ data_bits d (Suc k) (8 * length d))"
        using splice_at_bits [OF app k] NoVui p(2) by auto
      have r9: "reads d' (k + 9) ([True, True] @ ue_bits 2 @ ue_bits 1 @ ue_bits 15 @
          ue_bits 15 @ ue_bits 0 @ tail @ data_bits d (Suc k) (8 * length d))"
        using reads_drop [OF reads_tl [OF r], of "k + 9"] by simp
      note s = reorder_splice_NoVui [OF h d'(2) r]
      have "m < 2 ^ 32 - 1 \<longrightarrow> restriction_of d' = Some [1, 2, 1, 15, 15, 0, m]"
        using read_restriction_reads [of d' "k + 9" m] r9 tail p(2) s(2) by auto
      then show ?thesis using Some NoVui d'(1) s(1) p
        by (simp add: unfold no_colour_def flip: d_def)
    next
      case (Flag at)
      show ?thesis using Some
      proof (cases rule: parse_rbsp_Some)
        case (vui poc m g k r signal spl r')
        obtain k2 where k2: "r = \<lparr>br_data = d, br_pos = k2\<rparr>" "k2 \<le> 8 * length d"
          using stableD [OF stable_vui_head _ vui(4)] vui(2) by auto
        obtain k3 where k3: "r' = \<lparr>br_data = d, br_pos = k3\<rparr>" "k3 \<le> 8 * length d"
          using stableD [OF stable_colour_block k2(2) vui(5) [unfolded k2(1)]] by auto
        have "\<exists>r. unrestricted_flag_bit r' = Some (at, r)"
          using Flag vui(6) by (auto simp: reorder_of_def split: option.splits if_splits)
        then have t: "vui_tail \<lparr>br_data = d, br_pos = k3\<rparr> = Some ((), \<lparr>br_data = d, br_pos = at\<rparr>)"
          and at: "at < 8 * length d"
          using unrestricted_flag_bit_Some [OF _ k3(2)] k3(1) by auto
        obtain d' where d': "splice_at d at (reorder_insert (p_reorder p) m) = Some (escape d')" "agree 0 at d d'"
          and r: "reads d' at (True # True # ue_bits 2 @ ue_bits 1 @ ue_bits 15 @
            ue_bits 15 @ ue_bits 0 @ tail @ data_bits d (Suc at) (8 * length d))"
          using splice_at_bits [OF app at] Flag vui(6) by auto
        note s = reorder_splice_Flag [OF vui(1-3) vui(4) [unfolded k2(1)] vui(5) [unfolded k2(1) k3(1)] t d'(2) r]
        have "m < 2 ^ 32 - 1 \<longrightarrow> restriction_of d' = Some [1, 2, 1, 15, 15, 0, m]"
          using read_restriction_reads [of d' at m] r tail vui(6) s(2) by auto
        then show ?thesis using Some Flag d'(1) s(1) vui(6) colour_block_none [OF vui(5)]
          by (simp add: unfold flip: d_def)
      qed (use Flag in \<open>auto split: if_splits\<close>)
    qed
  qed
qed

text \<open>
  C35: \<open>declare_no_reordering\<close> acts exactly on the readable payloads whose reordering is
  unbounded although the POC type rules it out. On its output a decoder reads a bitstream
  restriction with \<open>max_num_reorder_frames\<close> 0 and \<open>max_dec_frame_buffering\<close> equal to
  \<open>max_num_ref_frames\<close> (for any value below \<open>u32::MAX\<close>); the colour signalled is the one it
  had, an absent VUI having become an empty one; and there is nothing left to do.
\<close>

theorem declare_no_reordering_correct:
  "(case parse_rbsp (unescape payload) of
      None \<Rightarrow> declare_no_reordering payload = None \<and> \<not> reordering_unbounded payload
    | Some p \<Rightarrow>
        if \<not> reordering_unbounded payload then declare_no_reordering payload = None
        else \<exists>out. declare_no_reordering payload = Some out \<and>
          \<not> reordering_unbounded out \<and> declare_no_reordering out = None \<and>
          parse_sps out = Some ((p_signal p)\<lparr>vui_present := True\<rparr>) \<and>
          (p_max_num_ref_frames p < 2 ^ 32 - 1 \<longrightarrow>
             restriction_of (unescape out) = Some [1, 2, 1, 15, 15, 0, p_max_num_ref_frames p]))"
  by (rule declare_no_reordering_spec)


theorem declare_no_reordering_correct_witness:
  "\<exists>out. declare_no_reordering demo_vui = Some out \<and> \<not> reordering_unbounded out \<and>
     restriction_of (unescape out) = Some [1, 2, 1, 15, 15, 0, 1]"
  using declare_no_reordering_correct [of demo_vui]
  by (auto simp: demo_vui_parsed reordering_unbounded_def [of demo_vui])

section \<open>The SPS of an access unit\<close>

lemma next_start_code_ge: "next_start_code d i = Some e \<Longrightarrow> i \<le> e \<and> e + 3 \<le> length d \<and>
   d ! e = 0 \<and> d ! (e + 1) = 0 \<and> d ! (e + 2) = 1"
proof (induction d i rule: next_start_code.induct)
  case (1 d i)
  then show ?case
    by (cases "i + 3 \<le> length d") (auto simp: next_start_code.simps [of d i] split: if_splits)
qed

lemma start_code_at_before: "start_code_at d i = Some h \<Longrightarrow>
   d ! (h - 3) = 0 \<and> d ! (h - 2) = 0 \<and> d ! (h - 1) = 1 \<and> 3 \<le> h \<and> h \<le> length d"
proof -
  assume a: "start_code_at d i = Some h"
  have 4: "d ! (i + 1) = 0 \<and> d ! (i + 2) = 0 \<and> d ! (i + 3) = 1 \<and> i + 4 \<le> length d"
    if "take 4 (drop i d) = [0, 0, 0, 1]"
  proof -
    have "length (take 4 (drop i d)) = 4" "take 4 (drop i d) ! 1 = 0" "take 4 (drop i d) ! 2 = 0"
      "take 4 (drop i d) ! 3 = 1" unfolding that by simp_all
    then show ?thesis by (simp add: add.commute)
  qed
  have 3: "d ! i = 0 \<and> d ! (i + 1) = 0 \<and> d ! (i + 2) = 1 \<and> i + 3 \<le> length d"
    if "take 3 (drop i d) = [0, 0, 1]"
  proof -
    have "length (take 3 (drop i d)) = 3" "take 3 (drop i d) ! 0 = 0" "take 3 (drop i d) ! 1 = 0"
      "take 3 (drop i d) ! 2 = 1" unfolding that by simp_all
    then show ?thesis by (simp add: add.commute)
  qed
  show ?thesis
    using a 3 4 by (auto simp: start_code_at_def numeral_eq_Suc split: if_splits)
qed

lemma take_3_drop:
  "i + 3 \<le> length d \<Longrightarrow> take 3 (drop i d) = [d ! i, d ! (i + 1), d ! (i + 2)]"
  by (rule nth_equalityI) (auto simp: less_Suc_eq numeral_eq_Suc)

lemma sps_range_from_sound:
  "sps_range_from d i = Some (a, b) \<Longrightarrow> 4 \<le> a \<and> a \<le> b \<and> b \<le> length d \<and>
    take 3 (drop (a - 4) d) = [0, 0, 1] \<and>
    and (d ! (a - 1)) 0x80 = 0 \<and> and (d ! (a - 1)) 0x1f = 7 \<and>
    (b = length d \<or> take 3 (drop b d) = [0, 0, 1])"
proof (induction d i rule: sps_range_from.induct)
  case (1 d i)
  show ?case
  proof (cases "start_code_at d i")
    case None
    then show ?thesis using 1 by (auto simp: sps_range_from.simps [of d i] split: if_splits)
  next
    case (Some h)
    note h = start_code_at_before [OF Some] start_code_at_Some [OF Some]
    have i: "i + 4 < length d" using 1(3) by (simp add: sps_range_from.simps [of d i] split: if_splits)
    show ?thesis
    proof (cases "and (d ! h) 0x80 = 0 \<and> and (d ! h) 0x1f = 7")
      case False
      then show ?thesis using 1(2) [OF i Some refl False] 1(3) Some i
        by (auto simp: sps_range_from.simps [of d i] Let_def split: if_splits)
    next
      case True
      have "h - 3 + 1 = h - 2" "h - 3 + 2 = h - 1" "h - 3 + 3 = h" using h by auto
      then have "take 3 (drop (h - 3) d) = [0, 0, 1]"
        using h take_3_drop [of "h - 3" d] by (simp del: add_2_eq_Suc')
      moreover have "e + 3 \<le> length d \<and> Suc h \<le> e \<and> take 3 (drop e d) = [0, 0, 1]"
        if "next_start_code d (Suc h) = Some e" for e
        using next_start_code_ge [OF that] take_3_drop [of e d] by simp
      ultimately show ?thesis using 1(3) Some i True h
        by (auto simp: sps_range_from.simps [of d i] Let_def split: option.splits)
    qed
  qed
qed

text \<open>
  the range \<open>find_sps_range\<close> returns lies within the access unit, so slicing it cannot
  panic; it begins one byte after a start code, that byte is an SPS header with the forbidden
  bit clear, and it ends at the end of the data or at the next start code.
\<close>

theorem find_sps_range_sound:
  assumes "find_sps_range annexb = Some (a, b)"
  shows "4 \<le> a \<and> a \<le> b \<and> b \<le> length annexb \<and>
    take 3 (drop (a - 4) annexb) = [0, 0, 1] \<and>
    and (annexb ! (a - 1)) 0x80 = 0 \<and> and (annexb ! (a - 1)) 0x1f = 7 \<and>
    (b = length annexb \<or> take 3 (drop b annexb) = [0, 0, 1])"
  using sps_range_from_sound assms unfolding find_sps_range_def by blast

theorem find_sps_range_sound_witness:
  "find_sps_range [9, 0, 0, 1, 0x67, 66, 0, 0, 0, 1, 0x68] = Some (5, 7) \<and>
   take 3 (drop 1 [9, 0, 0, 1, 0x67, 66, 0, 0, 0, 1, 0x68 :: byte]) = [0, 0, 1]"
proof -
  have r: "find_sps_range [9, 0, 0, 1, 0x67, 66, 0, 0, 0, 1, 0x68] = Some (5, 7)"
    by (simp add: find_sps_range_def sps_range_from.simps next_start_code.simps start_code_at_def)
  show ?thesis using find_sps_range_sound [OF r] r by simp
qed

end
