(* ===== verification/H264_Rewrite.thy ===== *)
theory H264_Rewrite
  imports Binary_Blob H264_Sps
begin

text \<open>
  \<^verbatim>\<open>src/src/h264_rewrite.rs\<close>: \<open>SpsRewriter\<close>, which edits the SPS inside the video blobs of
  a session on their way to the browser. The base64 engine is third-party code: its
  \<open>decode\<close> and \<open>encode\<close> are the parameters \<open>dec\<close> and \<open>enc\<close>.
\<close>

section \<open>State\<close>

datatype rewrite_state = Undecided | Rewriting | PassThrough

datatype edit = ColourDescription | FrameNumGaps | NoReordering

record sps_rewriter =
  rw_state :: rewrite_state
  bound_reordering :: bool
  allow_gaps :: bool
  pending_edits :: "edit list"
  made :: "edit list"
  h264_streams :: "nat set"

definition rewriter_new :: sps_rewriter where
  "rewriter_new = \<lparr>rw_state = Undecided, bound_reordering = False, allow_gaps = False,
     pending_edits = [], made = [], h264_streams = {}\<rparr>"

definition take_edits :: "sps_rewriter \<Rightarrow> sps_rewriter \<times> edit list" where
  "take_edits rw = (rw\<lparr>pending_edits := []\<rparr>, pending_edits rw)"

definition note_edit :: "edit \<Rightarrow> sps_rewriter \<Rightarrow> sps_rewriter" where
  "note_edit e rw =
     (if e \<notin> set (made rw)
      then rw\<lparr>made := made rw @ [e], pending_edits := pending_edits rw @ [e]\<rparr> else rw)"

definition set_allow_frame_num_gaps :: "bool \<Rightarrow> sps_rewriter \<Rightarrow> sps_rewriter" where
  "set_allow_frame_num_gaps allow rw = rw\<lparr>allow_gaps := allow\<rparr>"

section \<open>\<open>rewritten_payload\<close>\<close>

text \<open>The decision at the first readable SPS; \<open>None\<close> is the early return of \<open>parse_sps(..)?\<close>.\<close>

definition decide_stream :: "sps_rewriter \<Rightarrow> byte list \<Rightarrow> sps_rewriter option" where
  "decide_stream rw sps =
     (if rw_state rw = Undecided then
        (case parse_sps sps of
           None \<Rightarrow> None
         | Some signal \<Rightarrow>
             Some (rw\<lparr>rw_state := (if needs_description signal then Rewriting else PassThrough),
                      bound_reordering := reordering_unbounded sps\<rparr>))
      else Some rw)"

text \<open>One edit, on what the edits before it made of the SPS.\<close>

definition try_edit ::
  "bool \<Rightarrow> edit \<Rightarrow> (byte list \<Rightarrow> byte list option) \<Rightarrow> byte list \<Rightarrow>
   sps_rewriter \<times> byte list option \<Rightarrow> sps_rewriter \<times> byte list option" where
  "try_edit wanted e f sps = (\<lambda>(rw, edited).
     if wanted
     then (case f (case edited of None \<Rightarrow> sps | Some current \<Rightarrow> current) of
             Some new \<Rightarrow> (note_edit e rw, Some new)
           | None \<Rightarrow> (rw, edited))
     else (rw, edited))"

definition apply_edits :: "sps_rewriter \<Rightarrow> byte list \<Rightarrow> sps_rewriter \<times> byte list option" where
  "apply_edits rw sps =
     try_edit (allow_gaps rw) FrameNumGaps allow_frame_num_gaps sps
       (try_edit (bound_reordering rw) NoReordering declare_no_reordering sps
         (try_edit (rw_state rw = Rewriting) ColourDescription complete_colour_signalling sps
           (rw, None)))"

definition rewritten_payload ::
  "(str \<Rightarrow> byte list option) \<Rightarrow> (byte list \<Rightarrow> str) \<Rightarrow> sps_rewriter \<Rightarrow> str \<Rightarrow> sps_rewriter \<times> str option" where
  "rewritten_payload dec enc rw payload =
     (case dec payload of
        None \<Rightarrow> (rw, None)
      | Some bytes \<Rightarrow>
          (case find_sps_range bytes of
             None \<Rightarrow> (rw, None)
           | Some (a, b) \<Rightarrow>
               (let sps = take (b - a) (drop a bytes) in
                case decide_stream rw sps of
                  None \<Rightarrow> (rw, None)
                | Some rw \<Rightarrow>
                    (let (rw, edited) = apply_edits rw sps in
                     (rw, map_option (\<lambda>spliced. enc (take a bytes @ spliced @ drop b bytes)) edited)))))"

section \<open>\<open>rewrite\<close>\<close>

text \<open>The replacement instruction.\<close>

definition blob_text :: "str \<Rightarrow> str \<Rightarrow> str" where
  "blob_text index payload =
     ''4.blob,'' @ show_nat (length index) @ ''.'' @ index @ '','' @
     show_nat (length payload) @ ''.'' @ payload @ '';''"

definition rewrite_step ::
  "(str \<Rightarrow> byte list option) \<Rightarrow> (byte list \<Rightarrow> str) \<Rightarrow> sps_rewriter \<Rightarrow> str \<Rightarrow> str list
    \<Rightarrow> sps_rewriter \<times> str option" where
  "rewrite_step dec enc rw opcode args =
     (case first_index args of
        None \<Rightarrow> (rw, None)
      | Some index \<Rightarrow>
          if opcode = ''h264'' then (rw\<lparr>h264_streams := insert index (h264_streams rw)\<rparr>, None)
          else if opcode = ''end'' then (rw\<lparr>h264_streams := h264_streams rw - {index}\<rparr>, None)
          else if opcode = ''blob'' \<and> index \<in> h264_streams rw then
            (case args of
               a # payload # _ \<Rightarrow>
                 (case rewritten_payload dec enc rw payload of
                    (rw, None) \<Rightarrow> (rw, None)
                  | (rw, Some replacement) \<Rightarrow> (rw, Some (blob_text a replacement)))
             | _ \<Rightarrow> (rw, None))
          else (rw, None))"

text \<open>
  The \<open>while\<close> loop: \<open>out\<close> is the output if there is one yet, \<open>pend\<close> is \<open>text[pending..pos]\<close>
  and \<open>s\<close> is \<open>text[pos..]\<close>.
\<close>

function rewrite_loop ::
  "(str \<Rightarrow> byte list option) \<Rightarrow> (byte list \<Rightarrow> str) \<Rightarrow> sps_rewriter \<Rightarrow> str option \<Rightarrow> str \<Rightarrow> str
    \<Rightarrow> sps_rewriter \<times> str option" where
  "rewrite_loop dec enc rw out pend s =
     (if s = [] then (rw, map_option (\<lambda>o'. o' @ pend) out)
      else
        (case read_instruction 2 s of
           None \<Rightarrow> (rw, map_option (\<lambda>o'. o' @ pend @ s) out)
         | Some (opcode, args, next) \<Rightarrow>
             (case rewrite_step dec enc rw opcode args of
                (rw', None) \<Rightarrow> rewrite_loop dec enc rw' out (pend @ take (length s - length next) s) next
              | (rw', Some new) \<Rightarrow>
                  rewrite_loop dec enc rw'
                    (Some ((case out of None \<Rightarrow> [] | Some o' \<Rightarrow> o') @ pend @ new)) [] next)))"
  by pat_completeness auto
termination
  by (relation "measure (\<lambda>(_, _, _, _, _, s). length s)")
    (auto simp: read_instruction_read dest: read_elements_length)

declare rewrite_loop.simps [simp del]

definition rewrite ::
  "(str \<Rightarrow> byte list option) \<Rightarrow> (byte list \<Rightarrow> str) \<Rightarrow> sps_rewriter \<Rightarrow> str \<Rightarrow> sps_rewriter \<times> str option" where
  "rewrite dec enc rw text =
     (if rw_state rw = PassThrough \<and> \<not> bound_reordering rw \<and> \<not> allow_gaps rw then (rw, None)
      else rewrite_loop dec enc rw None [] text)"

section \<open>The rewriter as a chunk walker\<close>

definition rewrite_instr ::
  "(str \<Rightarrow> byte list option) \<Rightarrow> (byte list \<Rightarrow> str) \<Rightarrow> sps_rewriter \<Rightarrow> str list \<Rightarrow> sps_rewriter \<times> str option" where
  "rewrite_instr dec enc rw vs = rewrite_step dec enc rw (hd vs) (take 2 (tl vs))"

lemma rewrite_loop_instr:
  "read_elements s = Some (vs, r) \<Longrightarrow>
   rewrite_loop dec enc rw out pend s =
     (case rewrite_instr dec enc rw vs of
        (rw', None) \<Rightarrow> rewrite_loop dec enc rw' out (pend @ take (length s - length r) s) r
      | (rw', Some x) \<Rightarrow> rewrite_loop dec enc rw' (add_replacement out pend x) [] r)"
  by (subst rewrite_loop.simps)
    (auto simp: read_instruction_read rewrite_instr_def add_replacement_def held_text_def
      dest: read_elements_length)

lemma rewrite_loop_stop:
  "read_elements s = None \<Longrightarrow> rewrite_loop dec enc rw out pend s = (rw, finish_text out (pend @ s))"
  by (subst rewrite_loop.simps) (simp add: read_instruction_read finish_text_def)

interpretation sps: total_chunk_walker "rewrite_instr dec enc" add_replacement finish_text
  "rewrite_loop dec enc" for dec enc
  by unfold_locales (simp_all add: rewrite_loop_instr rewrite_loop_stop finish_text_def)

interpretation sps: text_walker "rewrite_instr dec enc" "rewrite_loop dec enc" for dec enc ..


section \<open>What the edits make of an SPS\<close>

definition current :: "byte list \<Rightarrow> byte list option \<Rightarrow> byte list" where
  "current sps edited = (case edited of None \<Rightarrow> sps | Some e \<Rightarrow> e)"

definition bt709 :: "colour_signal \<Rightarrow> colour_signal" where
  "bt709 s = \<lparr>vui_present = True, video_signal_type_present = True,
     full_range = (video_signal_type_present s \<longrightarrow> full_range s),
     primaries = Some 1, transfer = Some 1, matrix = Some 1\<rparr>"

definition gaps_permitted :: "byte list \<Rightarrow> bool" where
  "gaps_permitted sps \<longleftrightarrow>
     (case parse_rbsp (unescape sps) of None \<Rightarrow> False | Some p \<Rightarrow> bit_at (unescape sps) (p_gaps_bit p))"

lemma edit_colour:
  assumes "parse_sps sps = Some s"
  shows "case complete_colour_signalling sps of
      None \<Rightarrow> \<not> needs_description s
    | Some out \<Rightarrow> needs_description s \<and> parse_sps out = Some (bt709 s)"
  using complete_colour_signalling_spec [of sps] assms
  by (auto simp: bt709_def split: if_splits option.splits)

lemma edit_reorder:
  assumes "parse_sps sps = Some s"
  shows "case declare_no_reordering sps of
      None \<Rightarrow> \<not> reordering_unbounded sps
    | Some out \<Rightarrow> reordering_unbounded sps \<and> \<not> reordering_unbounded out \<and>
        parse_sps out = Some (s\<lparr>vui_present := True\<rparr>)"
  using declare_no_reordering_spec [of sps] assms
  by (auto simp: parse_sps_def split: if_splits option.splits)

lemma edit_gaps:
  assumes "parse_sps sps = Some s"
  shows "case allow_frame_num_gaps sps of
      None \<Rightarrow> gaps_permitted sps
    | Some out \<Rightarrow> gaps_permitted out \<and> parse_rbsp (unescape out) = parse_rbsp (unescape sps)"
proof -
  obtain p where p: "parse_rbsp (unescape sps) = Some p" using assms by (auto simp: parse_sps_def)
  show ?thesis
    using allow_frame_num_gaps_spec [of sps] sps_gaps_bit [OF p]
    by (auto simp: p gaps_permitted_def split: if_splits option.splits)
qed

lemma current_try_edit:
  "current sps (snd (try_edit wanted e f sps x)) =
     (let c = current sps (snd x) in if wanted then current c (f c) else c)"
  by (cases x) (auto simp: try_edit_def current_def Let_def split: option.splits)

lemma current_apply_edits:
  "current sps (snd (apply_edits rw sps)) =
     (let a = (if rw_state rw = Rewriting then current sps (complete_colour_signalling sps) else sps);
          b = (if bound_reordering rw then current a (declare_no_reordering a) else a)
      in if allow_gaps rw then current b (allow_frame_num_gaps b) else b)"
proof -
  have "current sps (snd (rw, None)) = sps" by (simp add: current_def)
  then show ?thesis unfolding apply_edits_def current_try_edit by (simp only: Let_def)
qed

text \<open>
  the three edits compose. Whatever the rewriter has decided, the SPS it leaves in place of
  a readable one is readable; if colour is being rewritten and the SPS had a VUI without a
  description, the result signals BT.709 that a browser acts on, with the host's range, and
  otherwise the colour it had; if reordering is being bounded it is bounded in the result;
  and if the auxiliary view is being dropped the result permits frame-number gaps.
\<close>

theorem apply_edits_correct:
  assumes "parse_sps sps = Some s" and "apply_edits rw sps = (rw', edited)"
  shows "(\<exists>s'. parse_sps (current sps edited) = Some s' \<and>
       (if rw_state rw = Rewriting \<and> needs_description s then s' = bt709 s \<and> is_actionable s'
        else s' = s \<or> (s' = s\<lparr>vui_present := True\<rparr> \<and> bound_reordering rw))) \<and>
    (bound_reordering rw \<longrightarrow> \<not> reordering_unbounded (current sps edited)) \<and>
    (allow_gaps rw \<longrightarrow> gaps_permitted (current sps edited))"
proof -
  define a where "a = (if rw_state rw = Rewriting then current sps (complete_colour_signalling sps) else sps)"
  define b where "b = (if bound_reordering rw then current a (declare_no_reordering a) else a)"
  define c where "c = (if allow_gaps rw then current b (allow_frame_num_gaps b) else b)"
  have cur: "current sps edited = c"
    using current_apply_edits [of sps rw] assms(2) by (simp add: a_def b_def c_def Let_def)
  define s1 where "s1 = (if rw_state rw = Rewriting \<and> needs_description s then bt709 s else s)"
  have a: "parse_sps a = Some s1"
    using edit_colour [OF assms(1)] assms(1) by (auto simp: a_def s1_def current_def split: option.splits)
  have "\<exists>s2. parse_sps b = Some s2 \<and> (s2 = s1 \<or> s2 = s1\<lparr>vui_present := True\<rparr> \<and> bound_reordering rw)"
      and b2: "bound_reordering rw \<longrightarrow> \<not> reordering_unbounded b"
    using edit_reorder [OF a] a by (auto simp: b_def current_def split: option.splits)
  then obtain s2 where b: "parse_sps b = Some s2" "s2 = s1 \<or> s2 = s1\<lparr>vui_present := True\<rparr> \<and> bound_reordering rw"
    by blast
  have c: "parse_rbsp (unescape c) = parse_rbsp (unescape b)" "allow_gaps rw \<longrightarrow> gaps_permitted c"
    using edit_gaps [OF b(1)] by (auto simp: c_def current_def split: option.splits)
  have "parse_sps c = Some s2" "reordering_unbounded c = reordering_unbounded b"
    using b(1) c(1) by (simp_all add: parse_sps_def reordering_unbounded_def)
  moreover have "(bt709 s)\<lparr>vui_present := True\<rparr> = bt709 s" "is_actionable (bt709 s)"
    by (simp_all add: bt709_def is_actionable_def)
  ultimately show ?thesis unfolding cur using b b2 c(2) by (auto simp: s1_def)
qed


theorem apply_edits_correct_witness:
  "let rw = rewriter_new\<lparr>rw_state := Rewriting, bound_reordering := True, allow_gaps := True\<rparr>;
       out = current demo_vui (snd (apply_edits rw demo_vui))
   in (\<exists>s'. parse_sps out = Some s' \<and> is_actionable s' \<and> full_range s') \<and>
      \<not> reordering_unbounded out \<and> gaps_permitted out"
proof -
  define rw where "rw = rewriter_new\<lparr>rw_state := Rewriting, bound_reordering := True, allow_gaps := True\<rparr>"
  have s: "parse_sps demo_vui = Some ((no_colour True)\<lparr>video_signal_type_present := True, full_range := True\<rparr>)"
    by (simp add: parse_sps_def demo_vui_parsed)
  have "apply_edits rw demo_vui = (fst (apply_edits rw demo_vui), snd (apply_edits rw demo_vui))" by simp
  from apply_edits_correct [OF s this] show ?thesis
    unfolding rw_def [symmetric] Let_def
    by (auto simp: rw_def needs_description_def no_colour_def bt709_def)
qed

section \<open>What \<open>rewrite\<close> does to the stream\<close>

text \<open>
  \<open>out\<close> is \<open>text\<close> with some \<open>blob\<close> instructions replaced by one on the same stream, whose
  payload is the original access unit with its SPS replaced by the edited SPS.
\<close>

inductive resplices :: "(str \<Rightarrow> byte list option) \<Rightarrow> (byte list \<Rightarrow> str) \<Rightarrow> str \<Rightarrow> str \<Rightarrow> bool"
  for dec enc where
  nothing: "resplices dec enc [] []"
| verbatim: "resplices dec enc s out \<Longrightarrow> resplices dec enc (t @ s) (t @ out)"
| blob: "instr_text (''blob'' # a # payload # rest) w \<Longrightarrow> parse_u32 a = Some index \<Longrightarrow>
    dec payload = Some bytes \<Longrightarrow> find_sps_range bytes = Some (x, y) \<Longrightarrow>
    apply_edits rw (take (y - x) (drop x bytes)) = (rw', Some sps) \<Longrightarrow>
    resplices dec enc s out \<Longrightarrow>
    resplices dec enc (w @ s) (blob_text a (enc (take x bytes @ sps @ drop y bytes)) @ out)"

lemma resplices_append:
  "resplices dec enc s out \<Longrightarrow> resplices dec enc t out' \<Longrightarrow> resplices dec enc (s @ t) (out @ out')"
  by (induction s out rule: resplices.induct) (auto intro: resplices.intros)

lemma resplices_refl: "resplices dec enc s s"
  using resplices.verbatim [OF resplices.nothing, of dec enc s] by simp

lemma rewritten_payload_Some:
  assumes "rewritten_payload dec enc rw payload = (rw', Some r)"
  shows "\<exists>bytes x y rw1 sps. dec payload = Some bytes \<and> find_sps_range bytes = Some (x, y) \<and>
    apply_edits rw1 (take (y - x) (drop x bytes)) = (rw', Some sps) \<and>
    r = enc (take x bytes @ sps @ drop y bytes)"
  using assms by (fastforce simp: rewritten_payload_def Let_def split: option.splits prod.splits)

lemma rewrite_instr_blob:
  assumes "rewrite_instr dec enc rw vs = (rw', Some new)" and "vs \<noteq> []"
  obtains a payload rest index bytes x y rw1 sps where "vs = ''blob'' # a # payload # rest"
    and "parse_u32 a = Some index" and "index \<in> h264_streams rw" and "dec payload = Some bytes"
    and "find_sps_range bytes = Some (x, y)"
    and "apply_edits rw1 (take (y - x) (drop x bytes)) = (rw', Some sps)"
    and "new = blob_text a (enc (take x bytes @ sps @ drop y bytes))"
proof -
  from assms(1) obtain index where i: "first_index (take 2 (tl vs)) = Some index"
    by (auto simp: rewrite_instr_def rewrite_step_def split: option.splits)
  with assms(1) obtain a payload rest where op: "hd vs = ''blob''" "index \<in> h264_streams rw"
    and args: "take 2 (tl vs) = a # payload # rest"
    by (auto simp: rewrite_instr_def rewrite_step_def split: if_splits list.splits)
  with assms(1) i obtain r where r: "rewritten_payload dec enc rw payload = (rw', Some r)" "new = blob_text a r"
    by (auto simp: rewrite_instr_def rewrite_step_def split: if_splits option.splits prod.splits)
  have "tl vs = (a # payload # rest) @ drop 2 (tl vs)" by (metis args append_take_drop_id)
  then have vs: "vs = ''blob'' # a # payload # (rest @ drop 2 (tl vs))"
    using op(1) assms(2) by (cases vs) auto
  have "parse_u32 a = Some index" using i args by (simp add: first_index_def)
  with vs op(2) r(2) rewritten_payload_Some [OF r(1)] that show thesis by blast
qed

lemma rewrite_instr_Some:
  assumes "rewrite_instr dec enc rw vs = (rw', Some new)" and "instr_text vs w"
  shows "resplices dec enc w new"
  using assms instr_text_nonempty [OF assms(2)]
    resplices.blob [OF _ _ _ _ _ resplices.nothing, of _ _ _ w _ dec _ _ _ _ _ _ enc]
  by (elim rewrite_instr_blob) auto

lemma walk_resplices:
  "list_all (\<lambda>(w, vs). instr_text vs w) xs \<Longrightarrow>
   resplices dec enc (concat (map fst xs)) (walk_tokens id (\<lambda>x. x) (rewrite_instr dec enc) rw xs)"
proof (induction xs arbitrary: rw)
  case (Cons x xs)
  obtain w vs where x: "x = (w, vs)" by (cases x)
  obtain rw' q where step: "rewrite_instr dec enc rw vs = (rw', q)" by (cases "rewrite_instr dec enc rw vs")
  then have "resplices dec enc w (case q of None \<Rightarrow> w | Some new \<Rightarrow> new)"
    using rewrite_instr_Some [of dec enc rw vs] Cons.prems x by (auto simp: resplices_refl split: option.split)
  from resplices_append [OF this Cons.IH [of rw']] Cons.prems x step show ?case
    by (cases q) simp_all
qed (simp add: resplices.nothing)

lemma forwarded_loop:
  "forwarded s (snd (rewrite_loop dec enc rw None [] s)) =
     walk_tokens id (\<lambda>x. x) (rewrite_instr dec enc) rw (fst (parse_chunk s)) @ snd (parse_chunk s)"
  using sps.sent_run [of None "[]" "fst (parse_chunk s)" "snd (parse_chunk s)" s dec enc rw]
  by (simp add: sps.loop_run parse_chunk_concat held_text_def)

text \<open>With nothing to do, the early return sends what the loop would have sent.\<close>

definition idle :: "sps_rewriter \<Rightarrow> bool" where
  "idle rw \<longleftrightarrow> rw_state rw = PassThrough \<and> \<not> bound_reordering rw \<and> \<not> allow_gaps rw"

lemma apply_edits_idle: "idle rw \<Longrightarrow> apply_edits rw sps = (rw, None)"
  by (simp add: apply_edits_def try_edit_def idle_def)

lemma rewrite_instr_idle:
  "idle rw \<Longrightarrow> idle (fst (rewrite_instr dec enc rw vs)) \<and> snd (rewrite_instr dec enc rw vs) = None"
  by (auto simp: rewrite_instr_def rewrite_step_def rewritten_payload_def decide_stream_def
      apply_edits_idle Let_def split: option.splits list.splits) (auto simp: idle_def)

lemma forwarded_rewrite:
  "forwarded s (snd (rewrite dec enc rw s)) = forwarded s (snd (rewrite_loop dec enc rw None [] s))"
proof (cases "idle rw")
  case True
  then have "quiet (rewrite_instr dec enc) rw (fst (parse_chunk s))"
    by (rule quiet_inv [rotated]) (rule rewrite_instr_idle)
  from sps.loop_pass [OF this, of None "[]"] True show ?thesis
    by (simp add: rewrite_def idle_def finish_text_def)
qed (auto simp: rewrite_def idle_def)

lemma rewrite_resplices_spec: "resplices dec enc text (forwarded text (snd (rewrite dec enc rw text)))"
proof -
  have "list_all (\<lambda>(w, vs). instr_text vs w) (fst (parse_chunk text))"
    by (auto simp: list_all_iff dest: parse_chunk_instrs)
  from resplices_append [OF walk_resplices [OF this] resplices_refl [of _ _ "snd (parse_chunk text)"]]
  show ?thesis by (simp add: forwarded_rewrite forwarded_loop parse_chunk_concat)
qed

text \<open>
  \<open>rewrite\<close> changes nothing but SPS payloads. On every input, what goes on to the browser
  is the input text in which some \<open>blob\<close> instructions are replaced by a \<open>blob\<close> on the same
  stream, whose payload is the original access unit with its SPS, and nothing else, exchanged
  for the edited one.
\<close>

theorem rewrite_resplices: "resplices dec enc text (forwarded text (snd (rewrite dec enc rw text)))"
  by (rule rewrite_resplices_spec)

text \<open>
  chunking is invisible to \<open>rewrite\<close>: two chunks of complete instructions, the second
  rewritten with the state the first left, give the same text as the two at once, also where
  the first settles that nothing more is to be examined.
\<close>

theorem rewrite_append:
  assumes "complete_chunk a" and "complete_chunk b"
  shows "forwarded (a @ b) (snd (rewrite dec enc rw (a @ b))) =
    forwarded a (snd (rewrite dec enc rw a)) @
    forwarded b (snd (rewrite dec enc (fst (rewrite dec enc rw a)) b))"
proof (cases "idle rw")
  case True
  then have "rewrite dec enc rw s = (rw, None)" for s by (simp add: rewrite_def idle_def)
  then show ?thesis by (simp add: forwarded_def)
next
  case False
  then have "fst (rewrite dec enc rw a) = fst (rewrite_loop dec enc rw None [] a)"
    by (auto simp: rewrite_def idle_def)
  then show ?thesis unfolding forwarded_rewrite using sps.sent_append [OF assms, of dec enc rw] by simp
qed


text \<open>A session opens a stream and sends an access unit holding \<^const>\<open>demo_vui\<close> on it.\<close>

definition demo_unit :: "byte list" where
  "demo_unit = [0, 0, 0, 1, 0x67] @ demo_vui"

definition demo_open :: str where "demo_open = ''4.h264,1.3;''"
definition demo_blob :: str where "demo_blob = ''4.blob,1.3,2.AB;''"

lemma demo_complete [simp]: "complete_chunk demo_open" "complete_chunk demo_blob"
    "complete_chunk (demo_open @ demo_blob)"
  by (simp_all add: complete_chunk_def demo_open_def demo_blob_def wire_simps)

lemma demo_find: "find_sps_range demo_unit = Some (5, 12)"
  by (simp add: demo_unit_def demo_vui_def find_sps_range_def sps_range_from.simps next_start_code.simps
      start_code_at_def)

lemma demo_edits:
  assumes "rw_state rw = Rewriting"
  shows "\<exists>rw' out. apply_edits rw demo_vui = (rw', Some out)"
proof -
  obtain out where "complete_colour_signalling demo_vui = Some out"
    using edit_colour [of demo_vui] by (auto simp: parse_sps_def demo_vui_parsed needs_description_def
      no_colour_def split: option.splits)
  then show ?thesis using assms
    by (auto simp: apply_edits_def try_edit_def split: option.splits)
qed

lemma demo_rewrite:
  "\<exists>rw'. rewrite (\<lambda>_. Some demo_unit) (\<lambda>_. ''QQ'') rewriter_new (demo_open @ demo_blob)
     = (rw', Some (demo_open @ ''4.blob,1.3,2.QQ;''))"
proof -
  define rw where "rw = rewriter_new\<lparr>h264_streams := {3}, rw_state := Rewriting, bound_reordering := True\<rparr>"
  obtain rw' out where e: "apply_edits rw demo_vui = (rw', Some out)"
    using demo_edits [of rw] by (auto simp: rw_def)
  have p: "parse_sps demo_vui = Some ((no_colour True)\<lparr>video_signal_type_present := True, full_range := True\<rparr>)"
    "reordering_unbounded demo_vui"
    by (simp_all add: parse_sps_def reordering_unbounded_def demo_vui_parsed)
  have u: "take 7 (drop 5 demo_unit) = demo_vui" by (simp add: demo_unit_def demo_vui_def)
  have d: "decide_stream (rewriter_new\<lparr>h264_streams := {3}\<rparr>) demo_vui = Some rw"
    by (simp add: decide_stream_def rewriter_new_def p needs_description_def no_colour_def rw_def)
  have "rewritten_payload (\<lambda>_. Some demo_unit) (\<lambda>_. ''QQ'') (rewriter_new\<lparr>h264_streams := {3}\<rparr>) ''AB''
      = (rw', Some ''QQ'')"
    by (simp add: rewritten_payload_def demo_find u d e)
  then show ?thesis
    by (simp add: rewrite_def rewriter_new_def rewrite_loop.simps demo_open_def demo_blob_def
        read_instruction_read wire_simps rewrite_step_def first_index_def blob_text_def show_nat.simps
        digit_char_def)
qed

theorem rewrite_append_witness:
  "forwarded (demo_open @ demo_blob)
      (snd (rewrite (\<lambda>_. Some demo_unit) (\<lambda>_. ''QQ'') rewriter_new (demo_open @ demo_blob)))
    = demo_open @ ''4.blob,1.3,2.QQ;'' \<and>
   (let rw = fst (rewrite (\<lambda>_. Some demo_unit) (\<lambda>_. ''QQ'') rewriter_new demo_open) in
    forwarded demo_open (snd (rewrite (\<lambda>_. Some demo_unit) (\<lambda>_. ''QQ'') rewriter_new demo_open)) @
    forwarded demo_blob (snd (rewrite (\<lambda>_. Some demo_unit) (\<lambda>_. ''QQ'') rw demo_blob))
    = demo_open @ ''4.blob,1.3,2.QQ;'')"
proof -
  have "forwarded (demo_open @ demo_blob)
      (snd (rewrite (\<lambda>_. Some demo_unit) (\<lambda>_. ''QQ'') rewriter_new (demo_open @ demo_blob)))
    = demo_open @ ''4.blob,1.3,2.QQ;''"
    using demo_rewrite by (auto simp: forwarded_def)
  then show ?thesis
    using rewrite_append [OF demo_complete(1,2), of "\<lambda>_. Some demo_unit" "\<lambda>_. ''QQ''" rewriter_new]
    by (simp add: Let_def)
qed

section \<open>Framing of the output\<close>

lemma blob_text_instr:
  assumes "list_all is_ascii a" and "list_all is_ascii p" and "length (blob_text a p) < 2 ^ 64"
  shows "instr_text [''blob'', a, p] (blob_text a p)"
proof -
  have "length a < 2 ^ 64" "length p < 2 ^ 64" using assms(3) by (simp_all add: blob_text_def)
  moreover have "element_text ''blob'' ''4.blob''"
    using element_text_ascii [of "''blob''"]
    by (simp add: encode_element_def show_nat.simps digit_char_def is_ascii_def byte_of_def)
  ultimately have "instr_text (''blob'' # [a, p])
      (''4.blob'' @ CHR '','' # encode_element a @ CHR '','' # encode_element p @ '';'')"
    using assms(1,2)
    by (intro instr_text.more instr_text.last_element element_text_ascii)
  then show ?thesis by (simp add: blob_text_def encode_element_def)
qed

lemma walk_framed:
  assumes "\<And>b. list_all is_ascii (enc b)"
  shows "list_all (\<lambda>(w, vs). instr_text vs w) xs \<Longrightarrow>
    length (walk_tokens id (\<lambda>x. x) (rewrite_instr dec enc) rw xs) < 2 ^ 64 \<Longrightarrow>
    complete_chunk (walk_tokens id (\<lambda>x. x) (rewrite_instr dec enc) rw xs)"
proof (induction xs arbitrary: rw)
  case Nil
  then show ?case by (simp add: complete_chunk_def parse_chunk_None)
next
  case (Cons x xs)
  obtain w vs where x: "x = (w, vs)" by (cases x)
  with Cons.prems have w: "instr_text vs w" by simp
  obtain rw' q where step: "rewrite_instr dec enc rw vs = (rw', q)" by (cases "rewrite_instr dec enc rw vs")
  show ?case
  proof (cases q)
    case None
    with Cons x w step show ?thesis by (simp add: complete_chunk_instr)
  next
    case (Some new)
    obtain a b index where new: "new = blob_text a (enc b)" "parse_u32 a = Some index"
      using rewrite_instr_blob [OF step [unfolded Some]] instr_text_nonempty [OF w] by metis
    then have "instr_text [''blob'', a, enc b] new"
      using Cons.prems(2) x step Some assms parse_unsigned_ascii [OF new(2)] by (auto intro!: blob_text_instr)
    with Cons x step Some show ?thesis by (simp add: complete_chunk_instr)
  qed
qed

lemma rewrite_framed_spec:
  assumes "complete_chunk text" and "\<And>b. list_all is_ascii (enc b)"
    and "length (forwarded text (snd (rewrite dec enc rw text))) < 2 ^ 64"
  shows "complete_chunk (forwarded text (snd (rewrite dec enc rw text)))"
proof -
  have "list_all (\<lambda>(w, vs). instr_text vs w) (fst (parse_chunk text))"
    by (auto simp: list_all_iff dest: parse_chunk_instrs)
  from walk_framed [where enc = enc and dec = dec and rw = rw, OF assms(2) this] show ?thesis
    using assms(1,3) by (simp add: forwarded_rewrite forwarded_loop complete_chunk_def)
qed

text \<open>
  \<open>rewrite\<close> keeps the stream framed. If the base64 engine writes ASCII and the result fits
  in memory, a chunk of complete instructions goes on as a chunk of complete instructions.
\<close>

theorem rewrite_framed:
  assumes "complete_chunk text" and "\<And>b. list_all is_ascii (enc b)"
    and "length (forwarded text (snd (rewrite dec enc rw text))) < 2 ^ 64"
  shows "complete_chunk (forwarded text (snd (rewrite dec enc rw text)))"
  using assms by (rule rewrite_framed_spec)

theorem rewrite_framed_witness:
  "complete_chunk (demo_open @ ''4.blob,1.3,2.QQ;'')"
proof -
  have "forwarded (demo_open @ demo_blob)
      (snd (rewrite (\<lambda>_. Some demo_unit) (\<lambda>_. ''QQ'') rewriter_new (demo_open @ demo_blob)))
    = demo_open @ ''4.blob,1.3,2.QQ;''"
    using demo_rewrite by (auto simp: forwarded_def)
  then show ?thesis
    using rewrite_framed [OF demo_complete(3), of "\<lambda>_. ''QQ''" "\<lambda>_. Some demo_unit" rewriter_new]
    by (simp add: demo_open_def is_ascii_def byte_of_def)
qed

section \<open>A session\<close>

text \<open>
  The states a session's rewriter goes through, with the edits its caller has logged: chunks
  are rewritten, the dropper's wish for the gaps flag is passed on, the edits are taken.
\<close>

inductive rewriter_session ::
  "(str \<Rightarrow> byte list option) \<Rightarrow> (byte list \<Rightarrow> str) \<Rightarrow> sps_rewriter \<Rightarrow> edit list \<Rightarrow> bool" for dec enc where
  start: "rewriter_session dec enc rewriter_new []"
| chunk: "rewriter_session dec enc rw log \<Longrightarrow> rewrite dec enc rw text = (rw', out) \<Longrightarrow>
    rewriter_session dec enc rw' log"
| allow: "rewriter_session dec enc rw log \<Longrightarrow>
    rewriter_session dec enc (set_allow_frame_num_gaps allow rw) log"
| report: "rewriter_session dec enc rw log \<Longrightarrow> take_edits rw = (rw', edits) \<Longrightarrow>
    rewriter_session dec enc rw' (log @ edits)"

definition edits_inv :: "edit list \<Rightarrow> sps_rewriter \<Rightarrow> bool" where
  "edits_inv log rw \<longleftrightarrow> distinct (log @ pending_edits rw) \<and> made rw = log @ pending_edits rw \<and>
     (ColourDescription \<in> set (made rw) \<longrightarrow> rw_state rw = Rewriting) \<and>
     (NoReordering \<in> set (made rw) \<longrightarrow> bound_reordering rw) \<and>
     (rw_state rw = Undecided \<longrightarrow> made rw = [])"


lemma note_edit_keeps [simp]:
  "rw_state (note_edit e rw) = rw_state rw" "bound_reordering (note_edit e rw) = bound_reordering rw"
  "allow_gaps (note_edit e rw) = allow_gaps rw" "h264_streams (note_edit e rw) = h264_streams rw"
  by (simp_all add: note_edit_def)

lemma edits_inv_note:
  "edits_inv log rw \<Longrightarrow> rw_state rw \<noteq> Undecided \<Longrightarrow> (e = ColourDescription \<Longrightarrow> rw_state rw = Rewriting) \<Longrightarrow>
   (e = NoReordering \<Longrightarrow> bound_reordering rw) \<Longrightarrow> edits_inv log (note_edit e rw)"
  by (auto simp: edits_inv_def note_edit_def)

definition same_decision :: "sps_rewriter \<Rightarrow> sps_rewriter \<Rightarrow> bool" where
  "same_decision rw rw' \<longleftrightarrow> rw_state rw' = rw_state rw \<and> bound_reordering rw' = bound_reordering rw"

lemma try_edit_inv:
  assumes "edits_inv log (fst x)" and "same_decision rw (fst x)" and "rw_state rw \<noteq> Undecided"
    and "wanted \<Longrightarrow> e = ColourDescription \<Longrightarrow> rw_state rw = Rewriting"
    and "wanted \<Longrightarrow> e = NoReordering \<Longrightarrow> bound_reordering rw"
  shows "edits_inv log (fst (try_edit wanted e f sps x)) \<and> same_decision rw (fst (try_edit wanted e f sps x))"
proof (cases x)
  case (Pair r ed)
  with assms show ?thesis
    by (auto simp: try_edit_def same_decision_def intro!: edits_inv_note split: option.splits)
qed

lemma apply_edits_inv:
  assumes "edits_inv log rw" and "rw_state rw \<noteq> Undecided"
  shows "edits_inv log (fst (apply_edits rw sps)) \<and> same_decision rw (fst (apply_edits rw sps))"
proof -
  define x where "x = try_edit (rw_state rw = Rewriting) ColourDescription complete_colour_signalling sps (rw, None)"
  define y where "y = try_edit (bound_reordering rw) NoReordering declare_no_reordering sps x"
  have x: "edits_inv log (fst x)" "same_decision rw (fst x)"
    unfolding x_def using try_edit_inv [of log "(rw, None)" rw] assms by (auto simp: same_decision_def)
  then have y: "edits_inv log (fst y)" "same_decision rw (fst y)"
    unfolding y_def using try_edit_inv [of log x rw] assms(2) by auto
  show ?thesis
    unfolding apply_edits_def x_def [symmetric] y_def [symmetric]
    using try_edit_inv [OF y assms(2), of "allow_gaps rw" FrameNumGaps] by simp
qed

lemma rewritten_payload_state:
  "fst (rewritten_payload dec enc rw payload) = rw \<or>
   (\<exists>sps rw1. decide_stream rw sps = Some rw1 \<and>
      fst (rewritten_payload dec enc rw payload) = fst (apply_edits rw1 sps))"
  by (auto simp: rewritten_payload_def Let_def split_beta split: option.splits)

lemma rewrite_instr_state:
  "(\<exists>ss. fst (rewrite_instr dec enc rw vs) = rw\<lparr>h264_streams := ss\<rparr>) \<or>
   (\<exists>payload. fst (rewrite_instr dec enc rw vs) = fst (rewritten_payload dec enc rw payload))"
proof -
  have "\<exists>ss. rw = rw\<lparr>h264_streams := ss\<rparr>" by (rule exI [of _ "h264_streams rw"]) simp
  then show ?thesis
    by (auto simp: rewrite_instr_def rewrite_step_def split_beta split: option.split list.split)
qed

lemma rewritten_payload_inv:
  assumes "edits_inv log rw"
  shows "edits_inv log (fst (rewritten_payload dec enc rw payload)) \<and>
    (rw_state rw \<noteq> Undecided \<longrightarrow> same_decision rw (fst (rewritten_payload dec enc rw payload)))"
  using rewritten_payload_state [of dec enc rw payload]
proof (elim disjE exE conjE)
  fix sps rw1
  assume d: "decide_stream rw sps = Some rw1"
    and e: "fst (rewritten_payload dec enc rw payload) = fst (apply_edits rw1 sps)"
  have "edits_inv log rw1 \<and> rw_state rw1 \<noteq> Undecided \<and> (rw_state rw \<noteq> Undecided \<longrightarrow> rw1 = rw)"
    using d assms by (auto simp: decide_stream_def edits_inv_def split: if_splits option.splits)
  then show ?thesis using apply_edits_inv [of log rw1 sps] e by auto
qed (use assms in \<open>simp add: same_decision_def\<close>)

lemma rewrite_instr_inv:
  assumes "edits_inv log rw"
  shows "edits_inv log (fst (rewrite_instr dec enc rw vs)) \<and>
    (rw_state rw \<noteq> Undecided \<longrightarrow> same_decision rw (fst (rewrite_instr dec enc rw vs)))"
  using rewrite_instr_state [of dec enc rw vs]
proof (elim disjE exE)
  fix ss
  assume "fst (rewrite_instr dec enc rw vs) = rw\<lparr>h264_streams := ss\<rparr>"
  with assms show ?thesis by (auto simp: edits_inv_def same_decision_def)
qed (use rewritten_payload_inv [OF assms] in auto)

lemma rewrite_inv:
  assumes "edits_inv log rw"
  shows "edits_inv log (fst (rewrite dec enc rw text)) \<and>
    (rw_state rw \<noteq> Undecided \<longrightarrow> same_decision rw (fst (rewrite dec enc rw text)))"
proof -
  define I where "I = (\<lambda>r. edits_inv log r \<and> (rw_state rw \<noteq> Undecided \<longrightarrow> same_decision rw r))"
  have "I (fst (rewrite_instr dec enc r vs))" if "I r" for r vs
    using rewrite_instr_inv [of log r dec enc vs] that by (auto simp: I_def same_decision_def)
  moreover have "I rw" using assms by (simp add: I_def same_decision_def)
  ultimately have "I (fst (rewrite_loop dec enc rw None [] text))"
    unfolding sps.loop_state by (rule walk_state_inv)
  with \<open>I rw\<close> show ?thesis by (auto simp: rewrite_def I_def)
qed

lemma session_edits_inv: "rewriter_session dec enc rw log \<Longrightarrow> edits_inv log rw"
proof (induction rule: rewriter_session.induct)
  case start
  then show ?case by (simp add: edits_inv_def rewriter_new_def)
next
  case (chunk rw log s rw' out)
  with rewrite_inv [of log rw dec enc s] show ?case by simp
qed (auto simp: edits_inv_def set_allow_frame_num_gaps_def take_edits_def)

text \<open>
  over a whole session, whatever chunks arrive, each of the three edits is logged at most
  once; an edit is logged only on a stream whose first readable SPS called for it (colour,
  reordering); nothing is logged before that SPS was seen; and once it was, no later chunk
  changes what was decided.
\<close>

theorem edits_reported_once:
  assumes "rewriter_session dec enc rw log"
  shows "distinct log \<and> (ColourDescription \<in> set log \<longrightarrow> rw_state rw = Rewriting) \<and>
    (NoReordering \<in> set log \<longrightarrow> bound_reordering rw) \<and> (rw_state rw = Undecided \<longrightarrow> log = []) \<and>
    (rw_state rw \<noteq> Undecided \<longrightarrow>
       (\<forall>text. rw_state (fst (rewrite dec enc rw text)) = rw_state rw \<and>
          bound_reordering (fst (rewrite dec enc rw text)) = bound_reordering rw))"
  using session_edits_inv [OF assms] rewrite_inv [OF session_edits_inv [OF assms], of dec enc]
  by (auto simp: edits_inv_def same_decision_def)

theorem edits_reported_once_witness:
  "\<exists>rw. rewriter_session (\<lambda>_. Some demo_unit) (\<lambda>_. ''QQ'') rw [] \<and> distinct ([] :: edit list) \<and>
     (rw_state rw = Undecided \<or>
      (\<forall>s. rw_state (fst (rewrite (\<lambda>_. Some demo_unit) (\<lambda>_. ''QQ'') rw s)) = rw_state rw))"
proof -
  have s: "rewriter_session (\<lambda>_. Some demo_unit) (\<lambda>_. ''QQ'')
      (fst (rewrite (\<lambda>_. Some demo_unit) (\<lambda>_. ''QQ'') rewriter_new (demo_open @ demo_blob))) []"
    by (rule rewriter_session.chunk [OF rewriter_session.start prod.collapse [symmetric]])
  then show ?thesis using edits_reported_once [OF s] by blast
qed

end
