(* ===== verification/Tally.thy ===== *)
theory Tally
  imports Main "HOL-Library.Product_Lexorder" "HOL-Library.List_Lexorder" "HOL-Library.Char_ord" "HOL-Library.AList"
begin

text \<open>
  The counters of the H.264 probe: Rust's \<open>BTreeMap<K, u64>\<close> used through
  \<open>*map.entry(k).or_default() += 1\<close>, as ascending association lists; and \<open>HashMap\<close>s whose
  size matters, as association lists with distinct keys. The locale \<open>tally\<close> is what the
  probe relies on: the keys of a map of counters are the values counted, and the counts add
  up to the number of times they were.
\<close>

section \<open>Counters\<close>

locale tally =
  fixes empty :: 'm
    and add :: "'k \<Rightarrow> 'm \<Rightarrow> 'm"
    and entries :: "'m \<Rightarrow> ('k \<times> nat) list"
    and inv :: "'m \<Rightarrow> bool"
  assumes inv_empty: "inv empty"
    and inv_add: "inv m \<Longrightarrow> inv (add k m)"
    and entries_empty: "entries empty = []"
    and entries_distinct: "inv m \<Longrightarrow> distinct (map fst (entries m))"
    and entries_add: "inv m \<Longrightarrow>
      map_of (entries (add k m)) = (map_of (entries m))
        (k \<mapsto> (case map_of (entries m) k of None \<Rightarrow> 1 | Some n \<Rightarrow> Suc n))"
begin

definition count_all :: "'k list \<Rightarrow> 'm" where
  "count_all ks = foldl (\<lambda>m k. add k m) empty ks"

lemma count_all_snoc: "count_all (ks @ [k]) = add k (count_all ks)"
  by (simp add: count_all_def)

lemma inv_count_all: "inv (count_all ks)"
  by (induction ks rule: rev_induct) (simp_all add: count_all_snoc inv_add, simp add: count_all_def inv_empty)

lemma count_all_map:
  "map_of (entries (count_all ks)) k = (if k \<in> set ks then Some (count_list ks k) else None)"
proof (induction ks rule: rev_induct)
  case Nil
  then show ?case by (simp add: count_all_def entries_empty)
next
  case (snoc x ks)
  then show ?case
    by (auto simp: count_all_snoc entries_add [OF inv_count_all] split: if_splits)
qed

lemma count_all_keys: "fst ` set (entries (count_all ks)) = set ks"
proof -
  have "fst ` set (entries (count_all ks)) = dom (map_of (entries (count_all ks)))"
    by (simp add: dom_map_of_conv_image_fst)
  also have "\<dots> = set ks" by (auto simp: dom_def count_all_map)
  finally show ?thesis .
qed

lemma count_list_filter: "count_list (filter P ks) k = (if P k then count_list ks k else 0)"
  by (induction ks) auto

lemma count_all_sum:
  "sum_list (map snd (filter (P \<circ> fst) (entries (count_all ks)))) = length (filter P ks)"
proof -
  define es where "es = filter (P \<circ> fst) (entries (count_all ks))"
  have d: "distinct (map fst (entries (count_all ks)))" by (simp add: entries_distinct inv_count_all)
  then have des: "distinct (map fst es)" unfolding es_def by (rule distinct_map_filter)
  have val: "snd e = count_list ks (fst e)" if "e \<in> set es" for e
  proof -
    have "e \<in> set (entries (count_all ks))" using that by (simp add: es_def)
    then have "map_of (entries (count_all ks)) (fst e) = Some (snd e)"
      using map_of_is_SomeI [OF d, of "fst e" "snd e"] by simp
    then show ?thesis by (simp add: count_all_map split: if_splits)
  qed
  have keys: "fst ` set es = {k \<in> set ks. P k}"
    using count_all_keys [of ks] by (auto simp: es_def image_iff)
  have "sum_list (map snd es) = (\<Sum>k\<leftarrow>map fst es. count_list ks k)"
    using val by (simp add: comp_def cong: map_cong)
  also have "\<dots> = (\<Sum>k\<in>{k \<in> set ks. P k}. count_list ks k)"
    unfolding sum_list_distinct_conv_sum_set [OF des] by (simp only: set_map keys)
  also have "\<dots> = (\<Sum>k\<in>set (filter P ks). count_list (filter P ks) k)"
    by (intro sum.cong) (auto simp: count_list_filter)
  also have "\<dots> = length (filter P ks)" by (rule sum_count_set) auto
  finally show ?thesis by (simp add: es_def)
qed

end

text \<open>\<open>*map.entry(k).or_default() += 1\<close> on an ascending association list.\<close>

fun bump :: "'k::linorder \<Rightarrow> ('k \<times> nat) list \<Rightarrow> ('k \<times> nat) list" where
  "bump k [] = [(k, 1)]"
| "bump k ((j, n) # m) =
     (if k < j then (k, 1) # (j, n) # m
      else if k = j then (j, Suc n) # m
      else (j, n) # bump k m)"

definition ascending :: "('k::linorder \<times> nat) list \<Rightarrow> bool" where
  "ascending m \<longleftrightarrow> sorted_wrt (<) (map fst m)"

lemma bump_keys: "fst ` set (bump k m) = insert k (fst ` set m)"
  by (induction k m rule: bump.induct) auto

lemma ascending_bump: "ascending m \<Longrightarrow> ascending (bump k m)"
proof (induction k m rule: bump.induct)
  case (2 k j n m)
  then show ?case using bump_keys [of k m] by (auto simp: ascending_def)
qed (simp add: ascending_def)

lemma ascending_distinct: "ascending m \<Longrightarrow> distinct (map fst m)"
  by (simp add: ascending_def strict_sorted_iff)

lemma map_of_bump:
  "ascending m \<Longrightarrow>
   map_of (bump k m) = (map_of m)(k \<mapsto> (case map_of m k of None \<Rightarrow> 1 | Some n \<Rightarrow> Suc n))"
proof (induction k m rule: bump.induct)
  case (2 k j n m)
  have "map_of m k = None" if "k < j"
    using 2(2) that by (auto simp: ascending_def map_of_eq_None_iff)
  with 2 show ?case by (auto simp: ascending_def fun_upd_twist)
qed auto

interpretation btree: tally "[]" bump "\<lambda>m. m" ascending
  by unfold_locales (simp_all add: ascending_bump ascending_distinct map_of_bump, simp add: ascending_def)

end
