(* ===== verification/H264_Refs.thy ===== *)
theory H264_Refs
  imports H264_Sps Wire_Scan Binary_Blob Tally
begin

text \<open>
  \<^verbatim>\<open>src/src/h264_refs.rs\<close>: \<open>NalProbe\<close>, which reads the reference structure of an AVC444
  stream out of its slice headers, and the verdict on whether the auxiliary views can be
  dropped. The base64 engine is the parameter \<open>dec\<close>; which entry of the SPS table
  \<open>HashMap::values().next()\<close> yields is the parameter \<open>pick\<close>. Arrays indexed by view are
  functions; the \<open>u64\<close> counters are natural numbers (they count events one by one).
\<close>

section \<open>Constants and data\<close>

definition AU_PREFIX_BYTES :: nat where "AU_PREFIX_BYTES = 2048"
definition AU_ENOUGH_BYTES :: nat where "AU_ENOUGH_BYTES = 768"
definition MAX_PENDING_STREAMS :: nat where "MAX_PENDING_STREAMS = 256"
definition MIN_MAIN_INTER_TO_DECIDE :: nat where "MIN_MAIN_INTER_TO_DECIDE = 10"
definition MIN_AUX_INTER_TO_DECIDE :: nat where "MIN_AUX_INTER_TO_DECIDE = 3"

record ref_sps =
  log2_max_frame_num :: nat
  pic_order_cnt_type :: nat
  log2_max_poc_lsb :: nat
  delta_pic_order_always_zero :: bool
  frame_mbs_only :: bool
  separate_colour_plane :: bool
  chroma_array_type :: nat
  gaps_allowed :: bool
  max_num_ref_frames :: nat

record ref_pps =
  pps_sps_id :: nat
  bottom_field_pic_order_in_frame_present :: bool
  num_ref_idx_l0_default_active_minus1 :: nat
  num_ref_idx_l1_default_active_minus1 :: nat
  weighted_pred :: bool
  weighted_bipred_idc :: nat
  redundant_pic_cnt_present :: bool

record slice =
  nal_ref_idc :: nat
  slice_idr :: bool
  slice_type :: nat
  frame_num :: nat
  slice_list_mods :: "(nat \<times> nat) list"
  slice_mmco :: "(nat \<times> nat) list"
  num_ref_idx_l0_active :: nat

definition base_type :: "slice \<Rightarrow> nat" where
  "base_type s = slice_type s mod 5"

definition type_name :: "slice \<Rightarrow> str" where
  "type_name s = (if base_type s = 0 then ''P'' else if base_type s = 1 then ''B''
     else if base_type s = 2 then ''I'' else if base_type s = 3 then ''SP'' else ''SI'')"

record pending_unit =
  pd_view :: nat
  pd_bytes :: nat
  pd_buf :: "byte list"
  pd_done :: bool

section \<open>Parameter sets\<close>

definition skip_slice_groups :: "nat \<Rightarrow> unit rd" where
  "skip_slice_groups num_slice_groups_minus1 r =
     (if 0 < num_slice_groups_minus1 then
        do { (map_type, r) \<leftarrow> rd_ue r;
             if map_type = 0 then rd_repeat (num_slice_groups_minus1 + 1) (rd_skip rd_ue) r
             else if map_type = 2
             then rd_repeat num_slice_groups_minus1 (\<lambda>r. do { (_, r) \<leftarrow> rd_ue r; rd_skip rd_ue r }) r
             else if 3 \<le> map_type \<and> map_type \<le> 5 then do { (_, r) \<leftarrow> rd_bit r; rd_skip rd_ue r }
             else if map_type = 6
             then do { (units, r) \<leftarrow> rd_ue r;
                       rd_repeat units (rd_skip (rd_bits (bit_width num_slice_groups_minus1))) r }
             else Some ((), r) }
      else Some ((), r))"

text \<open>The picture order count fields: \<open>log2_max_poc_lsb\<close> and \<open>delta_pic_order_always_zero\<close>.\<close>

definition read_pic_order :: "nat \<Rightarrow> (nat \<times> bool) rd" where
  "read_pic_order poc_type r =
     (if poc_type = 0 then do { (n, r) \<leftarrow> rd_ue r; Some (((n + 4) mod 2 ^ 32, False), r) }
      else if poc_type = 1 then
        do { (always_zero, r) \<leftarrow> rd_bit r;
             (_, r) \<leftarrow> rd_se r;
             (_, r) \<leftarrow> rd_se r;
             (cycle, r) \<leftarrow> rd_ue r;
             if 255 < cycle then None
             else do { (_, r) \<leftarrow> rd_repeat cycle (rd_skip rd_se) r; Some ((0, always_zero = 1), r) } }
      else Some ((0, False), r))"

definition parse_ref_sps :: "byte list \<Rightarrow> (nat \<times> ref_sps) option" where
  "parse_ref_sps payload =
     do { (prefix, r) \<leftarrow> read_sps_prefix (bit_reader_new (unescape payload));
          (frame_num_bits, r) \<leftarrow> rd_ue r;
          (poc_type, r) \<leftarrow> rd_ue r;
          ((poc_lsb, always_zero), r) \<leftarrow> read_pic_order poc_type r;
          (max_refs, r) \<leftarrow> rd_ue r;
          (gaps, r) \<leftarrow> rd_bit r;
          (_, r) \<leftarrow> rd_ue r;
          (_, r) \<leftarrow> rd_ue r;
          (mbs_only, r) \<leftarrow> rd_bit r;
          (_, r) \<leftarrow> (if mbs_only \<noteq> 1 then rd_skip rd_bit r else Some ((), r));
          Some (sp_seq_parameter_set_id prefix,
            \<lparr>log2_max_frame_num = (frame_num_bits + 4) mod 2 ^ 32, pic_order_cnt_type = poc_type,
             log2_max_poc_lsb = poc_lsb, delta_pic_order_always_zero = always_zero,
             frame_mbs_only = (mbs_only = 1), separate_colour_plane = sp_separate_colour_plane prefix,
             chroma_array_type = sp_chroma_array_type prefix, gaps_allowed = (gaps = 1),
             max_num_ref_frames = max_refs\<rparr>) }"

definition parse_pps :: "byte list \<Rightarrow> (nat \<times> ref_pps) option" where
  "parse_pps payload =
     do { (id', r) \<leftarrow> rd_ue (bit_reader_new (unescape payload));
          (sps_id, r) \<leftarrow> rd_ue r;
          (_, r) \<leftarrow> rd_bit r;
          (bottom, r) \<leftarrow> rd_bit r;
          (groups, r) \<leftarrow> rd_ue r;
          (_, r) \<leftarrow> skip_slice_groups groups r;
          (l0, r) \<leftarrow> rd_ue r;
          (l1, r) \<leftarrow> rd_ue r;
          (weighted, r) \<leftarrow> rd_bit r;
          (bipred, r) \<leftarrow> rd_bits 2 r;
          (_, r) \<leftarrow> rd_se r;
          (_, r) \<leftarrow> rd_se r;
          (_, r) \<leftarrow> rd_se r;
          (_, r) \<leftarrow> rd_bit r;
          (_, r) \<leftarrow> rd_bit r;
          (redundant, r) \<leftarrow> rd_bit r;
          Some (id', \<lparr>pps_sps_id = sps_id, bottom_field_pic_order_in_frame_present = (bottom = 1),
            num_ref_idx_l0_default_active_minus1 = l0, num_ref_idx_l1_default_active_minus1 = l1,
            weighted_pred = (weighted = 1), weighted_bipred_idc = bipred,
            redundant_pic_cnt_present = (redundant = 1)\<rparr>) }"

section \<open>Slice headers\<close>

function list_modification_loop :: "(nat \<times> nat) list \<Rightarrow> (nat \<times> nat) list rd" where
  "list_modification_loop out r =
     do { (idc, r) \<leftarrow> rd_ue r;
          if idc = 3 then Some (out, r)
          else do { (value, r) \<leftarrow> rd_ue r;
                    if 64 < length (out @ [(idc, value)]) then None
                    else list_modification_loop (out @ [(idc, value)]) r } }"
  by pat_completeness auto
termination
  by (relation "measure (\<lambda>(out, _). 65 - length out)") auto

declare list_modification_loop.simps [simp del]

definition read_list_modification :: "(nat \<times> nat) list \<Rightarrow> (nat \<times> nat) list rd" where
  "read_list_modification out r =
     do { (flag, r) \<leftarrow> rd_bit r;
          if flag = 0 then Some (out, r) else list_modification_loop out r }"

definition read_pred_weight_table :: "nat \<Rightarrow> nat \<Rightarrow> unit rd" where
  "read_pred_weight_table chroma num_ref_idx_active_minus1 r =
     do { (_, r) \<leftarrow> rd_ue r;
          (_, r) \<leftarrow> (if chroma \<noteq> 0 then rd_skip rd_ue r else Some ((), r));
          if 31 < num_ref_idx_active_minus1 then None
          else rd_repeat (num_ref_idx_active_minus1 + 1)
            (\<lambda>r. do { (luma, r) \<leftarrow> rd_bit r;
                      (_, r) \<leftarrow> (if luma = 1 then do { (_, r) \<leftarrow> rd_se r; rd_skip rd_se r }
                                 else Some ((), r));
                      if chroma \<noteq> 0
                      then do { (flag, r) \<leftarrow> rd_bit r;
                                if flag = 1
                                then rd_repeat 2 (\<lambda>r. do { (_, r) \<leftarrow> rd_se r; rd_skip rd_se r }) r
                                else Some ((), r) }
                      else Some ((), r) }) r }"

text \<open>The principal argument of one memory management control operation.\<close>

definition read_mmco_arg :: "nat \<Rightarrow> nat rd" where
  "read_mmco_arg op r =
     do { (arg, r) \<leftarrow> (if op = 1 \<or> op = 3 then rd_ue r else Some (0, r));
          (arg, r) \<leftarrow> (if op = 2 then rd_ue r else Some (arg, r));
          (arg, r) \<leftarrow> (if op = 3 \<or> op = 6 then rd_ue r else Some (arg, r));
          if op = 4 then rd_ue r else Some (arg, r) }"

function mmco_loop :: "(nat \<times> nat) list \<Rightarrow> (nat \<times> nat) list rd" where
  "mmco_loop mmco r =
     do { (op, r) \<leftarrow> rd_ue r;
          if op = 0 then Some (mmco, r)
          else do { (arg, r) \<leftarrow> read_mmco_arg op r;
                    if 32 < length (mmco @ [(op, arg)]) then None
                    else mmco_loop (mmco @ [(op, arg)]) r } }"
  by pat_completeness auto
termination
  by (relation "measure (\<lambda>(mmco, _). 33 - length mmco)") auto

declare mmco_loop.simps [simp del]

definition read_marking :: "nat \<Rightarrow> bool \<Rightarrow> (nat \<times> nat) list rd" where
  "read_marking ref_idc idr r =
     (if ref_idc \<noteq> 0 then
        (if idr then do { (_, r) \<leftarrow> rd_bit r; (_, r) \<leftarrow> rd_bit r; Some ([], r) }
         else do { (adaptive, r) \<leftarrow> rd_bit r;
                   if adaptive = 1 then mmco_loop [] r else Some ([], r) })
      else Some ([], r))"

text \<open>From \<open>frame_num\<close> to the last picture order field: yields \<open>frame_num\<close>.\<close>

definition read_slice_position :: "bool \<Rightarrow> ref_sps \<Rightarrow> ref_pps \<Rightarrow> nat rd" where
  "read_slice_position idr sps pps r =
     do { (_, r) \<leftarrow> (if separate_colour_plane sps then rd_skip (rd_bits 2) r else Some ((), r));
          (number, r) \<leftarrow> rd_bits (log2_max_frame_num sps) r;
          (field_pic, r) \<leftarrow>
            (if \<not> frame_mbs_only sps
             then do { (field, r) \<leftarrow> rd_bit r;
                       (_, r) \<leftarrow> (if field = 1 then rd_skip rd_bit r else Some ((), r));
                       Some (field = 1, r) }
             else Some (False, r));
          (_, r) \<leftarrow> (if idr then rd_skip rd_ue r else Some ((), r));
          (_, r) \<leftarrow>
            (if pic_order_cnt_type sps = 0
             then do { (_, r) \<leftarrow> rd_bits (log2_max_poc_lsb sps) r;
                       if bottom_field_pic_order_in_frame_present pps \<and> \<not> field_pic
                       then rd_skip rd_se r else Some ((), r) }
             else if pic_order_cnt_type sps = 1 \<and> \<not> delta_pic_order_always_zero sps
             then do { (_, r) \<leftarrow> rd_se r;
                       if bottom_field_pic_order_in_frame_present pps \<and> \<not> field_pic
                       then rd_skip rd_se r else Some ((), r) }
             else Some ((), r));
          (_, r) \<leftarrow> (if redundant_pic_cnt_present pps then rd_skip rd_ue r else Some ((), r));
          Some (number, r) }"

text \<open>The active reference counts of the two lists, after the override.\<close>

definition read_active_counts :: "bool \<Rightarrow> bool \<Rightarrow> ref_pps \<Rightarrow> (nat \<times> nat) rd" where
  "read_active_counts is_p is_b pps r =
     (let l0 = num_ref_idx_l0_default_active_minus1 pps; l1 = num_ref_idx_l1_default_active_minus1 pps in
      if is_p \<or> is_b
      then do { (override, r) \<leftarrow> rd_bit r;
                if override = 1
                then do { (l0, r) \<leftarrow> rd_ue r;
                          if is_b then do { (l1, r) \<leftarrow> rd_ue r; Some ((l0, l1), r) } else Some ((l0, l1), r) }
                else Some ((l0, l1), r) }
      else Some ((l0, l1), r))"

text \<open>\<open>ref_pic_list_modification()\<close> of both lists, into one record.\<close>

definition read_ref_lists :: "bool \<Rightarrow> bool \<Rightarrow> (nat \<times> nat) list rd" where
  "read_ref_lists is_intra is_b r =
     do { (mods, r) \<leftarrow> (if \<not> is_intra then read_list_modification [] r else Some ([], r));
          if is_b then read_list_modification mods r else Some (mods, r) }"

definition parse_slice ::
  "byte list \<Rightarrow> nat \<Rightarrow> bool \<Rightarrow> (nat \<times> ref_sps) list \<Rightarrow> (nat \<times> ref_pps) list \<Rightarrow> slice option" where
  "parse_slice payload ref_idc idr sps_by_id pps_by_id =
     do { (_, r) \<leftarrow> rd_ue (bit_reader_new (unescape payload));
          (stype, r) \<leftarrow> rd_ue r;
          (pps_id, r) \<leftarrow> rd_ue r;
          pps \<leftarrow> map_of pps_by_id pps_id;
          sps \<leftarrow> map_of sps_by_id (pps_sps_id pps);
          (number, r) \<leftarrow> read_slice_position idr sps pps r;
          let base = stype mod 5;
          let is_b = (base = 1);
          let is_p = (base = 0 \<or> base = 3);
          let is_intra = (base = 2 \<or> base = 4);
          (_, r) \<leftarrow> (if is_b then rd_skip rd_bit r else Some ((), r));
          ((l0, l1), r) \<leftarrow> read_active_counts is_p is_b pps r;
          (mods, r) \<leftarrow> read_ref_lists is_intra is_b r;
          (_, r) \<leftarrow>
            (if (weighted_pred pps \<and> is_p) \<or> (weighted_bipred_idc pps = 1 \<and> is_b)
             then do { (_, r) \<leftarrow> read_pred_weight_table (chroma_array_type sps) l0 r;
                       if is_b then read_pred_weight_table (chroma_array_type sps) l1 r else Some ((), r) }
             else Some ((), r));
          (mmco, r) \<leftarrow> read_marking ref_idc idr r;
          Some \<lparr>nal_ref_idc = ref_idc, slice_idr = idr, slice_type = stype, frame_num = number,
                slice_list_mods = mods, slice_mmco = mmco, num_ref_idx_l0_active = (l0 + 1) mod 2 ^ 32\<rparr> }"

section \<open>NAL units\<close>

text \<open>The header byte and payload range of each NAL unit from offset \<open>i\<close> on.\<close>

function nal_ranges :: "byte list \<Rightarrow> nat \<Rightarrow> (byte \<times> nat \<times> nat) list" where
  "nal_ranges annexb i =
     (if i + 4 < length annexb then
        (case start_code_at annexb i of
           None \<Rightarrow> nal_ranges annexb (i + 1)
         | Some header \<Rightarrow>
             let byte = annexb ! header in
             if and byte 0x80 \<noteq> 0 then nal_ranges annexb (header + 1)
             else
               let stop = (case next_start_code annexb (header + 1) of None \<Rightarrow> length annexb | Some e \<Rightarrow> e)
               in (byte, header + 1, stop) # nal_ranges annexb stop)
      else [])"
  by pat_completeness auto
termination
  by (relation "measure (\<lambda>(annexb, i). length annexb - i)")
    (auto dest!: start_code_at_Some next_start_code_ge split: option.splits)

declare nal_ranges.simps [simp del]

definition nal_units :: "byte list \<Rightarrow> (byte \<times> byte list) list" where
  "nal_units annexb = map (\<lambda>(h, a, b). (h, take (b - a) (drop a annexb))) (nal_ranges annexb 0)"


section \<open>Statistics\<close>

record view_stats =
  vs_total :: nat
  vs_reference :: nat
  vs_idr :: nat
  vs_bytes :: nat
  vs_slice_types :: "(str \<times> nat) list"

record ref_stats =
  aus :: nat
  views :: "nat \<Rightarrow> view_stats"
  main_deltas :: "(nat \<times> nat) list"
  aux_offsets :: "(nat \<times> nat) list"
  main_with_list_mod :: nat
  aux_with_list_mod :: nat
  list_mods_by_view :: "nat \<Rightarrow> ((nat \<times> nat) \<times> nat) list"
  mmco_by_view :: "nat \<Rightarrow> ((nat \<times> nat) \<times> nat) list"
  num_ref_idx_by_view :: "nat \<Rightarrow> (nat \<times> nat) list"
  long_term_marked :: "nat \<Rightarrow> nat"
  all_list_mods :: "((nat \<times> nat) \<times> nat) list"
  all_mmco :: "(nat \<times> nat) list"
  parse_failures :: nat
  seen_gaps_allowed :: "bool option"
  seen_max_num_ref_frames :: "nat option"
  seen_pic_order_cnt_type :: "nat option"

definition view_stats_default :: view_stats where
  "view_stats_default = \<lparr>vs_total = 0, vs_reference = 0, vs_idr = 0, vs_bytes = 0, vs_slice_types = []\<rparr>"

definition stats_default :: ref_stats where
  "stats_default = \<lparr>aus = 0, views = (\<lambda>_. view_stats_default), main_deltas = [], aux_offsets = [],
     main_with_list_mod = 0, aux_with_list_mod = 0, list_mods_by_view = (\<lambda>_. []),
     mmco_by_view = (\<lambda>_. []), num_ref_idx_by_view = (\<lambda>_. []), long_term_marked = (\<lambda>_. 0),
     all_list_mods = [], all_mmco = [], parse_failures = 0, seen_gaps_allowed = None,
     seen_max_num_ref_frames = None, seen_pic_order_cnt_type = None\<rparr>"

record nal_probe =
  pr_pending :: "(nat \<times> pending_unit) list"
  pr_sps :: "(nat \<times> ref_sps) list"
  pr_pps :: "(nat \<times> ref_pps) list"
  pr_stats :: ref_stats
  last_main_frame_num :: "nat option"

definition probe_new :: nal_probe where
  "probe_new = \<lparr>pr_pending = [], pr_sps = [], pr_pps = [], pr_stats = stats_default,
     last_main_frame_num = None\<rparr>"

definition bump_all :: "'k::linorder list \<Rightarrow> ('k \<times> nat) list \<Rightarrow> ('k \<times> nat) list" where
  "bump_all ks m = foldl (\<lambda>m k. bump k m) m ks"

text \<open>The per-view counters of one slice.\<close>

definition count_view :: "nat \<Rightarrow> slice \<Rightarrow> ref_stats \<Rightarrow> ref_stats" where
  "count_view view s st =
     (let vs = views st view in
      st\<lparr>aus := aus st + 1,
         views := (views st)(view := vs\<lparr>vs_total := vs_total vs + 1,
           vs_reference := vs_reference vs + (if nal_ref_idc s \<noteq> 0 then 1 else 0),
           vs_idr := vs_idr vs + (if slice_idr s then 1 else 0),
           vs_slice_types := bump (type_name s) (vs_slice_types vs)\<rparr>)\<rparr>)"

text \<open>\<open>(frame_num + wrap - prev) % wrap\<close> in \<open>u32\<close>.\<close>

definition frame_delta :: "nat \<Rightarrow> nat \<Rightarrow> nat \<Rightarrow> nat" where
  "frame_delta wrap number prev = ((number + wrap) mod 2 ^ 32 + 2 ^ 32 - prev) mod 2 ^ 32 mod wrap"

definition count_frame_num :: "nat \<Rightarrow> nat \<Rightarrow> slice \<Rightarrow> ref_stats \<times> nat option \<Rightarrow> ref_stats \<times> nat option" where
  "count_frame_num wrap view s = (\<lambda>(st, last_main).
     if view = 0 then
       (let st = (case last_main of None \<Rightarrow> st
                  | Some prev \<Rightarrow> st\<lparr>main_deltas := bump (frame_delta wrap (frame_num s) prev) (main_deltas st)\<rparr>);
            st = (if slice_list_mods s \<noteq> []
                  then st\<lparr>main_with_list_mod := main_with_list_mod st + 1\<rparr> else st)
        in (st, Some (frame_num s)))
     else
       (let st = (case last_main of None \<Rightarrow> st
                  | Some main \<Rightarrow> st\<lparr>aux_offsets := bump (frame_delta wrap (frame_num s) main) (aux_offsets st)\<rparr>);
            st = (if slice_list_mods s \<noteq> []
                  then st\<lparr>aux_with_list_mod := aux_with_list_mod st + 1\<rparr> else st)
        in (st, last_main)))"

definition count_references :: "nat \<Rightarrow> slice \<Rightarrow> ref_stats \<Rightarrow> ref_stats" where
  "count_references view s st =
     (let st = st\<lparr>all_list_mods := bump_all (slice_list_mods s) (all_list_mods st),
                  list_mods_by_view := (list_mods_by_view st)
                    (view := bump_all (slice_list_mods s) (list_mods_by_view st view))\<rparr>;
          st = (if base_type s \<noteq> 2 \<and> base_type s \<noteq> 4
                then st\<lparr>num_ref_idx_by_view := (num_ref_idx_by_view st)
                  (view := bump (num_ref_idx_l0_active s) (num_ref_idx_by_view st view))\<rparr> else st);
          st = (if list_ex (\<lambda>(op, _). op = 6) (slice_mmco s)
                then st\<lparr>long_term_marked := (long_term_marked st)(view := long_term_marked st view + 1)\<rparr> else st)
      in st\<lparr>all_mmco := bump_all (map fst (slice_mmco s)) (all_mmco st),
            mmco_by_view := (mmco_by_view st)(view := bump_all (slice_mmco s) (mmco_by_view st view))\<rparr>)"

definition note_slice :: "nat \<Rightarrow> nat \<Rightarrow> slice \<Rightarrow> ref_stats \<times> nat option \<Rightarrow> ref_stats \<times> nat option" where
  "note_slice wrap view s = (\<lambda>(st, last_main).
     (let (st, last_main) = count_frame_num wrap view s (count_view view s st, last_main)
      in (count_references view s st, last_main)))"

section \<open>The probe\<close>

text \<open>The NAL units of one access unit, up to its first slice.\<close>

fun scan_nals :: "(byte \<times> byte list) list \<Rightarrow> nal_probe \<Rightarrow> nal_probe \<times> slice option" where
  "scan_nals [] p = (p, None)"
| "scan_nals ((header, payload) # nals) p =
     (let ref_idc = unat (and (drop_bit 5 header) 3); nal_type = and header 0x1f in
      if nal_type = 7 then
        (case parse_ref_sps payload of
           None \<Rightarrow> scan_nals nals p
         | Some (id', sps) \<Rightarrow>
             scan_nals nals (p\<lparr>pr_stats := (pr_stats p)
               \<lparr>seen_gaps_allowed := Some (gaps_allowed sps),
                seen_max_num_ref_frames := Some (max_num_ref_frames sps),
                seen_pic_order_cnt_type := Some (pic_order_cnt_type sps)\<rparr>,
               pr_sps := AList.update id' sps (pr_sps p)\<rparr>))
      else if nal_type = 8 then
        (case parse_pps payload of
           None \<Rightarrow> scan_nals nals p
         | Some (id', pps) \<Rightarrow> scan_nals nals (p\<lparr>pr_pps := AList.update id' pps (pr_pps p)\<rparr>))
      else if nal_type = 1 \<or> nal_type = 5 then
        (p, parse_slice payload ref_idc (nal_type = 5) (pr_sps p) (pr_pps p))
      else scan_nals nals p)"

text \<open>\<open>1u32 << log2_max_frame_num\<close> of some SPS, or of 4 when there is none.\<close>

definition wrap_of :: "((nat \<times> ref_sps) list \<Rightarrow> ref_sps option) \<Rightarrow> nal_probe \<Rightarrow> nat" where
  "wrap_of pick p = 2 ^ ((case pick (pr_sps p) of None \<Rightarrow> 4 | Some s \<Rightarrow> log2_max_frame_num s) mod 32)"

definition analyse :: "((nat \<times> ref_sps) list \<Rightarrow> ref_sps option) \<Rightarrow> nat \<Rightarrow> nal_probe \<Rightarrow> nal_probe" where
  "analyse pick index p =
     (case map_of (pr_pending p) index of
        None \<Rightarrow> p
      | Some pending \<Rightarrow>
          (let p = p\<lparr>pr_pending := AList.update index (pending\<lparr>pd_done := True, pd_buf := []\<rparr>) (pr_pending p)\<rparr>;
               (p, found) = scan_nals (nal_units (pd_buf pending)) p
           in case found of
                None \<Rightarrow> p\<lparr>pr_stats := (pr_stats p)\<lparr>parse_failures := parse_failures (pr_stats p) + 1\<rparr>\<rparr>
              | Some s \<Rightarrow>
                  (let (st, last_main) =
                     note_slice (wrap_of pick p) (pd_view pending) s (pr_stats p, last_main_frame_num p)
                   in p\<lparr>pr_stats := st, last_main_frame_num := last_main\<rparr>)))"

definition nth_opt :: "'a list \<Rightarrow> nat \<Rightarrow> 'a option" where
  "nth_opt xs i = (if i < length xs then Some (xs ! i) else None)"

definition probe_open :: "str \<Rightarrow> nal_probe \<Rightarrow> nal_probe" where
  "probe_open rest p =
     (let args = elements rest in
      case Option.bind (nth_opt args 0) parse_u32 of
        None \<Rightarrow> p
      | Some index \<Rightarrow>
          (let view = min 2 (case Option.bind (nth_opt args 7) parse_u8 of None \<Rightarrow> 0 | Some v \<Rightarrow> v);
               pending = (if MAX_PENDING_STREAMS \<le> length (pr_pending p) then [] else pr_pending p)
           in p\<lparr>pr_pending := AList.update index
                  \<lparr>pd_view = view, pd_bytes = 0, pd_buf = [], pd_done = False\<rparr> pending\<rparr>))"

text \<open>The payload of a blob for an access unit being assembled.\<close>

definition buffer_blob ::
  "(str \<Rightarrow> byte list option) \<Rightarrow> ((nat \<times> ref_sps) list \<Rightarrow> ref_sps option) \<Rightarrow> nat \<Rightarrow> str \<Rightarrow>
   pending_unit \<Rightarrow> nal_probe \<Rightarrow> nal_probe" where
  "buffer_blob dec pick index payload pending p =
     (let pending = pending\<lparr>pd_bytes := pd_bytes pending + length payload div 4 * 3\<rparr>;
          p = p\<lparr>pr_pending := AList.update index pending (pr_pending p)\<rparr>
      in if pd_done pending then p
         else
           (case dec payload of
              None \<Rightarrow> p
            | Some bytes \<Rightarrow>
                (let room = AU_PREFIX_BYTES - length (pd_buf pending);
                     pending = pending\<lparr>pd_buf := pd_buf pending @ take room bytes\<rparr>;
                     p = p\<lparr>pr_pending := AList.update index pending (pr_pending p)\<rparr>
                 in if AU_ENOUGH_BYTES \<le> length (pd_buf pending) \<or> AU_PREFIX_BYTES \<le> length (pd_buf pending)
                    then analyse pick index p else p)))"

definition probe_blob ::
  "(str \<Rightarrow> byte list option) \<Rightarrow> ((nat \<times> ref_sps) list \<Rightarrow> ref_sps option) \<Rightarrow> str \<Rightarrow> nal_probe \<Rightarrow> nal_probe" where
  "probe_blob dec pick rest p =
     (let args = elements rest in
      case Option.bind (nth_opt args 0) parse_u32 of
        None \<Rightarrow> p
      | Some index \<Rightarrow>
          (case nth_opt args 1 of
             None \<Rightarrow> p
           | Some payload \<Rightarrow>
               (case map_of (pr_pending p) index of
                  None \<Rightarrow> p
                | Some pending \<Rightarrow> buffer_blob dec pick index payload pending p)))"

definition probe_end :: "((nat \<times> ref_sps) list \<Rightarrow> ref_sps option) \<Rightarrow> str \<Rightarrow> nal_probe \<Rightarrow> nal_probe" where
  "probe_end pick rest p =
     (case Option.bind (nth_opt (elements rest) 0) parse_u32 of
        None \<Rightarrow> p
      | Some index \<Rightarrow>
          (let p = (case map_of (pr_pending p) index of
                      None \<Rightarrow> p
                    | Some pending \<Rightarrow> if pd_done pending then p else analyse pick index p)
           in case map_of (pr_pending p) index of
                None \<Rightarrow> p
              | Some pending \<Rightarrow>
                  (let st = pr_stats p; view = pd_view pending; vs = views st view in
                   p\<lparr>pr_pending := AList.delete index (pr_pending p),
                     pr_stats := st\<lparr>views := (views st)(view := vs\<lparr>vs_bytes := vs_bytes vs + pd_bytes pending\<rparr>)\<rparr>\<rparr>)))"

definition observe_instr ::
  "(str \<Rightarrow> byte list option) \<Rightarrow> ((nat \<times> ref_sps) list \<Rightarrow> ref_sps option) \<Rightarrow> nal_probe \<Rightarrow> str \<Rightarrow> nal_probe" where
  "observe_instr dec pick p instr =
     (case strip_prefix ''4.h264,'' instr of
        Some rest \<Rightarrow> probe_open rest p
      | None \<Rightarrow>
          (case strip_prefix ''4.blob,'' instr of
             Some rest \<Rightarrow> probe_blob dec pick rest p
           | None \<Rightarrow>
               (case strip_prefix ''3.end,'' instr of
                  Some rest \<Rightarrow> probe_end pick rest p
                | None \<Rightarrow> p)))"

definition observe ::
  "(str \<Rightarrow> byte list option) \<Rightarrow> ((nat \<times> ref_sps) list \<Rightarrow> ref_sps option) \<Rightarrow> nal_probe \<Rightarrow> str \<Rightarrow> nal_probe" where
  "observe dec pick p text = foldl (observe_instr dec pick) p (instruction_starts text)"


section \<open>The verdict\<close>

datatype verdict_kind = NoAux | Droppable | NoDpbRoom | Unproven_kind | NotDroppable | Contradictory

datatype safety_level = Safety_Undecided | Safe | Unproven | Unsafe

text \<open>The prose of the verdict, by what it says and the values it quotes.\<close>

datatype caveat = Continuous | Gaps_tolerated | Gaps_forbidden

datatype drop_reason =
    Aux_reference nat nat
  | Short_term_reorder nat
  | Claims_main "nat list"
  | Not_long_term nat nat

datatype verdict_prose =
    No_aux_seen
  | Contradictory_deltas "(nat \<times> nat) list"
  | Non_reference
  | No_room nat "nat list"
  | Unproven_entries nat
  | Default_list caveat
  | Reasons "drop_reason list"
  | Separate_chains "nat list" "nat list" "nat list" caveat

text \<open>\<open>BTreeSet\<close>s are ascending lists.\<close>

definition btree_set :: "nat list \<Rightarrow> nat list" where
  "btree_set xs = sort (remdups xs)"

definition disjoint_lists :: "nat list \<Rightarrow> nat list \<Rightarrow> bool" where
  "disjoint_lists xs ys \<longleftrightarrow> list_all (\<lambda>x. x \<notin> set ys) xs"

definition aux_total :: "ref_stats \<Rightarrow> nat" where
  "aux_total st = vs_total (views st 1) + vs_total (views st 2)"

definition aux_reference :: "ref_stats \<Rightarrow> nat" where
  "aux_reference st = vs_reference (views st 1) + vs_reference (views st 2)"

definition main_inter :: "ref_stats \<Rightarrow> nat" where
  "main_inter st = vs_total (views st 0) - vs_idr (views st 0)"

definition aux_inter :: "ref_stats \<Rightarrow> nat" where
  "aux_inter st = (vs_total (views st 1) - vs_idr (views st 1)) + (vs_total (views st 2) - vs_idr (views st 2))"

definition main_advances_by_one :: "ref_stats \<Rightarrow> bool" where
  "main_advances_by_one st = list_all (\<lambda>(delta, _). delta \<le> 1) (main_deltas st)"

definition frame_num_caveat :: "bool \<Rightarrow> ref_stats \<Rightarrow> caveat" where
  "frame_num_caveat by_one st =
     (if by_one then Continuous
      else if seen_gaps_allowed st = Some True then Gaps_tolerated
      else Gaps_forbidden)"

text \<open>The long-term indices that list modifications name: \<open>idc\<close> 2.\<close>

definition named_long_term :: "((nat \<times> nat) \<times> nat) list \<Rightarrow> nat list" where
  "named_long_term ops = map (\<lambda>((_, value), _). value) (filter (\<lambda>((idc, _), _). idc = 2) ops)"

definition no_room_for_inferred_frames :: "ref_stats \<Rightarrow> verdict_prose option" where
  "no_room_for_inferred_frames st =
     (if main_advances_by_one st then None
      else
        (let long_term = btree_set (named_long_term (list_mods_by_view st 0) @
               named_long_term (list_mods_by_view st 1) @ named_long_term (list_mods_by_view st 2))
         in case seen_max_num_ref_frames st of
              None \<Rightarrow> None
            | Some capacity \<Rightarrow>
                if length long_term < capacity then None else Some (No_room capacity long_term)))"

definition short_term_reorders :: "ref_stats \<Rightarrow> nat" where
  "short_term_reorders st =
     sum_list (map snd (filter ((\<lambda>(idc, _). idc < 2) \<circ> fst) (list_mods_by_view st 0)))"

definition main_long_term :: "ref_stats \<Rightarrow> nat list" where
  "main_long_term st = btree_set (named_long_term (list_mods_by_view st 0))"

definition aux_long_term :: "ref_stats \<Rightarrow> nat list" where
  "aux_long_term st =
     btree_set (named_long_term (list_mods_by_view st 1) @ named_long_term (list_mods_by_view st 2))"

text \<open>The indices an auxiliary view claims: the arguments of operations 6 and 3.\<close>

definition claimed :: "((nat \<times> nat) \<times> nat) list \<Rightarrow> nat list" where
  "claimed ops = map (\<lambda>((_, idx), _). idx) (filter (\<lambda>((op, _), _). op = 6 \<or> op = 3) ops)"

definition aux_marks :: "ref_stats \<Rightarrow> nat list" where
  "aux_marks st = btree_set (claimed (mmco_by_view st 1) @ claimed (mmco_by_view st 2))"

definition chains_are_separate :: "ref_stats \<Rightarrow> bool" where
  "chains_are_separate st \<longleftrightarrow> main_long_term st \<noteq> [] \<and>
     disjoint_lists (main_long_term st) (aux_marks st) \<and> short_term_reorders st = 0"

definition main_active_entries :: "ref_stats \<Rightarrow> nat" where
  "main_active_entries st =
     (if num_ref_idx_by_view st 0 = [] then 1 else Max (fst ` set (num_ref_idx_by_view st 0)))"

text \<open>The branch for chains that are not separate.\<close>

definition entangled_verdict :: "ref_stats \<Rightarrow> verdict_kind \<times> verdict_prose" where
  "entangled_verdict st =
     (let reasons = [Aux_reference (aux_reference st) (aux_total st)] @
            (if 0 < short_term_reorders st then [Short_term_reorder (short_term_reorders st)] else []) @
            (if \<not> disjoint_lists (main_long_term st) (aux_marks st)
             then [Claims_main (filter (\<lambda>x. x \<in> set (aux_marks st)) (main_long_term st))] else []);
          marked = long_term_marked st 1 + long_term_marked st 2
      in if main_long_term st = [] \<and> short_term_reorders st = 0 then
           (if marked < aux_inter st
            then (NotDroppable, Reasons (reasons @ [Not_long_term marked (aux_inter st)]))
            else if 1 < main_active_entries st then (Unproven_kind, Unproven_entries (main_active_entries st))
            else (Droppable, Default_list (frame_num_caveat (main_advances_by_one st) st)))
         else (NotDroppable, Reasons reasons))"

definition verdict_full :: "ref_stats \<Rightarrow> verdict_kind \<times> verdict_prose" where
  "verdict_full st =
     (if aux_total st = 0 then (NoAux, No_aux_seen)
      else if aux_reference st = 0 then
        (if \<not> main_advances_by_one st then (Contradictory, Contradictory_deltas (main_deltas st))
         else (Droppable, Non_reference))
      else if chains_are_separate st then
        (case no_room_for_inferred_frames st of
           Some reason \<Rightarrow> (NoDpbRoom, reason)
         | None \<Rightarrow> (Droppable, Separate_chains (main_long_term st) (aux_marks st) (aux_long_term st)
             (frame_num_caveat (main_advances_by_one st) st)))
      else entangled_verdict st)"

definition min_inter :: "bool \<Rightarrow> nat \<times> nat" where
  "min_inter eager = (if eager then (1, 1) else (MIN_MAIN_INTER_TO_DECIDE, MIN_AUX_INTER_TO_DECIDE))"

definition aux_has_claimed :: "ref_stats \<Rightarrow> bool" where
  "aux_has_claimed st \<longleftrightarrow>
     list_ex (\<lambda>((op, _), _). op = 6 \<or> op = 3) (mmco_by_view st 1) \<or>
     list_ex (\<lambda>((op, _), _). op = 6 \<or> op = 3) (mmco_by_view st 2)"

definition safety :: "ref_stats \<Rightarrow> bool \<Rightarrow> safety_level" where
  "safety st eager =
     (let (min_main, min_aux) = min_inter eager in
      if aux_total st = 0 \<or> main_inter st < min_main \<or> aux_inter st < min_aux then Safety_Undecided
      else if list_mods_by_view st 0 \<noteq> [] \<and> \<not> aux_has_claimed st then Safety_Undecided
      else
        (case fst (verdict_full st) of
           Droppable \<Rightarrow> Safe
         | Unproven_kind \<Rightarrow> Unproven
         | _ \<Rightarrow> Unsafe))"

text \<open>What is still missing, by the parts of the message.\<close>

datatype missing = Main_slices nat nat | Aux_slices nat nat | Aux_not_named

datatype undecided_text =
    No_auxiliary nat
  | Waiting_on "missing list" nat nat nat bool

definition why_undecided :: "ref_stats \<Rightarrow> bool \<Rightarrow> undecided_text" where
  "why_undecided st eager =
     (if aux_total st = 0 then No_auxiliary (aus st)
      else
        (let (min_main, min_aux) = min_inter eager;
             missing =
               (if main_inter st < min_main then [Main_slices (main_inter st) min_main] else []) @
               (if aux_inter st < min_aux then [Aux_slices (aux_inter st) min_aux] else []) @
               (if list_mods_by_view st 0 \<noteq> [] \<and>
                   \<not> (list_ex (\<lambda>((idc, _), _). idc = 2) (list_mods_by_view st 1) \<or>
                      list_ex (\<lambda>((idc, _), _). idc = 2) (list_mods_by_view st 2))
                then [Aux_not_named] else [])
         in Waiting_on missing (aus st) (vs_total (views st 0)) (aux_total st) eager))"

definition undecided_reason :: "nal_probe \<Rightarrow> bool \<Rightarrow> undecided_text option" where
  "undecided_reason p eager =
     (let st = pr_stats p in
      if \<not> 0 < aus st + parse_failures st \<or> safety st eager \<noteq> Safety_Undecided then None
      else Some (why_undecided st eager))"


section \<open>Statistics as a summary of the slices read\<close>

text \<open>
  The history of a probe: for each slice header read, the \<open>frame_num\<close> modulus, the view and
  the slice. The statistics are a function of it.
\<close>

type_synonym history = "(nat \<times> nat \<times> slice) list"

definition of_view :: "nat \<Rightarrow> history \<Rightarrow> slice list" where
  "of_view v h = map (\<lambda>(_, _, s). s) (filter (\<lambda>(_, w, _). w = v) h)"

fun main_steps :: "nat option \<Rightarrow> history \<Rightarrow> nat list" where
  "main_steps prev [] = []"
| "main_steps prev ((wrap, v, s) # h) =
     (if v = 0
      then (case prev of None \<Rightarrow> [] | Some p \<Rightarrow> [frame_delta wrap (frame_num s) p]) @ main_steps (Some (frame_num s)) h
      else main_steps prev h)"

definition last_main :: "history \<Rightarrow> nat option" where
  "last_main h = (if of_view 0 h = [] then None else Some (frame_num (last (of_view 0 h))))"

definition is_inter :: "slice \<Rightarrow> bool" where
  "is_inter s \<longleftrightarrow> base_type s \<noteq> 2 \<and> base_type s \<noteq> 4"

definition marks_itself :: "slice \<Rightarrow> bool" where
  "marks_itself s \<longleftrightarrow> list_ex (\<lambda>(op, _). op = 6) (slice_mmco s)"

definition recorded :: "history \<Rightarrow> ref_stats \<Rightarrow> nat option \<Rightarrow> bool" where
  "recorded h st lm \<longleftrightarrow> lm = last_main h \<and> aus st = length h \<and>
     main_deltas st = btree.count_all (main_steps None h) \<and>
     (\<forall>v. vs_total (views st v) = length (of_view v h) \<and>
        vs_reference (views st v) = length (filter (\<lambda>s. nal_ref_idc s \<noteq> 0) (of_view v h)) \<and>
        vs_idr (views st v) = length (filter slice_idr (of_view v h)) \<and>
        list_mods_by_view st v = btree.count_all (concat (map slice_list_mods (of_view v h))) \<and>
        mmco_by_view st v = btree.count_all (concat (map slice_mmco (of_view v h))) \<and>
        num_ref_idx_by_view st v =
          btree.count_all (map num_ref_idx_l0_active (filter is_inter (of_view v h))) \<and>
        long_term_marked st v = length (filter marks_itself (of_view v h)))"

lemma of_view_snoc [simp]: "of_view v (h @ [(w, u, s)]) = of_view v h @ (if u = v then [s] else [])"
  by (simp add: of_view_def)

lemma of_view_Nil [simp]: "of_view v [] = []"
  by (simp add: of_view_def)

lemma last_main_snoc [simp]:
  "last_main (h @ [(w, u, s)]) = (if u = 0 then Some (frame_num s) else last_main h)"
  by (simp add: last_main_def)

lemma last_main_Nil [simp]: "last_main [] = None"
  by (simp add: last_main_def)

lemma main_steps_append:
  "main_steps prev (h @ [(w, u, s)]) =
     main_steps prev h @
     (if u = 0 then (case (case last_main h of None \<Rightarrow> prev | Some p \<Rightarrow> Some p) of
                       None \<Rightarrow> [] | Some p \<Rightarrow> [frame_delta w (frame_num s) p]) else [])"
proof (induction prev h rule: main_steps.induct)
  case (2 prev wrap v s' h)
  then show ?case
    by (auto simp: last_main_def of_view_def split: option.splits)
qed simp

lemma main_steps_snoc [simp]:
  "main_steps None (h @ [(w, u, s)]) =
     main_steps None h @
     (if u = 0 then (case last_main h of None \<Rightarrow> [] | Some p \<Rightarrow> [frame_delta w (frame_num s) p]) else [])"
  by (simp add: main_steps_append split: option.split)

lemma bump_all_count: "bump_all ks (btree.count_all js) = btree.count_all (js @ ks)"
  by (simp add: bump_all_def btree.count_all_def)

lemma recorded_default: "recorded [] stats_default None"
  by (simp add: recorded_def stats_default_def view_stats_default_def btree.count_all_def)

lemma note_slice_last: "snd (note_slice w v s (st, lm)) = (if v = 0 then Some (frame_num s) else lm)"
  by (simp add: note_slice_def count_frame_num_def Let_def split_beta)

lemma note_slice_fields:
  fixes w v s st lm
  defines "st' \<equiv> fst (note_slice w v s (st, lm))"
  shows "aus st' = Suc (aus st)"
    and "main_deltas st' = (if v = 0 then (case lm of None \<Rightarrow> main_deltas st
       | Some p \<Rightarrow> bump (frame_delta w (frame_num s) p) (main_deltas st)) else main_deltas st)"
    and "vs_total (views st' u) = vs_total (views st u) + (if u = v then 1 else 0)"
    and "vs_reference (views st' u) = vs_reference (views st u) + (if u = v \<and> nal_ref_idc s \<noteq> 0 then 1 else 0)"
    and "vs_idr (views st' u) = vs_idr (views st u) + (if u = v \<and> slice_idr s then 1 else 0)"
    and "list_mods_by_view st' u =
      (if u = v then bump_all (slice_list_mods s) (list_mods_by_view st u) else list_mods_by_view st u)"
    and "mmco_by_view st' u = (if u = v then bump_all (slice_mmco s) (mmco_by_view st u) else mmco_by_view st u)"
    and "num_ref_idx_by_view st' u = (if u = v \<and> is_inter s
       then bump (num_ref_idx_l0_active s) (num_ref_idx_by_view st u) else num_ref_idx_by_view st u)"
    and "long_term_marked st' u = long_term_marked st u + (if u = v \<and> marks_itself s then 1 else 0)"
    and "seen_max_num_ref_frames st' = seen_max_num_ref_frames st"
    and "parse_failures st' = parse_failures st"
  unfolding st'_def note_slice_def count_frame_num_def count_view_def count_references_def is_inter_def marks_itself_def
  by (simp_all add: Let_def split_beta split: option.split)

lemma bump_count: "bump k (btree.count_all ks) = btree.count_all (ks @ [k])"
  by (simp add: btree.count_all_def)

lemma recorded_note:
  assumes "recorded h st lm"
  shows "recorded (h @ [(w, v, s)]) (fst (note_slice w v s (st, lm))) (snd (note_slice w v s (st, lm)))"
  using assms unfolding recorded_def note_slice_fields note_slice_last
  by (auto simp: bump_all_count bump_count split: option.split)


lemma recorded_other [simp]:
  "recorded h (st\<lparr>parse_failures := n\<rparr>) lm = recorded h st lm"
  "recorded h (st\<lparr>seen_gaps_allowed := g, seen_max_num_ref_frames := m, seen_pic_order_cnt_type := t\<rparr>) lm
     = recorded h st lm"
  unfolding recorded_def by simp_all

lemma recorded_bytes [simp]:
  "recorded h (st\<lparr>views := (views st)(u := (views st u)\<lparr>vs_bytes := n\<rparr>)\<rparr>) lm = recorded h st lm"
proof -
  define f where "f = (views st)(u := (views st u)\<lparr>vs_bytes := n\<rparr>)"
  have "vs_total (f v) = vs_total (views st v)" "vs_reference (f v) = vs_reference (views st v)"
    "vs_idr (f v) = vs_idr (views st v)" for v
    by (simp_all add: f_def)
  then show ?thesis unfolding recorded_def f_def [symmetric] by simp
qed

section \<open>Bounds of the parsers\<close>

definition slice_ok :: "slice \<Rightarrow> bool" where
  "slice_ok s \<longleftrightarrow> length (slice_list_mods s) \<le> 64 \<and> length (slice_mmco s) \<le> 32 \<and>
     (slice_idr s \<longrightarrow> slice_mmco s = [])"

lemma list_modification_loop_length:
  "list_modification_loop out r = Some (xs, r') \<Longrightarrow> length out \<le> 64 \<Longrightarrow> length xs \<le> 64"
proof (induction out r rule: list_modification_loop.induct)
  case (1 out r)
  from 1(2) obtain idc r1 where i: "rd_ue r = Some (idc, r1)"
    by (subst (asm) list_modification_loop.simps) (auto simp: Option.bind_eq_Some_conv)
  show ?case
  proof (cases "idc = 3")
    case True
    then show ?thesis using 1(2,3) i by (simp add: list_modification_loop.simps [of out r])
  next
    case False
    with 1(2) i obtain arg r2 where v: "rd_ue r1 = Some (arg, r2)"
      by (auto simp: list_modification_loop.simps [of out r] Option.bind_eq_Some_conv)
    with 1 i False show ?thesis
      by (auto simp: list_modification_loop.simps [of out r] split: if_splits)
  qed
qed

lemma read_list_modification_length:
  "read_list_modification out r = Some (xs, r') \<Longrightarrow> length out \<le> 64 \<Longrightarrow> length xs \<le> 64"
  by (auto simp: read_list_modification_def Option.bind_eq_Some_conv
      dest: list_modification_loop_length split: if_splits)

lemma mmco_loop_length: "mmco_loop out r = Some (xs, r') \<Longrightarrow> length out \<le> 32 \<Longrightarrow> length xs \<le> 32"
proof (induction out r rule: mmco_loop.induct)
  case (1 out r)
  from 1(2) obtain op r1 where i: "rd_ue r = Some (op, r1)"
    by (subst (asm) mmco_loop.simps) (auto simp: Option.bind_eq_Some_conv)
  show ?case
  proof (cases "op = 0")
    case True
    then show ?thesis using 1(2,3) i by (simp add: mmco_loop.simps [of out r])
  next
    case False
    with 1(2) i obtain arg r2 where v: "read_mmco_arg op r1 = Some (arg, r2)"
      by (auto simp: mmco_loop.simps [of out r] Option.bind_eq_Some_conv)
    with 1 i False show ?thesis by (auto simp: mmco_loop.simps [of out r] split: if_splits)
  qed
qed

lemma read_marking_ok:
  "read_marking ref_idc idr r = Some (xs, r') \<Longrightarrow> length xs \<le> 32 \<and> (idr \<longrightarrow> xs = [])"
  by (auto simp: read_marking_def Option.bind_eq_Some_conv dest: mmco_loop_length split: if_splits)

lemma read_ref_lists_length: "read_ref_lists is_intra is_b r = Some (xs, r') \<Longrightarrow> length xs \<le> 64"
proof -
  assume "read_ref_lists is_intra is_b r = Some (xs, r')"
  then obtain ms r1 where 1: "(if \<not> is_intra then read_list_modification [] r else Some ([], r)) = Some (ms, r1)"
    and 2: "(if is_b then read_list_modification ms r1 else Some (ms, r1)) = Some (xs, r')"
    by (auto simp: read_ref_lists_def Option.bind_eq_Some_conv)
  have "length ms \<le> 64"
    using 1 by (auto dest: read_list_modification_length split: if_splits)
  with 2 show ?thesis by (auto dest: read_list_modification_length split: if_splits)
qed

lemma parse_slice_Some:
  assumes "parse_slice payload ref_idc idr S P = Some s"
  shows "slice_ok s \<and> nal_ref_idc s = ref_idc \<and> slice_idr s = idr \<and> S \<noteq> []"
  using assms unfolding parse_slice_def Let_def
  by (auto simp: Option.bind_eq_Some_conv slice_ok_def dest: read_marking_ok read_ref_lists_length)


section \<open>The probe's invariant\<close>

definition pending_ok :: "(nat \<times> pending_unit) list \<Rightarrow> bool" where
  "pending_ok ps \<longleftrightarrow> distinct (map fst ps) \<and> length ps \<le> MAX_PENDING_STREAMS \<and>
     (\<forall>(i, q) \<in> set ps. pd_view q \<le> 2 \<and> length (pd_buf q) \<le> AU_PREFIX_BYTES)"

definition history_ok :: "history \<Rightarrow> bool" where
  "history_ok h \<longleftrightarrow> (\<forall>(w, v, s) \<in> set h. 0 < w \<and> v \<le> 2 \<and> slice_ok s)"

definition probe_ok :: "history \<Rightarrow> nal_probe \<Rightarrow> bool" where
  "probe_ok h p \<longleftrightarrow> recorded h (pr_stats p) (last_main_frame_num p) \<and> history_ok h \<and>
     pending_ok (pr_pending p) \<and>
     (h \<noteq> [] \<or> pr_sps p \<noteq> [] \<longrightarrow> seen_max_num_ref_frames (pr_stats p) \<noteq> None)"

lemma length_update_present: "k \<in> fst ` set xs \<Longrightarrow> length (AList.update k v xs) = length xs"
  by (induction xs) auto

lemma length_update: "length (AList.update k v xs) \<le> Suc (length xs)"
  by (induction xs) auto

lemma set_update: "set (AList.update k v xs) \<subseteq> insert (k, v) (set xs)"
  by (induction xs) auto

lemma pending_ok_update:
  assumes "pending_ok ps" and "map_of ps k = Some q" and "pd_view q' = pd_view q"
    and "length (pd_buf q') \<le> AU_PREFIX_BYTES"
  shows "pending_ok (AList.update k q' ps)"
proof -
  have k: "(k, q) \<in> set ps" using assms(2) by (rule map_of_SomeD)
  then have "k \<in> fst ` set ps" by force
  moreover have "pd_view q \<le> 2" using assms(1) k by (auto simp: pending_ok_def)
  ultimately show ?thesis
    using assms set_update [of k q' ps]
    by (auto simp: pending_ok_def length_update_present distinct_update)
qed

lemma pending_ok_delete: "pending_ok ps \<Longrightarrow> pending_ok (AList.delete k ps)"
proof -
  assume ok: "pending_ok ps"
  have "length (AList.delete k ps) \<le> length ps" unfolding AList.delete_eq by (rule length_filter_le)
  moreover have "set (AList.delete k ps) \<subseteq> set ps" by (auto simp: AList.delete_eq)
  moreover have "distinct (map fst (AList.delete k ps))"
    using ok by (simp add: pending_ok_def distinct_delete)
  ultimately show ?thesis using ok by (auto simp: pending_ok_def)
qed

lemma scan_nals_ok:
  assumes "scan_nals nals p = (p', found)" and "probe_ok h p"
  shows "probe_ok h p' \<and> pr_pending p' = pr_pending p \<and>
    (case found of None \<Rightarrow> True | Some s \<Rightarrow> slice_ok s \<and> pr_sps p' \<noteq> [])"
  using assms
proof (induction nals arbitrary: p)
  case (Cons x nals)
  obtain header payload where x: "x = (header, payload)" by (cases x)
  consider (sps) "and header 0x1f = 7" | (pps) "and header 0x1f = 8"
    | (slice) "and header 0x1f = 1 \<or> and header 0x1f = 5" | (other) "and header 0x1f \<notin> {7, 8, 1, 5}" by blast
  then show ?case
  proof cases
    case sps
    show ?thesis
    proof (cases "parse_ref_sps payload")
      case (Some y)
      obtain i sp where y: "y = (i, sp)" by (cases y)
      define q where "q = p\<lparr>pr_stats := (pr_stats p)
               \<lparr>seen_gaps_allowed := Some (gaps_allowed sp),
                seen_max_num_ref_frames := Some (max_num_ref_frames sp),
                seen_pic_order_cnt_type := Some (pic_order_cnt_type sp)\<rparr>,
               pr_sps := AList.update i sp (pr_sps p)\<rparr>"
      have "probe_ok h q" "pr_pending q = pr_pending p" using Cons.prems(2) by (simp_all add: probe_ok_def q_def)
      moreover have "scan_nals nals q = (p', found)" using Cons.prems(1) sps Some x y by (simp add: q_def)
      ultimately show ?thesis using Cons.IH [of q] by simp
    qed (use Cons sps x in simp)
  next
    case pps
    show ?thesis
    proof (cases "parse_pps payload")
      case (Some y)
      obtain i pp where y: "y = (i, pp)" by (cases y)
      define q where "q = p\<lparr>pr_pps := AList.update i pp (pr_pps p)\<rparr>"
      have "probe_ok h q" "pr_pending q = pr_pending p" using Cons.prems(2) by (simp_all add: probe_ok_def q_def)
      moreover have "scan_nals nals q = (p', found)" using Cons.prems(1) pps Some x y by (simp add: q_def)
      ultimately show ?thesis using Cons.IH [of q] by simp
    qed (use Cons pps x in simp)
  next
    case slice
    then show ?thesis using Cons.prems x by (auto dest: parse_slice_Some split: option.split)
  next
    case other
    then show ?thesis using Cons x by simp
  qed
qed simp

lemma analyse_ok:
  assumes "probe_ok h p"
  shows "\<exists>h'. probe_ok (h @ h') (analyse pick index p)"
proof (cases "map_of (pr_pending p) index")
  case None
  then show ?thesis using assms by (intro exI [of _ "[]"]) (simp add: analyse_def)
next
  case (Some q)
  define p1 where "p1 = p\<lparr>pr_pending := AList.update index (q\<lparr>pd_done := True, pd_buf := []\<rparr>) (pr_pending p)\<rparr>"
  have p1: "probe_ok h p1"
    using assms pending_ok_update [OF _ Some, of "q\<lparr>pd_done := True, pd_buf := []\<rparr>"]
    by (simp add: probe_ok_def p1_def)
  obtain p2 found where s: "scan_nals (nal_units (pd_buf q)) p1 = (p2, found)"
    by (cases "scan_nals (nal_units (pd_buf q)) p1")
  have p2: "probe_ok h p2" "case found of None \<Rightarrow> True | Some s \<Rightarrow> slice_ok s \<and> pr_sps p2 \<noteq> []"
    using scan_nals_ok [OF s p1] by auto
  show ?thesis
  proof (cases found)
    case None
    then have "analyse pick index p = p2\<lparr>pr_stats := (pr_stats p2)\<lparr>parse_failures := parse_failures (pr_stats p2) + 1\<rparr>\<rparr>"
      using Some s by (simp add: analyse_def p1_def)
    then show ?thesis using p2 by (intro exI [of _ "[]"]) (simp add: probe_ok_def)
  next
    case (Some sl)
    define n where "n = note_slice (wrap_of pick p2) (pd_view q) sl (pr_stats p2, last_main_frame_num p2)"
    have "analyse pick index p = p2\<lparr>pr_stats := fst n, last_main_frame_num := snd n\<rparr>"
      using \<open>map_of (pr_pending p) index = Some q\<close> s Some by (simp add: analyse_def p1_def n_def split_beta)
    moreover have "recorded (h @ [(wrap_of pick p2, pd_view q, sl)]) (fst n) (snd n)"
      unfolding n_def using p2(1) by (intro recorded_note) (simp add: probe_ok_def)
    moreover have "pd_view q \<le> 2"
      using assms map_of_SomeD [OF \<open>map_of (pr_pending p) index = Some q\<close>] by (auto simp: probe_ok_def pending_ok_def)
    moreover have "seen_max_num_ref_frames (fst n) = seen_max_num_ref_frames (pr_stats p2)"
      by (simp add: n_def note_slice_fields)
    ultimately show ?thesis using p2 Some
      by (intro exI [of _ "[(wrap_of pick p2, pd_view q, sl)]"])
        (auto simp: probe_ok_def history_ok_def wrap_of_def)
  qed
qed

lemma probe_open_ok: "probe_ok h p \<Longrightarrow> probe_ok h (probe_open rest p)"
proof -
  assume p: "probe_ok h p"
  have upd: "pending_ok (AList.update i q
      (if MAX_PENDING_STREAMS \<le> length (pr_pending p) then [] else pr_pending p))"
    if "pd_view q \<le> 2" "pd_buf q = []" for i q
    using p that length_update [of i q "pr_pending p"] set_update [of i q "pr_pending p"]
    by (auto simp: probe_ok_def pending_ok_def MAX_PENDING_STREAMS_def distinct_update)
  show ?thesis
  proof (cases "Option.bind (nth_opt (elements rest) 0) parse_u32")
    case None
    then show ?thesis using p by (simp add: probe_open_def Let_def)
  next
    case (Some i)
    then show ?thesis using p upd by (simp add: probe_open_def Let_def probe_ok_def)
  qed
qed

lemma probe_pending_update:
  assumes "probe_ok h p" and "map_of (pr_pending p) i = Some q" and "pd_view q' = pd_view q"
    and "length (pd_buf q') \<le> AU_PREFIX_BYTES"
  shows "probe_ok h (p\<lparr>pr_pending := AList.update i q' (pr_pending p)\<rparr>)"
  using assms pending_ok_update [OF _ assms(2-4)] by (simp add: probe_ok_def)

lemma buffer_blob_ok:
  assumes p: "probe_ok h p" and q: "map_of (pr_pending p) i = Some q"
  shows "\<exists>h'. probe_ok (h @ h') (buffer_blob dec pick i payload q p)"
proof -
  define q1 where "q1 = q\<lparr>pd_bytes := pd_bytes q + length payload div 4 * 3\<rparr>"
  define p1 where "p1 = p\<lparr>pr_pending := AList.update i q1 (pr_pending p)\<rparr>"
  have "length (pd_buf q) \<le> AU_PREFIX_BYTES"
    using p map_of_SomeD [OF q] by (auto simp: probe_ok_def pending_ok_def)
  then have p1: "probe_ok h p1" and buf: "length (pd_buf q1) \<le> AU_PREFIX_BYTES"
    using probe_pending_update [OF p q, of q1] by (auto simp: p1_def q1_def)
  have q1: "map_of (pr_pending p1) i = Some q1" by (simp add: p1_def update_conv)
  note unfold = buffer_blob_def [of dec pick i payload q p, unfolded Let_def, folded q1_def, folded p1_def]
  show ?thesis
  proof (cases "pd_done q1 \<or> dec payload = None")
    case True
    then have "buffer_blob dec pick i payload q p = p1" by (auto simp: unfold)
    then show ?thesis using p1 by (intro exI [of _ "[]"]) simp
  next
    case False
    then obtain bytes where d: "dec payload = Some bytes" by blast
    define q2 where "q2 = q1\<lparr>pd_buf := pd_buf q1 @ take (AU_PREFIX_BYTES - length (pd_buf q1)) bytes\<rparr>"
    define p2 where "p2 = p1\<lparr>pr_pending := AList.update i q2 (pr_pending p1)\<rparr>"
    have "probe_ok h p2"
      unfolding p2_def by (rule probe_pending_update [OF p1 q1]) (use buf in \<open>simp_all add: q2_def\<close>)
    moreover have "buffer_blob dec pick i payload q p = p2 \<or> buffer_blob dec pick i payload q p = analyse pick i p2"
      using False unfolding unfold d option.case q2_def [symmetric] p2_def [symmetric] by auto
    ultimately show ?thesis using analyse_ok [of h p2 pick i] by (metis append_Nil2)
  qed
qed

lemma probe_blob_ok: "probe_ok h p \<Longrightarrow> \<exists>h'. probe_ok (h @ h') (probe_blob dec pick rest p)"
  using buffer_blob_ok
  by (auto simp: probe_blob_def Let_def split: option.split intro: exI [of _ "[]"])

lemma probe_end_ok: "probe_ok h p \<Longrightarrow> \<exists>h'. probe_ok (h @ h') (probe_end pick rest p)"
proof (cases "Option.bind (nth_opt (elements rest) 0) parse_u32")
  case None
  assume "probe_ok h p"
  with None show ?thesis by (intro exI [of _ "[]"]) (simp add: probe_end_def)
next
  case (Some i)
  assume p: "probe_ok h p"
  define p1 where "p1 = (case map_of (pr_pending p) i of None \<Rightarrow> p
      | Some q \<Rightarrow> if pd_done q then p else analyse pick i p)"
  have "\<exists>h'. probe_ok (h @ h') p1"
    using analyse_ok [OF p, of pick i] p
    by (auto simp: p1_def split: option.split intro: exI [of _ "[]"])
  then obtain h' where p1: "probe_ok (h @ h') p1" ..
  have "probe_ok (h @ h') (probe_end pick rest p)"
  proof (cases "map_of (pr_pending p1) i")
    case None
    then show ?thesis using p1 Some by (simp add: probe_end_def p1_def [symmetric])
  next
    case (Some q)
    then show ?thesis
      using p1 \<open>Option.bind (nth_opt (elements rest) 0) parse_u32 = Some i\<close> pending_ok_delete
      by (simp add: probe_end_def p1_def [symmetric] probe_ok_def Let_def)
  qed
  then show ?thesis ..
qed

lemma observe_instr_ok: "probe_ok h p \<Longrightarrow> \<exists>h'. probe_ok (h @ h') (observe_instr dec pick p instr)"
  using probe_open_ok probe_blob_ok probe_end_ok
  by (auto simp: observe_instr_def split: option.split intro: exI [of _ "[]"])

lemma observe_ok: "probe_ok h p \<Longrightarrow> \<exists>h'. probe_ok (h @ h') (observe dec pick p s)"
proof -
  have "probe_ok h p \<Longrightarrow> \<exists>h'. probe_ok (h @ h') (foldl (observe_instr dec pick) p is')" for is'
  proof (induction is' arbitrary: h p)
    case (Cons x xs)
    obtain h1 where "probe_ok (h @ h1) (observe_instr dec pick p x)" using observe_instr_ok [OF Cons.prems] by blast
    from Cons.IH [OF this] show ?case by (metis append.assoc foldl_Cons)
  qed (auto intro: exI [of _ "[]"])
  then show "probe_ok h p \<Longrightarrow> ?thesis" by (simp add: observe_def)
qed

lemma probe_new_ok: "probe_ok [] probe_new"
  by (simp add: probe_ok_def probe_new_def recorded_default history_ok_def pending_ok_def)

text \<open>The probes of a session: from a new one, by observing chunks.\<close>

inductive probe_session :: "(str \<Rightarrow> byte list option) \<Rightarrow> ((nat \<times> ref_sps) list \<Rightarrow> ref_sps option) \<Rightarrow> nal_probe \<Rightarrow> bool"
  for dec pick where
  start: "probe_session dec pick probe_new"
| chunk: "probe_session dec pick p \<Longrightarrow> probe_session dec pick (observe dec pick p s)"

lemma probe_session_ok: "probe_session dec pick p \<Longrightarrow> \<exists>h. probe_ok h p"
proof (induction rule: probe_session.induct)
  case start
  then show ?case using probe_new_ok by blast
next
  case (chunk p s)
  then show ?case using observe_ok by blast
qed


section \<open>What the verdict means for the slices read\<close>


definition mmcos_of :: "slice list \<Rightarrow> (nat \<times> nat) list" where
  "mmcos_of ss = concat (map slice_mmco ss)"

definition main_of :: "history \<Rightarrow> slice list" where
  "main_of h = of_view 0 h"

definition aux_of :: "history \<Rightarrow> slice list" where
  "aux_of h = of_view 1 h @ of_view 2 h"

lemma set_btree_set [simp]: "set (btree_set xs) = set xs"
  by (simp add: btree_set_def)


lemma btree_set_Nil [simp]: "btree_set xs = [] \<longleftrightarrow> xs = []"
  by (metis set_btree_set set_empty)

















text \<open>Slices of the shape a Windows host sends: each view on a long-term chain of its own.\<close>

definition demo_slice :: "nat \<Rightarrow> (nat \<times> nat) list \<Rightarrow> (nat \<times> nat) list \<Rightarrow> slice" where
  "demo_slice number mods mmco = \<lparr>nal_ref_idc = 1, slice_idr = False, slice_type = 5, frame_num = number,
     slice_list_mods = mods, slice_mmco = mmco, num_ref_idx_l0_active = 1\<rparr>"

fun demo_stats :: "nat \<Rightarrow> history \<Rightarrow> ref_stats \<times> nat option" where
  "demo_stats capacity h = foldl (\<lambda>x (w, v, s). note_slice w v s x)
     (stats_default\<lparr>seen_gaps_allowed := Some False, seen_max_num_ref_frames := Some capacity,
        seen_pic_order_cnt_type := Some 2\<rparr>, None) h"


lemma demo_stats_capacity: "seen_max_num_ref_frames (fst (demo_stats c h)) = Some c"
proof (induction h rule: rev_induct)
  case (snoc x h)
  obtain w v s where x: "x = (w, v, s)" by (cases x)
  show ?case
    using snoc note_slice_fields(10) [of w v s "fst (demo_stats c h)" "snd (demo_stats c h)"] x by simp
qed simp

lemmas stats_eval = note_slice_def count_frame_num_def count_view_def count_references_def Let_def
  stats_default_def view_stats_default_def demo_slice_def base_type_def type_name_def bump_all_def
  frame_delta_def safety_def min_inter_def aux_total_def main_inter_def aux_inter_def aux_has_claimed_def
  verdict_full_def aux_reference_def chains_are_separate_def main_long_term_def aux_marks_def
  short_term_reorders_def named_long_term_def claimed_def btree_set_def disjoint_lists_def
  no_room_for_inferred_frames_def main_advances_by_one_def why_undecided_def



text \<open>
  a session's probe stays bounded and its statistics are a summary of slices actually
  read: at most 256 access units are assembled at once, each buffering at most 2048 bytes;
  the counts of references and IDRs never exceed the count of pictures, so none of the
  subtractions of the gate can underflow; and as soon as one slice has been read the decoded
  picture buffer's size is known.
\<close>

theorem probe_bounds:
  assumes "probe_session dec pick p"
  shows "length (pr_pending p) \<le> MAX_PENDING_STREAMS \<and> distinct (map fst (pr_pending p)) \<and>
    (\<forall>(i, q) \<in> set (pr_pending p). pd_view q \<le> 2 \<and> length (pd_buf q) \<le> AU_PREFIX_BYTES) \<and>
    (\<forall>v. vs_idr (views (pr_stats p) v) \<le> vs_total (views (pr_stats p) v) \<and>
         vs_reference (views (pr_stats p) v) \<le> vs_total (views (pr_stats p) v)) \<and>
    (\<exists>h. recorded h (pr_stats p) (last_main_frame_num p) \<and> history_ok h) \<and>
    (aus (pr_stats p) \<noteq> 0 \<longrightarrow> seen_max_num_ref_frames (pr_stats p) \<noteq> None)"
proof -
  obtain h where h: "probe_ok h p" using probe_session_ok [OF assms] by blast
  then have r: "recorded h (pr_stats p) (last_main_frame_num p)" by (simp add: probe_ok_def)
  then have "vs_idr (views (pr_stats p) v) \<le> vs_total (views (pr_stats p) v)"
    "vs_reference (views (pr_stats p) v) \<le> vs_total (views (pr_stats p) v)" "aus (pr_stats p) = length h" for v
    by (simp_all add: recorded_def)
  with h r show ?thesis by (auto simp: probe_ok_def pending_ok_def)
qed

theorem probe_bounds_witness:
  "length (pr_pending (observe demo_dec (\<lambda>_. None) probe_new ''4.h264,1.3;'')) \<le> MAX_PENDING_STREAMS"
  using probe_bounds [OF probe_session.chunk [OF probe_session.start]] by blast

text \<open>
  The gate can be waiting without \<open>why_undecided\<close> knowing for what. A main slice that
  names its reference and an auxiliary slice that names another but has claimed none leave
  the gate undecided, while the explanation lists nothing missing: the gate looks at what the
  auxiliary view claims, the explanation at what it names.
\<close>

theorem undecided_without_reason:
  "let st = fst (demo_stats 3 [(16, 0, demo_slice 1 [(2, 0)] [(6, 0)]), (16, 1, demo_slice 2 [(2, 1)] [])]) in
   safety st True = Safety_Undecided \<and> why_undecided st True = Waiting_on [] 2 1 1 True"
  by (simp add: stats_eval)

definition crowded_history :: history where
  "crowded_history = [(16, 0, demo_slice 1 [(2, 0)] [(6, 0)]), (16, 1, demo_slice 2 [(2, 0)] [(6, 1)]),
     (16, 0, demo_slice 3 [(2, 0)] [(6, 0)])]"

text \<open>
  the room test counts only the long-term references that slices name, not those they
  claim. With \<open>max_num_ref_frames\<close> 2, main on index 0 and an auxiliary picture that named
  index 0 and claimed index 1, both slots are taken by long-term references and \<open>frame_num\<close>
  has a gap, yet the stream is judged safe to drop from.
\<close>

theorem no_room_misses_claims:
  "let st = fst (demo_stats 2 crowded_history) in
   safety st True = Safe \<and> seen_max_num_ref_frames st = Some 2 \<and> \<not> main_advances_by_one st \<and>
   card {i. (6, i) \<in> set (mmcos_of (main_of crowded_history @ aux_of crowded_history))} = 2"
proof -
  have "set (mmcos_of (main_of crowded_history @ aux_of crowded_history)) = {(6, 0), (6, 1)}"
    by (simp add: crowded_history_def demo_slice_def mmcos_of_def main_of_def aux_of_def of_view_def
        insert_commute)
  moreover have "{i. (6 :: nat, i :: nat) \<in> {(6, 0), (6, 1)}} = {0, 1}" by auto
  moreover have "safety (fst (demo_stats 2 crowded_history)) True = Safe"
    "\<not> main_advances_by_one (fst (demo_stats 2 crowded_history))"
    by (simp_all add: crowded_history_def stats_eval)
  ultimately show ?thesis unfolding Let_def demo_stats_capacity by (simp only:) simp
qed

end
