(* ===== verification/Aux_Drop.thy ===== *)
theory Aux_Drop
  imports H264_Refs
begin

text \<open>
  \<^verbatim>\<open>src/src/h264_aux_drop.rs\<close>: \<open>AuxDropper\<close>, which removes the auxiliary view of an AVC444
  stream from the wire once the probe has proved that it can be spared. Parameters: the
  base64 engine \<open>dec\<close> and the \<open>HashMap\<close> order \<open>pick\<close>, as for the probe, and \<open>env\<close>, the
  value of the environment variable \<open>RUSTGUAC_H264_AUX_DROP\<close> (empty when unset).
\<close>

section \<open>State\<close>

definition MAX_DROPPED_STREAMS :: nat where "MAX_DROPPED_STREAMS = 256"

datatype drop_state = Deciding | Dropping | Off

record aux_dropper =
  ad_probe :: nal_probe
  ad_unproven :: bool
  ad_eager :: bool
  ad_state :: drop_state
  dropped_streams :: "nat set"
  dropped_pictures :: nat
  dropped_bytes :: nat
  kept_idrs :: nat
  unpaired :: nat
  orphan_clears :: nat
  switched_off :: bool
  first_surface :: "nat option"
  multi_surface :: bool

text \<open>The journal lines, by the text chosen and what it quotes.\<close>

datatype drop_line =
    Second_surface nat nat
  | Stopped verdict_prose
  | Not_dropped_unproven verdict_prose
  | Being_dropped bool verdict_prose
  | Not_dropped verdict_prose

datatype drop_action = Keep | Drop | Replace str

definition dropper_new :: "str \<Rightarrow> aux_dropper" where
  "dropper_new env =
     (let setting = to_ascii_lowercase (trim env);
          enabled = (setting \<notin> {''0'', ''off'', ''false'', ''no''});
          unproven = (setting \<in> {''unproven'', ''force''})
      in \<lparr>ad_probe = probe_new, ad_unproven = unproven, ad_eager = False,
          ad_state = (if enabled then Deciding else Off), dropped_streams = {}, dropped_pictures = 0,
          dropped_bytes = 0, kept_idrs = 0, unpaired = 0, orphan_clears = 0,
          switched_off = (\<not> enabled), first_surface = None, multi_surface = False\<rparr>)"

definition for_session :: "str \<Rightarrow> bool option \<Rightarrow> aux_dropper" where
  "for_session env setting =
     (let d = dropper_new env in
      case setting of
        Some True \<Rightarrow> if ad_state d \<noteq> Off then d\<lparr>ad_eager := True\<rparr> else d
      | Some False \<Rightarrow> d\<lparr>ad_state := Off, switched_off := True\<rparr>
      | None \<Rightarrow> d)"

section \<open>Classifying one instruction\<close>

fun join_args :: "str list \<Rightarrow> str" where
  "join_args [] = []"
| "join_args (a # as) = CHR '','' # show_nat (length a) @ CHR ''.'' # a @ join_args as"

definition encode_instruction :: "str \<Rightarrow> str list \<Rightarrow> str" where
  "encode_instruction opcode args =
     show_nat (length opcode) @ CHR ''.'' # opcode @ join_args args @ [CHR '';'']"

definition drop_view :: "nat \<Rightarrow> aux_dropper \<Rightarrow> aux_dropper" where
  "drop_view index d =
     (let d = (if MAX_DROPPED_STREAMS \<le> card (dropped_streams d)
               then d\<lparr>dropped_streams := {}, orphan_clears := orphan_clears d + 1\<rparr> else d)
      in d\<lparr>dropped_streams := insert index (dropped_streams d), dropped_pictures := dropped_pictures d + 1\<rparr>)"

definition classify_h264 :: "str list \<Rightarrow> aux_dropper \<Rightarrow> aux_dropper \<times> drop_action" where
  "classify_h264 args d =
     (if length args < 9 then (d, Keep)
      else
        (case parse_u32 (args ! 0) of
           None \<Rightarrow> (d, Keep)
         | Some index \<Rightarrow>
             (let keyframe = (args ! 2 = ''1'');
                  view = (case parse_u8 (args ! 7) of None \<Rightarrow> 0 | Some v \<Rightarrow> v)
              in if view \<noteq> 0 then
                   (if keyframe then (d\<lparr>kept_idrs := kept_idrs d + 1\<rparr>, Keep)
                    else if ad_state d \<noteq> Dropping then (d, Keep)
                    else (drop_view index d, Drop))
                 else if ad_state d \<noteq> Dropping then (d, Keep)
                 else
                   (case parse_usize (args ! 8) of
                      None \<Rightarrow> (d, Keep)
                    | Some num_rects \<Rightarrow>
                        (let paired_at = (9 + num_rects * 4) mod 2 ^ 64 in
                         if paired_at < length args \<and> args ! paired_at = ''1''
                         then (d\<lparr>unpaired := unpaired d + 1\<rparr>,
                               Replace (encode_instruction ''h264'' (args[paired_at := ''0''])))
                         else (d, Keep))))))"

definition classify :: "str \<Rightarrow> str list \<Rightarrow> aux_dropper \<Rightarrow> aux_dropper \<times> drop_action" where
  "classify opcode args d =
     (if opcode = ''h264'' then classify_h264 args d
      else if opcode = ''blob'' then
        (case Option.bind (nth_opt args 0) parse_u32 of
           None \<Rightarrow> (d, Keep)
         | Some index \<Rightarrow>
             if index \<notin> dropped_streams d then (d, Keep)
             else
               ((case nth_opt args 1 of
                   None \<Rightarrow> d
                 | Some payload \<Rightarrow> d\<lparr>dropped_bytes := dropped_bytes d + length payload div 4 * 3\<rparr>), Drop))
      else if opcode = ''end'' then
        (case Option.bind (nth_opt args 0) parse_u32 of
           None \<Rightarrow> (d, Keep)
         | Some index \<Rightarrow>
             if index \<in> dropped_streams d
             then (d\<lparr>dropped_streams := dropped_streams d - {index}\<rparr>, Drop) else (d, Keep))
      else (d, Keep))"

section \<open>\<open>filter\<close>\<close>

text \<open>All arguments of an instruction; a malformed one ends the text.\<close>

function all_args :: "str \<Rightarrow> char \<Rightarrow> str list \<Rightarrow> str list \<times> str" where
  "all_args next term args =
     (if term = CHR '','' then
        (case element_of next of
           Some (v, after, t) \<Rightarrow> all_args after t (args @ [v])
         | None \<Rightarrow> (args, []))
      else (args, next))"
  by pat_completeness auto
termination
  by (relation "measure (\<lambda>(n, _, _). length n)")
    (auto simp: element_of_scan dest: scan_element_length)

declare all_args.simps [simp del]

definition filter_step :: "str \<Rightarrow> str list \<Rightarrow> aux_dropper \<Rightarrow> aux_dropper \<times> str option" where
  "filter_step opcode args d =
     (if opcode \<in> {''h264'', ''blob'', ''end''} then
        (case classify opcode args d of
           (d, Keep) \<Rightarrow> (d, None)
         | (d, Drop) \<Rightarrow> (d, Some [])
         | (d, Replace s) \<Rightarrow> (d, Some s))
      else (d, None))"

lemma all_args_length: "length (snd (all_args s t as)) \<le> length s"
proof (induction "length s" arbitrary: s t as rule: less_induct)
  case less
  show ?case
  proof (cases "scan_element s")
    case (Some x)
    obtain v r t' where x: "x = (v, r, t')" by (cases x)
    then have r: "length r < length s" using Some scan_element_length by blast
    from less [OF r, of t' "as @ [v]"] r show ?thesis
      by (simp add: all_args.simps [of s] element_of_scan Some x)
  qed (simp add: all_args.simps [of s] element_of_scan)
qed

function filter_loop :: "aux_dropper \<Rightarrow> str option \<Rightarrow> str \<Rightarrow> str \<Rightarrow> aux_dropper \<times> str option" where
  "filter_loop d out pend s =
     (if s = [] then (d, map_option (\<lambda>o'. o' @ pend) out)
      else
        (case element_of s of
           None \<Rightarrow> (d, map_option (\<lambda>o'. o' @ pend @ s) out)
         | Some (opcode, next, term) \<Rightarrow>
             (let (args, rest) = all_args next term [] in
              case filter_step opcode args d of
                (d', None) \<Rightarrow> filter_loop d' out (pend @ take (length s - length rest) s) rest
              | (d', Some new) \<Rightarrow>
                  filter_loop d' (Some ((case out of None \<Rightarrow> [] | Some o' \<Rightarrow> o') @ pend @ new)) [] rest)))"
  by pat_completeness auto
termination
proof (relation "measure (\<lambda>(_, _, _, s). length s)", simp)
qed (auto simp: element_of_scan dest!: scan_element_length, (metis all_args_length le_less_trans snd_conv)+)

declare filter_loop.simps [simp del]

definition drop_filter :: "aux_dropper \<Rightarrow> str \<Rightarrow> aux_dropper \<times> str" where
  "drop_filter d text =
     (case filter_loop d None [] text of
        (d, None) \<Rightarrow> (d, text)
      | (d, Some out) \<Rightarrow> (d, out))"


section \<open>\<open>other_surface\<close>\<close>

text \<open>The arguments of an instruction, or \<open>None\<close> where \<open>element(..)?\<close> returns early.\<close>

function full_args :: "str \<Rightarrow> char \<Rightarrow> str list \<Rightarrow> (str list \<times> str) option" where
  "full_args next term args =
     (if term = CHR '','' then
        (case element_of next of
           Some (v, after, t) \<Rightarrow> full_args after t (args @ [v])
         | None \<Rightarrow> None)
      else Some (args, next))"
  by pat_completeness auto
termination
  by (relation "measure (\<lambda>(n, _, _). length n)")
    (auto simp: element_of_scan dest: scan_element_length)

declare full_args.simps [simp del]

lemma full_args_length: "full_args s t as = Some (bs, r) \<Longrightarrow> length r \<le> length s"
proof (induction "length s" arbitrary: s t as rule: less_induct)
  case less
  show ?case
  proof (cases "scan_element s")
    case None
    then show ?thesis using less(2) by (simp add: full_args.simps [of s] element_of_scan split: if_splits)
  next
    case (Some x)
    obtain v r' t' where x: "x = (v, r', t')" by (cases x)
    then have r': "length r' < length s" using Some scan_element_length by blast
    from less(1) [OF r', of t' "as @ [v]"] less(2) r' show ?thesis
      by (simp add: full_args.simps [of s] element_of_scan Some x split: if_splits)
  qed
qed

text \<open>The surface an \<open>h264\<close> instruction came from: none for other instructions.\<close>

definition surface_of :: "str \<Rightarrow> str list \<Rightarrow> nat option" where
  "surface_of opcode args =
     (if opcode \<noteq> ''h264'' \<or> length args < 9 then None
      else
        (case parse_usize (args ! 8) of
           None \<Rightarrow> None
         | Some num_rects \<Rightarrow>
             Some (case Option.bind (nth_opt args ((11 + num_rects * 4) mod 2 ^ 64)) parse_u32 of
                     None \<Rightarrow> 0 | Some v \<Rightarrow> v)))"

function surface_loop :: "nat option \<Rightarrow> str \<Rightarrow> nat option \<times> (nat \<times> nat) option" where
  "surface_loop first s =
     (if s = [] then (first, None)
      else
        (case element_of s of
           None \<Rightarrow> (first, None)
         | Some (opcode, next, term) \<Rightarrow>
             (case full_args next term [] of
                None \<Rightarrow> (first, None)
              | Some (args, rest) \<Rightarrow>
                  (case surface_of opcode args of
                     None \<Rightarrow> surface_loop first rest
                   | Some surface \<Rightarrow>
                       (case first of
                          None \<Rightarrow> surface_loop (Some surface) rest
                        | Some f \<Rightarrow> if f \<noteq> surface then (first, Some (f, surface))
                                    else surface_loop first rest)))))"
  by pat_completeness auto
termination
  by (relation "measure (\<lambda>(_, s). length s)")
    (auto simp: element_of_scan dest!: scan_element_length full_args_length)

declare surface_loop.simps [simp del]

definition other_surface :: "aux_dropper \<Rightarrow> str \<Rightarrow> aux_dropper \<times> (nat \<times> nat) option" where
  "other_surface d text =
     (if \<not> contains ''4.h264,'' text then (d, None)
      else (let (first, found) = surface_loop (first_surface d) text in (d\<lparr>first_surface := first\<rparr>, found)))"

section \<open>\<open>process\<close>\<close>

definition drop_verdict :: "aux_dropper \<Rightarrow> verdict_prose" where
  "drop_verdict d = snd (verdict_full (pr_stats (ad_probe d)))"

definition drop_safety :: "aux_dropper \<Rightarrow> safety_level" where
  "drop_safety d = safety (pr_stats (ad_probe d)) (ad_eager d)"

text \<open>From the probe's observation on: the gate, then the filter.\<close>

definition process_observed :: "aux_dropper \<Rightarrow> str \<Rightarrow> aux_dropper \<times> str \<times> drop_line list" where
  "process_observed d text =
     (if ad_state d = Off then (d, text, [])
      else if ad_state d = Dropping \<and> drop_safety d = Unsafe
      then (d\<lparr>ad_state := Off\<rparr>, text, [Stopped (drop_verdict d)])
      else if ad_state d = Deciding then
        (case drop_safety d of
           Safety_Undecided \<Rightarrow> (d, text, [])
         | Unproven \<Rightarrow>
             if \<not> ad_unproven d then (d\<lparr>ad_state := Off\<rparr>, text, [Not_dropped_unproven (drop_verdict d)])
             else (let (d', out) = drop_filter (d\<lparr>ad_state := Dropping\<rparr>) text
                   in (d', out, [Being_dropped True (drop_verdict d)]))
         | Safe \<Rightarrow>
             (let (d', out) = drop_filter (d\<lparr>ad_state := Dropping\<rparr>) text
              in (d', out, [Being_dropped False (drop_verdict d)]))
         | Unsafe \<Rightarrow> (d\<lparr>ad_state := Off\<rparr>, text, [Not_dropped (drop_verdict d)]))
      else (let (d', out) = drop_filter d text in (d', out, [])))"

definition process ::
  "(str \<Rightarrow> byte list option) \<Rightarrow> ((nat \<times> ref_sps) list \<Rightarrow> ref_sps option) \<Rightarrow> aux_dropper \<Rightarrow> str
    \<Rightarrow> aux_dropper \<times> str \<times> drop_line list" where
  "process dec pick d text =
     (case (if ad_state d \<noteq> Off then other_surface d text else (d, None)) of
        (d, Some (first, other)) \<Rightarrow>
          (d\<lparr>ad_state := Off, multi_surface := True\<rparr>, text, [Second_surface other first])
      | (d, None) \<Rightarrow>
          process_observed (d\<lparr>ad_probe := observe dec pick (ad_probe d) text\<rparr>) text)"

section \<open>Queries and the closing summary\<close>

definition wants_frame_num_gaps :: "aux_dropper \<Rightarrow> bool" where
  "wants_frame_num_gaps d \<longleftrightarrow> ad_state d \<noteq> Off"

definition dropping :: "aux_dropper \<Rightarrow> bool" where
  "dropping d \<longleftrightarrow> ad_state d = Dropping"

datatype drop_summary =
    Never_multi_surface
  | Never_because undecided_text
  | Dropped (ds_pictures: nat) (ds_kib: nat) (ds_kept: nat) (ds_unpaired: nat) (ds_in_flight: nat)
      (ds_multi: bool) (ds_overflows: nat)

definition summary :: "aux_dropper \<Rightarrow> drop_summary option" where
  "summary d =
     (if switched_off d then None
      else if dropped_pictures d = 0 then
        (if multi_surface d then Some Never_multi_surface
         else map_option Never_because (undecided_reason (ad_probe d) (ad_eager d)))
      else Some (Dropped (dropped_pictures d) (dropped_bytes d div 1024) (kept_idrs d) (unpaired d)
        (card (dropped_streams d)) (multi_surface d) (orphan_clears d)))"


section \<open>The filter as a text walker\<close>

lemma all_args_read:
  assumes "t = CHR '','' \<or> t = CHR '';''"
  shows "(if t = CHR '';'' then Some ([], s) else read_elements s) = Some (vs, r) \<Longrightarrow>
    all_args s t acc = (acc @ vs, r)"
  using assms
proof (induction "length s" arbitrary: s t acc vs rule: less_induct)
  case less
  show ?case
  proof (cases "t = CHR '';''")
    case True
    with less.prems show ?thesis by (auto simp: all_args.simps [of r])
  next
    case False
    with less.prems have t: "t = CHR '',''" and read: "read_elements s = Some (vs, r)" by auto
    then obtain v n t' where x: "scan_element s = Some (v, n, t')"
      by (auto simp: read_elements.simps [of s] split: option.splits)
    with read obtain vs' where vs: "vs = v # vs'"
      and rest: "(if t' = CHR '';'' then Some ([], n) else read_elements n) = Some (vs', r)"
      by (auto simp: read_elements.simps [of s] split: if_splits)
    have "t' = CHR '','' \<or> t' = CHR '';''" using scan_element_sound [OF x] by blast
    from less.hyps [OF scan_element_length [OF x] rest this, of "acc @ [v]"] t x vs show ?thesis
      by (simp add: all_args.simps [of s] element_of_scan)
  qed
qed

definition drop_instr :: "aux_dropper \<Rightarrow> str list \<Rightarrow> aux_dropper \<times> str option" where
  "drop_instr d vs = filter_step (hd vs) (tl vs) d"

lemma filter_loop_instr:
  assumes "read_elements s = Some (vs, r)"
  shows "filter_loop d out pend s =
     (case drop_instr d vs of
        (d', None) \<Rightarrow> filter_loop d' out (pend @ take (length s - length r) s) r
      | (d', Some x) \<Rightarrow> filter_loop d' (add_replacement out pend x) [] r)"
proof -
  obtain v n t where x: "scan_element s = Some (v, n, t)"
    using assms by (auto simp: read_elements.simps [of s] split: option.splits)
  with assms obtain vs' where vs: "vs = v # vs'"
    and rest: "(if t = CHR '';'' then Some ([], n) else read_elements n) = Some (vs', r)"
    by (auto simp: read_elements.simps [of s] split: if_splits)
  have "t = CHR '','' \<or> t = CHR '';''" using scan_element_sound [OF x] by blast
  from all_args_read [OF this rest, of "[]"] x vs assms show ?thesis
    by (subst filter_loop.simps)
      (auto simp: element_of_scan drop_instr_def add_replacement_def held_text_def)
qed

interpretation aux: text_walker drop_instr filter_loop
proof (unfold_locales, goal_cases)
  case (1 st acc pend)
  then show ?case by (simp add: filter_loop.simps finish_text_def)
qed (rule filter_loop_instr)

lemma drop_filter_complete:
  assumes "complete_chunk text"
  shows "drop_filter d text = (walk_state drop_instr d (fst (parse_chunk text)),
    walk_tokens id (\<lambda>x. x) drop_instr d (fst (parse_chunk text)))"
  using aux.loop_state_complete [OF assms, of d None "[]"] aux.sent_complete [OF assms, of d]
  by (auto simp: drop_filter_def forwarded_def split: prod.split option.split)


section \<open>What is left on the wire while dropping\<close>

definition stream_of :: "str list \<Rightarrow> nat option" where
  "stream_of vs = Option.bind (nth_opt (tl vs) 0) parse_u32"

text \<open>
  The stream discipline of the protocol: an instruction that opens a stream names one that is
  not open (and guacd keeps fewer than 256 open), \<open>blob\<close> and \<open>end\<close> name one that is.
\<close>

definition opening_opcodes :: "str list" where
  "opening_opcodes = [''h264'', ''img'', ''audio'', ''video'', ''file'', ''pipe'', ''clipboard'', ''argv'']"

definition stream_step :: "nat set \<Rightarrow> str list \<Rightarrow> nat set option" where
  "stream_step S vs =
     (case stream_of vs of
        None \<Rightarrow> Some S
      | Some i \<Rightarrow>
          if hd vs \<in> set opening_opcodes then (if i \<in> S \<or> MAX_DROPPED_STREAMS \<le> card S then None else Some (insert i S))
          else if hd vs = ''blob'' then (if i \<in> S then Some S else None)
          else if hd vs = ''end'' then (if i \<in> S then Some (S - {i}) else None)
          else Some S)"

fun bracketed :: "nat set \<Rightarrow> str list list \<Rightarrow> nat set option" where
  "bracketed S [] = Some S"
| "bracketed S (vs # xs) = Option.bind (stream_step S vs) (\<lambda>S'. bracketed S' xs)"

text \<open>An auxiliary picture that is not a keyframe, and a main view that promises one.\<close>

definition view_of :: "str list \<Rightarrow> nat" where
  "view_of args = (case parse_u8 (args ! 7) of None \<Rightarrow> 0 | Some v \<Rightarrow> v)"

definition picture :: "str list \<Rightarrow> bool" where
  "picture vs \<longleftrightarrow> vs \<noteq> [] \<and> hd vs = ''h264'' \<and> 9 \<le> length (tl vs) \<and> stream_of vs \<noteq> None"

definition aux_picture :: "str list \<Rightarrow> bool" where
  "aux_picture vs \<longleftrightarrow> picture vs \<and> view_of (tl vs) \<noteq> 0 \<and> tl vs ! 2 \<noteq> ''1''"

definition paired_main :: "str list \<Rightarrow> bool" where
  "paired_main vs \<longleftrightarrow> picture vs \<and> view_of (tl vs) = 0 \<and>
     (case parse_usize (tl vs ! 8) of
        None \<Rightarrow> False
      | Some n \<Rightarrow> nth_opt (tl vs) ((9 + n * 4) mod 2 ^ 64) = Some ''1'')"

lemma encode_instruction_alt:
  "encode_instruction opcode args =
     concat (map (\<lambda>e. encode_element e @ [CHR '','']) (butlast (opcode # args))) @
     encode_element (last (opcode # args)) @ [CHR '';'']"
proof (induction args arbitrary: opcode)
  case Nil
  then show ?case by (simp add: encode_instruction_def encode_element_def)
next
  case (Cons a args)
  have "encode_instruction opcode (a # args) = encode_element opcode @ CHR '','' # encode_instruction a args"
    by (simp add: encode_instruction_def encode_element_def)
  with Cons show ?case by simp
qed

lemma encode_instruction_instr:
  assumes "list_all (\<lambda>e. list_all is_ascii e \<and> length e < 2 ^ 64) (opcode # args)"
  shows "instr_text (opcode # args) (encode_instruction opcode args)"
proof -
  have "butlast (opcode # args) @ [last (opcode # args)] = opcode # args" by (rule append_butlast_last_id) simp
  with instr_text_ascii_elements [of "butlast (opcode # args)" "last (opcode # args)"] assms show ?thesis
    unfolding encode_instruction_alt by metis
qed

lemma paired_at_residue: "((9 + n * 4) mod 2 ^ 64) mod 4 = (1 :: nat)"
proof -
  have "((9 + n * 4) mod 2 ^ 64) mod 4 = (9 + n * 4) mod (4 :: nat)"
    by (rule mod_mod_cancel) (simp add: dvd_def)
  also have "\<dots> = 1" by presburger
  finally show ?thesis .
qed

lemma paired_at_not: "k mod 4 \<noteq> 1 \<Longrightarrow> (9 + n * 4) mod 2 ^ 64 \<noteq> (k :: nat)"
  using paired_at_residue [of n] by auto

text \<open>The instructions that go on in place of one, and what they keep of the discipline.\<close>

definition ascii_picture :: "str list \<Rightarrow> bool" where
  "ascii_picture vs \<longleftrightarrow> vs \<noteq> [] \<and>
     (hd vs = ''h264'' \<longrightarrow> list_all (\<lambda>e. list_all is_ascii e \<and> length e < 2 ^ 64) vs)"

lemma drop_instr_h264:
  assumes "ad_state d = Dropping" and "hd vs = ''h264''"
  shows "drop_instr d vs =
    (if \<not> picture vs then (d, None)
     else if aux_picture vs then (drop_view (the (stream_of vs)) d, Some [])
     else if view_of (tl vs) \<noteq> 0 then (d\<lparr>kept_idrs := kept_idrs d + 1\<rparr>, None)
     else if paired_main vs then
       (d\<lparr>unpaired := unpaired d + 1\<rparr>,
        Some (encode_instruction ''h264''
          ((tl vs)[(9 + the (parse_usize (tl vs ! 8)) * 4) mod 2 ^ 64 := ''0''])))
     else (d, None))"
  using assms
  by (cases vs) (auto simp: drop_instr_def filter_step_def classify_def classify_h264_def picture_def aux_picture_def
      paired_main_def view_of_def stream_of_def nth_opt_def Let_def split: option.splits if_splits)

lemma unpaired_instr:
  assumes "paired_main vs"
    and "vs' = ''h264'' # (tl vs)[(9 + the (parse_usize (tl vs ! 8)) * 4) mod 2 ^ 64 := ''0'']"
  shows "stream_of vs' = stream_of vs \<and> \<not> aux_picture vs' \<and> \<not> paired_main vs'"
proof -
  have keep: "(tl vs)[(9 + n * 4) mod 2 ^ 64 := x] ! k = tl vs ! k" if "k mod 4 \<noteq> 1" for n k x
    using paired_at_not [OF that] by simp
  have "stream_of vs' = stream_of vs" using keep [of 0] assms(2) by (simp add: stream_of_def nth_opt_def)
  moreover have "view_of (tl vs') = 0" "tl vs' ! 8 = tl vs ! 8"
    using keep [of 7] keep [of 8] assms by (simp_all add: paired_main_def view_of_def)
  ultimately show ?thesis
    using assms by (auto simp: aux_picture_def paired_main_def nth_opt_def split: option.splits)
qed

lemma drop_instr_other:
  assumes "hd vs \<noteq> ''h264''"
  shows "drop_instr d vs =
    (case stream_of vs of
       None \<Rightarrow> (d, None)
     | Some i \<Rightarrow>
         if i \<notin> dropped_streams d then (d, None)
         else if hd vs = ''blob''
         then (d\<lparr>dropped_bytes := dropped_bytes d +
                 (case nth_opt (tl vs) 1 of None \<Rightarrow> 0 | Some p \<Rightarrow> length p div 4 * 3)\<rparr>, Some [])
         else if hd vs = ''end'' then (d\<lparr>dropped_streams := dropped_streams d - {i}\<rparr>, Some [])
         else (d, None))"
  using assms
  by (auto simp: drop_instr_def filter_step_def classify_def stream_of_def split: option.splits)

lemma drop_view_streams:
  assumes "card (dropped_streams d) < MAX_DROPPED_STREAMS"
  shows "dropped_streams (drop_view i d) = insert i (dropped_streams d)"
  using assms by (simp add: drop_view_def Let_def)

lemma drop_view_state [simp]: "ad_state (drop_view i d) = ad_state d"
  by (simp add: drop_view_def Let_def)

definition instrs_of :: "str \<Rightarrow> str list list" where
  "instrs_of s = map snd (fst (parse_chunk s))"

definition sent_for :: "str list \<Rightarrow> str option \<Rightarrow> str list list" where
  "sent_for vs q = (case q of None \<Rightarrow> [vs] | Some new \<Rightarrow> instrs_of new)"

lemma instrs_of_Nil [simp]: "instrs_of [] = []"
  by (simp add: instrs_of_def parse_chunk_None)

lemma instrs_of_instr: "instr_text vs w \<Longrightarrow> instrs_of w = [vs] \<and> complete_chunk w"
  using parse_chunk_instr [of vs w "[]"] by (simp add: instrs_of_def complete_chunk_def parse_chunk_None)

lemma stream_step_open:
  assumes "hd vs = ''h264''" and "stream_of vs = Some i"
  shows "stream_step S vs = (if i \<in> S \<or> MAX_DROPPED_STREAMS \<le> card S then None else Some (insert i S))"
  using assms by (simp add: stream_step_def opening_opcodes_def)

definition drop_clean :: "str list \<Rightarrow> bool" where
  "drop_clean vs \<longleftrightarrow> \<not> aux_picture vs \<and> \<not> paired_main vs"

lemma drop_clean_other: "hd vs \<noteq> ''h264'' \<Longrightarrow> drop_clean vs"
  by (simp add: drop_clean_def aux_picture_def paired_main_def picture_def)

lemma stream_step_minus:
  assumes "stream_step S vs = Some S'" and "finite S" and "D \<subseteq> S" and "\<And>i. stream_of vs = Some i \<Longrightarrow> i \<notin> D"
  shows "stream_step (S - D) vs = Some (S' - D) \<and> D \<subseteq> S' \<and> finite S'"
proof -
  have "card (S - D) \<le> card S" using assms(2) by (rule card_mono) auto
  with assms show ?thesis
    by (auto simp: stream_step_def split: option.splits if_splits)
qed

lemma ascii_args:
  assumes "ascii_picture vs" and "hd vs = ''h264''"
  shows "list_all (\<lambda>e. list_all is_ascii e \<and> length e < 2 ^ 64) (''h264'' # (tl vs)[k := ''0''])"
proof -
  have "list_all (\<lambda>e. list_all is_ascii e \<and> length e < 2 ^ 64) (''h264'' # tl vs)"
    using assms by (cases vs) (simp_all add: ascii_picture_def)
  then show ?thesis
    by (auto simp: list_all_iff is_ascii_def byte_of_def dest!: set_update_subset_insert [THEN subsetD])
qed

definition discipline :: "nat set \<Rightarrow> aux_dropper \<Rightarrow> bool" where
  "discipline S d \<longleftrightarrow> ad_state d = Dropping \<and> finite S \<and> dropped_streams d \<subseteq> S"

lemma drop_h264_step:
  assumes "discipline S d" and "hd vs = ''h264''" and "ascii_picture vs"
    and "stream_step S vs = Some S'" and "drop_instr d vs = (d', q)"
  shows "discipline S' d' \<and> (\<forall>new. q = Some new \<longrightarrow> complete_chunk new) \<and>
    bracketed (S - dropped_streams d) (sent_for vs q) = Some (S' - dropped_streams d') \<and>
    list_all drop_clean (sent_for vs q)"
proof -
  have dis: "ad_state d = Dropping" "finite S" "dropped_streams d \<subseteq> S"
    using assms(1) by (auto simp: discipline_def)
  have i: "i \<notin> S \<and> card S < MAX_DROPPED_STREAMS \<and> S' = insert i S" if "stream_of vs = Some i" for i
    using assms(4) that by (auto simp: stream_step_open [OF assms(2)] split: if_splits)
  then have "\<And>i. stream_of vs = Some i \<Longrightarrow> i \<notin> dropped_streams d" using dis(3) by blast
  from stream_step_minus [OF assms(4) dis(2,3) this]
  have minus: "stream_step (S - dropped_streams d) vs = Some (S' - dropped_streams d)"
    "dropped_streams d \<subseteq> S'" "finite S'"
    by auto
  note step = assms(5) [unfolded drop_instr_h264 [OF dis(1) assms(2)]]
  consider (aux) "aux_picture vs" | (paired) "paired_main vs" "\<not> aux_picture vs" | (keep) "drop_clean vs"
    by (auto simp: drop_clean_def)
  then show ?thesis
  proof cases
    case aux
    then have pic: "picture vs" by (simp add: aux_picture_def)
    then obtain k where k: "stream_of vs = Some k" by (auto simp: picture_def)
    have "card (dropped_streams d) \<le> card S" using dis(2,3) by (rule card_mono)
    with i [OF k] have "dropped_streams (drop_view k d) = insert k (dropped_streams d)"
      by (intro drop_view_streams) simp
    moreover have "d' = drop_view k d" "q = Some []" using step aux pic k by auto
    moreover have "insert k S - insert k (dropped_streams d) = S - dropped_streams d" using i [OF k] by auto
    ultimately show ?thesis
      using i [OF k] dis by (auto simp: discipline_def sent_for_def complete_chunk_def parse_chunk_None)
  next
    case paired
    then have pic: "picture vs" "view_of (tl vs) = 0" by (simp_all add: paired_main_def)
    define vs' where "vs' = ''h264'' # (tl vs)[(9 + the (parse_usize (tl vs ! 8)) * 4) mod 2 ^ 64 := ''0'']"
    have q: "d' = d\<lparr>unpaired := unpaired d + 1\<rparr>" "q = Some (encode_instruction ''h264'' (tl vs'))"
      using step paired pic by (auto simp: vs'_def)
    have "list_all (\<lambda>e. list_all is_ascii e \<and> length e < 2 ^ 64) (''h264'' # tl vs')"
      using ascii_args [OF assms(3,2)] by (simp add: vs'_def)
    from instrs_of_instr [OF encode_instruction_instr [OF this]]
    have new: "sent_for vs q = [vs']" "\<forall>new. q = Some new \<longrightarrow> complete_chunk new"
      by (auto simp: q vs'_def sent_for_def)
    have un: "stream_of vs' = stream_of vs" "drop_clean vs'"
      using unpaired_instr [OF paired(1) vs'_def] by (simp_all add: drop_clean_def)
    moreover have "hd vs' = hd vs" using assms(2) by (simp add: vs'_def)
    ultimately have "stream_step T vs' = stream_step T vs" for T
      by (simp add: stream_step_def split: option.split)
    with minus new un q dis show ?thesis by (simp add: discipline_def)
  next
    case keep
    then have "q = None" "ad_state d' = ad_state d" "dropped_streams d' = dropped_streams d"
      using step by (auto simp: drop_clean_def split: if_splits)
    with minus dis keep show ?thesis by (simp add: discipline_def sent_for_def)
  qed
qed

lemma drop_other_step:
  assumes "discipline S d" and "hd vs \<noteq> ''h264''"
    and "stream_step S vs = Some S'" and "drop_instr d vs = (d', q)"
  shows "discipline S' d' \<and> (\<forall>new. q = Some new \<longrightarrow> complete_chunk new) \<and>
    bracketed (S - dropped_streams d) (sent_for vs q) = Some (S' - dropped_streams d') \<and>
    list_all drop_clean (sent_for vs q)"
proof (cases "\<exists>i. stream_of vs = Some i \<and> i \<in> dropped_streams d")
  case True
  then obtain i where i: "stream_of vs = Some i" "i \<in> dropped_streams d" by blast
  have S: "finite S" "i \<in> S" "dropped_streams d \<subseteq> S" using assms(1) i by (auto simp: discipline_def)
  have "hd vs \<notin> set opening_opcodes" using assms(3) S i by (auto simp: stream_step_def split: if_splits)
  with assms i S show ?thesis
    by (auto simp: drop_instr_other stream_step_def discipline_def sent_for_def complete_chunk_def
        parse_chunk_None drop_clean_other split: if_splits)
next
  case False
  then have "drop_instr d vs = (d, None)"
    using assms(2) by (auto simp: drop_instr_other split: option.splits)
  with stream_step_minus [OF assms(3), of "dropped_streams d"] False assms show ?thesis
    by (auto simp: discipline_def sent_for_def drop_clean_other)
qed

lemmas drop_step = drop_h264_step drop_other_step

lemma bracketed_append:
  "bracketed S (xs @ ys) = Option.bind (bracketed S xs) (\<lambda>T. bracketed T ys)"
  by (induction xs arbitrary: S) (auto split: bind_splits)

lemma walk_drop:
  assumes "discipline S d" and "list_all ascii_picture (map snd xs)" and "bracketed S (map snd xs) = Some S'"
  shows "discipline S' (walk_state drop_instr d xs) \<and>
    bracketed (S - dropped_streams d) (map snd (walk_instrs drop_instr d xs))
      = Some (S' - dropped_streams (walk_state drop_instr d xs)) \<and>
    list_all drop_clean (map snd (walk_instrs drop_instr d xs))"
  using assms
proof (induction xs arbitrary: S d)
  case (Cons x xs)
  obtain w vs where x: "x = (w, vs)" by (cases x)
  obtain d' q where step: "drop_instr d vs = (d', q)" by (cases "drop_instr d vs")
  obtain T where T: "stream_step S vs = Some T" "bracketed T (map snd xs) = Some S'"
    using Cons.prems(3) x by (auto split: bind_splits)
  have "discipline T d' \<and>
    bracketed (S - dropped_streams d) (sent_for vs q) = Some (T - dropped_streams d') \<and>
    list_all drop_clean (sent_for vs q)"
    using drop_step(1) [OF Cons.prems(1) _ _ T(1) step] drop_step(2) [OF Cons.prems(1) _ T(1) step]
      Cons.prems(2) x by (cases "hd vs = ''h264''") auto
  moreover have "map snd (walk_instrs drop_instr d (x # xs)) =
      sent_for vs q @ map snd (walk_instrs drop_instr d' xs)"
    using x step by (auto simp: sent_for_def instrs_of_def split: option.splits)
  ultimately show ?case
    using Cons.IH [of T d'] Cons.prems(2) T(2) x step by (simp add: bracketed_append)
qed simp

lemma drop_instr_idle: "hd vs = ''h264'' \<Longrightarrow> ad_state d \<noteq> Dropping \<Longrightarrow> snd (drop_instr d vs) = None"
  by (auto simp: drop_instr_def filter_step_def classify_def classify_h264_def Let_def split: option.splits)

lemma drop_instr_complete:
  assumes "ascii_picture vs" and "drop_instr d vs = (d', Some new)"
  shows "complete_chunk new"
proof (cases "hd vs = ''h264''")
  case True
  with drop_instr_idle [of vs d] assms(2) have "ad_state d = Dropping" by auto
  show ?thesis
  proof (cases "new = []")
    case False
    define args where "args = (tl vs)[(9 + the (parse_usize (tl vs ! 8)) * 4) mod 2 ^ 64 := ''0'']"
    have "new = encode_instruction ''h264'' args"
      using assms(2) False by (auto simp: drop_instr_h264 [OF \<open>ad_state d = Dropping\<close> True] args_def split: if_splits)
    moreover have "list_all (\<lambda>e. list_all is_ascii e \<and> length e < 2 ^ 64) (''h264'' # args)"
      using ascii_args [OF assms(1) True] by (simp add: args_def)
    ultimately show ?thesis using instrs_of_instr [OF encode_instruction_instr] by blast
  qed (simp add: complete_chunk_def parse_chunk_None)
next
  case False
  with assms(2) show ?thesis
    by (auto simp: drop_instr_other complete_chunk_def parse_chunk_None split: option.splits if_splits)
qed

lemma walk_drop_framed:
  assumes "list_all (\<lambda>(w, vs). instr_text vs w \<and> ascii_picture vs) xs"
  shows "parse_chunk (walk_tokens id (\<lambda>x. x) drop_instr d xs) = (walk_instrs drop_instr d xs, [])"
  using assms by (rule walk_tokens_framed [where good = ascii_picture, rotated]) (erule (1) drop_instr_complete)

lemma drop_filter_framed:
  assumes "complete_chunk text" and "list_all ascii_picture (instrs_of text)"
  shows "complete_chunk (snd (drop_filter d text))"
proof -
  have "list_all (\<lambda>(w, vs). instr_text vs w \<and> ascii_picture vs) (fst (parse_chunk text))"
    using assms(2) by (auto simp: list_all_iff instrs_of_def dest: parse_chunk_instrs)
  from walk_drop_framed [OF this, of d] show ?thesis
    by (simp add: drop_filter_complete [OF assms(1)] complete_chunk_def)
qed

text \<open>
  C31: what is left on the wire while the auxiliary view is being dropped. For a chunk of complete
  instructions that keeps the stream discipline (no stream is opened twice, every \<open>blob\<close> and
  \<open>end\<close> names an open one, fewer than 256 are open) and whose \<open>h264\<close> instructions are ASCII,
  what goes on is again a sequence of complete instructions; it keeps the discipline, over exactly
  the open streams that are not being swallowed, so no \<open>blob\<close> or \<open>end\<close> is orphaned and no stream
  is left open; and it holds no auxiliary picture but keyframes, and no main view still
  promising one.
\<close>

theorem drop_filter_consistent:
  assumes "ad_state d = Dropping" and "finite S" and "dropped_streams d \<subseteq> S"
    and "complete_chunk text" and "list_all ascii_picture (instrs_of text)"
    and "bracketed S (instrs_of text) = Some S'" and "drop_filter d text = (d', out)"
  shows "complete_chunk out \<and>
    bracketed (S - dropped_streams d) (instrs_of out) = Some (S' - dropped_streams d') \<and>
    dropped_streams d' \<subseteq> S' \<and> ad_state d' = Dropping \<and>
    list_all (\<lambda>vs. \<not> aux_picture vs \<and> \<not> paired_main vs) (instrs_of out)"
proof -
  let ?xs = "fst (parse_chunk text)"
  have d': "d' = walk_state drop_instr d ?xs" and out: "out = walk_tokens id (\<lambda>x. x) drop_instr d ?xs"
    using drop_filter_complete [OF assms(4), of d] assms(7) by auto
  have "list_all (\<lambda>(w, vs). instr_text vs w \<and> ascii_picture vs) ?xs"
    using assms(5) by (auto simp: list_all_iff instrs_of_def dest: parse_chunk_instrs)
  then have "parse_chunk out = (walk_instrs drop_instr d ?xs, [])" unfolding out by (rule walk_drop_framed)
  moreover have "discipline S d" using assms(1-3) by (simp add: discipline_def)
  ultimately show ?thesis
    using walk_drop [of S d ?xs S'] assms(5,6) unfolding d'
    by (auto simp: instrs_of_def complete_chunk_def discipline_def drop_clean_def list_all_iff)
qed

definition demo_dropper :: aux_dropper where
  "demo_dropper = (dropper_new [])\<lparr>ad_state := Dropping\<rparr>"

definition demo_aux :: str where
  "demo_aux = ''4.h264,1.3,1.0,1.0,1.0,1.0,1.8,1.8,1.1,1.0;''"

definition demo_tail :: str where "demo_tail = ''4.blob,1.3,2.AB;3.end,1.3;''"

lemma drop_env_eval [simp]: "to_ascii_lowercase (trim []) = []"
  by (simp add: to_ascii_lowercase_def trim_def)

lemmas drop_eval = dropper_new_def Let_def drop_filter_def filter_loop.simps all_args.simps element_of_scan
  filter_step_def classify_def classify_h264_def drop_view_def nth_opt_def wire_simps parse_chunk.simps
  MAX_DROPPED_STREAMS_def

lemma demo_drop_filter:
  "snd (drop_filter demo_dropper (demo_aux @ demo_tail @ ''4.sync,1.7;'')) = ''4.sync,1.7;''"
  by (simp add: demo_dropper_def demo_aux_def demo_tail_def drop_eval)

lemma demo_drop_chunk:
  "complete_chunk (demo_aux @ demo_tail @ ''4.sync,1.7;'')"
  "instrs_of (demo_aux @ demo_tail @ ''4.sync,1.7;'') =
     [[''h264'', ''3'', ''0'', ''0'', ''0'', ''0'', ''8'', ''8'', ''1'', ''0''],
      [''blob'', ''3'', ''AB''], [''end'', ''3''], [''sync'', ''7'']]"
  by (simp_all add: complete_chunk_def instrs_of_def demo_aux_def demo_tail_def wire_simps)

theorem drop_filter_consistent_witness:
  "complete_chunk ''4.sync,1.7;'' \<and> bracketed {} (instrs_of ''4.sync,1.7;'') \<noteq> None \<and>
   snd (drop_filter demo_dropper (demo_aux @ demo_tail @ ''4.sync,1.7;'')) = ''4.sync,1.7;''"
proof -
  let ?t = "demo_aux @ demo_tail @ ''4.sync,1.7;''"
  have "drop_filter demo_dropper ?t = (fst (drop_filter demo_dropper ?t), ''4.sync,1.7;'')"
    using demo_drop_filter by (metis prod.collapse)
  moreover have "ad_state demo_dropper = Dropping" "dropped_streams demo_dropper = {}"
    by (simp_all add: demo_dropper_def dropper_new_def Let_def)
  moreover have "list_all ascii_picture (instrs_of ?t)"
    by (simp add: demo_drop_chunk ascii_picture_def is_ascii_def byte_of_def)
  moreover have "bracketed {} (instrs_of ?t) = Some {}"
    unfolding demo_drop_chunk
    by (simp add: stream_step_def stream_of_def nth_opt_def opening_opcodes_def MAX_DROPPED_STREAMS_def wire_simps)
  ultimately show ?thesis
    using drop_filter_consistent [of demo_dropper "{}" ?t "{}"] demo_drop_chunk(1) demo_drop_filter by auto
qed

section \<open>The life of a dropper\<close>

lemma filter_loop_inv:
  assumes "\<And>op args d. I d \<Longrightarrow> I (fst (filter_step op args d))" and "I d"
  shows "I (fst (filter_loop d out pend s))"
  using assms(2)
proof (induction d out pend s rule: filter_loop.induct)
  case (1 d out pend s)
  show ?case
  proof (cases "s = [] \<or> element_of s = None")
    case True
    with 1(3) show ?thesis by (auto simp: filter_loop.simps [of d])
  next
    case False
    then obtain op n t where x: "element_of s = Some (op, n, t)" by (cases "element_of s") auto
    obtain args rest where a: "all_args n t [] = (args, rest)" by (cases "all_args n t []")
    obtain d' q where step: "filter_step op args d = (d', q)" by (cases "filter_step op args d")
    from assms(1) [OF 1(3), of op args] step have "I d'" by simp
    with 1(1,2) False x a step show ?thesis
      by (cases q) (simp_all add: filter_loop.simps [of d] split_beta)
  qed
qed

definition drop_config where
  "drop_config d = (ad_state d, ad_unproven d, ad_eager d, ad_probe d, switched_off d)"

definition streams_bounded :: "aux_dropper \<Rightarrow> bool" where
  "streams_bounded d \<longleftrightarrow> finite (dropped_streams d) \<and> card (dropped_streams d) \<le> MAX_DROPPED_STREAMS"

lemma classify_h264_config: "drop_config (fst (classify_h264 args d)) = drop_config d"
  by (simp add: classify_h264_def drop_config_def drop_view_def Let_def split: option.split)

lemma filter_step_config: "drop_config (fst (filter_step op args d)) = drop_config d"
proof (cases "op = ''h264''")
  case True
  then have "fst (filter_step op args d) = fst (classify_h264 args d)"
    by (simp add: filter_step_def classify_def split: prod.split drop_action.split)
  then show ?thesis using classify_h264_config [of args d] by simp
qed (auto simp: filter_step_def classify_def drop_config_def split: option.split)

lemma drop_view_bounded: "streams_bounded d \<Longrightarrow> streams_bounded (drop_view i d)"
  by (auto simp: streams_bounded_def drop_view_def Let_def MAX_DROPPED_STREAMS_def card_insert_if)

lemma classify_h264_streams:
  "dropped_streams (fst (classify_h264 args d)) = dropped_streams d \<or>
   (\<exists>i. fst (classify_h264 args d) = drop_view i d)"
  by (auto simp: classify_h264_def Let_def split: option.split)

lemma filter_step_streams:
  "dropped_streams (fst (filter_step op args d)) \<subseteq> dropped_streams d \<or>
   (\<exists>i. fst (filter_step op args d) = drop_view i d)"
proof (cases "op = ''h264''")
  case True
  then have "fst (filter_step op args d) = fst (classify_h264 args d)"
    by (simp add: filter_step_def classify_def split: prod.split drop_action.split)
  then show ?thesis using classify_h264_streams [of args d] by auto
qed (auto simp: filter_step_def classify_def split: option.split)

lemma filter_step_bounded: "streams_bounded d \<Longrightarrow> streams_bounded (fst (filter_step op args d))"
  using filter_step_streams [of op args d] drop_view_bounded [of d]
  by (auto simp: streams_bounded_def finite_subset intro: card_mono [THEN le_trans])

lemma drop_filter_inv:
  assumes "\<And>op args d. I d \<Longrightarrow> I (fst (filter_step op args d))" and "I d"
  shows "I (fst (drop_filter d text))"
proof -
  have "fst (drop_filter d text) = fst (filter_loop d None [] text)"
    by (simp add: drop_filter_def split: prod.split option.split)
  with filter_loop_inv [of I, OF assms] show ?thesis by simp
qed

lemma drop_filter_config: "drop_config (fst (drop_filter d text)) = drop_config d"
  by (rule drop_filter_inv) (simp_all add: filter_step_config)

lemma drop_filter_bounded: "streams_bounded d \<Longrightarrow> streams_bounded (fst (drop_filter d text))"
  by (rule drop_filter_inv) (rule filter_step_bounded)

text \<open>A verdict that lets the drop begin.\<close>

definition may_begin :: "aux_dropper \<Rightarrow> bool" where
  "may_begin d \<longleftrightarrow> drop_safety d = Safe \<or> drop_safety d = Unproven \<and> ad_unproven d"

lemma drop_filter_keeps:
  assumes "drop_filter d text = (d', out)"
  shows "ad_state d' = ad_state d" "ad_unproven d' = ad_unproven d" "ad_eager d' = ad_eager d"
    "drop_safety d' = drop_safety d" "may_begin d' = may_begin d" "switched_off d' = switched_off d"
    "streams_bounded d \<Longrightarrow> streams_bounded d'"
  using drop_filter_config [of d "text"] drop_filter_bounded [of d "text"] assms
  by (simp_all add: drop_config_def drop_safety_def may_begin_def)

lemma drop_safety_state [simp]: "drop_safety (d\<lparr>ad_state := st\<rparr>) = drop_safety d"
  by (simp add: drop_safety_def)

definition drop_move :: "aux_dropper \<Rightarrow> str \<Rightarrow> aux_dropper \<Rightarrow> str \<Rightarrow> bool" where
  "drop_move d text d' out \<longleftrightarrow>
     (ad_state d' \<noteq> Dropping \<longrightarrow> out = text) \<and>
     (ad_state d = Off \<longrightarrow> ad_state d' = Off) \<and>
     (ad_state d' = Deciding \<longrightarrow> ad_state d = Deciding \<and> drop_safety d' = Safety_Undecided) \<and>
     (ad_state d = Deciding \<and> ad_state d' = Dropping \<longrightarrow> may_begin d') \<and>
     (ad_state d' = Dropping \<longrightarrow> drop_safety d' \<noteq> Unsafe) \<and>
     ad_unproven d' = ad_unproven d \<and> ad_eager d' = ad_eager d \<and> switched_off d' = switched_off d \<and>
     (streams_bounded d \<longrightarrow> streams_bounded d')"

lemma process_observed_move:
  assumes "process_observed d text = (d', out, lines)"
  shows "drop_move d text d' out"
proof (cases "ad_state d = Off \<or> ad_state d = Dropping \<and> drop_safety d = Unsafe
    \<or> ad_state d = Deciding \<and> \<not> may_begin d")
  case True
  with assms show ?thesis
    by (auto simp: process_observed_def drop_move_def may_begin_def streams_bounded_def
        split: if_splits safety_level.splits)
next
  case False
  define d0 where "d0 = d\<lparr>ad_state := Dropping\<rparr>"
  have f: "drop_filter d0 text = (d', out)"
  proof (cases "ad_state d = Deciding")
    case True
    with False assms show ?thesis
      by (auto simp: process_observed_def may_begin_def d0_def split: if_splits safety_level.splits prod.splits)
  next
    case not_deciding: False
    with False have "ad_state d = Dropping" by (cases "ad_state d") auto
    then have "d0 = d" by (simp add: d0_def)
    with \<open>ad_state d = Dropping\<close> False assms show ?thesis
      by (auto simp: process_observed_def split: prod.splits)
  qed
  have "streams_bounded d \<Longrightarrow> streams_bounded d0" by (simp add: d0_def streams_bounded_def)
  with False drop_filter_keeps [OF f] show ?thesis
    by (cases "ad_state d") (auto simp: drop_move_def d0_def may_begin_def drop_safety_def)
qed

lemma other_surface_keeps:
  assumes "other_surface d text = (d', r)"
  shows "drop_config d' = drop_config d" "streams_bounded d' = streams_bounded d"
  using assms by (auto simp: other_surface_def drop_config_def streams_bounded_def split: if_splits prod.splits)

lemma process_move:
  assumes "process dec pick d text = (d', out, lines)"
  shows "drop_move d text d' out"
proof -
  obtain d1 r where o: "(if ad_state d \<noteq> Off then other_surface d text else (d, None)) = (d1, r)"
    by (cases "if ad_state d \<noteq> Off then other_surface d text else (d, None)")
  have k: "drop_config d1 = drop_config d" "streams_bounded d1 = streams_bounded d"
    using o other_surface_keeps [of d "text" d1 r] by (auto split: if_splits)
  show ?thesis
  proof (cases r)
    case None
    then have "process_observed (d1\<lparr>ad_probe := observe dec pick (ad_probe d1) text\<rparr>) text = (d', out, lines)"
      using assms o by (simp add: process_def)
    from process_observed_move [OF this] k show ?thesis
      by (simp add: drop_move_def drop_config_def streams_bounded_def)
  next
    case (Some p)
    then have "d' = d1\<lparr>ad_state := Off, multi_surface := True\<rparr>" "out = text"
      using assms o by (auto simp: process_def split: prod.splits)
    with k show ?thesis by (simp add: drop_move_def drop_config_def streams_bounded_def)
  qed
qed

text \<open>
  A session: the chunks in order, each with what went on in its place, the state the dropper was
  left in and the verdict at that moment.
\<close>

type_synonym drop_log = "(str \<times> str \<times> drop_state \<times> safety_level) list"

inductive drop_session ::
  "(str \<Rightarrow> byte list option) \<Rightarrow> ((nat \<times> ref_sps) list \<Rightarrow> ref_sps option) \<Rightarrow> aux_dropper \<Rightarrow> drop_log \<Rightarrow> bool"
  for dec pick where
  start: "drop_session dec pick (for_session env setting) []"
| chunk: "drop_session dec pick d log \<Longrightarrow> process dec pick d text = (d', out, lines) \<Longrightarrow>
    drop_session dec pick d' (log @ [(text, out, ad_state d', drop_safety d')])"

definition passed :: "drop_state \<Rightarrow> drop_log \<Rightarrow> bool" where
  "passed st log \<longleftrightarrow> list_all (\<lambda>(t, out, st', _). st' = st \<and> out = t) log"

definition began :: "bool \<Rightarrow> drop_log \<Rightarrow> bool" where
  "began unproven log \<longleftrightarrow>
     (case log of
        [] \<Rightarrow> True
      | (_, _, _, sf) # _ \<Rightarrow> sf = Safe \<or> sf = Unproven \<and> unproven) \<and>
     list_all (\<lambda>(_, _, st, sf). st = Dropping \<and> sf \<noteq> Unsafe) log"

lemma began_append:
  "began u (log @ [(t, out, st, sf)]) \<longleftrightarrow>
     began u log \<and> st = Dropping \<and> sf \<noteq> Unsafe \<and> (log = [] \<longrightarrow> sf = Safe \<or> sf = Unproven \<and> u)"
  by (cases log) (auto simp: began_def)

lemma passed_append:
  "passed st (log @ [(t, out, st', sf)]) \<longleftrightarrow> passed st log \<and> st' = st \<and> out = t"
  by (auto simp: passed_def)

definition phases :: "aux_dropper \<Rightarrow> drop_log \<Rightarrow> drop_log \<Rightarrow> drop_log \<Rightarrow> bool" where
  "phases d a b c \<longleftrightarrow> passed Deciding a \<and> began (ad_unproven d) b \<and> passed Off c \<and>
     (ad_state d = Deciding \<longrightarrow> b = [] \<and> c = []) \<and> (ad_state d = Dropping \<longrightarrow> b \<noteq> [] \<and> c = []) \<and>
     (switched_off d \<longrightarrow> a = [] \<and> b = [] \<and> ad_state d = Off) \<and> streams_bounded d"

lemma phases_nothing [simp]: "passed st []" "began u []"
  by (simp_all add: passed_def began_def)

lemma phases_step:
  assumes "phases d a b c" and m: "drop_move d t d' out"
  shows "\<exists>a' b' c'. (a @ b @ c) @ [(t, out, ad_state d', drop_safety d')] = a' @ b' @ c' \<and> phases d' a' b' c'"
proof -
  define x where "x = (t, out, ad_state d', drop_safety d')"
  have keep: "ad_unproven d' = ad_unproven d" "switched_off d' = switched_off d" "streams_bounded d'"
    using assms by (auto simp: drop_move_def phases_def)
  have phases: "began (ad_unproven d) b" "passed Off c" "passed Deciding a"
    using assms(1) by (auto simp: phases_def)
  show ?thesis
  proof (cases "ad_state d'")
    case Deciding
    then have "phases d' (a @ [x]) [] []" "b = []" "c = []"
      using assms keep by (auto simp: drop_move_def phases_def passed_append x_def)
    then show ?thesis by (intro exI [of _ "a @ [x]"] exI [of _ "[]"]) (simp add: x_def)
  next
    case Dropping
    then have "ad_state d = Deciding \<or> ad_state d = Dropping" using m by (cases "ad_state d") (auto simp: drop_move_def)
    then have c: "c = []" and b: "b = [] \<longrightarrow> ad_state d = Deciding" and off: "\<not> switched_off d"
      using assms(1) by (auto simp: phases_def)
    have "began (ad_unproven d') (b @ [x])"
      using b phases(1) m Dropping keep(1) unfolding x_def began_append drop_move_def may_begin_def by simp
    then have "phases d' a (b @ [x]) []" unfolding phases_def
      using phases(3) Dropping keep off by simp
    then show ?thesis using c by (intro exI [of _ a] exI [of _ "b @ [x]"] exI [of _ "[]"]) (simp add: x_def)
  next
    case Off
    then have "phases d' a b (c @ [x])"
      using assms keep by (auto simp: drop_move_def phases_def passed_append x_def)
    then show ?thesis by (intro exI [of _ a] exI [of _ b] exI [of _ "c @ [x]"]) (simp add: x_def)
  qed
qed

lemma drop_session_phases: "drop_session dec pick d log \<Longrightarrow> \<exists>a b c. log = a @ b @ c \<and> phases d a b c"
proof (induction rule: drop_session.induct)
  case (start env setting)
  have "phases (for_session env setting) [] [] []"
    by (auto simp: phases_def for_session_def dropper_new_def streams_bounded_def Let_def split: option.split bool.split)
  then show ?case by simp
next
  case (chunk d log t d' out lines)
  then obtain a b c where "log = a @ b @ c" "phases d a b c" by blast
  with phases_step [OF this(2) process_move [OF chunk(2)]] show ?case by simp
qed

text \<open>
  C32: the life of a session's dropper. Its chunks fall into three runs, each possibly empty. In the
  first it is deciding and in the last it is off, and both pass every chunk on unchanged; in
  between it drops. So what \<open>dropping\<close> tells the browser changes at most twice, and once off it
  never drops again. The drop begins only on a chunk whose verdict is \<open>Safe\<close>, or \<open>Unproven\<close>
  where the setting extends to it, and never goes on past one whose verdict is \<open>Unsafe\<close>. A
  session that was switched off changes nothing. At most 256 streams are being swallowed.
\<close>

theorem drop_lifecycle:
  assumes "drop_session dec pick d log"
  shows "\<exists>a b c. log = a @ b @ c \<and>
    list_all (\<lambda>(t, out, st, _). st = Deciding \<and> out = t) a \<and>
    list_all (\<lambda>(_, _, st, sf). st = Dropping \<and> sf \<noteq> Unsafe) b \<and>
    list_all (\<lambda>(t, out, st, _). st = Off \<and> out = t) c \<and>
    (\<forall>t out st sf b'. b = (t, out, st, sf) # b' \<longrightarrow> sf = Safe \<or> sf = Unproven \<and> ad_unproven d) \<and>
    (switched_off d \<longrightarrow> a = [] \<and> b = []) \<and>
    finite (dropped_streams d) \<and> card (dropped_streams d) \<le> MAX_DROPPED_STREAMS"
proof -
  obtain a b c where log: "log = a @ b @ c" and p: "phases d a b c"
    using drop_session_phases [OF assms] by blast
  have "sf = Safe \<or> sf = Unproven \<and> ad_unproven d" if "b = (t, out, st, sf) # b'" for t out st sf b'
    using p that by (simp add: phases_def began_def)
  moreover have "list_all (\<lambda>(_, _, st, sf). st = Dropping \<and> sf \<noteq> Unsafe) b"
    using p by (simp add: phases_def began_def)
  ultimately show ?thesis using log p
    by (intro exI [of _ a] exI [of _ b] exI [of _ c]) (simp add: phases_def passed_def streams_bounded_def)
qed

theorem drop_lifecycle_witness:
  "\<exists>d t st. drop_session demo_dec (\<lambda>_. None) d [(demo_aux, t, st, Safety_Undecided)] \<and> t = demo_aux"
proof -
  define r where "r = process demo_dec (\<lambda>_. None) (for_session [] (Some False)) demo_aux"
  obtain d out lines where e: "r = (d, out, lines)" by (cases r)
  have s: "drop_session demo_dec (\<lambda>_. None) d ([] @ [(demo_aux, out, ad_state d, drop_safety d)])"
    by (rule drop_session.chunk [OF drop_session.start [of demo_dec "\<lambda>_. None" "[]" "Some False"]])
      (fact e [unfolded r_def])
  have "switched_off d" using process_move [OF e [unfolded r_def]]
    by (simp add: drop_move_def for_session_def dropper_new_def Let_def)
  moreover have "drop_safety d = Safety_Undecided"
  proof -
    have "d = (for_session [] (Some False))\<lparr>ad_probe := observe demo_dec (\<lambda>_. None) probe_new demo_aux\<rparr>"
      using e by (simp add: r_def process_def process_observed_def for_session_def dropper_new_def Let_def)
    then show ?thesis
      by (simp add: drop_safety_def observe_def demo_aux_def wire_simps observe_instr_def
          probe_open_def probe_new_def nth_opt_def stats_eval for_session_def dropper_new_def)
  qed
  ultimately show ?thesis using drop_lifecycle [OF s] s
    by (cases "ad_state d") (auto simp: Cons_eq_append_conv)
qed

section \<open>Where the dropper does not do what it says\<close>

definition default_list_history :: history where
  "default_list_history = [(16, 0, demo_slice 1 [] []), (16, 1, demo_slice 2 [] [(6, 0)])]"

text \<open>
  a drop that has begun goes on when the verdict falls back to \<open>Unproven\<close>, on a deployment
  that has not extended dropping to such streams. Main slices that took one entry of the default
  list made the stream safe; one that activates two makes it unproven, and the next auxiliary
  picture is still dropped.
\<close>

theorem unproven_goes_on:
  "let st = fst (demo_stats 3 default_list_history);
       st' = fst (demo_stats 3
         (default_list_history @ [(16, 0, (demo_slice 3 [] [])\<lparr>num_ref_idx_l0_active := 2\<rparr>)]));
       d = demo_dropper\<lparr>ad_eager := True, ad_probe := probe_new\<lparr>pr_stats := st'\<rparr>\<rparr>
   in safety st True = Safe \<and> safety st' True = Unproven \<and> \<not> ad_unproven d \<and>
      snd (process_observed d demo_aux) = ([], [])"
proof -
  have s: "safety (fst (demo_stats 3 default_list_history)) True = Safe"
    "safety (fst (demo_stats 3
         (default_list_history @ [(16, 0, (demo_slice 3 [] [])\<lparr>num_ref_idx_l0_active := 2\<rparr>)]))) True = Unproven"
    by (simp_all add: default_list_history_def stats_eval entangled_verdict_def main_active_entries_def)
  have "snd (drop_filter (demo_dropper\<lparr>ad_eager := True, ad_probe := probe_new\<lparr>pr_stats := st\<rparr>\<rparr>) demo_aux) = []" for st
    by (simp add: demo_dropper_def demo_aux_def drop_eval)
  with s show ?thesis
    by (simp add: Let_def process_observed_def drop_safety_def demo_dropper_def dropper_new_def split_beta drop_env_eval)
qed

text \<open>A main view of another surface.\<close>

definition demo_second :: str where
  "demo_second = ''4.h264,1.5,1.0,1.0,1.0,1.0,1.8,1.8,1.0,1.0,1.0,1.0,1.1;''"

text \<open>
  switching off orphans what is in flight. An auxiliary picture is dropped, and before its data
  arrives a second surface switches the drop off: its \<open>blob\<close> and \<open>end\<close> are passed on, for a
  stream the browser was never told of, although guacd kept the stream discipline.
\<close>

theorem switch_off_orphans:
  "let (d1, out1, _) = process demo_dec (\<lambda>_. None) demo_dropper demo_aux;
       (d2, out2, _) = process demo_dec (\<lambda>_. None) d1 (demo_second @ demo_tail)
   in out1 = [] \<and> out2 = demo_second @ demo_tail \<and>
      bracketed {} (instrs_of (demo_aux @ demo_second @ demo_tail)) = Some {5} \<and>
      bracketed {} (instrs_of (out1 @ out2)) = None"
proof -
  define d where "d = demo_dropper\<lparr>first_surface := Some 0, ad_probe := observe demo_dec (\<lambda>_. None) probe_new demo_aux\<rparr>"
  define d1 where "d1 = fst (drop_filter d demo_aux)"
  have s: "surface_loop None demo_aux = (Some 0, None)"
    "surface_loop (Some 0) (demo_second @ demo_tail) = (Some 0, Some (0, 1))"
    by (simp_all add: demo_aux_def demo_second_def demo_tail_def surface_loop.simps full_args.simps
        element_of_scan surface_of_def nth_opt_def wire_simps)
  have h: "contains ''4.h264,'' demo_aux" "contains ''4.h264,'' (demo_second @ demo_tail)"
    by (simp_all add: demo_aux_def demo_second_def demo_tail_def)
  have "drop_safety d = Safety_Undecided"
    by (simp add: d_def drop_safety_def observe_def demo_aux_def wire_simps observe_instr_def
        probe_open_def probe_new_def nth_opt_def stats_eval demo_dropper_def dropper_new_def)
  moreover have "ad_state d = Dropping" "first_surface d = Some 0" by (simp_all add: d_def demo_dropper_def)
  moreover have f: "drop_filter d demo_aux = (d1, [])" "first_surface d1 = Some 0"
    by (simp_all add: d1_def d_def demo_dropper_def demo_aux_def drop_eval)
  ultimately have p1: "process demo_dec (\<lambda>_. None) demo_dropper demo_aux = (d1, [], [])" "ad_state d1 = Dropping"
    using s(1) h(1) drop_filter_keeps(1) [OF f(1)]
    by (simp_all add: process_def other_surface_def process_observed_def demo_dropper_def dropper_new_def
        Let_def d_def)
  have p2: "fst (snd (process demo_dec (\<lambda>_. None) d1 (demo_second @ demo_tail))) = demo_second @ demo_tail"
    using s(2) h(2) p1(2) f(2) by (simp add: process_def other_surface_def)
  have "bracketed {} (instrs_of (demo_aux @ demo_second @ demo_tail)) = Some {5}"
    "bracketed {} (instrs_of (demo_second @ demo_tail)) = None"
    by (simp_all add: instrs_of_def demo_aux_def demo_second_def demo_tail_def wire_simps stream_step_def
        stream_of_def nth_opt_def opening_opcodes_def MAX_DROPPED_STREAMS_def insert_commute)
  with p1(1) p2 show ?thesis by (simp add: split_beta)
qed

text \<open>
  An instruction cut off in the middle is not copied verbatim, as the comments of \<open>filter\<close> say
  of it: it is classified by the arguments read so far, and an auxiliary picture is dropped.
\<close>

theorem truncated_is_dropped:
  "snd (drop_filter demo_dropper (butlast demo_aux @ '',1'')) = [] \<and>
   scan_instruction (butlast demo_aux @ '',1'') = None"
  by (simp add: demo_dropper_def demo_aux_def drop_eval)

end
