(* ===== verification/Frame_Stats.thy ===== *)
theory Frame_Stats
  imports Complex_Main H264_Sps Wire_Scan Tally
begin

text \<open>
  \<^verbatim>\<open>src/src/frame_stats.rs\<close>: the telemetry of one session. \<open>FrameStats\<close> is shared by both
  directions of the proxy; every operation holds its mutex while it updates the counters, so
  a session is a sequence of operations. An \<open>Instant\<close> is a number of nanoseconds, passed to
  each operation as the time it is called at; \<open>saturating_duration_since\<close> is subtraction
  of natural numbers. The \<open>f64\<close> mean lag is computed in exact rational arithmetic (its
  rounding errors are not modelled), the \<open>u64\<close> counters are natural numbers.
\<close>

section \<open>State\<close>

definition MAX_PENDING :: nat where "MAX_PENDING = 512"
definition LAG_EWMA_ALPHA :: rat where "LAG_EWMA_ALPHA = 15 / 100"
definition OVERPAINT_LOG_LIMIT :: nat where "OVERPAINT_LOG_LIMIT = 20"
definition OVERPAINT_LOG_WINDOW :: nat where "OVERPAINT_LOG_WINDOW = 60 * 10 ^ 9"
definition OVERPAINT_SUMMARY_INTERVAL :: nat where "OVERPAINT_SUMMARY_INTERVAL = 30 * 10 ^ 9"

definition as_millis :: "nat \<Rightarrow> nat" where "as_millis d = d div 10 ^ 6"

record h264_layer =
  hl_frames :: nat
  hl_keyframes :: nat
  hl_last_frame :: nat

record overpaint =
  ov_counts :: "(str \<times> nat) list"
  ov_total :: nat
  logged_in_window :: nat
  window_started :: "nat option"
  last_summary :: "nat option"
  summarised_total :: nat

record pending_frame =
  pf_timestamp :: int
  pf_sent_at :: nat

record fs_inner =
  fs_pending :: "pending_frame list"
  frames_sent :: nat
  frames_acked :: nat
  unmatched_acks :: nat
  max_outstanding :: nat
  last_lag_ms :: nat
  max_lag_ms :: nat
  ewma_lag_ms :: rat
  h264_frames :: nat
  h264_keyframes :: nat
  bytes_to_browser :: nat
  bytes_to_guacd :: nat
  binary_blob_frames :: nat
  binary_blob_bytes :: nat
  binary_blob_saved_bytes :: nat
  h264_layers :: "(int \<times> h264_layer) list"
  fs_overpaint :: overpaint

record frame_stats =
  fs_state :: fs_inner
  fs_started :: nat
  h264_seen :: bool
  sps_reported :: bool
  fs_h264_streams :: "nat set"

definition overpaint_default :: overpaint where
  "overpaint_default = \<lparr>ov_counts = [], ov_total = 0, logged_in_window = 0, window_started = None,
     last_summary = None, summarised_total = 0\<rparr>"

definition inner_default :: fs_inner where
  "inner_default = \<lparr>fs_pending = [], frames_sent = 0, frames_acked = 0, unmatched_acks = 0,
     max_outstanding = 0, last_lag_ms = 0, max_lag_ms = 0, ewma_lag_ms = 0, h264_frames = 0,
     h264_keyframes = 0, bytes_to_browser = 0, bytes_to_guacd = 0, binary_blob_frames = 0,
     binary_blob_bytes = 0, binary_blob_saved_bytes = 0, h264_layers = [],
     fs_overpaint = overpaint_default\<rparr>"

definition frame_stats_new :: "nat \<Rightarrow> frame_stats" where
  "frame_stats_new now = \<lparr>fs_state = inner_default, fs_started = now, h264_seen = False,
     sps_reported = False, fs_h264_streams = {}\<rparr>"

section \<open>Drawing instructions\<close>

record draw =
  dw_op :: str
  dw_layer :: int
  dw_args :: "str list"

text \<open>The opcodes that draw on a layer: where the layer is, and the four arguments kept.\<close>

definition draw_shape :: "str \<Rightarrow> (str \<times> str \<times> nat \<times> nat option list) option" where
  "draw_shape instr =
     (case strip_prefix ''3.img,'' instr of
        Some rest \<Rightarrow> Some (''img'', rest, 2, [Some 4, Some 5, None, None])
      | None \<Rightarrow>
     (case strip_prefix ''4.copy,'' instr of
        Some rest \<Rightarrow> Some (''copy'', rest, 6, [Some 7, Some 8, Some 0, None])
      | None \<Rightarrow>
     (case strip_prefix ''4.rect,'' instr of
        Some rest \<Rightarrow> Some (''rect'', rest, 0, [Some 1, Some 2, Some 3, Some 4])
      | None \<Rightarrow>
     (case strip_prefix ''5.cfill,'' instr of
        Some rest \<Rightarrow> Some (''cfill'', rest, 1, [Some 2, Some 3, Some 4, Some 5])
      | None \<Rightarrow>
     (case strip_prefix ''4.size,'' instr of
        Some rest \<Rightarrow> Some (''size'', rest, 0, [Some 1, Some 2, None, None])
      | None \<Rightarrow>
     (case strip_prefix ''7.dispose,'' instr of
        Some rest \<Rightarrow> Some (''dispose'', rest, 0, [None, None, None, None])
      | None \<Rightarrow> None))))))"

definition draw_parse :: "str \<Rightarrow> draw option" where
  "draw_parse instr =
     (case draw_shape instr of
        None \<Rightarrow> None
      | Some (op, rest, layer_at, args_at) \<Rightarrow>
          (case Option.bind (nth_element rest layer_at) parse_i32 of
             None \<Rightarrow> None
           | Some layer \<Rightarrow>
               Some \<lparr>dw_op = op, dw_layer = layer,
                 dw_args = map (\<lambda>slot. case slot of
                     None \<Rightarrow> []
                   | Some i \<Rightarrow> (case nth_element rest i of None \<Rightarrow> [] | Some v \<Rightarrow> v)) args_at\<rparr>))"

text \<open>The journal lines, by the values they quote.\<close>

datatype overpaint_line =
    Detail str int "str list" nat nat nat
  | Totals "(str \<times> nat) list"

definition draw_describe :: "draw \<Rightarrow> h264_layer \<Rightarrow> nat \<Rightarrow> overpaint_line" where
  "draw_describe dw layer now =
     Detail (dw_op dw) (dw_layer dw) (filter (\<lambda>a. a \<noteq> []) (dw_args dw)) (hl_frames layer)
       (hl_keyframes layer) (as_millis (now - hl_last_frame layer))"

section \<open>\<open>note_overpaint\<close>\<close>

text \<open>One drawing instruction on a layer that has carried H.264.\<close>

definition count_draw :: "nat \<Rightarrow> draw \<Rightarrow> h264_layer \<Rightarrow> overpaint \<Rightarrow> overpaint \<times> overpaint_line list" where
  "count_draw now dw layer ov =
     (let ov = ov\<lparr>ov_total := ov_total ov + 1, ov_counts := bump (dw_op dw) (ov_counts ov)\<rparr>;
          ov = (case window_started ov of
                  Some started \<Rightarrow>
                    if now - started < OVERPAINT_LOG_WINDOW then ov
                    else ov\<lparr>window_started := Some now, logged_in_window := 0\<rparr>
                | None \<Rightarrow> ov\<lparr>window_started := Some now, logged_in_window := 0\<rparr>)
      in if logged_in_window ov < OVERPAINT_LOG_LIMIT
         then (ov\<lparr>logged_in_window := logged_in_window ov + 1\<rparr>, [draw_describe dw layer now])
         else (ov, []))"

fun note_draws :: "nat \<Rightarrow> (int \<times> h264_layer) list \<Rightarrow> draw list \<Rightarrow> overpaint \<Rightarrow> overpaint \<times> overpaint_line list" where
  "note_draws now layers [] ov = (ov, [])"
| "note_draws now layers (dw # draws) ov =
     (case map_of layers (dw_layer dw) of
        None \<Rightarrow> note_draws now layers draws ov
      | Some layer \<Rightarrow>
          (let (ov, lines) = count_draw now dw layer ov;
               (ov, more) = note_draws now layers draws ov
           in (ov, lines @ more)))"

definition summarise :: "nat \<Rightarrow> overpaint \<Rightarrow> overpaint \<times> overpaint_line list" where
  "summarise now ov =
     (let due = (case last_summary ov of
                   Some t \<Rightarrow> OVERPAINT_SUMMARY_INTERVAL \<le> now - t
                 | None \<Rightarrow> True)
      in if due \<and> summarised_total ov < ov_total ov
         then (ov\<lparr>last_summary := Some now, summarised_total := ov_total ov\<rparr>, [Totals (ov_counts ov)])
         else (ov, []))"

definition note_overpaint :: "nat \<Rightarrow> draw list \<Rightarrow> fs_inner \<Rightarrow> fs_inner \<times> overpaint_line list option" where
  "note_overpaint now draws inner =
     (let (ov, details) = note_draws now (h264_layers inner) draws (fs_overpaint inner);
          (ov, totals) = summarise now ov;
          logs = details @ totals
      in (inner\<lparr>fs_overpaint := ov\<rparr>, if logs = [] then None else Some logs))"

section \<open>\<open>observe_to_browser\<close>\<close>

record browser_scan =
  bs_syncs :: "int list"
  bs_h264 :: "(int \<times> bool) list"
  bs_draws :: "draw list"

definition scan_browser_instr :: "bool \<Rightarrow> browser_scan \<Rightarrow> str \<Rightarrow> browser_scan" where
  "scan_browser_instr watching bs instr =
     (case strip_prefix ''4.sync,'' instr of
        Some rest \<Rightarrow>
          (case Option.bind (next_element rest) (\<lambda>(ts, _). parse_i64 ts) of
             None \<Rightarrow> bs
           | Some ts \<Rightarrow> bs\<lparr>bs_syncs := bs_syncs bs @ [ts]\<rparr>)
      | None \<Rightarrow>
          (case strip_prefix ''4.h264,'' instr of
             Some rest \<Rightarrow>
               (let layer = (case Option.bind (nth_element rest 1) parse_i32 of None \<Rightarrow> 0 | Some v \<Rightarrow> v);
                    keyframe = (case nth_element rest 2 of None \<Rightarrow> False | Some v \<Rightarrow> v \<noteq> ''0'')
                in bs\<lparr>bs_h264 := bs_h264 bs @ [(layer, keyframe)]\<rparr>)
           | None \<Rightarrow>
               if watching then
                 (case draw_parse instr of
                    None \<Rightarrow> bs
                  | Some dw \<Rightarrow> bs\<lparr>bs_draws := bs_draws bs @ [dw]\<rparr>)
               else bs))"

definition scan_browser :: "bool \<Rightarrow> str \<Rightarrow> browser_scan" where
  "scan_browser watching text =
     foldl (scan_browser_instr watching) \<lparr>bs_syncs = [], bs_h264 = [], bs_draws = []\<rparr>
       (instruction_starts text)"

definition count_picture :: "nat \<Rightarrow> fs_inner \<Rightarrow> int \<times> bool \<Rightarrow> fs_inner" where
  "count_picture now inner p =
     (let (layer, is_keyframe) = p;
          entry = (case map_of (h264_layers inner) layer of
                     None \<Rightarrow> \<lparr>hl_frames = 0, hl_keyframes = 0, hl_last_frame = now\<rparr>
                   | Some e \<Rightarrow> e)
      in inner\<lparr>h264_frames := h264_frames inner + 1,
               h264_keyframes := h264_keyframes inner + of_bool is_keyframe,
               h264_layers := AList.update layer
                 (entry\<lparr>hl_frames := hl_frames entry + 1,
                        hl_keyframes := hl_keyframes entry + of_bool is_keyframe,
                        hl_last_frame := now\<rparr>) (h264_layers inner)\<rparr>)"

definition push_frame :: "nat \<Rightarrow> fs_inner \<Rightarrow> int \<Rightarrow> fs_inner" where
  "push_frame now inner ts =
     (let pending = (if MAX_PENDING \<le> length (fs_pending inner) then tl (fs_pending inner) else fs_pending inner)
            @ [\<lparr>pf_timestamp = ts, pf_sent_at = now\<rparr>];
          outstanding = length pending
      in inner\<lparr>frames_sent := frames_sent inner + 1, fs_pending := pending,
               max_outstanding := (if max_outstanding inner < outstanding then outstanding
                 else max_outstanding inner)\<rparr>)"

definition observe_to_browser ::
  "nat \<Rightarrow> frame_stats \<Rightarrow> str \<Rightarrow> frame_stats \<times> overpaint_line list option" where
  "observe_to_browser now fs text =
     (let watching = h264_seen fs;
          bs = scan_browser watching text;
          inner = fs_state fs;
          inner = inner\<lparr>bytes_to_browser := bytes_to_browser inner + length text\<rparr>;
          inner = foldl (count_picture now) inner (bs_h264 bs);
          (inner, logs) = note_overpaint now (bs_draws bs) inner;
          inner = foldl (push_frame now) inner (bs_syncs bs)
      in (fs\<lparr>h264_seen := (watching \<or> bs_h264 bs \<noteq> []), fs_state := inner\<rparr>, logs))"

section \<open>\<open>observe_binary_blob\<close>, \<open>observe_to_guacd\<close>, \<open>snapshot\<close>\<close>

definition observe_binary_blob :: "nat \<Rightarrow> frame_stats \<Rightarrow> frame_stats" where
  "observe_binary_blob payload_len fs =
     (let base64_len = (payload_len + 2) div 3 * 4; inner = fs_state fs
      in fs\<lparr>fs_state := inner\<lparr>binary_blob_frames := binary_blob_frames inner + 1,
           binary_blob_bytes := binary_blob_bytes inner + payload_len,
           binary_blob_saved_bytes := binary_blob_saved_bytes inner + (base64_len - payload_len)\<rparr>\<rparr>)"

fun position :: "('a \<Rightarrow> bool) \<Rightarrow> 'a list \<Rightarrow> nat option" where
  "position P [] = None"
| "position P (x # xs) = (if P x then Some 0 else map_option Suc (position P xs))"

definition acks_of :: "str \<Rightarrow> int list" where
  "acks_of text = List.map_filter (\<lambda>instr.
     case strip_prefix ''4.sync,'' instr of
       None \<Rightarrow> None
     | Some rest \<Rightarrow> Option.bind (next_element rest) (\<lambda>(ts, _). parse_i64 ts)) (instruction_starts text)"

definition ack_frame :: "nat \<Rightarrow> fs_inner \<Rightarrow> int \<Rightarrow> fs_inner" where
  "ack_frame now inner ts =
     (case position (\<lambda>f. pf_timestamp f = ts) (fs_pending inner) of
        None \<Rightarrow> inner\<lparr>unmatched_acks := unmatched_acks inner + 1\<rparr>
      | Some index \<Rightarrow>
          (let sent_at = pf_sent_at (fs_pending inner ! index);
               lag_ms = min (as_millis (now - sent_at)) (2 ^ 32 - 1);
               acked = frames_acked inner + 1
           in inner\<lparr>fs_pending := drop (index + 1) (fs_pending inner), frames_acked := acked,
                last_lag_ms := lag_ms, max_lag_ms := max (max_lag_ms inner) lag_ms,
                ewma_lag_ms := (if acked = 1 then of_nat lag_ms
                  else LAG_EWMA_ALPHA * of_nat lag_ms + (1 - LAG_EWMA_ALPHA) * ewma_lag_ms inner)\<rparr>))"

definition observe_to_guacd :: "nat \<Rightarrow> frame_stats \<Rightarrow> str \<Rightarrow> frame_stats" where
  "observe_to_guacd now fs text =
     (let inner = fs_state fs;
          inner = inner\<lparr>bytes_to_guacd := bytes_to_guacd inner + length text\<rparr>
      in fs\<lparr>fs_state := foldl (ack_frame now) inner (acks_of text)\<rparr>)"

record fs_snapshot =
  sn_frames_sent :: nat
  sn_frames_acked :: nat
  sn_outstanding :: nat
  sn_max_outstanding :: nat
  sn_unmatched_acks :: nat
  sn_last_lag_ms :: nat
  sn_max_lag_ms :: nat
  sn_avg_lag_ms :: nat
  sn_h264_frames :: nat
  sn_h264_keyframes :: nat
  sn_bytes_to_browser :: nat
  sn_bytes_to_guacd :: nat
  sn_binary_blob_frames :: nat
  sn_binary_blob_bytes :: nat
  sn_binary_blob_saved_bytes :: nat
  sn_overpaint_ops :: nat
  sn_overpaint_by_op :: "(str \<times> nat) list"
  sn_uptime_secs :: nat

text \<open>\<open>f64::round\<close> of a non-negative value, and the saturating cast to \<open>u32\<close>.\<close>

definition round_u32 :: "rat \<Rightarrow> nat" where
  "round_u32 x = min (nat \<lfloor>x + 1 / 2\<rfloor>) (2 ^ 32 - 1)"

definition snapshot :: "nat \<Rightarrow> frame_stats \<Rightarrow> fs_snapshot" where
  "snapshot now fs =
     (let inner = fs_state fs in
      \<lparr>sn_frames_sent = frames_sent inner, sn_frames_acked = frames_acked inner,
       sn_outstanding = length (fs_pending inner) mod 2 ^ 32, sn_max_outstanding = max_outstanding inner,
       sn_unmatched_acks = unmatched_acks inner, sn_last_lag_ms = last_lag_ms inner,
       sn_max_lag_ms = max_lag_ms inner, sn_avg_lag_ms = round_u32 (ewma_lag_ms inner),
       sn_h264_frames = h264_frames inner, sn_h264_keyframes = h264_keyframes inner,
       sn_bytes_to_browser = bytes_to_browser inner, sn_bytes_to_guacd = bytes_to_guacd inner,
       sn_binary_blob_frames = binary_blob_frames inner, sn_binary_blob_bytes = binary_blob_bytes inner,
       sn_binary_blob_saved_bytes = binary_blob_saved_bytes inner,
       sn_overpaint_ops = ov_total (fs_overpaint inner), sn_overpaint_by_op = ov_counts (fs_overpaint inner),
       sn_uptime_secs = (now - fs_started fs) div 10 ^ 9\<rparr>)"

section \<open>\<open>observe_h264_colour\<close>\<close>

text \<open>The loop over the instructions, for a session not yet reported on.\<close>

fun colour_loop ::
  "(str \<Rightarrow> byte list option) \<Rightarrow> nat set \<Rightarrow> str list \<Rightarrow> nat set \<times> colour_signal option" where
  "colour_loop dec streams [] = (streams, None)"
| "colour_loop dec streams (instr # rest_instrs) =
     (case strip_prefix ''4.h264,'' instr of
        Some rest \<Rightarrow>
          (case Option.bind (next_element rest) (\<lambda>(index, _). parse_u32 index) of
             None \<Rightarrow> colour_loop dec streams rest_instrs
           | Some index \<Rightarrow> colour_loop dec (insert index streams) rest_instrs)
      | None \<Rightarrow>
          (case Option.bind (strip_prefix ''4.blob,'' instr) next_element of
             None \<Rightarrow> colour_loop dec streams rest_instrs
           | Some (index_text, after) \<Rightarrow>
               (case parse_u32 index_text of
                  None \<Rightarrow> colour_loop dec streams rest_instrs
                | Some index \<Rightarrow>
                    if index \<notin> streams then colour_loop dec streams rest_instrs
                    else
                      (case Option.bind (Option.bind (next_element after) (\<lambda>(payload, _). dec payload)) find_sps of
                         None \<Rightarrow> colour_loop dec streams rest_instrs
                       | Some signal \<Rightarrow> (streams, Some signal)))))"

definition observe_h264_colour ::
  "(str \<Rightarrow> byte list option) \<Rightarrow> frame_stats \<Rightarrow> str \<Rightarrow> frame_stats \<times> description option" where
  "observe_h264_colour dec fs text =
     (if sps_reported fs then (fs, None)
      else
        (case colour_loop dec (fs_h264_streams fs) (instruction_starts text) of
           (streams, None) \<Rightarrow> (fs\<lparr>fs_h264_streams := streams\<rparr>, None)
         | (streams, Some signal) \<Rightarrow>
             (fs\<lparr>fs_h264_streams := streams, sps_reported := True\<rparr>, Some (describe signal))))"

section \<open>The counters\<close>

lemma position_Some:
  "position P xs = Some i \<Longrightarrow> i < length xs \<and> P (xs ! i) \<and> (\<forall>j < i. \<not> P (xs ! j))"
proof (induction xs arbitrary: i)
  case (Cons x xs)
  then show ?case by (auto simp: less_Suc_eq_0_disj split: if_splits)
qed simp

definition frames_of :: "(int \<times> h264_layer) list \<Rightarrow> nat" where
  "frames_of ls = sum_list (map (hl_frames \<circ> snd) ls)"

lemma frames_of_update:
  assumes "distinct (map fst ls)"
    and "hl_frames e = Suc (case map_of ls k of None \<Rightarrow> 0 | Some x \<Rightarrow> hl_frames x)"
  shows "frames_of (AList.update k e ls) = Suc (frames_of ls)"
  using assms
proof (induction ls)
  case (Cons x ls)
  have "k \<notin> fst ` set ls \<Longrightarrow> map_of ls k = None" by (simp add: map_of_eq_None_iff)
  with Cons show ?case by (cases x) (auto simp: frames_of_def)
qed (simp add: frames_of_def)

text \<open>What holds of the counters of any session.\<close>

definition counters_ok :: "fs_inner \<Rightarrow> bool" where
  "counters_ok s \<longleftrightarrow>
     length (fs_pending s) \<le> max_outstanding s \<and> max_outstanding s \<le> MAX_PENDING \<and>
     frames_acked s + length (fs_pending s) \<le> frames_sent s \<and>
     last_lag_ms s \<le> max_lag_ms s \<and> max_lag_ms s < 2 ^ 32 \<and>
     0 \<le> ewma_lag_ms s \<and> ewma_lag_ms s \<le> of_nat (max_lag_ms s) \<and>
     h264_keyframes s \<le> h264_frames s \<and>
     distinct (map fst (h264_layers s)) \<and> frames_of (h264_layers s) = h264_frames s"

lemma counters_default: "counters_ok inner_default"
  by (simp add: counters_ok_def inner_default_def frames_of_def)

lemma counters_bytes [simp]:
  "counters_ok (s\<lparr>bytes_to_browser := n\<rparr>) = counters_ok s" "counters_ok (s\<lparr>bytes_to_guacd := n\<rparr>) = counters_ok s"
  "counters_ok (s\<lparr>fs_overpaint := ov\<rparr>) = counters_ok s"
  "counters_ok (s\<lparr>binary_blob_frames := a, binary_blob_bytes := b, binary_blob_saved_bytes := c\<rparr>) = counters_ok s"
  by (simp_all add: counters_ok_def)

lemma counters_picture: "counters_ok s \<Longrightarrow> counters_ok (count_picture now s p)"
  by (cases p) (auto simp: counters_ok_def count_picture_def Let_def distinct_update frames_of_update
      split: option.split)

lemma counters_push: "counters_ok s \<Longrightarrow> counters_ok (push_frame now s ts)"
  by (auto simp: counters_ok_def push_frame_def Let_def MAX_PENDING_def)

lemma mix_bounds:
  fixes x y m :: rat
  assumes "0 \<le> x" "x \<le> m" "0 \<le> y" "y \<le> m"
  shows "0 \<le> LAG_EWMA_ALPHA * x + (1 - LAG_EWMA_ALPHA) * y \<and> LAG_EWMA_ALPHA * x + (1 - LAG_EWMA_ALPHA) * y \<le> m"
  using assms by (auto simp: LAG_EWMA_ALPHA_def)

lemma counters_ack:
  assumes "counters_ok s"
  shows "counters_ok (ack_frame now s ts)"
proof (cases "position (\<lambda>f. pf_timestamp f = ts) (fs_pending s)")
  case None
  with assms show ?thesis by (simp add: counters_ok_def ack_frame_def)
next
  case (Some i)
  define lag where "lag = min (as_millis (now - pf_sent_at (fs_pending s ! i))) (2 ^ 32 - 1)"
  define m where "m = max (max_lag_ms s) lag"
  define e where "e = (if frames_acked s + 1 = 1 then of_nat lag
    else LAG_EWMA_ALPHA * of_nat lag + (1 - LAG_EWMA_ALPHA) * ewma_lag_ms s)"
  have s': "ack_frame now s ts = s\<lparr>fs_pending := drop (i + 1) (fs_pending s), frames_acked := frames_acked s + 1,
      last_lag_ms := lag, max_lag_ms := m, ewma_lag_ms := e\<rparr>"
    by (simp add: ack_frame_def Some lag_def m_def e_def Let_def)
  have "i < length (fs_pending s)" using position_Some [OF Some] by simp
  moreover have "lag \<le> m" "m < 2 ^ 32"
    using assms by (auto simp: m_def lag_def counters_ok_def)
  moreover have "ewma_lag_ms s \<le> of_nat m" "0 \<le> ewma_lag_ms s"
    using assms by (auto simp: counters_ok_def m_def intro: order_trans)
  moreover from this \<open>lag \<le> m\<close> have "0 \<le> e \<and> e \<le> of_nat m"
    using mix_bounds [of "of_nat lag" "of_nat m" "ewma_lag_ms s"] by (simp add: e_def)
  ultimately show ?thesis using assms unfolding s' counters_ok_def by auto
qed

lemma foldl_inv: "(\<And>s x. I s \<Longrightarrow> I (f s x)) \<Longrightarrow> I s \<Longrightarrow> I (foldl f s xs)"
  by (induction xs arbitrary: s) auto

lemma counters_browser:
  assumes "counters_ok (fs_state fs)"
  shows "counters_ok (fs_state (fst (observe_to_browser now fs text)))"
proof -
  have "counters_ok (fst (note_overpaint now draws s)) = counters_ok s" for draws s
    by (simp add: note_overpaint_def Let_def split_beta)
  with assms show ?thesis
    by (auto simp: observe_to_browser_def Let_def split_beta intro!: foldl_inv [of counters_ok] counters_push
        counters_picture)
qed

lemma counters_guacd: "counters_ok (fs_state fs) \<Longrightarrow> counters_ok (fs_state (observe_to_guacd now fs text))"
  by (auto simp: observe_to_guacd_def Let_def intro!: foldl_inv [of counters_ok] counters_ack)

section \<open>The journal\<close>

definition details :: "overpaint_line list \<Rightarrow> nat" where
  "details ls = length (filter (\<lambda>l. case l of Detail _ _ _ _ _ _ \<Rightarrow> True | _ \<Rightarrow> False) ls)"

definition summaries :: "overpaint_line list \<Rightarrow> nat" where
  "summaries ls = length (filter (\<lambda>l. case l of Totals _ \<Rightarrow> True | _ \<Rightarrow> False) ls)"

lemma line_counts [simp]:
  "details [] = 0" "summaries [] = 0"
  "details (a @ b) = details a + details b" "summaries (a @ b) = summaries a + summaries b"
  "details [Totals c] = 0" "summaries [Totals c] = 1"
  "details [draw_describe dw layer now] = 1" "summaries [draw_describe dw layer now] = 0"
  by (simp_all add: details_def summaries_def draw_describe_def)

text \<open>
  With \<open>n\<close> detailed lines and \<open>m\<close> summaries logged since \<open>t0\<close>: every window but the current one
  accounts for a full 60 seconds, every summary but the first for 30.
\<close>

definition journal_ok :: "nat \<Rightarrow> nat \<Rightarrow> nat \<Rightarrow> nat \<Rightarrow> overpaint \<Rightarrow> bool" where
  "journal_ok t0 now n m ov \<longleftrightarrow>
     ov_total ov = sum_list (map snd (ov_counts ov)) \<and> summarised_total ov \<le> ov_total ov \<and>
     logged_in_window ov \<le> OVERPAINT_LOG_LIMIT \<and>
     (case window_started ov of
        None \<Rightarrow> n = 0
      | Some s \<Rightarrow> t0 \<le> s \<and> s \<le> now \<and>
          n \<le> OVERPAINT_LOG_LIMIT * ((s - t0) div OVERPAINT_LOG_WINDOW) + logged_in_window ov) \<and>
     (case last_summary ov of
        None \<Rightarrow> m = 0
      | Some s \<Rightarrow> t0 \<le> s \<and> s \<le> now \<and> m \<le> (s - t0) div OVERPAINT_SUMMARY_INTERVAL + 1)"

lemma sum_bump: "sum_list (map snd (bump k m)) = Suc (sum_list (map snd m))"
  by (induction k m rule: bump.induct) auto

lemma div_advance:
  fixes a b t w :: nat
  assumes "t \<le> a" and "w \<le> b - a" and "0 < w"
  shows "(a - t) div w + 1 \<le> (b - t) div w"
proof -
  have "(a - t) div w + 1 = (a - t + w) div w" using assms(3) by simp
  also have "\<dots> \<le> (b - t) div w" using assms by (intro div_le_mono) simp
  finally show ?thesis .
qed

lemma journal_count_draw:
  assumes "journal_ok t0 now n m ov" and "t0 \<le> now" and "count_draw now dw layer ov = (ov', lines)"
  shows "journal_ok t0 now (n + details lines) m ov' \<and> summaries lines = 0"
proof -
  define ov1 where "ov1 = ov\<lparr>ov_total := ov_total ov + 1, ov_counts := bump (dw_op dw) (ov_counts ov)\<rparr>"
  define ov2 where "ov2 = (case window_started ov1 of
      Some started \<Rightarrow> if now - started < OVERPAINT_LOG_WINDOW then ov1
        else ov1\<lparr>window_started := Some now, logged_in_window := 0\<rparr>
    | None \<Rightarrow> ov1\<lparr>window_started := Some now, logged_in_window := 0\<rparr>)"
  have "journal_ok t0 now n m ov1"
    using assms(1) by (auto simp: journal_ok_def ov1_def sum_bump split: option.splits)
  then have j2: "journal_ok t0 now n m ov2 \<and> window_started ov2 \<noteq> None"
  proof (cases "\<exists>s. window_started ov1 = Some s \<and> OVERPAINT_LOG_WINDOW \<le> now - s")
    case True
    then obtain s where s: "window_started ov1 = Some s" "OVERPAINT_LOG_WINDOW \<le> now - s" by blast
    have j: "t0 \<le> s" "n \<le> OVERPAINT_LOG_LIMIT * ((s - t0) div OVERPAINT_LOG_WINDOW) + logged_in_window ov1"
      "logged_in_window ov1 \<le> OVERPAINT_LOG_LIMIT"
      using \<open>journal_ok t0 now n m ov1\<close> s by (auto simp: journal_ok_def)
    have "n \<le> OVERPAINT_LOG_LIMIT * ((s - t0) div OVERPAINT_LOG_WINDOW + 1)" using j(2,3) by simp
    also have "\<dots> \<le> OVERPAINT_LOG_LIMIT * ((now - t0) div OVERPAINT_LOG_WINDOW)"
      using div_advance [OF j(1) s(2)] by (intro mult_le_mono2) (simp add: OVERPAINT_LOG_WINDOW_def)
    finally show ?thesis
      using \<open>journal_ok t0 now n m ov1\<close> s assms(2) by (simp add: journal_ok_def ov2_def split: option.splits)
  qed (use assms(2) in \<open>auto simp: journal_ok_def ov2_def split: option.splits\<close>)
  have "count_draw now dw layer ov = (if logged_in_window ov2 < OVERPAINT_LOG_LIMIT
      then (ov2\<lparr>logged_in_window := logged_in_window ov2 + 1\<rparr>, [draw_describe dw layer now]) else (ov2, []))"
    unfolding count_draw_def Let_def ov1_def [symmetric] ov2_def [symmetric] by simp
  with assms(3) j2 show ?thesis
    by (auto simp: journal_ok_def split: if_splits option.splits)
qed

lemma journal_note_draws:
  "journal_ok t0 now n m ov \<Longrightarrow> t0 \<le> now \<Longrightarrow> note_draws now layers draws ov = (ov', lines) \<Longrightarrow>
   journal_ok t0 now (n + details lines) m ov' \<and> summaries lines = 0"
proof (induction draws arbitrary: n ov ov' lines)
  case (Cons dw draws)
  show ?case
  proof (cases "map_of layers (dw_layer dw)")
    case None
    with Cons show ?thesis by simp
  next
    case (Some layer)
    obtain ov1 l1 where c: "count_draw now dw layer ov = (ov1, l1)" by (cases "count_draw now dw layer ov")
    obtain ov2 l2 where r: "note_draws now layers draws ov1 = (ov2, l2)" by (cases "note_draws now layers draws ov1")
    have "lines = l1 @ l2" "ov' = ov2" using Cons.prems(3) Some c r by auto
    with journal_count_draw [OF Cons.prems(1,2) c] Cons.IH [OF _ Cons.prems(2) r, of "n + details l1"]
    show ?thesis by (simp add: add.assoc)
  qed
qed simp

lemma journal_summarise:
  assumes "journal_ok t0 now n m ov" and "t0 \<le> now" and "summarise now ov = (ov', lines)"
  shows "journal_ok t0 now n (m + summaries lines) ov' \<and> details lines = 0"
proof -
  have "m + 1 \<le> (now - t0) div OVERPAINT_SUMMARY_INTERVAL + 1"
    if "last_summary ov = Some s" "OVERPAINT_SUMMARY_INTERVAL \<le> now - s" for s
    using that assms(1) div_advance [of t0 s OVERPAINT_SUMMARY_INTERVAL now]
    by (auto simp: journal_ok_def OVERPAINT_SUMMARY_INTERVAL_def)
  with assms show ?thesis
    by (auto simp: journal_ok_def summarise_def Let_def split: if_splits option.splits)
qed

section \<open>A session's telemetry\<close>

text \<open>
  Operations in the order the mutex serialises them, at times that do not decrease, with the
  overpaint lines and the colour lines returned to the caller.
\<close>

inductive telemetry ::
  "(str \<Rightarrow> byte list option) \<Rightarrow> nat \<Rightarrow> nat \<Rightarrow> frame_stats \<Rightarrow> overpaint_line list \<Rightarrow> description list \<Rightarrow> bool"
  for dec t0 where
  start: "telemetry dec t0 t0 (frame_stats_new t0) [] []"
| browser: "telemetry dec t0 t fs lines colours \<Longrightarrow> t \<le> now \<Longrightarrow> observe_to_browser now fs text = (fs', logs) \<Longrightarrow>
    telemetry dec t0 now fs' (lines @ (case logs of None \<Rightarrow> [] | Some ls \<Rightarrow> ls)) colours"
| guacd: "telemetry dec t0 t fs lines colours \<Longrightarrow> t \<le> now \<Longrightarrow>
    telemetry dec t0 now (observe_to_guacd now fs text) lines colours"
| binary: "telemetry dec t0 t fs lines colours \<Longrightarrow> t \<le> now \<Longrightarrow>
    telemetry dec t0 now (observe_binary_blob n fs) lines colours"
| colour: "telemetry dec t0 t fs lines colours \<Longrightarrow> t \<le> now \<Longrightarrow> observe_h264_colour dec fs text = (fs', line) \<Longrightarrow>
    telemetry dec t0 now fs' lines (colours @ (case line of None \<Rightarrow> [] | Some l \<Rightarrow> [l]))"

lemma journal_later: "journal_ok t0 t n m ov \<Longrightarrow> t \<le> now \<Longrightarrow> journal_ok t0 now n m ov"
  by (auto simp: journal_ok_def split: option.splits)

lemma overpaint_kept [simp]:
  "fs_overpaint (count_picture now s p) = fs_overpaint s" "fs_overpaint (push_frame now s ts) = fs_overpaint s"
  "fs_overpaint (ack_frame now s ts) = fs_overpaint s"
  by (simp_all add: count_picture_def push_frame_def ack_frame_def Let_def split_beta split: option.split)

lemma overpaint_folds [simp]:
  "fs_overpaint (foldl (count_picture now) s ps) = fs_overpaint s"
  "fs_overpaint (foldl (push_frame now) s ts) = fs_overpaint s"
  "fs_overpaint (foldl (ack_frame now) s ts) = fs_overpaint s"
  using foldl_inv [of "\<lambda>x. fs_overpaint x = fs_overpaint s" "count_picture now" s ps]
    foldl_inv [of "\<lambda>x. fs_overpaint x = fs_overpaint s" "push_frame now" s ts]
    foldl_inv [of "\<lambda>x. fs_overpaint x = fs_overpaint s" "ack_frame now" s ts]
  by simp_all

lemma journal_note_overpaint:
  assumes "journal_ok t0 now n m (fs_overpaint s)" and "t0 \<le> now" and "note_overpaint now draws s = (s', logs)"
  defines "ls \<equiv> (case logs of None \<Rightarrow> [] | Some ls \<Rightarrow> ls)"
  shows "journal_ok t0 now (n + details ls) (m + summaries ls) (fs_overpaint s')"
proof -
  obtain ov1 l1 where d: "note_draws now (h264_layers s) draws (fs_overpaint s) = (ov1, l1)"
    by (cases "note_draws now (h264_layers s) draws (fs_overpaint s)")
  obtain ov2 l2 where u: "summarise now ov1 = (ov2, l2)" by (cases "summarise now ov1")
  have "s' = s\<lparr>fs_overpaint := ov2\<rparr>" "ls = l1 @ l2"
    using assms(3) d u by (auto simp: note_overpaint_def ls_def)
  with journal_note_draws [OF assms(1,2) d] journal_summarise [OF _ assms(2) u, of "n + details l1" m]
  show ?thesis by simp
qed

lemma journal_browser:
  assumes "journal_ok t0 now n m (fs_overpaint (fs_state fs))" and "t0 \<le> now"
    and "observe_to_browser now fs text = (fs', logs)"
  defines "ls \<equiv> (case logs of None \<Rightarrow> [] | Some ls \<Rightarrow> ls)"
  shows "journal_ok t0 now (n + details ls) (m + summaries ls) (fs_overpaint (fs_state fs'))"
proof -
  define bs where "bs = scan_browser (h264_seen fs) text"
  define s where "s = foldl (count_picture now)
    ((fs_state fs)\<lparr>bytes_to_browser := bytes_to_browser (fs_state fs) + length text\<rparr>) (bs_h264 bs)"
  obtain s' logs' where o: "note_overpaint now (bs_draws bs) s = (s', logs')"
    by (cases "note_overpaint now (bs_draws bs) s")
  have r: "logs' = logs" "fs_overpaint (fs_state fs') = fs_overpaint s'"
    using assms(3) o by (auto simp: observe_to_browser_def Let_def bs_def s_def split_beta)
  have "fs_overpaint s = fs_overpaint (fs_state fs)" by (simp add: s_def)
  with journal_note_overpaint [OF _ assms(2) o] assms(1) r show ?thesis by (simp add: ls_def)
qed

definition telemetry_ok :: "nat \<Rightarrow> nat \<Rightarrow> frame_stats \<Rightarrow> overpaint_line list \<Rightarrow> description list \<Rightarrow> bool" where
  "telemetry_ok t0 now fs lines colours \<longleftrightarrow> t0 \<le> now \<and> counters_ok (fs_state fs) \<and>
     journal_ok t0 now (details lines) (summaries lines) (fs_overpaint (fs_state fs)) \<and>
     length colours = of_bool (sps_reported fs)"

lemma telemetry_inv: "telemetry dec t0 now fs lines colours \<Longrightarrow> telemetry_ok t0 now fs lines colours"
proof (induction rule: telemetry.induct)
  case start
  then show ?case
    using counters_default
    by (simp add: telemetry_ok_def frame_stats_new_def journal_ok_def) (simp add: inner_default_def overpaint_default_def)
next
  case (browser t fs lines colours now s fs' logs)
  have "journal_ok t0 now (details lines) (summaries lines) (fs_overpaint (fs_state fs))"
    using browser journal_later by (auto simp: telemetry_ok_def)
  from journal_browser [OF this _ browser(3)] browser counters_browser [of fs now s] show ?case
    by (auto simp: telemetry_ok_def observe_to_browser_def Let_def split_beta)
next
  case (guacd t fs lines colours now s)
  then show ?case using counters_guacd [of fs now s] journal_later
    by (auto simp: telemetry_ok_def observe_to_guacd_def Let_def)
next
  case (binary t fs lines colours now n)
  then show ?case using journal_later by (auto simp: telemetry_ok_def observe_binary_blob_def Let_def)
next
  case (colour t fs lines colours now s fs' line)
  then show ?case using journal_later
    by (auto simp: telemetry_ok_def observe_h264_colour_def split: if_splits prod.splits option.splits)
qed

text \<open>
  C36: the telemetry of a session stays bounded and consistent, whatever crosses the wire in either
  direction. At most 512 frames are outstanding; no more are acknowledged or outstanding than
  were sent; the last and the mean lag never exceed the largest; every H.264 frame is counted
  on exactly one layer; overpaint is counted per opcode to its total; and the colour of the stream is
  reported at most once, exactly when the flag is set.
\<close>

theorem telemetry_consistent:
  assumes "telemetry dec t0 now fs lines colours"
  shows "let s = snapshot now fs in
    sn_outstanding s \<le> sn_max_outstanding s \<and> sn_max_outstanding s \<le> 512 \<and>
    sn_frames_acked s + sn_outstanding s \<le> sn_frames_sent s \<and>
    sn_last_lag_ms s \<le> sn_max_lag_ms s \<and> sn_avg_lag_ms s \<le> sn_max_lag_ms s \<and>
    sn_h264_keyframes s \<le> sn_h264_frames s \<and>
    sn_h264_frames s = sum_list (map (hl_frames \<circ> snd) (h264_layers (fs_state fs))) \<and>
    sn_overpaint_ops s = sum_list (map snd (sn_overpaint_by_op s)) \<and>
    length colours = of_bool (sps_reported fs)"
proof -
  have ok: "telemetry_ok t0 now fs lines colours" by (rule telemetry_inv [OF assms])
  then have c: "counters_ok (fs_state fs)" by (simp add: telemetry_ok_def)
  define e m where "e = ewma_lag_ms (fs_state fs)" and "m = max_lag_ms (fs_state fs)"
  have "e \<le> of_nat m" using c by (simp add: counters_ok_def e_def m_def)
  then have "\<lfloor>e + 1 / 2\<rfloor> \<le> \<lfloor>of_nat m + 1 / 2 :: rat\<rfloor>" by (intro floor_mono) simp
  also have "\<lfloor>of_nat m + 1 / 2 :: rat\<rfloor> = int m" by (rule floor_unique) simp_all
  finally have "round_u32 e \<le> m" by (simp add: round_u32_def)
  moreover have "length (fs_pending (fs_state fs)) mod 2 ^ 32 = length (fs_pending (fs_state fs))"
    using c by (simp add: counters_ok_def MAX_PENDING_def)
  ultimately show ?thesis using ok
    by (simp add: snapshot_def Let_def telemetry_ok_def counters_ok_def MAX_PENDING_def journal_ok_def
        frames_of_def e_def m_def)
qed

definition demo_sync :: str where "demo_sync = ''4.sync,1.7;''"

lemma demo_telemetry:
  "telemetry (\<lambda>_. None) 0 5000000 (observe_to_guacd 5000000
     (fst (observe_to_browser 0 (frame_stats_new 0) demo_sync)) demo_sync)
     ([] @ (case snd (observe_to_browser 0 (frame_stats_new 0) demo_sync) of None \<Rightarrow> [] | Some ls \<Rightarrow> ls)) []"
  by (rule telemetry.guacd [OF telemetry.browser [OF telemetry.start order_refl prod.collapse [symmetric]]])
    (rule le0)

theorem telemetry_consistent_witness:
  "let fs = observe_to_guacd 5000000 (fst (observe_to_browser 0 (frame_stats_new 0) demo_sync)) demo_sync in
   sn_frames_acked (snapshot 5000000 fs) = 1 \<and> sn_last_lag_ms (snapshot 5000000 fs) = 5 \<and>
   sn_avg_lag_ms (snapshot 5000000 fs) \<le> sn_max_lag_ms (snapshot 5000000 fs)"
proof -
  have "frames_acked (fs_state (observe_to_guacd 5000000 (fst (observe_to_browser 0 (frame_stats_new 0) demo_sync)) demo_sync)) = 1"
    "last_lag_ms (fs_state (observe_to_guacd 5000000 (fst (observe_to_browser 0 (frame_stats_new 0) demo_sync)) demo_sync)) = 5"
    by (simp_all add: observe_to_guacd_def observe_to_browser_def acks_of_def scan_browser_def
        scan_browser_instr_def demo_sync_def wire_simps map_filter_simps note_overpaint_def summarise_def
        push_frame_def ack_frame_def frame_stats_new_def inner_default_def overpaint_default_def as_millis_def
        MAX_PENDING_def Let_def parse_signed_def)
  with telemetry_consistent [OF demo_telemetry] show ?thesis by (simp add: Let_def snapshot_def)
qed

text \<open>
  the overpaint journal cannot flood. However long a session runs and whatever guacd draws,
  the detailed lines logged are at most 20 for every started minute since the session began and
  the summaries at most one for every started half minute.
\<close>

theorem overpaint_log_bounded:
  assumes "telemetry dec t0 now fs lines colours"
  shows "details lines \<le> OVERPAINT_LOG_LIMIT * ((now - t0) div OVERPAINT_LOG_WINDOW + 1) \<and>
    summaries lines \<le> (now - t0) div OVERPAINT_SUMMARY_INTERVAL + 1"
proof -
  define ov where "ov = fs_overpaint (fs_state fs)"
  have j: "journal_ok t0 now (details lines) (summaries lines) ov"
    using telemetry_inv [OF assms] by (simp add: telemetry_ok_def ov_def)
  have mono: "(s - t0) div w \<le> (now - t0) div w" if "s \<le> now" for s w
    using that by (intro div_le_mono) simp
  have "details lines \<le> OVERPAINT_LOG_LIMIT * ((now - t0) div OVERPAINT_LOG_WINDOW) + OVERPAINT_LOG_LIMIT"
  proof (cases "window_started ov")
    case (Some s)
    with j have "details lines \<le> OVERPAINT_LOG_LIMIT * ((s - t0) div OVERPAINT_LOG_WINDOW) + OVERPAINT_LOG_LIMIT"
      "s \<le> now"
      by (auto simp: journal_ok_def)
    then show ?thesis using mult_le_mono2 [OF mono [of s], of OVERPAINT_LOG_LIMIT OVERPAINT_LOG_WINDOW] by linarith
  qed (use j in \<open>simp add: journal_ok_def\<close>)
  moreover have "summaries lines \<le> (now - t0) div OVERPAINT_SUMMARY_INTERVAL + 1"
  proof (cases "last_summary ov")
    case (Some s)
    with j mono [of s OVERPAINT_SUMMARY_INTERVAL] show ?thesis by (auto simp: journal_ok_def)
  qed (use j in \<open>simp add: journal_ok_def\<close>)
  ultimately show ?thesis by simp
qed

theorem overpaint_log_bounded_witness:
  "details ([] @ (case snd (observe_to_browser 0 (frame_stats_new 0) demo_sync) of None \<Rightarrow> [] | Some ls \<Rightarrow> ls)) \<le> 20"
  using overpaint_log_bounded [OF demo_telemetry]
  by (simp add: OVERPAINT_LOG_LIMIT_def OVERPAINT_LOG_WINDOW_def)

section \<open>Fabricated frames\<close>

text \<open>Clipboard text of eleven two-byte characters and something that looks like an instruction.\<close>

definition demo_accents :: str where
  "demo_accents = [CHR 0xC3, CHR 0xA9, CHR 0xC3, CHR 0xA9, CHR 0xC3, CHR 0xA9, CHR 0xC3, CHR 0xA9, CHR 0xC3, CHR 0xA9,
     CHR 0xC3, CHR 0xA9, CHR 0xC3, CHR 0xA9, CHR 0xC3, CHR 0xA9, CHR 0xC3, CHR 0xA9, CHR 0xC3, CHR 0xA9, CHR 0xC3, CHR 0xA9]"

definition demo_clipboard :: str where
  "demo_clipboard = ''9.clipboard,22.'' @ demo_accents @ '';4.sync,1.9;''"

text \<open>
  text from the remote host can fabricate frames. A chunk guacd frames as the single instruction
  \<open>clipboard\<close>, whose length prefix counts characters, is cut by the byte-counting scanner inside
  the text, and what follows there is taken for an instruction: a frame is counted as sent
  though no \<open>sync\<close> crossed the wire.
\<close>

theorem fabricated_frame:
  "map snd (fst (parse_chunk demo_clipboard)) = [[''clipboard'', demo_accents @ '';4.sync,1.9'']] \<and>
   complete_chunk demo_clipboard \<and>
   instruction_starts demo_clipboard = [demo_clipboard, ''4.sync,1.9;''] \<and>
   sn_frames_sent (snapshot 0 (fst (observe_to_browser 0 (frame_stats_new 0) demo_clipboard))) = 1"
proof -
  have i: "instruction_starts demo_clipboard = [demo_clipboard, ''4.sync,1.9;'']"
    by (simp add: demo_clipboard_def demo_accents_def wire_simps)
  have "strip_prefix ''4.sync,'' demo_clipboard = None" "strip_prefix ''4.h264,'' demo_clipboard = None"
    by (simp_all add: demo_clipboard_def)
  moreover have "next_element ''1.9;'' = Some (''9'', [])" "parse_i64 ''9'' = Some 9"
    by (simp_all add: wire_simps parse_signed_def)
  ultimately have "scan_browser False demo_clipboard = \<lparr>bs_syncs = [9], bs_h264 = [], bs_draws = []\<rparr>"
    by (simp add: scan_browser_def scan_browser_instr_def i)
  then have "sn_frames_sent (snapshot 0 (fst (observe_to_browser 0 (frame_stats_new 0) demo_clipboard))) = 1"
    by (simp add: observe_to_browser_def note_overpaint_def summarise_def snapshot_def push_frame_def
        frame_stats_new_def inner_default_def overpaint_default_def MAX_PENDING_def)
  moreover have "parse_chunk demo_clipboard = ([(demo_clipboard,
      [''clipboard'', demo_accents @ '';4.sync,1.9''])], [])"
    by (simp add: demo_clipboard_def demo_accents_def wire_simps)
  ultimately show ?thesis using i by (simp add: complete_chunk_def)
qed

end
