(* ===== verification/Text_Ops.thy ===== *)
theory Text_Ops
  imports Prelude "HOL-Library.List_Lexorder" "HOL-Library.Char_ord"
begin

text \<open>
  Further pieces of the Rust standard library, for the account and authentication modules:
  splitting and joining of texts, comparison without regard to ASCII case,
  \<open>Iterator::find_map\<close>, \<open>from_utf8\<close>. SQLite compares \<open>TEXT\<close> values byte by byte, which is the
  lexicographic order on the bytes of a text.
\<close>

text \<open>\<open>str::split(c)\<close>, \<open>[T]::join\<close>.\<close>

fun split_on :: "char \<Rightarrow> str \<Rightarrow> str list" where
  "split_on c [] = [[]]"
| "split_on c (x # xs) =
     (if x = c then [] # split_on c xs
      else (case split_on c xs of [] \<Rightarrow> [[x]] | w # ws \<Rightarrow> (x # w) # ws))"

fun join_with :: "str \<Rightarrow> str list \<Rightarrow> str" where
  "join_with sep [] = []"
| "join_with sep [w] = w"
| "join_with sep (w # v # ws) = w @ sep @ join_with sep (v # ws)"

lemma split_on_nonempty [simp]: "split_on c s \<noteq> []"
  by (induction s) (auto split: list.split)

lemma split_on_append_sep: "c \<notin> set w \<Longrightarrow> split_on c (w @ c # s) = w # split_on c s"
  by (induction w) (auto split: list.split)

lemma split_on_none: "c \<notin> set w \<Longrightarrow> split_on c w = [w]"
  by (induction w) auto

lemma split_on_parts: "w \<in> set (split_on c s) \<Longrightarrow> c \<notin> set w"
  by (induction s arbitrary: w) (auto split: list.splits if_splits)

lemma split_join:
  "ws \<noteq> [] \<Longrightarrow> \<forall>w\<in>set ws. c \<notin> set w \<Longrightarrow> split_on c (join_with [c] ws) = ws"
  by (induction "[c]" ws rule: join_with.induct) (simp_all add: split_on_none split_on_append_sep)

lemma join_split: "join_with [c] (split_on c s) = s"
proof (induction s)
  case (Cons x xs)
  obtain w ws where s: "split_on c xs = w # ws" by (cases "split_on c xs") auto
  show ?case using Cons s by (cases ws) auto
qed simp

lemma split_join_iff:
  assumes "ws \<noteq> []"
  shows "split_on c (join_with [c] ws) = ws \<longleftrightarrow> (\<forall>w\<in>set ws. c \<notin> set w)"
  using assms split_join split_on_parts by metis

text \<open>\<open>str::eq_ignore_ascii_case\<close>; SQLite's \<open>lower\<close> changes the same letters.\<close>

definition eq_ignore_ascii_case :: "str \<Rightarrow> str \<Rightarrow> bool" where
  "eq_ignore_ascii_case a b \<longleftrightarrow> to_ascii_lowercase a = to_ascii_lowercase b"

text \<open>\<open>Iterator::find_map\<close>.\<close>

fun find_map :: "('a \<Rightarrow> 'b option) \<Rightarrow> 'a list \<Rightarrow> 'b option" where
  "find_map f [] = None"
| "find_map f (x # xs) = (case f x of Some y \<Rightarrow> Some y | None \<Rightarrow> find_map f xs)"

lemma find_map_Some: "find_map f xs = Some y \<Longrightarrow> \<exists>x\<in>set xs. f x = Some y"
  by (induction xs) (auto split: option.splits)

lemma find_map_None: "find_map f xs = None \<longleftrightarrow> (\<forall>x\<in>set xs. f x = None)"
  by (induction xs) (auto split: option.splits)

section \<open>UTF-8 validity\<close>

text \<open>\<open>String::from_utf8\<close>: the well-formed byte sequences of Unicode's table 3-7.\<close>

definition in_range :: "nat \<Rightarrow> nat \<Rightarrow> char \<Rightarrow> bool" where
  "in_range lo hi c \<longleftrightarrow> lo \<le> byte_of c \<and> byte_of c \<le> hi"

text \<open>The ranges of the bytes that follow a lead byte.\<close>

definition followers :: "char \<Rightarrow> (nat \<times> nat) list option" where
  "followers c =
     (let b = byte_of c; cont = (0x80, 0xBF) in
      if b < 0x80 then Some []
      else if b < 0xC2 then None
      else if b < 0xE0 then Some [cont]
      else if b = 0xE0 then Some [(0xA0, 0xBF), cont]
      else if b = 0xED then Some [(0x80, 0x9F), cont]
      else if b < 0xF0 then Some [cont, cont]
      else if b = 0xF0 then Some [(0x90, 0xBF), cont, cont]
      else if b < 0xF4 then Some [cont, cont, cont]
      else if b = 0xF4 then Some [(0x80, 0x8F), cont, cont]
      else None)"

function valid_utf8 :: "str \<Rightarrow> bool" where
  "valid_utf8 s =
     (case s of
        [] \<Rightarrow> True
      | c # cs \<Rightarrow>
          (case followers c of
             None \<Rightarrow> False
           | Some rs \<Rightarrow>
               length rs \<le> length cs \<and> list_all2 (\<lambda>(lo, hi). in_range lo hi) rs (take (length rs) cs) \<and>
               valid_utf8 (drop (length rs) cs)))"
  by pat_completeness auto
termination by (relation "measure length") auto

declare valid_utf8.simps [simp del]

lemma valid_utf8_ascii: "list_all is_ascii s \<Longrightarrow> valid_utf8 s"
proof (induction s)
  case (Cons c s)
  then show ?case by (subst valid_utf8.simps) (simp add: followers_def is_ascii_def)
qed (simp add: valid_utf8.simps)

end
