(* ===== verification/Websocket.thy ===== *)
theory Websocket
  imports H264_Rewrite Aux_Drop Frame_Stats Text_Ops
begin

text \<open>
  The two pumps of \<^verbatim>\<open>src/src/websocket.rs\<close>: \<open>guacd_to_ws\<close>, which cuts what guacd sends at
  instruction boundaries and passes it through the telemetry, the auxiliary view dropper, the
  SPS rewriter and the blob splitter, and \<open>ws_to_guacd\<close>, which answers tunnel pings. Each
  iteration of their loops is a function of the local variables, the time and what was read.
  Reading, sending and writing the recording are I/O: what is read is an argument, what is
  sent a result. The base64 engine is \<open>dec\<close> and \<open>enc\<close>, the order of a \<open>HashMap\<close> \<open>pick\<close>.
\<close>

section \<open>\<open>guacd_to_ws\<close>\<close>

definition MAX_GUACD_CARRY :: nat where "MAX_GUACD_CARRY = 16 * 1024 * 1024"

definition AUX_DROP_OPCODE :: str where "AUX_DROP_OPCODE = ''h264-aux''"

datatype ws_message = Msg_Text str | Msg_Binary "byte list"

record proxy =
  px_carry :: str
  px_splitter :: "blob_splitter option"
  px_rewriter :: sps_rewriter
  px_dropper :: aux_dropper
  px_announced :: bool
  px_recording :: "str option"
  px_disconnected :: bool
  px_stats :: frame_stats

definition proxy_new :: "nat \<Rightarrow> str \<Rightarrow> bool \<Rightarrow> bool option \<Rightarrow> bool \<Rightarrow> proxy" where
  "proxy_new now env binary_blobs drop_aux record_it =
     \<lparr>px_carry = [], px_splitter = (if binary_blobs then Some blob_splitter_new else None),
      px_rewriter = rewriter_new, px_dropper = for_session env drop_aux, px_announced = False,
      px_recording = (if record_it then Some [] else None), px_disconnected = False,
      px_stats = frame_stats_new now\<rparr>"

text \<open>The journal lines of one iteration.\<close>

datatype proxy_line =
    Overpainted overpaint_line
  | Colour_said description
  | Drop_said drop_line
  | Edit_said edit

datatype proxy_error = Invalid_utf8

definition aux_drop_notice :: "bool \<Rightarrow> str" where
  "aux_drop_notice active =
     show_nat (length AUX_DROP_OPCODE) @ CHR ''.'' # AUX_DROP_OPCODE @ '',1.'' @ show_nat (of_bool active) @ '';''"

definition announces_disconnect :: "str \<Rightarrow> bool" where
  "announces_disconnect text \<longleftrightarrow>
     strip_prefix ''10.disconnect;'' text \<noteq> None \<or> contains '';10.disconnect;'' text"

definition send_frame :: "frame_stats \<times> ws_message list \<Rightarrow> out_frame \<Rightarrow> frame_stats \<times> ws_message list" where
  "send_frame x f =
     (case x of (fs, sent) \<Rightarrow>
        (case f of
           Text s \<Rightarrow> (fs, sent @ [Msg_Text s])
         | Binary b \<Rightarrow> (observe_binary_blob (length b - HEADER_LEN) fs, sent @ [Msg_Binary b])))"

text \<open>From the UTF-8 check on, for the bytes flushed from the carry.\<close>

definition forward_chunk ::
  "(str \<Rightarrow> byte list option) \<Rightarrow> (byte list \<Rightarrow> str) \<Rightarrow> ((nat \<times> ref_sps) list \<Rightarrow> ref_sps option) \<Rightarrow> nat \<Rightarrow> str \<Rightarrow>
   proxy \<Rightarrow> proxy_error + proxy \<times> ws_message list \<times> proxy_line list" where
  "forward_chunk dec enc pick now text p =
     (if \<not> valid_utf8 text then Inl Invalid_utf8
      else
        (let disconnected = (px_disconnected p \<or> announces_disconnect text);
             (fs, overpaints) = observe_to_browser now (px_stats p) text;
             (fs, colour) = observe_h264_colour dec fs text;
             (dropper, kept, aux_lines) = process dec pick (px_dropper p) text;
             rewriter = set_allow_frame_num_gaps (wants_frame_num_gaps dropper) (px_rewriter p);
             notice = (if dropping dropper \<noteq> px_announced p
                       then [Msg_Text (aux_drop_notice (dropping dropper))] else []);
             (rewriter, rewritten) = rewrite dec enc rewriter kept;
             (rewriter, edits) = take_edits rewriter;
             sent_text = forwarded kept rewritten;
             (splitter, fs, body) =
               (case px_splitter p of
                  None \<Rightarrow> (None, fs, [Msg_Text sent_text])
                | Some sp \<Rightarrow>
                    (let (sp, frames) = split dec sp sent_text;
                         (fs, body) = foldl send_frame (fs, []) frames
                     in (Some sp, fs, body)))
         in Inr (p\<lparr>px_splitter := splitter, px_rewriter := rewriter, px_dropper := dropper,
                   px_announced := dropping dropper, px_disconnected := disconnected, px_stats := fs\<rparr>,
                 notice @ body,
                 (case overpaints of None \<Rightarrow> [] | Some ls \<Rightarrow> map Overpainted ls) @
                 (case colour of None \<Rightarrow> [] | Some d \<Rightarrow> [Colour_said d]) @
                 map Drop_said aux_lines @ map Edit_said edits)))"

text \<open>What one read makes of the carry: what is flushed, if anything, and what is held over.\<close>

definition flush :: "str \<Rightarrow> str option \<times> str" where
  "flush carry =
     (case last_instruction_boundary carry of
        Some n \<Rightarrow> (Some (take n carry), drop n carry)
      | None \<Rightarrow> if MAX_GUACD_CARRY < length carry then (Some carry, []) else (None, carry))"

text \<open>
  One read. A write to the recording may fail part of the way, and the failure is ignored:
  \<open>wrote\<close> is how many bytes of the read reach the file.
\<close>

definition guacd_to_ws ::
  "(str \<Rightarrow> byte list option) \<Rightarrow> (byte list \<Rightarrow> str) \<Rightarrow> ((nat \<times> ref_sps) list \<Rightarrow> ref_sps option) \<Rightarrow> nat \<Rightarrow> nat \<Rightarrow> str \<Rightarrow>
   proxy \<Rightarrow> proxy_error + proxy \<times> ws_message list \<times> proxy_line list" where
  "guacd_to_ws dec enc pick now wrote data p =
     (let p = p\<lparr>px_recording := map_option (\<lambda>r. r @ take wrote data) (px_recording p)\<rparr> in
      case flush (px_carry p @ data) of
        (None, carry) \<Rightarrow> Inr (p\<lparr>px_carry := carry\<rparr>, [], [])
      | (Some text, carry) \<Rightarrow> forward_chunk dec enc pick now text (p\<lparr>px_carry := carry\<rparr>))"

section \<open>\<open>ws_to_guacd\<close>\<close>

datatype client_message = Client_Text str | Client_Binary "byte list" | Client_Close | Client_Other

text \<open>Whether the loop goes on, what is echoed to the browser and what is written to guacd.\<close>

record client_step =
  cs_continue :: bool
  cs_echo :: "str option"
  cs_to_guacd :: "str option"
  cs_stats :: frame_stats

text \<open>An instruction of the tunnel's internal channel, which has the empty opcode.\<close>

definition internal_instruction :: "str \<Rightarrow> instruction option" where
  "internal_instruction text =
     (if strip_prefix ''0.,'' text = None then None
      else
        (case parse (trim_end_matches CHR '';'' text) of
           Inl _ \<Rightarrow> None
         | Inr i \<Rightarrow> if i_opcode i = [] then Some i else None))"

definition ws_to_guacd :: "nat \<Rightarrow> client_message \<Rightarrow> frame_stats \<Rightarrow> client_step" where
  "ws_to_guacd now msg fs =
     (let nothing = \<lparr>cs_continue = True, cs_echo = None, cs_to_guacd = None, cs_stats = fs\<rparr> in
      case msg of
        Client_Text text \<Rightarrow>
          (case internal_instruction text of
             Some i \<Rightarrow>
               (if nth_opt (i_args i) 0 = Some ''ping''
                then nothing\<lparr>cs_echo := Some (encode \<lparr>i_opcode = [], i_args = i_args i\<rparr>)\<rparr> else nothing)
           | None \<Rightarrow> nothing\<lparr>cs_to_guacd := Some text, cs_stats := observe_to_guacd now fs text\<rparr>)
      | Client_Binary _ \<Rightarrow> nothing
      | Client_Close \<Rightarrow> nothing\<lparr>cs_continue := False\<rparr>
      | Client_Other \<Rightarrow> nothing)"

section \<open>The carry\<close>

lemma stream_text_append: "stream_text iss s \<Longrightarrow> stream_text jss t \<Longrightarrow> stream_text (iss @ jss) (s @ t)"
  by (induction iss s rule: stream_text.induct) (auto intro: stream_text.intros)

lemma is_boundary_add:
  assumes "is_boundary buf n" and "is_boundary (drop n buf) m"
  shows "is_boundary buf (n + m)"
proof -
  obtain iss jss where "iss \<noteq> []" "stream_text iss (take n buf)" "stream_text jss (take m (drop n buf))"
    using assms by (auto simp: is_boundary_def)
  then have "stream_text (iss @ jss) (take (n + m) buf)" using stream_text_append by (simp add: take_add)
  with \<open>iss \<noteq> []\<close> assms show ?thesis by (auto simp: is_boundary_def)
qed

lemma is_boundary_pos: "is_boundary buf n \<Longrightarrow> 0 < n"
  by (cases n) (auto simp: is_boundary_def elim: stream_text.cases dest: instr_text_nonempty)

lemma boundary_None: "last_instruction_boundary buf = None \<longleftrightarrow> (\<forall>n. \<not> is_boundary buf n)"
proof
  assume none: "last_instruction_boundary buf = None"
  show "\<forall>n. \<not> is_boundary buf n"
  proof (intro allI notI)
    fix n assume n: "is_boundary buf n"
    have f: "finite {n. is_boundary buf n}"
      by (rule finite_subset [of _ "{..length buf}"]) (auto simp: is_boundary_def)
    with n have "Max {n. is_boundary buf n} \<in> {n. is_boundary buf n}" by (intro Max_in) auto
    moreover have "\<forall>m. is_boundary buf m \<longrightarrow> m \<le> Max {n. is_boundary buf n}" using f by auto
    ultimately show False
      using none last_instruction_boundary_spec [of buf "Max {n. is_boundary buf n}"] by simp
  qed
next
  assume "\<forall>n. \<not> is_boundary buf n"
  then show "last_instruction_boundary buf = None"
    using last_instruction_boundary_spec [of buf] by (cases "last_instruction_boundary buf") auto
qed

lemma flush_drained:
  assumes "last_instruction_boundary buf = Some n"
  shows "last_instruction_boundary (drop n buf) = None"
  unfolding boundary_None
proof (intro allI notI)
  fix m assume m: "is_boundary (drop n buf) m"
  have n: "is_boundary buf n" "\<And>k. is_boundary buf k \<Longrightarrow> k \<le> n"
    using assms last_instruction_boundary_spec by auto
  from n(2) [OF is_boundary_add [OF n(1) m]] have "m = 0" by simp
  with m show False using is_boundary_pos by blast
qed

lemma flush_append: "flush c = (t, r) \<Longrightarrow> (case t of None \<Rightarrow> [] | Some s \<Rightarrow> s) @ r = c"
  by (auto simp: flush_def split: option.splits if_splits)

definition carry_ok :: "str \<Rightarrow> bool" where
  "carry_ok c \<longleftrightarrow> last_instruction_boundary c = None \<and> length c \<le> MAX_GUACD_CARRY"

lemma boundary_beyond:
  assumes "last_instruction_boundary c = None" and "last_instruction_boundary (c @ data) = Some n"
  shows "length c < n"
proof (rule ccontr)
  assume "\<not> length c < n"
  moreover have "is_boundary (c @ data) n" using assms(2) last_instruction_boundary_spec by blast
  ultimately have "is_boundary c n" by (auto simp: is_boundary_def)
  with assms(1) show False by (simp add: boundary_None)
qed

lemma boundary_Nil: "last_instruction_boundary [] = None"
  by (simp add: wire_simps)

lemma flush_carry:
  assumes "carry_ok c" and "length data \<le> 65536" and "flush (c @ data) = (t, r)"
  shows "carry_ok r \<and> (\<forall>s. t = Some s \<longrightarrow>
    complete_chunk s \<and> s \<noteq> [] \<or> MAX_GUACD_CARRY < length s \<and> last_instruction_boundary s = None)"
proof (cases "last_instruction_boundary (c @ data)")
  case None
  with assms show ?thesis
    by (auto simp: flush_def carry_ok_def boundary_Nil split: if_splits)
next
  case (Some n)
  then have t: "t = Some (take n (c @ data))" "r = drop n (c @ data)" using assms(3) by (auto simp: flush_def)
  have b: "is_boundary (c @ data) n" using Some last_instruction_boundary_spec by blast
  then obtain iss where "stream_text iss (take n (c @ data))" by (auto simp: is_boundary_def)
  then have "complete_chunk (take n (c @ data))" by (rule complete_chunk_stream)
  moreover have "take n (c @ data) \<noteq> []" using is_boundary_pos [OF b] b by (auto simp: is_boundary_def)
  moreover have "length r \<le> 65536"
    using boundary_beyond [OF _ Some] assms(1,2) t(2) by (auto simp: carry_ok_def)
  ultimately show ?thesis
    using flush_drained [OF Some] t by (simp add: carry_ok_def MAX_GUACD_CARRY_def)
qed

section \<open>What goes to the browser\<close>

fun frame_message :: "out_frame \<Rightarrow> ws_message" where
  "frame_message (Text s) = Msg_Text s"
| "frame_message (Binary b) = Msg_Binary b"

lemma send_frames: "snd (foldl send_frame (fs, sent) frames) = sent @ map frame_message frames"
proof (induction frames arbitrary: fs sent)
  case (Cons f frames)
  then show ?case by (cases f) (simp_all add: send_frame_def)
qed simp

text \<open>The notice a browser is sent when the announced state of the drop changes.\<close>

definition announcements :: "proxy \<Rightarrow> proxy \<Rightarrow> ws_message list" where
  "announcements p p' =
     (if px_announced p' \<noteq> px_announced p then [Msg_Text (aux_drop_notice (px_announced p'))] else [])"

text \<open>A list of messages carries a text: as one text frame, or as the splitter's frames.\<close>

definition body_carries :: "(str \<Rightarrow> byte list option) \<Rightarrow> bool \<Rightarrow> ws_message list \<Rightarrow> str \<Rightarrow> bool" where
  "body_carries dec binary body s \<longleftrightarrow>
     (if binary then \<exists>frames. body = map frame_message frames \<and> carries dec frames s
      else body = [Msg_Text s])"

definition body_for :: "(str \<Rightarrow> byte list option) \<Rightarrow> blob_splitter option \<Rightarrow> str \<Rightarrow> ws_message list" where
  "body_for dec splitter s =
     (case splitter of
        None \<Rightarrow> [Msg_Text s]
      | Some sp \<Rightarrow> map frame_message (snd (split dec sp s)))"

lemma forward_chunk_Inr:
  assumes "forward_chunk dec enc pick now text p = Inr (p', msgs, lines)"
  shows "\<exists>kept aux_lines rw edits.
    process dec pick (px_dropper p) text = (px_dropper p', kept, aux_lines) \<and>
    rw = set_allow_frame_num_gaps (wants_frame_num_gaps (px_dropper p')) (px_rewriter p) \<and>
    take_edits (fst (rewrite dec enc rw kept)) = (px_rewriter p', edits) \<and>
    msgs = announcements p p' @ body_for dec (px_splitter p) (forwarded kept (snd (rewrite dec enc rw kept))) \<and>
    px_announced p' = dropping (px_dropper p') \<and> px_carry p' = px_carry p \<and> px_recording p' = px_recording p \<and>
    px_disconnected p' = (px_disconnected p \<or> announces_disconnect text) \<and> valid_utf8 text"
proof -
  obtain d kept aux_lines where pr: "process dec pick (px_dropper p) text = (d, kept, aux_lines)"
    by (cases "process dec pick (px_dropper p) text")
  define rw where "rw = set_allow_frame_num_gaps (wants_frame_num_gaps d) (px_rewriter p)"
  obtain rw1 r where re: "rewrite dec enc rw kept = (rw1, r)" by (cases "rewrite dec enc rw kept")
  obtain rw2 edits where te: "take_edits rw1 = (rw2, edits)" by (cases "take_edits rw1")
  obtain fs1 o1 where b: "observe_to_browser now (px_stats p) text = (fs1, o1)"
    by (cases "observe_to_browser now (px_stats p) text")
  obtain fs2 c where h: "observe_h264_colour dec fs1 text = (fs2, c)" by (cases "observe_h264_colour dec fs1 text")
  have v: "valid_utf8 text" using assms by (simp add: forward_chunk_def split: if_splits)
  note res = assms [unfolded forward_chunk_def Let_def, simplified v b h pr rw_def [symmetric] re te]
  show ?thesis
  proof (cases "px_splitter p")
    case None
    with res h re [unfolded rw_def] te have p': "p' = p\<lparr>px_splitter := None, px_rewriter := rw2, px_dropper := d, px_announced := dropping d,
        px_disconnected := px_disconnected p \<or> announces_disconnect text, px_stats := fs2\<rparr>"
      and m: "msgs = (if dropping d \<noteq> px_announced p then [Msg_Text (aux_drop_notice (dropping d))] else []) @
        [Msg_Text (forwarded kept r)]"
      by (auto split: if_splits)
    show ?thesis
      using None v pr re te unfolding p' m rw_def
      by (intro exI [of _ kept] exI [of _ aux_lines] exI [of _ rw] exI [of _ edits])
        (simp add: announcements_def body_for_def rw_def)
  next
    case (Some sp)
    obtain sp' frames where s: "split dec sp (forwarded kept r) = (sp', frames)"
      by (cases "split dec sp (forwarded kept r)")
    have "snd (foldl send_frame (fs2, []) frames) = map frame_message frames" by (simp add: send_frames)
    with res h re [unfolded rw_def] te Some s have p': "p' = p\<lparr>px_splitter := Some sp', px_rewriter := rw2, px_dropper := d,
        px_announced := dropping d, px_disconnected := px_disconnected p \<or> announces_disconnect text,
        px_stats := fst (foldl send_frame (fs2, []) frames)\<rparr>"
      and m: "msgs = (if dropping d \<noteq> px_announced p then [Msg_Text (aux_drop_notice (dropping d))] else []) @
        map frame_message frames"
      by (auto simp: split_beta split: if_splits)
    show ?thesis
      using Some v pr re te s unfolding p' m rw_def
      by (intro exI [of _ kept] exI [of _ aux_lines] exI [of _ rw] exI [of _ edits])
        (simp add: announcements_def body_for_def rw_def)
  qed
qed

definition framed_frame :: "out_frame \<Rightarrow> bool" where
  "framed_frame f \<longleftrightarrow> (case f of Text s \<Rightarrow> complete_chunk s | Binary _ \<Rightarrow> True)"

definition framed_message :: "ws_message \<Rightarrow> bool" where
  "framed_message m \<longleftrightarrow> (case m of Msg_Text s \<Rightarrow> complete_chunk s | Msg_Binary _ \<Rightarrow> True)"

lemma framed_frame_message [simp]: "framed_message (frame_message f) = framed_frame f"
  by (cases f) (simp_all add: framed_message_def framed_frame_def)

lemma framed_text_frame: "complete_chunk s \<Longrightarrow> list_all framed_frame (text_frame s)"
  by (simp add: text_frame_def framed_frame_def)

lemma complete_chunk_snoc: "complete_chunk s \<Longrightarrow> instr_text vs w \<Longrightarrow> complete_chunk (s @ w)"
  using complete_chunk_append [of s w] complete_chunk_instr [of vs w "[]"]
  by (simp add: complete_chunk_def parse_chunk_None)

lemma run_walk_framed:
  assumes "list_all (\<lambda>(w, vs). instr_text vs w) xs" and "complete_chunk pend" and "list_all framed_frame out"
  shows "list_all framed_frame (snd (run_walk (split_instr dec) add_binary add_text sp out pend xs []))"
  using assms
proof (induction xs arbitrary: sp out pend)
  case Nil
  then show ?case by (simp add: add_text_def framed_text_frame)
next
  case (Cons x xs)
  obtain w vs where x: "x = (w, vs)" by (cases x)
  obtain sp' q where step: "split_instr dec sp vs = (sp', q)" by (cases "split_instr dec sp vs")
  show ?case
  proof (cases q)
    case None
    have "complete_chunk (pend @ w)" using Cons.prems x complete_chunk_snoc by auto
    with Cons.IH [of "pend @ w" out sp'] Cons.prems x step None show ?thesis by simp
  next
    case (Some b)
    have "list_all framed_frame (add_binary out pend b)" "complete_chunk []"
      using Cons.prems
      by (simp_all add: add_binary_def framed_text_frame, simp_all add: framed_frame_def complete_chunk_def parse_chunk_None)
    with Cons.IH [of "[]" "add_binary out pend b" sp'] Cons.prems x step Some show ?thesis by simp
  qed
qed

lemma split_framed:
  assumes "complete_chunk text"
  shows "list_all framed_frame (snd (split dec sp text))"
proof -
  have "list_all (\<lambda>(w, vs). instr_text vs w) (fst (parse_chunk text))"
    by (auto simp: list_all_iff dest: parse_chunk_instrs)
  from run_walk_framed [OF this, of "[]" "[]"] assms show ?thesis
    by (simp add: split_def blob.loop_run complete_chunk_def parse_chunk_None)
qed

lemma process_output:
  assumes "process dec pick d text = (d', kept, lines)"
  shows "kept = text \<or> (\<exists>d0. kept = snd (drop_filter d0 text))"
proof -
  have obs: "fst (snd (process_observed d text)) = text \<or> (\<exists>d0. fst (snd (process_observed d text)) = snd (drop_filter d0 text))" for d
    by (auto simp: process_observed_def split_beta split: safety_level.split)
  show ?thesis using assms obs by (auto simp: process_def split: prod.splits option.splits) (metis fst_conv snd_conv)+
qed

lemma process_framed:
  assumes "process dec pick d text = (d', kept, lines)" and "complete_chunk text"
    and "list_all ascii_picture (instrs_of text)"
  shows "complete_chunk kept"
  using process_output [OF assms(1)] drop_filter_framed [OF assms(2,3)] assms(2) by auto

lemma aux_drop_notice_text: "aux_drop_notice b = (if b then ''8.h264-aux,1.1;'' else ''8.h264-aux,1.0;'')"
  by (simp add: aux_drop_notice_def AUX_DROP_OPCODE_def show_nat.simps digit_char_def)

lemma announcements_framed: "list_all framed_message (announcements p p')"
  by (simp add: announcements_def framed_message_def aux_drop_notice_text complete_chunk_def wire_simps)

lemma guacd_to_ws_forwards:
  assumes "guacd_to_ws dec enc pick now wrote data p = Inr (p', msgs, lines)"
    and "flush (px_carry p @ data) = (Some text, rest)"
  shows "forward_chunk dec enc pick now text
    (p\<lparr>px_recording := map_option (\<lambda>r. r @ take wrote data) (px_recording p), px_carry := rest\<rparr>) = Inr (p', msgs, lines)"
  using assms by (simp add: guacd_to_ws_def)

text \<open>
  C6: every text frame ends at an instruction boundary. When a read completes an instruction, each
  text frame that is sent, the notice and every piece the blob splitter leaves, is a sequence of
  complete instructions, so a ping echoed between any two frames never lands inside one; and what
  is held over again holds no complete instruction. This takes base64 to be ASCII, the
  \<open>h264\<close> instructions to be ASCII and the rewritten chunk to fit in memory; a carry that
  overflowed without any boundary is sent as it is.
\<close>

theorem pump_framed:
  assumes "carry_ok (px_carry p)" and "length data \<le> 65536"
    and "guacd_to_ws dec enc pick now wrote data p = Inr (p', msgs, lines)"
    and "flush (px_carry p @ data) = (Some text, rest)" and "length text \<le> MAX_GUACD_CARRY"
    and "list_all ascii_picture (instrs_of text)" and "\<And>b. list_all is_ascii (enc b)"
    and "process dec pick (px_dropper p) text = (d', kept, aux_lines)"
    and "length (forwarded kept (snd (rewrite dec enc
      (set_allow_frame_num_gaps (wants_frame_num_gaps d') (px_rewriter p)) kept))) < 2 ^ 64"
  shows "list_all (\<lambda>m. case m of Msg_Text s \<Rightarrow> complete_chunk s | Msg_Binary _ \<Rightarrow> True) msgs \<and>
    carry_ok (px_carry p')"
proof -
  let ?q = "p\<lparr>px_recording := map_option (\<lambda>r. r @ take wrote data) (px_recording p), px_carry := rest\<rparr>"
  let ?rw = "set_allow_frame_num_gaps (wants_frame_num_gaps d') (px_rewriter p)"
  have f: "carry_ok rest" "complete_chunk text"
    using flush_carry [OF assms(1,2,4)] assms(5) by auto
  have kept: "complete_chunk kept" using process_framed [OF assms(8) f(2) assms(6)] .
  have sent: "complete_chunk (forwarded kept (snd (rewrite dec enc ?rw kept)))"
    using rewrite_framed_spec [OF kept assms(7,9)] .
  let ?body = "body_for dec (px_splitter p) (forwarded kept (snd (rewrite dec enc ?rw kept)))"
  have msgs: "msgs = announcements ?q p' @ ?body" and c: "px_carry p' = rest"
    using forward_chunk_Inr [OF guacd_to_ws_forwards [OF assms(3,4)]] assms(8) by auto
  have "list_all framed_message ?body"
  proof (cases "px_splitter p")
    case None
    with sent show ?thesis by (simp add: body_for_def framed_message_def)
  next
    case (Some sp)
    with split_framed [OF sent, of dec sp] show ?thesis by (simp add: body_for_def list.pred_map comp_def)
  qed
  with announcements_framed [of ?q p'] have "list_all framed_message msgs" unfolding msgs by simp
  with f(1) c show ?thesis unfolding framed_message_def by simp
qed

text \<open>
  C7: what reaches the browser of one flushed chunk. First the notice, exactly when the announced
  state of the drop changes; then the chunk as the dropper kept it, unchanged unless it is
  dropping, with nothing altered but SPSs inside blobs; as one text frame, or, for a client that
  asked for binary blobs, as frames that carry precisely that text. The browser has then been
  told whether the auxiliary view is being dropped.
\<close>

theorem pump_carries:
  assumes "guacd_to_ws dec enc pick now wrote data p = Inr (p', msgs, lines)"
    and "flush (px_carry p @ data) = (Some text, rest)"
  shows "\<exists>kept sent body.
    fst (snd (process dec pick (px_dropper p) text)) = kept \<and> (\<not> dropping (px_dropper p') \<longrightarrow> kept = text) \<and>
    resplices dec enc kept sent \<and> msgs = announcements p p' @ body \<and>
    body_carries dec (px_splitter p \<noteq> None) body sent \<and>
    px_announced p' = dropping (px_dropper p') \<and> valid_utf8 text"
proof -
  let ?q = "p\<lparr>px_recording := map_option (\<lambda>r. r @ take wrote data) (px_recording p), px_carry := rest\<rparr>"
  obtain kept aux_lines rw where
      pr: "process dec pick (px_dropper p) text = (px_dropper p', kept, aux_lines)"
    and m: "msgs = announcements ?q p' @ body_for dec (px_splitter p) (forwarded kept (snd (rewrite dec enc rw kept)))"
    and an: "px_announced p' = dropping (px_dropper p')" "valid_utf8 text"
    using forward_chunk_Inr [OF guacd_to_ws_forwards [OF assms]] by auto
  let ?sent = "forwarded kept (snd (rewrite dec enc rw kept))"
  let ?body = "body_for dec (px_splitter p) ?sent"
  have "kept = text" if "\<not> dropping (px_dropper p')"
    using process_move [OF pr] that by (simp add: drop_move_def dropping_def)
  moreover have "resplices dec enc kept ?sent" by (rule rewrite_resplices_spec)
  moreover have "body_carries dec (px_splitter p \<noteq> None) ?body ?sent"
    using split_carries_spec [of dec _ ?sent]
    by (cases "px_splitter p") (auto simp: body_carries_def body_for_def)
  moreover have "msgs = announcements p p' @ ?body" using m by (simp add: announcements_def)
  ultimately show ?thesis using pr an by (intro exI [of _ kept] exI [of _ ?sent] exI [of _ ?body]) simp
qed

section \<open>A session\<close>

text \<open>
  Both pumps of one session, their iterations in any order: what guacd sent, read by read, with
  how many bytes of each read reached the recording, the
  chunks flushed from the carry, and the number of notices sent about the auxiliary view.
\<close>

inductive proxy_session ::
  "(str \<Rightarrow> byte list option) \<Rightarrow> (byte list \<Rightarrow> str) \<Rightarrow> ((nat \<times> ref_sps) list \<Rightarrow> ref_sps option) \<Rightarrow>
   proxy \<Rightarrow> (str \<times> nat) list \<Rightarrow> str list \<Rightarrow> nat \<Rightarrow> bool"
  for dec enc pick where
  start: "proxy_session dec enc pick (proxy_new now env binary_blobs drop_aux record_it) [] [] 0"
| read: "proxy_session dec enc pick p input chunks n \<Longrightarrow> length data \<le> 65536 \<Longrightarrow>
    guacd_to_ws dec enc pick now wrote data p = Inr (p', msgs, lines) \<Longrightarrow>
    proxy_session dec enc pick p' (input @ [(data, wrote)])
      (chunks @ (case fst (flush (px_carry p @ data)) of None \<Rightarrow> [] | Some s \<Rightarrow> [s]))
      (n + length (announcements p p'))"
| client: "proxy_session dec enc pick p input chunks n \<Longrightarrow>
    proxy_session dec enc pick (p\<lparr>px_stats := cs_stats (ws_to_guacd now msg (px_stats p))\<rparr>) input chunks n"

lemma guacd_to_ws_carry:
  assumes "guacd_to_ws dec enc pick now wrote data p = Inr (p', msgs, lines)"
  shows "px_carry p' = snd (flush (px_carry p @ data))" "px_recording p' = map_option (\<lambda>r. r @ take wrote data) (px_recording p)"
    and "(\<exists>text kept ls. process dec pick (px_dropper p) text = (px_dropper p', kept, ls) \<and>
        px_announced p' = dropping (px_dropper p')) \<or>
      px_dropper p' = px_dropper p \<and> px_announced p' = px_announced p"
proof -
  obtain t r where f: "flush (px_carry p @ data) = (t, r)" by (cases "flush (px_carry p @ data)")
  have "px_carry p' = r \<and> px_recording p' = map_option (\<lambda>r. r @ take wrote data) (px_recording p) \<and>
    ((\<exists>text kept ls. process dec pick (px_dropper p) text = (px_dropper p', kept, ls) \<and>
        px_announced p' = dropping (px_dropper p')) \<or>
      px_dropper p' = px_dropper p \<and> px_announced p' = px_announced p)"
  proof (cases t)
    case None
    with assms f show ?thesis by (auto simp: guacd_to_ws_def)
  next
    case (Some s)
    with forward_chunk_Inr [OF guacd_to_ws_forwards [OF assms]] f show ?thesis by auto
  qed
  with f show "px_carry p' = snd (flush (px_carry p @ data))" "px_recording p' = map_option (\<lambda>r. r @ take wrote data) (px_recording p)"
    "(\<exists>text kept ls. process dec pick (px_dropper p) text = (px_dropper p', kept, ls) \<and>
        px_announced p' = dropping (px_dropper p')) \<or>
      px_dropper p' = px_dropper p \<and> px_announced p' = px_announced p"
    by simp_all
qed

definition conserved :: "proxy \<Rightarrow> (str \<times> nat) list \<Rightarrow> str list \<Rightarrow> bool" where
  "conserved p input chunks \<longleftrightarrow> concat chunks @ px_carry p = concat (map fst input) \<and>
     (\<forall>r. px_recording p = Some r \<longrightarrow> r = concat (map (\<lambda>(data, wrote). take wrote data) input)) \<and> carry_ok (px_carry p) \<and>
     (\<forall>c \<in> set chunks. c \<noteq> [] \<and> complete_chunk c \<or> MAX_GUACD_CARRY < length c)"

lemma conserved_read:
  assumes "conserved p input chunks" and "length data \<le> 65536"
    and "guacd_to_ws dec enc pick now wrote data p = Inr (p', msgs, lines)"
  shows "conserved p' (input @ [(data, wrote)]) (chunks @ (case fst (flush (px_carry p @ data)) of None \<Rightarrow> [] | Some s \<Rightarrow> [s]))"
proof -
  obtain t r where f: "flush (px_carry p @ data) = (t, r)" by (cases "flush (px_carry p @ data)")
  have "carry_ok (px_carry p)" using assms(1) by (simp add: conserved_def)
  note c = flush_carry [OF this assms(2) f] flush_append [OF f]
  show ?thesis
    using assms(1) c unfolding conserved_def guacd_to_ws_carry(1,2) [OF assms(3)] f
    by (cases t) (auto simp: append.assoc [symmetric])
qed

lemma session_conserved: "proxy_session dec enc pick p input chunks n \<Longrightarrow> conserved p input chunks"
proof (induction rule: proxy_session.induct)
  case start
  then show ?case by (auto simp: conserved_def proxy_new_def carry_ok_def boundary_Nil)
next
  case (read p input chunks n data now wrote p' msgs lines)
  from conserved_read [OF read(4) read(2,3)] show ?case .
qed (simp add: conserved_def)

text \<open>
  C5: nothing is lost and nothing waits. At every point of a session, whatever the sizes of the
  input, the chunks passed on and the carry together are exactly what guacd sent. The recording holds,
  read by read and in order, what its write put into the file: a failed write leaves out the rest
  of its own read and nothing else, and if none failed the recording is what guacd sent. Each chunk is a run of complete instructions, or was flushed because it outgrew the
  cap; and the carry, never longer than 16 MiB, holds no complete instruction: one is passed on
  by the very read that completes it.
\<close>

theorem proxy_conserves:
  assumes "proxy_session dec enc pick p input chunks n"
  shows "concat chunks @ px_carry p = concat (map fst input) \<and>
    (\<forall>r. px_recording p = Some r \<longrightarrow> r = concat (map (\<lambda>(data, wrote). take wrote data) input) \<and>
       ((\<forall>(data, wrote)\<in>set input. length data \<le> wrote) \<longrightarrow> r = concat (map fst input))) \<and>
    last_instruction_boundary (px_carry p) = None \<and> length (px_carry p) \<le> MAX_GUACD_CARRY \<and>
    (\<forall>c \<in> set chunks. c \<noteq> [] \<and> complete_chunk c \<or> MAX_GUACD_CARRY < length c)"
proof -
  have "concat (map (\<lambda>(data, wrote). take wrote data) input) = concat (map fst input)"
    if "\<forall>(data, wrote)\<in>set input. length data \<le> wrote"
    using that by (induction input) auto
  then show ?thesis using session_conserved [OF assms] unfolding conserved_def carry_ok_def by blast
qed

definition notices_ok :: "proxy \<Rightarrow> nat \<Rightarrow> bool" where
  "notices_ok p n \<longleftrightarrow> px_announced p = dropping (px_dropper p) \<and> n \<le> 2 \<and>
     (ad_state (px_dropper p) = Deciding \<longrightarrow> n = 0) \<and> (ad_state (px_dropper p) = Dropping \<longrightarrow> n = 1)"

lemma session_notices: "proxy_session dec enc pick p input chunks n \<Longrightarrow> notices_ok p n"
proof (induction rule: proxy_session.induct)
  case start
  then show ?case
    by (auto simp: notices_ok_def proxy_new_def for_session_def dropper_new_def dropping_def Let_def
        split: option.split bool.split)
next
  case (read p input chunks n data now wrote p' msgs lines)
  from guacd_to_ws_carry(3) [OF read(3)] show ?case
  proof (elim disjE exE conjE)
    fix s kept ls
    assume pr: "process dec pick (px_dropper p) s = (px_dropper p', kept, ls)"
      and an: "px_announced p' = dropping (px_dropper p')"
    from process_move [OF pr] read(4) an show ?thesis
      by (cases "ad_state (px_dropper p)"; cases "ad_state (px_dropper p')")
        (auto simp: drop_move_def notices_ok_def announcements_def dropping_def)
  next
    assume "px_dropper p' = px_dropper p" "px_announced p' = px_announced p"
    with read(4) show ?thesis by (simp add: notices_ok_def announcements_def)
  qed
qed (simp add: notices_ok_def)

text \<open>
  the browser always knows whether the auxiliary view is being dropped, and is told at most twice in
  a session: once when the drop begins and once when it ends for good.
\<close>

theorem notices_at_most_twice:
  assumes "proxy_session dec enc pick p input chunks n"
  shows "px_announced p = dropping (px_dropper p) \<and> n \<le> 2 \<and> (dropping (px_dropper p) \<longrightarrow> n = 1)"
  using session_notices [OF assms] by (auto simp: notices_ok_def dropping_def)

section \<open>Witnesses\<close>

lemma forward_chunk_total:
  "valid_utf8 text \<Longrightarrow> \<exists>p' msgs lines. forward_chunk dec enc pick now text p = Inr (p', msgs, lines)"
  by (auto simp: forward_chunk_def Let_def split_beta)

definition demo_proxy :: proxy where
  "demo_proxy = proxy_new 0 [] False (Some False) True"

definition demo_read :: str where "demo_read = ''4.sync,1.7;4.si''"

lemma demo_flush: "flush (px_carry demo_proxy @ demo_read) = (Some ''4.sync,1.7;'', ''4.si'')"
  by (simp add: flush_def demo_read_def demo_proxy_def proxy_new_def wire_simps)

lemma demo_pump:
  "\<exists>p' msgs lines. guacd_to_ws (\<lambda>_. None) (\<lambda>_. []) (\<lambda>_. None) 0 9 demo_read demo_proxy = Inr (p', msgs, lines)"
proof -
  have "valid_utf8 ''4.sync,1.7;''" by (rule valid_utf8_ascii) (simp add: is_ascii_def byte_of_def)
  from forward_chunk_total [OF this] demo_flush show ?thesis
    unfolding guacd_to_ws_def Let_def by (auto simp: demo_proxy_def proxy_new_def)
qed

lemma demo_process:
  "\<exists>d' ls. process (\<lambda>_. None) (\<lambda>_. None) (px_dropper demo_proxy) ''4.sync,1.7;'' = (d', ''4.sync,1.7;'', ls) \<and>
     ad_state d' = Off"
  by (simp add: process_def process_observed_def demo_proxy_def proxy_new_def for_session_def dropper_new_def
      Let_def)

lemma demo_carry: "carry_ok (px_carry demo_proxy)"
  by (simp add: demo_proxy_def proxy_new_def carry_ok_def boundary_Nil)

lemma demo_rewrite_nothing:
  "snd (rewrite (\<lambda>_. None) (\<lambda>_. []) (set_allow_frame_num_gaps g rewriter_new) ''4.sync,1.7;'') = None"
  by (simp add: rewrite_def rewriter_new_def set_allow_frame_num_gaps_def rewrite_loop.simps read_instruction_read
      wire_simps rewrite_step_def first_index_def)

theorem pump_framed_witness:
  "\<exists>p' msgs lines. guacd_to_ws (\<lambda>_. None) (\<lambda>_. []) (\<lambda>_. None) 0 9 demo_read demo_proxy = Inr (p', msgs, lines) \<and>
     list_all (\<lambda>m. case m of Msg_Text s \<Rightarrow> complete_chunk s | Msg_Binary _ \<Rightarrow> True) msgs"
proof -
  obtain p' msgs lines where g:
    "guacd_to_ws (\<lambda>_. None) (\<lambda>_. []) (\<lambda>_. None) 0 9 demo_read demo_proxy = Inr (p', msgs, lines)"
    using demo_pump by blast
  obtain d' ls where pr: "process (\<lambda>_. None) (\<lambda>_. None) (px_dropper demo_proxy) ''4.sync,1.7;'' = (d', ''4.sync,1.7;'', ls)"
    using demo_process by blast
  have "px_rewriter demo_proxy = rewriter_new" by (simp add: demo_proxy_def proxy_new_def)
  then have "length (forwarded ''4.sync,1.7;'' (snd (rewrite (\<lambda>_. None) (\<lambda>_. [])
      (set_allow_frame_num_gaps (wants_frame_num_gaps d') (px_rewriter demo_proxy)) ''4.sync,1.7;''))) < 2 ^ 64"
    by (simp add: demo_rewrite_nothing forwarded_def)
  with pump_framed [OF demo_carry _ g demo_flush _ _ _ pr] g show ?thesis
    by (auto simp: demo_read_def MAX_GUACD_CARRY_def instrs_of_def wire_simps ascii_picture_def)
qed

theorem pump_carries_witness:
  "\<exists>p' msgs lines. guacd_to_ws (\<lambda>_. None) (\<lambda>_. []) (\<lambda>_. None) 0 9 demo_read demo_proxy = Inr (p', msgs, lines) \<and>
     (\<exists>sent body. resplices (\<lambda>_. None) (\<lambda>_. []) ''4.sync,1.7;'' sent \<and> msgs = announcements demo_proxy p' @ body \<and>
        body_carries (\<lambda>_. None) False body sent)"
proof -
  obtain p' msgs lines where g:
    "guacd_to_ws (\<lambda>_. None) (\<lambda>_. []) (\<lambda>_. None) 0 9 demo_read demo_proxy = Inr (p', msgs, lines)"
    using demo_pump by blast
  have "px_splitter demo_proxy = None" by (simp add: demo_proxy_def proxy_new_def)
  with pump_carries [OF g demo_flush] demo_process g show ?thesis by fastforce
qed

lemma demo_session:
  "\<exists>p' n. proxy_session (\<lambda>_. None) (\<lambda>_. []) (\<lambda>_. None) p' [(demo_read, 9)] [''4.sync,1.7;''] n"
proof -
  obtain p' msgs lines where g:
    "guacd_to_ws (\<lambda>_. None) (\<lambda>_. []) (\<lambda>_. None) 0 9 demo_read demo_proxy = Inr (p', msgs, lines)"
    using demo_pump by blast
  have "length demo_read \<le> 65536" by (simp add: demo_read_def)
  from proxy_session.read [OF proxy_session.start this g [unfolded demo_proxy_def]] show ?thesis
    using demo_flush by (auto simp: demo_proxy_def)
qed

theorem proxy_conserves_witness:
  "\<exists>p' n. proxy_session (\<lambda>_. None) (\<lambda>_. []) (\<lambda>_. None) p' [(demo_read, 9)] [''4.sync,1.7;''] n \<and> px_carry p' = ''4.si''"
proof -
  obtain p' n where s: "proxy_session (\<lambda>_. None) (\<lambda>_. []) (\<lambda>_. None) p' [(demo_read, 9)] [''4.sync,1.7;''] n"
    using demo_session by blast
  with proxy_conserves [OF s] show ?thesis by (auto simp: demo_read_def)
qed

theorem notices_at_most_twice_witness:
  "\<exists>p' n. proxy_session (\<lambda>_. None) (\<lambda>_. []) (\<lambda>_. None) p' [(demo_read, 9)] [''4.sync,1.7;''] n \<and> n \<le> 2"
  using demo_session notices_at_most_twice by blast

section \<open>The browser's side\<close>

lemma trim_end_matches_twice: "trim_end_matches c (trim_end_matches c s) = trim_end_matches c s"
  by (simp add: trim_end_matches_def)

lemma parse_trim: "parse (trim_end_matches CHR '';'' s) = parse s"
  by (simp add: parse_def trim_end_matches_twice)

text \<open>
  tunnel pings. A ping, as the browser encodes it, is sent back to it byte for byte and never reaches
  guacd; no other message is answered; and whatever does not begin with an empty opcode goes to
  guacd unchanged.
\<close>

theorem ping_echoed:
  assumes "list_all (\<lambda>e. length e < 2 ^ 64) args"
    and "last (''ping'' # args) = [] \<or> last (last (''ping'' # args)) \<noteq> CHR '';''"
  shows "ws_to_guacd now (Client_Text (encode \<lparr>i_opcode = [], i_args = ''ping'' # args\<rparr>)) fs =
      \<lparr>cs_continue = True, cs_echo = Some (encode \<lparr>i_opcode = [], i_args = ''ping'' # args\<rparr>),
       cs_to_guacd = None, cs_stats = fs\<rparr> \<and>
    (strip_prefix ''0.,'' text = None \<longrightarrow>
       cs_to_guacd (ws_to_guacd now (Client_Text text) fs) = Some text \<and>
       cs_echo (ws_to_guacd now (Client_Text text) fs) = None)"
proof -
  define i where "i = \<lparr>i_opcode = [], i_args = ''ping'' # args\<rparr>"
  have "parse (encode i) = Inr i"
    using parse_encode_spec [of i] assms by (auto simp: i_def instruction_elements_def Let_def)
  moreover have "strip_prefix ''0.,'' (encode i) \<noteq> None"
    by (simp add: encode_def encode_element_def i_def show_nat.simps digit_char_def)
  ultimately have "internal_instruction (encode i) = Some i"
    by (simp add: internal_instruction_def parse_trim i_def)
  then show ?thesis
    by (simp add: ws_to_guacd_def internal_instruction_def nth_opt_def i_def Let_def)
qed

theorem ping_echoed_witness:
  "cs_echo (ws_to_guacd 0 (Client_Text ''0.,4.ping,1.5;'') (frame_stats_new 0)) = Some ''0.,4.ping,1.5;''"
proof -
  have "encode \<lparr>i_opcode = [], i_args = [''ping'', ''5'']\<rparr> = ''0.,4.ping,1.5;''"
    by (simp add: encode_def encode_element_def show_nat.simps digit_char_def)
  with ping_echoed [of "[''5'']" 0 "frame_stats_new 0"] show ?thesis by simp
qed

section \<open>Disconnection and malformed input\<close>

lemma contains_prefix: "contains p (p @ b)"
  by (cases "p @ b") (simp_all, metis append_eq_conv_conj append_Cons append_Nil list.exhaust)

lemma contains_mid: "contains p (a @ p @ b)"
proof (induction a)
  case Nil
  show ?case using contains_prefix by simp
qed simp

lemma instr_text_last: "instr_text vs w \<Longrightarrow> \<exists>u. w = u @ '';''"
proof (induction vs w rule: instr_text.induct)
  case (more v w vs t)
  then obtain u where "t = u @ '';''" by blast
  then show ?case by (intro exI [of _ "w @ CHR '','' # u"]) simp
qed simp

text \<open>
  a disconnect is never missed: a chunk of complete instructions that holds \<open>10.disconnect;\<close>
  anywhere sets the flag.
\<close>

theorem disconnect_noticed:
  assumes "complete_chunk text" and "(''10.disconnect;'', [''disconnect'']) \<in> set (fst (parse_chunk text))"
  shows "announces_disconnect text"
proof -
  obtain xs ys where xs: "fst (parse_chunk text) = xs @ (''10.disconnect;'', [''disconnect'']) # ys"
    using split_list [OF assms(2)] by blast
  then have t: "text = concat (map fst xs) @ ''10.disconnect;'' @ concat (map fst ys)"
    using parse_chunk_concat [of "text"] assms(1) by (simp add: complete_chunk_def)
  show ?thesis
  proof (cases xs rule: rev_cases)
    case Nil
    then show ?thesis unfolding t announces_disconnect_def by simp
  next
    case (snoc zs z)
    obtain w vs where z: "z = (w, vs)" by (cases z)
    then have "instr_text vs w" using parse_chunk_instrs [of w vs "text"] xs snoc by simp
    then obtain u where "w = u @ '';''" using instr_text_last by blast
    with snoc z have "text = (concat (map fst zs) @ u) @ '';10.disconnect;'' @ concat (map fst ys)"
      unfolding t by simp
    then show ?thesis unfolding announces_disconnect_def using contains_mid by metis
  qed
qed

theorem disconnect_noticed_witness: "announces_disconnect ''4.sync,1.7;10.disconnect;''"
  by (rule disconnect_noticed) (simp_all add: complete_chunk_def wire_simps)

text \<open>
  but the flag can be set by text. A single instruction whose value holds \<open>;10.disconnect;\<close> is taken
  for the remote server having ended the session.
\<close>

theorem disconnect_fabricated:
  "complete_chunk ''4.name,17.x;10.disconnect;y;'' \<and>
   instrs_of ''4.name,17.x;10.disconnect;y;'' = [[''name'', ''x;10.disconnect;y'']] \<and>
   announces_disconnect ''4.name,17.x;10.disconnect;y;''"
  by (simp add: complete_chunk_def instrs_of_def wire_simps announces_disconnect_def)

text \<open>
  the boundary scanner does not only advance over valid UTF-8. It trusts a lead byte and skips the bytes it
  announces without looking at them, so an instruction holding a broken sequence is flushed, and
  the pump ends with an error.
\<close>

theorem invalid_utf8_flushed:
  "last_instruction_boundary (''1.'' @ [CHR 0xC3, CHR 0x28] @ '';'') = Some 5 \<and>
   guacd_to_ws dec enc pick now wrote (''1.'' @ [CHR 0xC3, CHR 0x28] @ '';'') demo_proxy = Inl Invalid_utf8"
proof -
  have b: "last_instruction_boundary (''1.'' @ [CHR 0xC3, CHR 0x28] @ '';'') = Some 5" by (simp add: wire_simps)
  have "\<not> valid_utf8 (''1.'' @ [CHR 0xC3, CHR 0x28] @ '';'')"
    by (simp add: valid_utf8.simps followers_def in_range_def byte_of_def)
  with b show ?thesis
    by (simp add: guacd_to_ws_def flush_def forward_chunk_def demo_proxy_def proxy_new_def)
qed

end
