(* ===== verification/Recording.thy ===== *)
theory Recording
  imports Complex_Main Prelude
begin

text \<open>
  \<^verbatim>\<open>src/src/recording.rs\<close>: rotation of the recordings in one directory. A path is the name
  of a file in that directory, the directory the list of its files in the order \<open>read_dir\<close>
  yields them, a \<open>SystemTime\<close> a number of nanoseconds from the epoch. What the operating
  system and serde decide is a parameter: the results of \<open>statvfs\<close>, whether a file can be
  examined, removed or written, and the JSON text of a sidecar. The \<open>f64\<close> percentages are
  exact rationals. Log lines are left out.

  The directory is changed by the modelled operations only: a recording that another session
  adds while a rotation runs is not modelled.
\<close>

section \<open>The directory\<close>

text \<open>
  A file: what \<open>metadata\<close> returns (modification time, when the platform has one, and
  length), the text \<open>read_to_string\<close> returns, and whether \<open>remove_file\<close> succeeds.
\<close>

record dir_file =
  df_meta :: "(int option \<times> nat) option"
  df_text :: "str option"
  df_removable :: bool

record rec_dir =
  rd_readable :: bool
  rd_files :: "(str \<times> dir_file) list"

text \<open>\<open>Path::extension\<close> and \<open>Path::with_extension\<close> on the last component of a path.\<close>

definition rsplit_dot :: "str \<Rightarrow> (str \<times> str) option" where
  "rsplit_dot name =
     (case split_at_char CHR ''.'' (rev name) of
        None \<Rightarrow> None
      | Some (after, before) \<Rightarrow> if before = [] then None else Some (rev before, rev after))"

definition extension :: "str \<Rightarrow> str option" where
  "extension name = (if name = ''..'' then None else map_option snd (rsplit_dot name))"

definition with_extension :: "str \<Rightarrow> str \<Rightarrow> str" where
  "with_extension ext name =
     (if name = ''..'' then name
      else (case rsplit_dot name of None \<Rightarrow> name | Some (stem, _) \<Rightarrow> stem) @ ''.'' @ ext)"

definition remove_file :: "str \<Rightarrow> rec_dir \<Rightarrow> rec_dir" where
  "remove_file name d =
     (case map_of (rd_files d) name of
        None \<Rightarrow> d
      | Some f \<Rightarrow>
          if df_removable f then d\<lparr>rd_files := filter (\<lambda>(q, _). q \<noteq> name) (rd_files d)\<rparr> else d)"

section \<open>Listing and sidecars\<close>

record recording_meta =
  rm_address_book_entry :: "str option"
  rm_created_at :: str
  rm_user :: "str option"
  rm_folder :: "str option"
  rm_entry_display_name :: "str option"
  rm_session_type :: "str option"

definition disk_usage_percent :: "(nat \<times> nat) option \<Rightarrow> rat option" where
  "disk_usage_percent stat =
     (case stat of
        None \<Rightarrow> None
      | Some (f_blocks, f_bfree) \<Rightarrow>
          if f_blocks = 0 then Some 0
          else Some ((of_nat f_blocks - of_nat f_bfree) / of_nat f_blocks * 100))"

definition recording_of :: "str \<times> dir_file \<Rightarrow> (str \<times> int \<times> nat) option" where
  "recording_of = (\<lambda>(name, f).
     if extension name \<noteq> Some ''guac'' then None
     else (case df_meta f of
             None \<Rightarrow> None
           | Some (modified, len) \<Rightarrow> Some (name, (case modified of None \<Rightarrow> 0 | Some t \<Rightarrow> t), len)))"

definition list_recordings_by_age :: "rec_dir \<Rightarrow> (str \<times> int \<times> nat) list" where
  "list_recordings_by_age d =
     (if \<not> rd_readable d then []
      else sort_key (\<lambda>(_, time, _). time) (List.map_filter recording_of (rd_files d)))"

definition read_meta :: "(str \<Rightarrow> recording_meta option) \<Rightarrow> rec_dir \<Rightarrow> str \<Rightarrow> recording_meta option" where
  "read_meta from_json d guac_path =
     Option.bind (Option.bind (map_of (rd_files d) (with_extension ''meta'' guac_path)) df_text) from_json"

text \<open>
  \<open>write_meta\<close>: the file system decides whether the write succeeds and what the new file
  is like (\<open>write name text\<close> is the file then in the directory).
\<close>

definition write_meta ::
  "(recording_meta \<Rightarrow> str option) \<Rightarrow> (str \<Rightarrow> str \<Rightarrow> dir_file option) \<Rightarrow> str \<Rightarrow> recording_meta \<Rightarrow> rec_dir \<Rightarrow> rec_dir option" where
  "write_meta to_json write guac_path meta d =
     (let meta_path = with_extension ''meta'' guac_path in
      case to_json meta of
        None \<Rightarrow> None
      | Some json \<Rightarrow>
          (case write meta_path json of
             None \<Rightarrow> None
           | Some f \<Rightarrow>
               Some (d\<lparr>rd_files :=
                 (if map_of (rd_files d) meta_path = None then rd_files d @ [(meta_path, f)]
                  else map (\<lambda>(q, g). if q = meta_path then (q, f) else (q, g)) (rd_files d))\<rparr>)))"

definition delete_recording :: "str \<Rightarrow> rec_dir \<Rightarrow> rec_dir" where
  "delete_recording path d = remove_file (with_extension ''meta'' path) (remove_file path d)"

section \<open>Rotation\<close>

definition oldest_rotatable :: "rec_dir \<Rightarrow> str set \<Rightarrow> str option" where
  "oldest_rotatable d active =
     List.find (\<lambda>path. path \<notin> active) (map fst (list_recordings_by_age d))"

fun delete_while :: "nat \<Rightarrow> nat \<Rightarrow> str list \<Rightarrow> rec_dir \<Rightarrow> rec_dir \<times> nat" where
  "delete_while over deleted [] d = (d, deleted)"
| "delete_while over deleted (path # paths) d =
     (if over \<le> deleted then (d, deleted)
      else delete_while over (deleted + 1) paths (delete_recording path d))"

definition enforce_count_limit :: "str set \<Rightarrow> nat \<Rightarrow> rec_dir \<Rightarrow> rec_dir \<times> nat" where
  "enforce_count_limit active limit d =
     (let recordings = list_recordings_by_age d;
          over = length recordings - limit
      in if over = 0 then (d, 0)
         else delete_while over 0 (filter (\<lambda>p. p \<notin> active) (map fst recordings)) d)"

text \<open>
  \<open>usage k d\<close> is what the \<open>k\<close>-th reading of the disk usage returns when the directory
  is \<open>d\<close>. The loop may run on as long as the readings fall.
\<close>

partial_function (option) disk_loop ::
  "(nat \<Rightarrow> rec_dir \<Rightarrow> rat option) \<Rightarrow> str set \<Rightarrow> rat \<Rightarrow> nat \<Rightarrow> nat \<Rightarrow> rec_dir \<Rightarrow> (rec_dir \<times> nat) option" where
  "disk_loop usage active threshold k deleted d =
     (case usage k d of
        None \<Rightarrow> Some (d, deleted)
      | Some before \<Rightarrow>
          if before \<le> threshold then Some (d, deleted)
          else
            (case oldest_rotatable d active of
               None \<Rightarrow> Some (d, deleted)
             | Some path \<Rightarrow>
                 (let d' = delete_recording path d in
                  case usage (k + 1) d' of
                    None \<Rightarrow> disk_loop usage active threshold (k + 2) (deleted + 1) d'
                  | Some after \<Rightarrow>
                      if before \<le> after then Some (d', deleted + 1)
                      else disk_loop usage active threshold (k + 2) (deleted + 1) d')))"

definition enforce_disk_limit ::
  "str set \<Rightarrow> rat \<Rightarrow> (nat \<Rightarrow> rec_dir \<Rightarrow> rat option) \<Rightarrow> rec_dir \<Rightarrow> (rec_dir \<times> nat) option" where
  "enforce_disk_limit active threshold usage d = disk_loop usage active threshold 0 0 d"

record recording_config =
  rc_max_disk_percent :: nat
  rc_max_recordings :: nat

definition rotate ::
  "(nat \<Rightarrow> rec_dir \<Rightarrow> (nat \<times> nat) option) \<Rightarrow> recording_config \<Rightarrow> str set \<Rightarrow> rec_dir \<Rightarrow> (rec_dir \<times> nat) option" where
  "rotate statvfs config active d =
     (let (d, deleted) =
        (if 0 < rc_max_recordings config
         then enforce_count_limit active (rc_max_recordings config) d else (d, 0))
      in if 0 < rc_max_disk_percent config
         then map_option (\<lambda>(d', n). (d', deleted + n))
                (enforce_disk_limit active (of_nat (rc_max_disk_percent config))
                   (\<lambda>k d. disk_usage_percent (statvfs k d)) d)
         else Some (d, deleted))"

definition belongs_to :: "(str \<Rightarrow> recording_meta option) \<Rightarrow> str \<Rightarrow> rec_dir \<Rightarrow> str \<Rightarrow> bool" where
  "belongs_to from_json entry_key d path \<longleftrightarrow>
     (case read_meta from_json d path of
        None \<Rightarrow> False
      | Some meta \<Rightarrow> rm_address_book_entry meta = Some entry_key)"

definition rotate_per_entry ::
  "(str \<Rightarrow> recording_meta option) \<Rightarrow> str \<Rightarrow> nat \<Rightarrow> rec_dir \<Rightarrow> rec_dir \<times> nat" where
  "rotate_per_entry from_json entry_key limit d =
     (if limit = 0 then (d, 0)
      else
        (let matching = filter (belongs_to from_json entry_key d) (map fst (list_recordings_by_age d));
             over = length matching - limit
         in foldl (\<lambda>(d, deleted) path. (delete_recording path d, deleted + 1)) (d, 0) (take over matching)))"

text \<open>\<^verbatim>\<open>SessionManager::active_recording_paths\<close> of \<^verbatim>\<open>src/src/session.rs\<close>.\<close>

definition active_recording_paths :: "str set \<Rightarrow> str set" where
  "active_recording_paths sessions = (\<lambda>id. id @ ''.guac'') ` sessions"

section \<open>Names\<close>

lemma rsplit_dot_Some:
  "rsplit_dot name = Some (stem, ext) \<longleftrightarrow> name = stem @ CHR ''.'' # ext \<and> stem \<noteq> [] \<and> CHR ''.'' \<notin> set ext"
  (is "?l \<longleftrightarrow> ?r")
proof
  assume ?l
  then obtain a b where ab: "split_at_char CHR ''.'' (rev name) = Some (a, b)" "b \<noteq> []"
      "stem = rev b" "ext = rev a"
    by (auto simp: rsplit_dot_def split: option.splits if_splits)
  then have "rev name = a @ CHR ''.'' # b" "CHR ''.'' \<notin> set a" by (simp_all add: split_at_char_Some)
  then have "rev (rev name) = rev b @ CHR ''.'' # rev a" by simp
  with ab \<open>CHR ''.'' \<notin> set a\<close> show ?r by simp
next
  assume ?r
  then show ?l by (simp add: rsplit_dot_def)
qed

lemma rsplit_dot_append [simp]:
  "stem \<noteq> [] \<Longrightarrow> CHR ''.'' \<notin> set ext \<Longrightarrow> rsplit_dot (stem @ CHR ''.'' # ext) = Some (stem, ext)"
  by (simp add: rsplit_dot_Some)

lemma extension_Some:
  assumes "extension name = Some ext"
  obtains stem where "name = stem @ CHR ''.'' # ext" "with_extension e name = stem @ CHR ''.'' # e"
  using assms by (auto simp: extension_def with_extension_def rsplit_dot_Some split: if_splits)

lemma extension_meta:
  assumes "extension name = Some ext"
  shows "extension (with_extension ''meta'' name) = Some ''meta''"
proof -
  from assms have n: "name \<noteq> ''..''" by (auto simp: extension_def split: if_splits)
  from assms obtain stem where s: "rsplit_dot name = Some (stem, ext)"
    by (auto simp: extension_def split: if_splits)
  then have w: "with_extension ''meta'' name = stem @ CHR ''.'' # ''meta''" "stem \<noteq> []"
    using n by (auto simp: with_extension_def rsplit_dot_Some)
  then have "rsplit_dot (with_extension ''meta'' name) = Some (stem, ''meta'')"
    by (simp add: rsplit_dot_Some)
  moreover have "stem @ CHR ''.'' # ''meta'' \<noteq> ''..''" by (cases stem) auto
  ultimately show ?thesis using w by (simp add: extension_def)
qed

lemma with_extension_inj:
  assumes "extension p = Some ext" "extension q = Some ext"
    "with_extension e p = with_extension e q"
  shows "p = q"
  using extension_Some [OF assms(1), of e] extension_Some [OF assms(2), of e] assms(3) by (metis append_same_eq)

section \<open>Removing files\<close>

definition removable :: "rec_dir \<Rightarrow> str \<Rightarrow> bool" where
  "removable d name \<longleftrightarrow> (\<exists>f. map_of (rd_files d) name = Some f \<and> df_removable f)"

lemma map_of_filter_names: "map_of (filter (\<lambda>(q, _). q \<noteq> p) xs) q = (if q = p then None else map_of xs q)"
  by (induction xs) auto

lemma remove_file_readable [simp]: "rd_readable (remove_file p d) = rd_readable d"
  by (simp add: remove_file_def split: option.split)

lemma remove_file_lookup:
  "map_of (rd_files (remove_file p d)) q = (if q = p \<and> removable d p then None else map_of (rd_files d) q)"
  by (auto simp: remove_file_def removable_def map_of_filter_names split: option.split)

lemma remove_file_files:
  "rd_files (remove_file p d) = filter (\<lambda>(q, _). q \<noteq> p \<or> \<not> removable d p) (rd_files d)"
  by (auto simp: remove_file_def removable_def split: option.split)

lemma delete_recording_readable [simp]: "rd_readable (delete_recording p d) = rd_readable d"
  by (simp add: delete_recording_def)

lemma delete_recording_lookup:
  "q \<noteq> p \<Longrightarrow> q \<noteq> with_extension ''meta'' p \<Longrightarrow>
   map_of (rd_files (delete_recording p d)) q = map_of (rd_files d) q"
  by (simp add: delete_recording_def remove_file_lookup)

lemma delete_recording_distinct:
  "distinct (map fst (rd_files d)) \<Longrightarrow> distinct (map fst (rd_files (delete_recording p d)))"
  by (simp add: delete_recording_def remove_file_files distinct_map_filter)

text \<open>What remains listed after a recording has been deleted.\<close>

lemma map_filter_filter:
  "List.map_filter f (filter P xs) = List.map_filter (\<lambda>x. if P x then f x else None) xs"
  by (induction xs) (simp_all add: List.map_filter_simps split: option.split)

lemma filter_map_filter:
  "filter P (List.map_filter f xs) = List.map_filter (\<lambda>x. case f x of None \<Rightarrow> None | Some y \<Rightarrow> if P y then Some y else None) xs"
  by (induction xs) (simp_all add: List.map_filter_simps split: option.split)

lemma map_filter_cong:
  "(\<And>x. x \<in> set xs \<Longrightarrow> f x = g x) \<Longrightarrow> List.map_filter f xs = List.map_filter g xs"
  by (induction xs) (simp_all add: List.map_filter_simps split: option.split)

lemma recording_of_Some: "recording_of (name, f) = Some (q, r) \<Longrightarrow> q = name \<and> extension name = Some ''guac''"
  by (auto simp: recording_of_def split: if_splits option.splits)

lemma listed_filter:
  assumes "rd_readable d' = rd_readable d" "rd_files d' = filter (\<lambda>(q, _). P q) (rd_files d)"
  shows "list_recordings_by_age d' = filter (\<lambda>(q, _). P q) (list_recordings_by_age d)"
proof -
  have "List.map_filter recording_of (filter (\<lambda>(q, _). P q) xs) =
        filter (\<lambda>(q, _). P q) (List.map_filter recording_of xs)" for xs
    unfolding map_filter_filter filter_map_filter
    by (rule map_filter_cong) (auto split: option.split dest: recording_of_Some)
  then show ?thesis using assms by (simp add: list_recordings_by_age_def filter_sort)
qed

lemma listed_guac: "r \<in> set (list_recordings_by_age d) \<Longrightarrow> extension (fst r) = Some ''guac''"
  by (auto simp: list_recordings_by_age_def List.map_filter_def recording_of_def split: if_splits option.splits)

lemma listed_delete:
  assumes "extension p = Some ''guac''"
  shows "list_recordings_by_age (delete_recording p d) =
    filter (\<lambda>(q, _). q \<noteq> p \<or> \<not> removable d p) (list_recordings_by_age d)"
proof -
  let ?m = "with_extension ''meta'' p"
  have "list_recordings_by_age (delete_recording p d) =
      filter (\<lambda>(q, _). q \<noteq> ?m \<or> \<not> removable (remove_file p d) ?m) (list_recordings_by_age (remove_file p d))"
    unfolding delete_recording_def by (rule listed_filter) (simp_all add: remove_file_files)
  also have "\<dots> = list_recordings_by_age (remove_file p d)"
    using listed_guac [of _ "remove_file p d"] extension_meta [OF assms] by (auto intro!: filter_True)
  also have "\<dots> = filter (\<lambda>(q, _). q \<noteq> p \<or> \<not> removable d p) (list_recordings_by_age d)"
    by (rule listed_filter) (simp_all add: remove_file_files)
  finally show ?thesis .
qed

section \<open>Deleting candidates one after the other\<close>

text \<open>
  What a rotation relies on: a store with a list of candidates, of which deleting one removes
  that one from the list and nothing else.
\<close>

locale pruner =
  fixes inv :: "'s \<Rightarrow> bool"
    and cands :: "'s \<Rightarrow> 'p list"
    and del :: "'p \<Rightarrow> 's \<Rightarrow> 's"
  assumes cands_del: "inv s \<Longrightarrow> p \<in> set (cands s) \<Longrightarrow> cands (del p s) = filter (\<lambda>q. q \<noteq> p) (cands s)"
    and inv_del: "inv s \<Longrightarrow> p \<in> set (cands s) \<Longrightarrow> inv (del p s)"
    and cands_distinct: "inv s \<Longrightarrow> distinct (cands s)"
begin

lemma cands_hd:
  assumes "inv s" "cands s = p # ps"
  shows "cands (del p s) = ps"
proof -
  have "p \<notin> set ps" using cands_distinct [OF assms(1)] assms(2) by simp
  then have "filter (\<lambda>q. q \<noteq> p) ps = ps" by (induction ps) auto
  then show ?thesis using cands_del [OF assms(1), of p] assms(2) by simp
qed

lemma cands_prefix:
  assumes "inv s" "cands s = ps @ qs"
  shows "inv (foldl (\<lambda>s p. del p s) s ps) \<and> cands (foldl (\<lambda>s p. del p s) s ps) = qs"
  using assms
proof (induction ps arbitrary: s)
  case (Cons p ps)
  have "cands (del p s) = ps @ qs" using cands_hd [OF Cons.prems(1)] Cons.prems(2) by simp
  moreover have "inv (del p s)" using inv_del [OF Cons.prems(1)] Cons.prems(2) by simp
  ultimately show ?case using Cons.IH by simp
qed simp

lemma cands_take:
  "inv s \<Longrightarrow> cands (foldl (\<lambda>s p. del p s) s (take n (cands s))) = drop n (cands s)"
  using cands_prefix [of s "take n (cands s)" "drop n (cands s)"] by simp

lemma inv_take:
  "inv s \<Longrightarrow> inv (foldl (\<lambda>s p. del p s) s (take n (cands s)))"
  using cands_prefix [of s "take n (cands s)" "drop n (cands s)"] by simp

end

text \<open>The recordings that belong to no live session, oldest first.\<close>

definition closed_recordings :: "str set \<Rightarrow> rec_dir \<Rightarrow> str list" where
  "closed_recordings active d = filter (\<lambda>p. p \<notin> active) (map fst (list_recordings_by_age d))"

text \<open>The recordings of an address book entry, oldest first.\<close>

definition entry_recordings :: "(str \<Rightarrow> recording_meta option) \<Rightarrow> str \<Rightarrow> rec_dir \<Rightarrow> str list" where
  "entry_recordings from_json key d =
     filter (belongs_to from_json key d) (map fst (list_recordings_by_age d))"

text \<open>A directory has one file of a name; the candidates of a rotation can be removed.\<close>

definition prunable :: "(rec_dir \<Rightarrow> str list) \<Rightarrow> rec_dir \<Rightarrow> bool" where
  "prunable cands d \<longleftrightarrow> distinct (map fst (rd_files d)) \<and> (\<forall>p\<in>set (cands d). removable d p)"

lemma listed_distinct:
  assumes "distinct (map fst (rd_files d))"
  shows "distinct (map fst (list_recordings_by_age d))"
proof -
  have "distinct (map fst xs) \<Longrightarrow> distinct (map fst (List.map_filter recording_of xs)) \<and>
      fst ` set (List.map_filter recording_of xs) \<subseteq> fst ` set xs" for xs
  proof (induction xs)
    case (Cons x xs)
    then show ?case
      by (cases x) (auto simp: List.map_filter_simps split: option.split dest: recording_of_Some)
  qed (simp add: List.map_filter_simps)
  moreover have "distinct (map fst (sort_key f xs)) \<longleftrightarrow> distinct (map fst xs)"
    for f :: "str \<times> int \<times> nat \<Rightarrow> int" and xs
    by (simp add: distinct_map)
  ultimately show ?thesis using assms by (simp add: list_recordings_by_age_def)
qed

lemma removable_delete:
  "removable d q \<Longrightarrow> q \<noteq> p \<Longrightarrow> q \<noteq> with_extension ''meta'' p \<Longrightarrow> removable (delete_recording p d) q"
  by (simp add: removable_def delete_recording_lookup)

lemma names_delete:
  assumes "extension p = Some ''guac''" "removable d p"
  shows "map fst (list_recordings_by_age (delete_recording p d)) =
    filter (\<lambda>q. q \<noteq> p) (map fst (list_recordings_by_age d))"
  using assms by (auto simp: listed_delete filter_map o_def split_def)

lemma meta_not_listed:
  "extension p = Some e \<Longrightarrow> (with_extension ''meta'' p, r) \<notin> set (list_recordings_by_age d)"
  using listed_guac extension_meta by fastforce

interpretation live: pruner "prunable (closed_recordings active)" "closed_recordings active" delete_recording for active
proof
  fix d p
  assume inv: "prunable (closed_recordings active) d" and p: "p \<in> set (closed_recordings active d)"
  then have g: "extension p = Some ''guac''" "removable d p"
    by (auto simp: closed_recordings_def prunable_def dest: listed_guac)
  show cands: "closed_recordings active (delete_recording p d) = filter (\<lambda>q. q \<noteq> p) (closed_recordings active d)"
    by (simp only: closed_recordings_def names_delete [OF g] filter_filter conj_commute)
  show "prunable (closed_recordings active) (delete_recording p d)"
    unfolding prunable_def cands using inv g(1)
    by (auto simp: prunable_def closed_recordings_def intro!: removable_delete delete_recording_distinct
        dest: meta_not_listed)
next
  fix d
  assume "prunable (closed_recordings active) d"
  then show "distinct (closed_recordings active d)"
    by (simp add: prunable_def closed_recordings_def listed_distinct)
qed

lemma belongs_to_delete:
  assumes "extension p = Some ''guac''" "extension q = Some ''guac''" "q \<noteq> p"
  shows "belongs_to from_json key (delete_recording p d) q = belongs_to from_json key d q"
proof -
  have "with_extension ''meta'' q \<noteq> with_extension ''meta'' p"
    using with_extension_inj assms by metis
  moreover have "with_extension ''meta'' q \<noteq> p"
    using extension_meta [OF assms(2)] assms(1) by auto
  ultimately show ?thesis
    by (simp add: belongs_to_def read_meta_def delete_recording_lookup)
qed

interpretation per_entry: pruner "prunable (entry_recordings from_json key)" "entry_recordings from_json key"
  delete_recording for from_json key
proof
  fix d p
  assume inv: "prunable (entry_recordings from_json key) d" and p: "p \<in> set (entry_recordings from_json key d)"
  then have g: "extension p = Some ''guac''" "removable d p"
    by (auto simp: entry_recordings_def prunable_def dest: listed_guac)
  have "belongs_to from_json key (delete_recording p d) q = belongs_to from_json key d q"
    if "q \<in> set (filter (\<lambda>q. q \<noteq> p) (map fst (list_recordings_by_age d)))" for q
    using that by (intro belongs_to_delete g(1)) (auto dest: listed_guac)
  then have "entry_recordings from_json key (delete_recording p d) =
      filter (belongs_to from_json key d) (filter (\<lambda>q. q \<noteq> p) (map fst (list_recordings_by_age d)))"
    unfolding entry_recordings_def names_delete [OF g] by (rule filter_cong [OF refl])
  then show cands: "entry_recordings from_json key (delete_recording p d) =
      filter (\<lambda>q. q \<noteq> p) (entry_recordings from_json key d)"
    by (simp only: entry_recordings_def filter_filter conj_commute)
  show "prunable (entry_recordings from_json key) (delete_recording p d)"
    unfolding prunable_def cands using inv g(1)
    by (auto simp: prunable_def entry_recordings_def intro!: removable_delete delete_recording_distinct
        dest: meta_not_listed)
next
  fix d
  assume "prunable (entry_recordings from_json key) d"
  then show "distinct (entry_recordings from_json key d)"
    by (simp add: prunable_def entry_recordings_def listed_distinct)
qed

section \<open>What a rotation deletes\<close>

abbreviation prune :: "str list \<Rightarrow> rec_dir \<Rightarrow> rec_dir" where
  "prune ps d \<equiv> foldl (\<lambda>d p. delete_recording p d) d ps"

lemma find_filter: "List.find P xs = (case filter P xs of [] \<Rightarrow> None | x # _ \<Rightarrow> Some x)"
  by (induction xs) auto

lemma oldest_rotatable_closed:
  "oldest_rotatable d active = (case closed_recordings active d of [] \<Rightarrow> None | p # _ \<Rightarrow> Some p)"
  by (simp add: oldest_rotatable_def closed_recordings_def find_filter)

lemma delete_while_prune:
  "delete_while over n ps d = (prune (take (over - n) ps) d, n + min (over - n) (length ps))"
proof (induction over n ps d rule: delete_while.induct)
  case (2 over deleted path paths d)
  then show ?case
    by (cases "over \<le> deleted") (simp_all add: Suc_diff_Suc [symmetric] not_le min_def)
qed simp

lemma enforce_count_limit_prune:
  fixes limit active d
  defines "n \<equiv> min (length (list_recordings_by_age d) - limit) (length (closed_recordings active d))"
  shows "enforce_count_limit active limit d = (prune (take n (closed_recordings active d)) d, n)"
  by (simp add: enforce_count_limit_def n_def delete_while_prune closed_recordings_def min_def Let_def)

text \<open>
  The readings of the disk limit: it is over before the \<open>i\<close>-th deletion, and that deletion
  was not seen to free nothing.
\<close>

definition over_limit :: "(nat \<Rightarrow> rec_dir \<Rightarrow> rat option) \<Rightarrow> rat \<Rightarrow> nat \<Rightarrow> rec_dir \<Rightarrow> bool" where
  "over_limit usage threshold k d \<longleftrightarrow> (\<exists>u. usage k d = Some u \<and> threshold < u)"

definition no_gain :: "(nat \<Rightarrow> rec_dir \<Rightarrow> rat option) \<Rightarrow> nat \<Rightarrow> rec_dir \<Rightarrow> rec_dir \<Rightarrow> bool" where
  "no_gain usage k d d' \<longleftrightarrow> (\<exists>u v. usage k d = Some u \<and> usage (k + 1) d' = Some v \<and> u \<le> v)"

lemma disk_loop_stops:
  "\<not> over_limit usage threshold k d \<or> closed_recordings active d = [] \<Longrightarrow>
   disk_loop usage active threshold k deleted d = Some (d, deleted)"
  by (subst disk_loop.simps)
    (auto simp: over_limit_def oldest_rotatable_closed not_less split: option.split)

lemma disk_loop_step:
  assumes "over_limit usage threshold k d" "closed_recordings active d = p # ps"
  shows "disk_loop usage active threshold k deleted d =
    (if no_gain usage k d (delete_recording p d) then Some (delete_recording p d, deleted + 1)
     else disk_loop usage active threshold (k + 2) (deleted + 1) (delete_recording p d))"
  using assms by (subst disk_loop.simps)
    (auto simp: over_limit_def no_gain_def oldest_rotatable_closed not_le Let_def split: option.split)

text \<open>
  The run of the limit over the candidates \<open>ps\<close>: the first \<open>n\<close> are deleted, each while the
  usage was over the limit and (but for the last) was seen to fall, and it stops for a reason.
\<close>

definition disk_run ::
  "(nat \<Rightarrow> rec_dir \<Rightarrow> rat option) \<Rightarrow> rat \<Rightarrow> nat \<Rightarrow> str list \<Rightarrow> rec_dir \<Rightarrow> nat \<Rightarrow> bool" where
  "disk_run usage threshold k ps d n \<longleftrightarrow>
     n \<le> length ps \<and>
     (\<forall>i<n. over_limit usage threshold (k + 2 * i) (prune (take i ps) d)) \<and>
     (\<forall>i. i + 1 < n \<longrightarrow> \<not> no_gain usage (k + 2 * i) (prune (take i ps) d) (prune (take (i + 1) ps) d)) \<and>
     (n = length ps \<or> \<not> over_limit usage threshold (k + 2 * n) (prune (take n ps) d) \<or>
      (\<exists>m. n = m + 1 \<and> no_gain usage (k + 2 * m) (prune (take m ps) d) (prune (take n ps) d)))"

lemma disk_run_0: "ps = [] \<or> \<not> over_limit usage threshold k d \<Longrightarrow> disk_run usage threshold k ps d 0"
  by (auto simp: disk_run_def)

lemma disk_run_1:
  "over_limit usage threshold k d \<Longrightarrow> no_gain usage k d (delete_recording p d) \<Longrightarrow>
   disk_run usage threshold k (p # ps) d 1"
  by (simp add: disk_run_def)

lemma disk_run_Suc:
  assumes "over_limit usage threshold k d" "\<not> no_gain usage k d (delete_recording p d)"
    and run: "disk_run usage threshold (k + 2) ps (delete_recording p d) n"
  shows "disk_run usage threshold k (p # ps) d (n + 1)"
proof -
  have "over_limit usage threshold (k + 2 * i) (prune (take i (p # ps)) d)" if "i < n + 1" for i
    using that assms(1) run by (cases i) (auto simp: disk_run_def)
  moreover have "\<not> no_gain usage (k + 2 * i) (prune (take i (p # ps)) d) (prune (take (i + 1) (p # ps)) d)"
    if "i + 1 < n + 1" for i
    using that assms(2) run by (cases i) (auto simp: disk_run_def)
  moreover have "n = length ps \<or> \<not> over_limit usage threshold (k + 2 * (n + 1)) (prune (take (n + 1) (p # ps)) d) \<or>
      no_gain usage (k + 2 * n) (prune (take n (p # ps)) d) (prune (take (n + 1) (p # ps)) d)"
    using run by (cases n) (auto simp: disk_run_def)
  ultimately show ?thesis using run by (simp add: disk_run_def)
qed

lemma disk_loop_exact:
  assumes "prunable (closed_recordings active) d"
  shows "\<exists>n. disk_run usage threshold k (closed_recordings active d) d n \<and>
    disk_loop usage active threshold k deleted d = Some (prune (take n (closed_recordings active d)) d, deleted + n)"
  using assms
proof (induction "closed_recordings active d" arbitrary: d k deleted)
  case Nil
  then show ?case by (intro exI [of _ 0]) (simp add: disk_loop_stops disk_run_0)
next
  case (Cons p ps)
  note cl = Cons.hyps(2) [symmetric]
  let ?d = "delete_recording p d"
  have d: "ps = closed_recordings active ?d" "prunable (closed_recordings active) ?d"
    using live.cands_hd [OF Cons.prems cl] live.inv_del [OF Cons.prems, of p] cl by simp_all
  show ?case
  proof (cases "over_limit usage threshold k d")
    case False
    then show ?thesis by (intro exI [of _ 0]) (simp add: disk_loop_stops disk_run_0)
  next
    case over: True
    note step = disk_loop_step [OF over cl, of deleted]
    show ?thesis
    proof (cases "no_gain usage k d ?d")
      case True
      then show ?thesis using step over cl by (intro exI [of _ 1]) (simp add: disk_run_1 [simplified])
    next
      case False
      from Cons.hyps(1) [OF d, of "k + 2" "deleted + 1"] d(1)
      obtain n where n: "disk_run usage threshold (k + 2) ps ?d n"
        "disk_loop usage active threshold (k + 2) (deleted + 1) ?d = Some (prune (take n ps) ?d, deleted + 1 + n)"
        by auto
      show ?thesis
        using n(2) step False cl disk_run_Suc [OF over False n(1)] by (intro exI [of _ "n + 1"]) simp
    qed
  qed
qed

lemma listed_prune:
  assumes "prunable (closed_recordings active) d" "closed_recordings active d = ps @ qs"
  shows "list_recordings_by_age (prune ps d) = filter (\<lambda>(q, _). q \<notin> set ps) (list_recordings_by_age d)"
  using assms
proof (induction ps arbitrary: d)
  case (Cons p ps)
  let ?d = "delete_recording p d"
  have "p \<in> set (closed_recordings active d)" using Cons.prems(2) by simp
  then have "extension p = Some ''guac''" "removable d p"
    using Cons.prems(1) by (auto simp: closed_recordings_def prunable_def dest: listed_guac)
  then have "list_recordings_by_age ?d = filter (\<lambda>(q, _). q \<noteq> p) (list_recordings_by_age d)"
    by (simp add: listed_delete)
  moreover have "closed_recordings active ?d = ps @ qs" "prunable (closed_recordings active) ?d"
    using live.cands_hd [OF Cons.prems(1)] live.inv_del [OF Cons.prems(1), of p] Cons.prems(2) by simp_all
  ultimately show ?case using Cons.IH [of ?d] by (auto simp: split_def conj_commute intro!: filter_cong)
qed simp

lemma prune_prune: "prune qs (prune ps d) = prune (ps @ qs) d"
  by simp

text \<open>
  C38: A rotation ends, and deletes the oldest recordings of ended sessions first. As long as
  those can be removed, it returns with the \<open>m + n\<close> oldest of them gone (with their
  sidecars) and every other recording still listed: the count limit takes \<open>m\<close> of them, as many
  as the total exceeds \<open>max_recordings\<close> or all there are; the disk limit then takes \<open>n\<close>, each
  one on a reading over \<open>max_disk_percent\<close>, and stops at the first deletion after which the
  reading has not fallen, at a reading within the limit, at a reading that fails, or when none
  is left. The number returned is the number deleted.
\<close>

theorem rotate_deletes_oldest:
  fixes config active d
  defines "cs \<equiv> closed_recordings active d"
  defines "m \<equiv> if 0 < rc_max_recordings config
    then min (length (list_recordings_by_age d) - rc_max_recordings config) (length cs) else 0"
  assumes dir: "distinct (map fst (rd_files d))"
    and removable: "\<forall>p\<in>set cs. removable d p"
  shows "\<exists>n d'. rotate statvfs config active d = Some (d', m + n) \<and>
    d' = foldl (\<lambda>d p. delete_recording p d) d (take (m + n) cs) \<and>
    list_recordings_by_age d' = filter (\<lambda>(q, _). q \<notin> set (take (m + n) cs)) (list_recordings_by_age d) \<and>
    (if 0 < rc_max_disk_percent config
     then disk_run (\<lambda>k d. disk_usage_percent (statvfs k d)) (of_nat (rc_max_disk_percent config)) 0
            (drop m cs) (foldl (\<lambda>d p. delete_recording p d) d (take m cs)) n
     else n = 0)"
proof -
  let ?usage = "\<lambda>k d. disk_usage_percent (statvfs k d)"
  let ?d1 = "prune (take m cs) d"
  have inv: "prunable (closed_recordings active) d" using dir removable by (simp add: prunable_def cs_def)
  have first: "(if 0 < rc_max_recordings config
      then enforce_count_limit active (rc_max_recordings config) d else (d, 0)) = (?d1, m)"
    by (simp add: m_def enforce_count_limit_prune cs_def)
  have cl: "closed_recordings active ?d1 = drop m cs" "prunable (closed_recordings active) ?d1"
    using live.cands_take [OF inv] live.inv_take [OF inv] by (simp_all add: cs_def)
  obtain n where n: "if 0 < rc_max_disk_percent config
      then disk_run ?usage (of_nat (rc_max_disk_percent config)) 0 (drop m cs) ?d1 n else n = 0"
    "rotate statvfs config active d = Some (prune (take n (drop m cs)) ?d1, m + n)"
    using disk_loop_exact [OF cl(2), of ?usage "of_nat (rc_max_disk_percent config)" 0 0] first cl(1)
    by (cases "0 < rc_max_disk_percent config") (auto simp: rotate_def enforce_disk_limit_def)
  have d': "prune (take n (drop m cs)) ?d1 = prune (take (m + n) cs) d"
    unfolding prune_prune by (simp add: take_add)
  have "list_recordings_by_age (prune (take (m + n) cs) d) =
      filter (\<lambda>(q, _). q \<notin> set (take (m + n) cs)) (list_recordings_by_age d)"
    by (rule listed_prune [OF inv, of _ "drop (m + n) cs"]) (simp add: cs_def)
  then show ?thesis using n d' by auto
qed

section \<open>What a rotation leaves alone\<close>

text \<open>Only recordings of ended sessions and their sidecars are touched.\<close>

definition spares :: "str set \<Rightarrow> rec_dir \<Rightarrow> rec_dir \<Rightarrow> bool" where
  "spares active d d' \<longleftrightarrow>
     set (closed_recordings active d') \<subseteq> set (closed_recordings active d) \<and>
     (\<forall>q. q \<notin> set (closed_recordings active d) \<longrightarrow> q \<notin> with_extension ''meta'' ` set (closed_recordings active d) \<longrightarrow>
        map_of (rd_files d') q = map_of (rd_files d) q)"

lemma spares_refl: "spares active d d"
  by (simp add: spares_def)

lemma closed_guac: "p \<in> set (closed_recordings active d) \<Longrightarrow> extension p = Some ''guac''"
  by (auto simp: closed_recordings_def dest: listed_guac)

lemma closed_delete:
  "extension p = Some ''guac'' \<Longrightarrow>
   set (closed_recordings active (delete_recording p d)) \<subseteq> set (closed_recordings active d)"
  by (auto simp: closed_recordings_def listed_delete)

lemma spares_delete:
  assumes "spares active d d'" "p \<in> set (closed_recordings active d)"
  shows "spares active d (delete_recording p d')"
  unfolding spares_def
proof (intro conjI allI impI)
  show "set (closed_recordings active (delete_recording p d')) \<subseteq> set (closed_recordings active d)"
    using closed_delete [OF closed_guac [OF assms(2)], of active d'] assms(1) by (auto simp: spares_def)
  fix q
  assume q: "q \<notin> set (closed_recordings active d)"
    "q \<notin> with_extension ''meta'' ` set (closed_recordings active d)"
  then have "map_of (rd_files (delete_recording p d')) q = map_of (rd_files d') q"
    using assms(2) by (intro delete_recording_lookup) auto
  then show "map_of (rd_files (delete_recording p d')) q = map_of (rd_files d) q"
    using q assms(1) by (simp add: spares_def)
qed

lemma spares_prune:
  "spares active d d' \<Longrightarrow> set ps \<subseteq> set (closed_recordings active d) \<Longrightarrow> spares active d (prune ps d')"
  by (induction ps arbitrary: d') (simp_all add: spares_delete)

lemma spares_oldest:
  "spares active d d' \<Longrightarrow> oldest_rotatable d' active = Some p \<Longrightarrow> spares active d (delete_recording p d')"
  by (rule spares_delete) (auto simp: spares_def oldest_rotatable_closed split: list.splits)

lemma spares_disk_loop:
  assumes "disk_loop usage active threshold k deleted d' = Some r" "spares active d d'"
  shows "spares active d (fst r)"
proof -
  have "spares active d d' \<longrightarrow> spares active d (fst r)"
    by (rule disk_loop.raw_induct [OF _ assms(1),
          where P = "\<lambda>usage active threshold k deleted d' r. spares active d d' \<longrightarrow> spares active d (fst r)"])
      (auto simp: Let_def spares_oldest split: option.splits if_splits)
  then show ?thesis using assms(2) by simp
qed

lemma rotate_spares:
  assumes "rotate statvfs config active d = Some (d', n)"
  shows "spares active d d'"
  using assms spares_prune [OF spares_refl, of "take k (closed_recordings active d)" active d for k]
  by (auto simp: rotate_def enforce_disk_limit_def enforce_count_limit_prune Let_def spares_refl
      dest!: spares_disk_loop dest: in_set_takeD split: if_splits)

text \<open>
  C37: A rotation never touches a live recording, whatever the file system and the disk do. The
  recordings of live sessions and their sidecars, and every file that is neither a recording
  of an ended session nor the sidecar of one, are in the directory afterwards exactly as they
  were, even when some removals fail and whatever the disk usage reads.
\<close>

theorem rotate_spares_live:
  assumes "rotate statvfs config active d = Some (d', n)"
    and "q \<in> active \<and> extension q = Some ''guac'' \<or>
         (\<exists>p\<in>active. extension p = Some ''guac'' \<and> q = with_extension ''meta'' p) \<or>
         extension q \<notin> {Some ''guac'', Some ''meta''}"
  shows "map_of (rd_files d') q = map_of (rd_files d) q"
proof -
  let ?c = "set (closed_recordings active d)"
  have "spares active d d'" by (rule rotate_spares [OF assms(1)])
  moreover have "q \<notin> ?c" using assms(2) closed_guac extension_meta
    by (fastforce simp: closed_recordings_def)
  moreover have "q \<notin> with_extension ''meta'' ` ?c"
    using assms(2) closed_guac [of _ active d] extension_meta with_extension_inj
    by (fastforce simp: closed_recordings_def)
  ultimately show ?thesis by (simp add: spares_def)
qed

section \<open>Rotation of one entry\<close>

lemma foldl_counted:
  "foldl (\<lambda>(d, n) p. (f p d, Suc n)) (d, m) ps = (foldl (\<lambda>d p. f p d) d ps, m + length ps)"
  by (induction ps arbitrary: d m) simp_all

lemma rotate_per_entry_prune:
  assumes "0 < limit"
  shows "rotate_per_entry from_json key limit d =
    (prune (take (length (entry_recordings from_json key d) - limit) (entry_recordings from_json key d)) d,
     length (entry_recordings from_json key d) - limit)"
  using assms by (simp add: rotate_per_entry_def Let_def foldl_counted entry_recordings_def [symmetric] min_absorb2)

lemma prune_lookup:
  "q \<notin> set ps \<Longrightarrow> q \<notin> with_extension ''meta'' ` set ps \<Longrightarrow> map_of (rd_files (prune ps d)) q = map_of (rd_files d) q"
  by (induction ps arbitrary: d) (simp_all add: delete_recording_lookup)

text \<open>
  The rotation of an address book entry keeps exactly the newest \<open>max\<close> recordings of that
  entry, of those it can remove: it deletes the oldest ones over \<open>max\<close> with their sidecars,
  returns how many, and leaves the recordings of other entries and every other file of the
  directory unchanged; with \<open>max = 0\<close> it does nothing.
\<close>

theorem rotate_per_entry_keeps_newest:
  fixes from_json key limit d
  defines "ms \<equiv> entry_recordings from_json key d"
  defines "n \<equiv> if limit = 0 then 0 else length ms - limit"
  assumes "distinct (map fst (rd_files d))" "\<forall>p\<in>set ms. removable d p"
  shows "\<exists>d'. rotate_per_entry from_json key limit d = (d', n) \<and>
    entry_recordings from_json key d' = drop n ms \<and>
    (0 < limit \<longrightarrow> length (entry_recordings from_json key d') \<le> limit) \<and>
    (\<forall>q. q \<notin> set (take n ms) \<and> q \<notin> with_extension ''meta'' ` set (take n ms) \<longrightarrow>
       map_of (rd_files d') q = map_of (rd_files d) q)"
proof (intro exI conjI)
  have inv: "prunable (entry_recordings from_json key) d" using assms(3,4) by (simp add: prunable_def ms_def)
  show "rotate_per_entry from_json key limit d = (prune (take n ms) d, n)"
    by (simp add: rotate_per_entry_prune n_def ms_def) (simp add: rotate_per_entry_def)
  show rest: "entry_recordings from_json key (prune (take n ms) d) = drop n ms"
    unfolding ms_def by (rule per_entry.cands_take [OF inv])
  show "0 < limit \<longrightarrow> length (entry_recordings from_json key (prune (take n ms) d)) \<le> limit"
    unfolding rest by (auto simp: n_def)
qed (simp add: prune_lookup)

section \<open>Examples\<close>

text \<open>
  Three recordings of the entry \<open>web\<close>, the oldest of a session still running, and the sidecars
  of two of them. The JSON reader stands for serde: it maps the texts of these sidecars to
  what they say.
\<close>

definition demo_file :: "int \<Rightarrow> str \<Rightarrow> dir_file" where
  "demo_file t s = \<lparr>df_meta = Some (Some t, length s), df_text = Some s, df_removable = True\<rparr>"

definition demo_dir :: rec_dir where
  "demo_dir = \<lparr>rd_readable = True, rd_files =
     [(''c.guac'', demo_file 3 ''''), (''a.guac'', demo_file 1 ''''), (''b.guac'', demo_file 2 ''''),
      (''a.meta'', demo_file 1 ''web''), (''b.meta'', demo_file 2 ''web''), (''note.txt'', demo_file 0 '''')]\<rparr>"

definition demo_json :: "str \<Rightarrow> recording_meta option" where
  "demo_json s = (if s = ''web'' then Some \<lparr>rm_address_book_entry = Some ''web'', rm_created_at = ''t'',
     rm_user = None, rm_folder = None, rm_entry_display_name = None, rm_session_type = None\<rparr> else None)"

lemma demo_listed: "list_recordings_by_age demo_dir = [(''a.guac'', 1, 0), (''b.guac'', 2, 0), (''c.guac'', 3, 0)]"
  by (simp add: demo_dir_def list_recordings_by_age_def demo_file_def List.map_filter_simps recording_of_def
      extension_def rsplit_dot_def)

lemma demo_names: "distinct (map fst (rd_files demo_dir))"
  by (simp add: demo_dir_def)

lemma demo_removable: "p \<in> {''a.guac'', ''b.guac'', ''c.guac''} \<Longrightarrow> removable demo_dir p"
  by (auto simp: removable_def demo_dir_def demo_file_def)

lemma demo_closed: "closed_recordings {''a.guac''} demo_dir = [''b.guac'', ''c.guac'']"
  by (simp add: closed_recordings_def demo_listed)

lemma demo_entry: "entry_recordings demo_json ''web'' demo_dir = [''a.guac'', ''b.guac'']"
  by (simp add: entry_recordings_def demo_listed belongs_to_def read_meta_def with_extension_def rsplit_dot_def)
    (simp add: demo_dir_def demo_file_def demo_json_def)

definition demo_config :: recording_config where
  "demo_config = \<lparr>rc_max_disk_percent = 90, rc_max_recordings = 2\<rparr>"

text \<open>With \<open>max_recordings = 2\<close> and a disk that stays at 95%, both limits delete one recording.\<close>

theorem rotate_deletes_oldest_witness:
  "\<exists>n d'. rotate (\<lambda>_ _. Some (100, 5)) demo_config {''a.guac''} demo_dir = Some (d', 1 + n) \<and>
     disk_run (\<lambda>_ _. Some 95) 90 0 [''c.guac''] (delete_recording ''b.guac'' demo_dir) n \<and>
     list_recordings_by_age d' = filter (\<lambda>(q, _). q \<notin> set (take (1 + n) [''b.guac'', ''c.guac'']))
       (list_recordings_by_age demo_dir)"
  using rotate_deletes_oldest [of demo_dir "{''a.guac''}" "\<lambda>_ _. Some (100, 5)" demo_config] demo_names demo_removable
  by (auto simp: demo_closed demo_listed demo_config_def disk_usage_percent_def)

lemma demo_rotate_returns:
  obtains n d' where "rotate (\<lambda>_ _. Some (100, 5)) demo_config {''a.guac''} demo_dir = Some (d', n)"
proof -
  have inv: "prunable (closed_recordings {''a.guac''}) demo_dir"
    using demo_names demo_removable by (simp add: prunable_def demo_closed)
  show ?thesis
    using disk_loop_exact [OF live.inv_take [OF inv, of 1], of "\<lambda>_ _. Some 95" 90 0 0] that
    by (auto simp: rotate_def demo_config_def enforce_count_limit_prune enforce_disk_limit_def demo_closed
        demo_listed disk_usage_percent_def)
qed

lemma demo_rotate_kept:
  "\<exists>n d'. rotate (\<lambda>_ _. Some (100, 5)) demo_config {''a.guac''} demo_dir = Some (d', n) \<and>
     map_of (rd_files d') ''a.guac'' = Some (demo_file 1 '''')"
proof -
  obtain n d' where r: "rotate (\<lambda>_ _. Some (100, 5)) demo_config {''a.guac''} demo_dir = Some (d', n)"
    by (rule demo_rotate_returns)
  have "map_of (rd_files d') ''a.guac'' = map_of (rd_files demo_dir) ''a.guac''"
    using rotate_spares [OF r] by (simp add: spares_def demo_closed with_extension_def rsplit_dot_def)
  then show ?thesis using r by (simp add: demo_dir_def)
qed

theorem rotate_spares_live_witness:
  "\<exists>n d'. rotate (\<lambda>_ _. Some (100, 5)) demo_config {''a.guac''} demo_dir = Some (d', n) \<and>
     map_of (rd_files d') ''a.guac'' = Some (demo_file 1 '''')"
proof -
  obtain n d' where r: "rotate (\<lambda>_ _. Some (100, 5)) demo_config {''a.guac''} demo_dir = Some (d', n)"
    by (rule demo_rotate_returns)
  have "map_of (rd_files d') ''a.guac'' = map_of (rd_files demo_dir) ''a.guac''"
    by (rule rotate_spares_live [OF r]) (simp add: extension_def rsplit_dot_def)
  then show ?thesis using r by (simp add: demo_dir_def)
qed

theorem rotate_per_entry_keeps_newest_witness:
  "\<exists>d'. rotate_per_entry demo_json ''web'' 1 demo_dir = (d', 1) \<and>
     entry_recordings demo_json ''web'' d' = [''b.guac''] \<and> map_of (rd_files d') ''c.guac'' = Some (demo_file 3 '''')"
  using rotate_per_entry_keeps_newest [of demo_dir demo_json "''web''" 1] demo_names demo_removable
  by (auto simp: demo_entry with_extension_def rsplit_dot_def) (auto simp: demo_dir_def)

text \<open>
  The rotation of an entry deletes a recording that is still being written. It does not
  ask which sessions are live, as \<open>rotate\<close> does: when a session of an entry with
  \<open>max_recordings = 1\<close> ends while an older session of the same entry is running, the running
  session's recording and its sidecar are deleted, where the global rotation keeps both.
\<close>

theorem rotate_per_entry_deletes_live:
  "let live = active_recording_paths {''a''}; d = demo_dir in
   ''a.guac'' \<in> live \<and> removable d ''a.guac'' \<and>
   (\<exists>n d'. rotate (\<lambda>_ _. Some (100, 5)) demo_config live d = Some (d', n) \<and> map_of (rd_files d') ''a.guac'' \<noteq> None) \<and>
   map_of (rd_files (fst (rotate_per_entry demo_json ''web'' 1 d))) ''a.guac'' = None \<and>
   map_of (rd_files (fst (rotate_per_entry demo_json ''web'' 1 d))) ''a.meta'' = None"
proof -
  have "rotate_per_entry demo_json ''web'' 1 demo_dir = (delete_recording ''a.guac'' demo_dir, 1)"
    by (simp add: rotate_per_entry_prune demo_entry)
  moreover have "map_of (rd_files (delete_recording ''a.guac'' demo_dir)) p = None"
    if "p \<in> {''a.guac'', ''a.meta''}" for p
    using that by (auto simp: delete_recording_def remove_file_def demo_dir_def demo_file_def
        with_extension_def rsplit_dot_def)
  moreover have "active_recording_paths {''a''} = {''a.guac''}" by (simp add: active_recording_paths_def)
  moreover have "removable demo_dir ''a.guac''" using demo_removable by simp
  moreover have "\<exists>n d'. rotate (\<lambda>_ _. Some (100, 5)) demo_config {''a.guac''} demo_dir = Some (d', n) \<and>
      map_of (rd_files d') ''a.guac'' \<noteq> None"
    using demo_rotate_kept by force
  ultimately show ?thesis by (simp add: Let_def)
qed

end
