(* ===== verification/Guacd.thy ===== *)
theory Guacd
  imports Protocol Text_Ops
begin

text \<open>
  The connection to guacd of \<^verbatim>\<open>src/src/guacd.rs\<close>: the parameters of a connection, the values
  guacd gets for the arguments it asks for, the byte-exact reader of one instruction and the
  two handshakes, for the owner of a session and for a viewer who joins it.

  The socket is a \<open>link\<close>: what guacd will send, how the stream ends, which write fails, and what
  has been written. Connecting to the socket (TCP, TLS) is an argument.
\<close>

section \<open>Connection parameters\<close>

record wol_params =
  wp_send_packet :: bool
  wp_mac_addr :: "str option"
  wp_broadcast_addr :: "str option"
  wp_udp_port :: "nat option"
  wp_wait_time :: "nat option"

definition wol_default :: wol_params where
  "wol_default = \<lparr>wp_send_packet = False, wp_mac_addr = None, wp_broadcast_addr = None,
     wp_udp_port = None, wp_wait_time = None\<rparr>"

text \<open>\<open>unwrap_or_default\<close> of a text, and the texts of a flag and of an optional number.\<close>

definition or_default :: "str option \<Rightarrow> str" where
  "or_default v = (case v of None \<Rightarrow> [] | Some s \<Rightarrow> s)"

definition flag :: "bool \<Rightarrow> str" where
  "flag b = (if b then ''true'' else ''false'')"

definition num_or_default :: "nat option \<Rightarrow> str" where
  "num_or_default v = or_default (map_option show_nat v)"

definition wol_arg_value :: "str \<Rightarrow> wol_params \<Rightarrow> str option" where
  "wol_arg_value name w =
     map_of [(''wol-send-packet'', flag (wp_send_packet w)),
       (''wol-mac-addr'', or_default (wp_mac_addr w)),
       (''wol-broadcast-addr'', or_default (wp_broadcast_addr w)),
       (''wol-udp-port'', num_or_default (wp_udp_port w)),
       (''wol-wait-time'', num_or_default (wp_wait_time w))] name"

record ssh_params =
  sh_hostname :: str
  sh_port :: nat
  sh_username :: str
  sh_password :: "str option"
  sh_private_key :: "str option"
  sh_width :: nat
  sh_height :: nat
  sh_dpi :: nat
  sh_enable_sftp :: bool
  sh_sftp_disable_download :: bool
  sh_sftp_disable_upload :: bool
  sh_disable_copy :: bool
  sh_disable_paste :: bool
  sh_typescript_path :: "str option"
  sh_typescript_name :: "str option"
  sh_create_typescript_path :: bool
  sh_font_size :: "nat option"
  sh_wol :: wol_params

record vnc_params =
  vp_hostname :: str
  vp_port :: nat
  vp_username :: "str option"
  vp_password :: "str option"
  vp_color_depth :: "nat option"
  vp_width :: nat
  vp_height :: nat
  vp_dpi :: nat
  vp_disable_copy :: bool
  vp_disable_paste :: bool
  vp_display_resize :: bool
  vp_encodings :: "str option"
  vp_compress_level :: "nat option"
  vp_quality_level :: "nat option"
  vp_wol :: wol_params

record spice_params =
  pp_hostname :: str
  pp_port :: nat
  pp_password :: "str option"
  pp_username :: "str option"
  pp_tls :: bool
  pp_tls_port :: "nat option"
  pp_ca_cert :: "str option"
  pp_cert_subject :: "str option"
  pp_ignore_cert :: bool
  pp_proxy :: "str option"
  pp_color_depth :: "nat option"
  pp_width :: nat
  pp_height :: nat
  pp_dpi :: nat
  pp_disable_copy :: bool
  pp_disable_paste :: bool
  pp_enable_audio :: bool
  pp_secondary_monitors :: nat

record rdp_params =
  rp_hostname :: str
  rp_port :: nat
  rp_username :: str
  rp_password :: "str option"
  rp_domain :: "str option"
  rp_security :: "str option"
  rp_server_layout :: "str option"
  rp_width :: nat
  rp_height :: nat
  rp_dpi :: nat
  rp_ignore_cert :: bool
  rp_enable_drive :: bool
  rp_drive_path :: "str option"
  rp_drive_name :: str
  rp_disable_download :: bool
  rp_disable_upload :: bool
  rp_auth_pkg :: "str option"
  rp_kdc_url :: "str option"
  rp_kerberos_cache :: "str option"
  rp_remote_app :: "str option"
  rp_remote_app_dir :: "str option"
  rp_remote_app_args :: "str option"
  rp_disable_copy :: bool
  rp_disable_paste :: bool
  rp_enable_gfx :: bool
  rp_enable_desktop_composition :: bool
  rp_enable_wallpaper :: bool
  rp_enable_theming :: bool
  rp_enable_full_window_drag :: bool
  rp_force_lossless :: bool
  rp_enable_h264 :: bool
  rp_desktop_scale :: "nat option"
  rp_secondary_monitors :: nat
  rp_wol :: wol_params

datatype connection_params = Ssh ssh_params | Vnc vnc_params | Rdp rdp_params | Spice spice_params

definition vnc_network_preset :: "str \<Rightarrow> (str \<times> nat \<times> nat \<times> nat option) option" where
  "vnc_network_preset preset =
     map_of [(''lan'', (''ultra zrle hextile copyrect raw'', 1, 9, None)),
       (''wan'', (''tight zrle copyrect'', 6, 6, None)),
       (''slow'', (''tight copyrect'', 9, 3, Some 16))] preset"

definition dial_port :: "spice_params \<Rightarrow> nat" where
  "dial_port p = (if pp_tls p then (case pp_tls_port p of None \<Rightarrow> pp_port p | Some t \<Rightarrow> t) else pp_port p)"

section \<open>The values of the arguments\<close>

definition or_wol :: "str \<Rightarrow> wol_params \<Rightarrow> str option \<Rightarrow> str" where
  "or_wol name w v = (case v of Some s \<Rightarrow> s | None \<Rightarrow> or_default (wol_arg_value name w))"

definition ssh_arg_value :: "str \<Rightarrow> ssh_params \<Rightarrow> str" where
  "ssh_arg_value name p = or_wol name (sh_wol p)
     (map_of [(''hostname'', sh_hostname p), (''port'', show_nat (sh_port p)),
        (''username'', sh_username p), (''password'', or_default (sh_password p)),
        (''private-key'', or_default (sh_private_key p)),
        (''width'', show_nat (sh_width p)), (''height'', show_nat (sh_height p)), (''dpi'', show_nat (sh_dpi p)),
        (''color-scheme'', ''gray-black''),
        (''font-size'', show_nat (case sh_font_size p of None \<Rightarrow> 12 | Some n \<Rightarrow> n)),
        (''font-name'', ''monospace''), (''terminal-type'', ''xterm-256color''),
        (''scrollback'', ''1000''), (''backspace'', ''127''),
        (''enable-sftp'', flag (sh_enable_sftp p)),
        (''sftp-disable-download'', flag (sh_sftp_disable_download p)),
        (''sftp-disable-upload'', flag (sh_sftp_disable_upload p)),
        (''disable-copy'', flag (sh_disable_copy p)), (''disable-paste'', flag (sh_disable_paste p)),
        (''read-only'', ''false''), (''locale'', ''en_US.UTF-8''), (''server-alive-interval'', ''0''),
        (''command'', []), (''typescript-path'', or_default (sh_typescript_path p)),
        (''typescript-name'', or_default (sh_typescript_name p)),
        (''create-typescript-path'', flag (sh_create_typescript_path p))] name)"

definition vnc_arg_value :: "str \<Rightarrow> vnc_params \<Rightarrow> str" where
  "vnc_arg_value name p = or_wol name (vp_wol p)
     (map_of [(''hostname'', vp_hostname p), (''port'', show_nat (vp_port p)),
        (''width'', show_nat (vp_width p)), (''height'', show_nat (vp_height p)), (''dpi'', show_nat (vp_dpi p)),
        (''username'', or_default (vp_username p)), (''password'', or_default (vp_password p)),
        (''color-depth'', case vp_color_depth p of None \<Rightarrow> ''24'' | Some d \<Rightarrow> show_nat d),
        (''cursor'', ''local''), (''read-only'', ''false''), (''swap-red-blue'', ''false''),
        (''dest-host'', []), (''dest-port'', []), (''enable-audio'', ''false''),
        (''disable-copy'', flag (vp_disable_copy p)), (''disable-paste'', flag (vp_disable_paste p)),
        (''disable-display-resize'', flag (\<not> vp_display_resize p)),
        (''encodings'', or_default (vp_encodings p)),
        (''compress-level'', num_or_default (vp_compress_level p)),
        (''quality-level'', num_or_default (vp_quality_level p))] name)"

definition spice_arg_value :: "str \<Rightarrow> spice_params \<Rightarrow> str" where
  "spice_arg_value name p = or_default
     (map_of [(''hostname'', pp_hostname p),
        (''port'', if pp_tls p then [] else show_nat (pp_port p)),
        (''username'', or_default (pp_username p)), (''password'', or_default (pp_password p)),
        (''tls'', flag (pp_tls p)),
        (''tls-port'', if pp_tls p then show_nat (dial_port p) else num_or_default (pp_tls_port p)),
        (''ca-cert'', or_default (pp_ca_cert p)), (''cert-subject'', or_default (pp_cert_subject p)),
        (''ignore-cert'', flag (pp_ignore_cert p)), (''proxy'', or_default (pp_proxy p)),
        (''color-depth'', case pp_color_depth p of None \<Rightarrow> ''24'' | Some d \<Rightarrow> show_nat d),
        (''read-only'', ''false''), (''swap-red-blue'', ''false''),
        (''enable-audio'', flag (pp_enable_audio p)),
        (''disable-copy'', flag (pp_disable_copy p)), (''disable-paste'', flag (pp_disable_paste p)),
        (''secondary-monitors'', show_nat (pp_secondary_monitors p))] name)"

definition rdp_arg_value :: "str \<Rightarrow> rdp_params \<Rightarrow> str" where
  "rdp_arg_value name p = or_wol name (rp_wol p)
     (map_of [(''hostname'', rp_hostname p), (''port'', show_nat (rp_port p)),
        (''username'', rp_username p), (''password'', or_default (rp_password p)),
        (''domain'', or_default (rp_domain p)),
        (''security'', case rp_security p of None \<Rightarrow> ''any'' | Some s \<Rightarrow> s),
        (''width'', show_nat (rp_width p)), (''height'', show_nat (rp_height p)), (''dpi'', show_nat (rp_dpi p)),
        (''color-depth'', ''32''), (''ignore-cert'', flag (rp_ignore_cert p)),
        (''disable-auth'', ''false''), (''cursor'', ''local''),
        (''enable-wallpaper'', flag (rp_enable_wallpaper p)), (''enable-theming'', flag (rp_enable_theming p)),
        (''enable-font-smoothing'', ''true''),
        (''enable-full-window-drag'', flag (rp_enable_full_window_drag p)),
        (''enable-desktop-composition'', flag (rp_enable_desktop_composition p)),
        (''enable-menu-animations'', ''false''), (''disable-bitmap-caching'', ''false''),
        (''disable-offscreen-caching'', ''false''), (''resize-method'', ''display-update''),
        (''secondary-monitors'', show_nat (rp_secondary_monitors p)), (''read-only'', ''false''),
        (''gateway-hostname'', []), (''gateway-port'', []), (''gateway-domain'', []),
        (''gateway-username'', []), (''gateway-password'', []),
        (''disable-copy'', flag (rp_disable_copy p)), (''disable-paste'', flag (rp_disable_paste p)),
        (''console'', ''false''), (''server-layout'', or_default (rp_server_layout p)), (''timezone'', []),
        (''disable-audio'', ''false''), (''enable-audio-input'', ''false''), (''enable-printing'', ''false''),
        (''enable-drive'', flag (rp_enable_drive p)), (''drive-path'', or_default (rp_drive_path p)),
        (''create-drive-path'', flag (rp_enable_drive p)), (''drive-name'', rp_drive_name p),
        (''disable-download'', flag (rp_disable_download p)), (''disable-upload'', flag (rp_disable_upload p)),
        (''auth-pkg'', or_default (rp_auth_pkg p)), (''kdc-url'', or_default (rp_kdc_url p)),
        (''kerberos-cache'', or_default (rp_kerberos_cache p)),
        (''disable-gfx'', flag (\<not> rp_enable_gfx p)), (''force-lossless'', flag (rp_force_lossless p)),
        (''enable-h264'', flag (rp_enable_h264 p)), (''desktop-scale'', num_or_default (rp_desktop_scale p)),
        (''remote-app'', or_default (rp_remote_app p)), (''remote-app-dir'', or_default (rp_remote_app_dir p)),
        (''remote-app-args'', or_default (rp_remote_app_args p))] name)"

fun arg_value :: "connection_params \<Rightarrow> str \<Rightarrow> str" where
  "arg_value (Ssh p) name = ssh_arg_value name p"
| "arg_value (Vnc p) name = vnc_arg_value name p"
| "arg_value (Rdp p) name = rdp_arg_value name p"
| "arg_value (Spice p) name = spice_arg_value name p"

definition join_arg_values :: "str list \<Rightarrow> bool \<Rightarrow> str list" where
  "join_arg_values arg_names read_only =
     map (\<lambda>name. if name = ''read-only'' then flag read_only else []) arg_names"

section \<open>Reading one instruction\<close>

datatype protocol_error =
  Malformed_length char | Invalid_utf8 | Malformed_instruction char | Expected str str

datatype guacd_error = Connection str | Io str | Protocol protocol_error

text \<open>A reader takes what is still to come; \<open>eof\<close> is the error of a read past the end.\<close>

type_synonym 'a stream_reader = "str \<Rightarrow> guacd_error + 'a \<times> str"

fun read_byte :: "guacd_error \<Rightarrow> char stream_reader" where
  "read_byte eof [] = Inl eof"
| "read_byte eof (b # s) = Inr (b, s)"

fun guacd_length :: "guacd_error \<Rightarrow> nat \<Rightarrow> nat \<Rightarrow> nat stream_reader" where
  "guacd_length eof len digits [] = Inl eof"
| "guacd_length eof len digits (b # s) =
     (if is_ascii_digit b \<and> digits < 9 then guacd_length eof (len * 10 + digit_value b) (digits + 1) s
      else if b = CHR ''.'' \<and> 0 < digits then Inr (len, s)
      else Inl (Protocol (Malformed_length b)))"

fun read_bytes :: "guacd_error \<Rightarrow> nat \<Rightarrow> str stream_reader" where
  "read_bytes eof 0 s = Inr ([], s)"
| "read_bytes eof (Suc n) s =
     (case read_byte eof s of
        Inl e \<Rightarrow> Inl e
      | Inr (b, s) \<Rightarrow> (case read_bytes eof n s of Inl e \<Rightarrow> Inl e | Inr (bs, s) \<Rightarrow> Inr (b # bs, s)))"

definition more_bytes :: "char \<Rightarrow> nat option" where
  "more_bytes lead =
     (let b = byte_of lead in
      if b \<le> 0x7F then Some 0
      else if 0xC0 \<le> b \<and> b \<le> 0xDF then Some 1
      else if 0xE0 \<le> b \<and> b \<le> 0xEF then Some 2
      else if 0xF0 \<le> b \<and> b \<le> 0xF7 then Some 3
      else None)"

fun guacd_value :: "guacd_error \<Rightarrow> nat \<Rightarrow> str stream_reader" where
  "guacd_value eof 0 s = Inr ([], s)"
| "guacd_value eof (Suc n) s =
     (case read_byte eof s of
        Inl e \<Rightarrow> Inl e
      | Inr (lead, s) \<Rightarrow>
          (case more_bytes lead of
             None \<Rightarrow> Inl (Protocol Invalid_utf8)
           | Some k \<Rightarrow>
               (case read_bytes eof k s of
                  Inl e \<Rightarrow> Inl e
                | Inr (bs, s) \<Rightarrow>
                    (case guacd_value eof n s of
                       Inl e \<Rightarrow> Inl e
                     | Inr (v, s) \<Rightarrow> Inr (lead # bs @ v, s)))))"

text \<open>One turn of the loop: the element, and the byte after it.\<close>

definition guacd_element :: "guacd_error \<Rightarrow> (str \<times> char) stream_reader" where
  "guacd_element eof s =
     (case guacd_length eof 0 0 s of
        Inl e \<Rightarrow> Inl e
      | Inr (len, s) \<Rightarrow>
          (case guacd_value eof len s of
             Inl e \<Rightarrow> Inl e
           | Inr (v, s) \<Rightarrow>
               if \<not> valid_utf8 v then Inl (Protocol Invalid_utf8)
               else
                 (case read_byte eof s of
                    Inl e \<Rightarrow> Inl e
                  | Inr (b, s) \<Rightarrow> Inr ((v, b), s))))"

lemma read_byte_Inr [simp]: "read_byte eof s = Inr (b, r) \<longleftrightarrow> s = b # r"
  by (cases s) auto

lemma guacd_length_shorter: "guacd_length eof len d s = Inr (n, r) \<Longrightarrow> length r < length s"
  by (induction eof len d s rule: guacd_length.induct) (fastforce split: if_splits)+

lemma read_bytes_append: "read_bytes eof n s = Inr (bs, r) \<Longrightarrow> s = bs @ r \<and> length bs = n"
  by (induction n arbitrary: s bs) (fastforce split: sum.splits)+

lemma guacd_value_append: "guacd_value eof n s = Inr (v, r) \<Longrightarrow> s = v @ r"
  by (induction n arbitrary: s v) (fastforce split: sum.splits option.splits dest: read_bytes_append)+

lemma guacd_element_shorter: "guacd_element eof s = Inr (vb, r) \<Longrightarrow> length r < length s"
  by (fastforce simp: guacd_element_def split: sum.splits if_splits dest!: guacd_length_shorter guacd_value_append)

function guacd_elements :: "guacd_error \<Rightarrow> str list stream_reader" where
  "guacd_elements eof s =
     (case guacd_element eof s of
        Inl e \<Rightarrow> Inl e
      | Inr ((v, b), s') \<Rightarrow>
          if b = CHR '','' then
            (case guacd_elements eof s' of Inl e \<Rightarrow> Inl e | Inr (vs, r) \<Rightarrow> Inr (v # vs, r))
          else if b = CHR '';'' then Inr ([v], s')
          else Inl (Protocol (Malformed_instruction b)))"
  by pat_completeness auto
termination by (relation "measure (length \<circ> snd)") (auto dest: guacd_element_shorter)

declare guacd_elements.simps [simp del]

definition guacd_read_instruction :: "guacd_error \<Rightarrow> instruction stream_reader" where
  "guacd_read_instruction eof s =
     (case guacd_elements eof s of
        Inl e \<Rightarrow> Inl e
      | Inr (elements, r) \<Rightarrow> Inr (\<lparr>i_opcode = hd elements, i_args = tl elements\<rparr>, r))"

section \<open>The handshakes\<close>

record link =
  l_in :: str
  l_eof :: guacd_error
  l_write_error :: "nat \<Rightarrow> str option"
  l_out :: "str list"

type_synonym 'a linked = "link \<Rightarrow> (guacd_error + 'a) \<times> link"

text \<open>The \<open>?\<close> of Rust over a link.\<close>

definition then_on :: "'a linked \<Rightarrow> ('a \<Rightarrow> 'b linked) \<Rightarrow> 'b linked" where
  "then_on m f l = (case m l of (Inl e, l) \<Rightarrow> (Inl e, l) | (Inr x, l) \<Rightarrow> f x l)"

definition fail_with :: "guacd_error \<Rightarrow> 'a linked" where
  "fail_with e l = (Inl e, l)"

definition return_on :: "'a \<Rightarrow> 'a linked" where
  "return_on x l = (Inr x, l)"

definition send :: "instruction \<Rightarrow> unit linked" where
  "send i l =
     (case l_write_error l (length (l_out l)) of
        Some e \<Rightarrow> (Inl (Io e), l)
      | None \<Rightarrow> (Inr (), l\<lparr>l_out := l_out l @ [encode i]\<rparr>))"

definition receive :: "instruction linked" where
  "receive l =
     (case guacd_read_instruction (l_eof l) (l_in l) of
        Inl e \<Rightarrow> (Inl e, l)
      | Inr (i, r) \<Rightarrow> (Inr i, l\<lparr>l_in := r\<rparr>))"

fun send_all :: "instruction list \<Rightarrow> unit linked" where
  "send_all [] = return_on ()"
| "send_all (i # is) = then_on (send i) (\<lambda>_. send_all is)"

definition instr :: "str \<Rightarrow> str list \<Rightarrow> instruction" where
  "instr op args = \<lparr>i_opcode = op, i_args = args\<rparr>"

definition handshake_instructions :: "nat \<Rightarrow> nat \<Rightarrow> nat \<Rightarrow> bool \<Rightarrow> instruction list" where
  "handshake_instructions width height dpi enable_h264 =
     [instr ''size'' [show_nat width, show_nat height, show_nat dpi],
      instr ''audio'' [''audio/L16'', ''audio/L8''],
      instr ''video'' (if enable_h264 then [''video/h264''] else []),
      instr ''image'' [''image/png'', ''image/jpeg'', ''image/webp''],
      instr ''timezone'' [''Australia/Brisbane'']]"

definition send_handshake :: "nat \<Rightarrow> nat \<Rightarrow> nat \<Rightarrow> bool \<Rightarrow> unit linked" where
  "send_handshake width height dpi enable_h264 = send_all (handshake_instructions width height dpi enable_h264)"

fun protocol_name :: "connection_params \<Rightarrow> str" where
  "protocol_name (Ssh _) = ''ssh''"
| "protocol_name (Vnc _) = ''vnc''"
| "protocol_name (Rdp _) = ''rdp''"
| "protocol_name (Spice _) = ''spice''"

fun screen :: "connection_params \<Rightarrow> nat \<times> nat \<times> nat \<times> bool" where
  "screen (Ssh p) = (sh_width p, sh_height p, sh_dpi p, False)"
| "screen (Vnc p) = (vp_width p, vp_height p, vp_dpi p, False)"
| "screen (Rdp p) = (rp_width p, rp_height p, rp_dpi p, rp_enable_h264 p)"
| "screen (Spice p) = (pp_width p, pp_height p, pp_dpi p, False)"

text \<open>The dialogue both handshakes share, from \<open>select\<close> to \<open>ready\<close>.\<close>

definition dialogue ::
  "str \<Rightarrow> nat \<times> nat \<times> nat \<times> bool \<Rightarrow> (str list \<Rightarrow> str list) \<Rightarrow> instruction linked" where
  "dialogue selected scr values =
     then_on (send (instr ''select'' [selected])) (\<lambda>_.
     then_on receive (\<lambda>args.
       if i_opcode args \<noteq> ''args'' then fail_with (Protocol (Expected ''args'' (i_opcode args)))
       else
         (case scr of (width, height, dpi, h264) \<Rightarrow>
           then_on (send_handshake width height dpi h264) (\<lambda>_.
           then_on (send (instr ''connect'' (values (i_args args)))) (\<lambda>_.
           then_on receive (\<lambda>ready.
             if i_opcode ready \<noteq> ''ready'' then fail_with (Protocol (Expected ''ready'' (i_opcode ready)))
             else return_on ready))))))"

definition connect_and_handshake ::
  "guacd_error + link \<Rightarrow> connection_params \<Rightarrow> guacd_error + link \<times> str" where
  "connect_and_handshake dialled params =
     (case dialled of
        Inl e \<Rightarrow> Inl e
      | Inr l \<Rightarrow>
          (case dialogue (protocol_name params) (screen params) (map (arg_value params)) l of
             (Inl e, _) \<Rightarrow> Inl e
           | (Inr ready, l) \<Rightarrow>
               Inr (l, case i_args ready of [] \<Rightarrow> ''unknown'' | c # _ \<Rightarrow> c)))"

definition join_connection ::
  "guacd_error + link \<Rightarrow> str \<Rightarrow> nat \<Rightarrow> nat \<Rightarrow> nat \<Rightarrow> bool \<Rightarrow> guacd_error + link" where
  "join_connection dialled connection_id width height dpi read_only =
     (case dialled of
        Inl e \<Rightarrow> Inl e
      | Inr l \<Rightarrow>
          (case dialogue connection_id (width, height, dpi, False) (\<lambda>names. join_arg_values names read_only) l of
             (Inl e, _) \<Rightarrow> Inl e
           | (Inr _, l) \<Rightarrow> Inr l))"

section \<open>The reader takes exactly one instruction\<close>

lemma guacd_length_iff:
  "guacd_length eof len d s = Inr (n, r) \<longleftrightarrow>
     (\<exists>ds. list_all is_ascii_digit ds \<and> d + length ds \<le> max d 9 \<and> 0 < d + length ds \<and>
        s = ds @ CHR ''.'' # r \<and> n = digits_val len ds)"
proof (induction eof len d s rule: guacd_length.induct)
  case (2 eof len d b s)
  have split: "(\<exists>ds. P ds) \<longleftrightarrow> P [] \<or> (\<exists>c ds. P (c # ds))" for P :: "str \<Rightarrow> bool"
    by (metis neq_Nil_conv)
  show ?case
  proof (cases "is_ascii_digit b \<and> d < 9")
    case True
    then have "b \<noteq> CHR ''.''" by auto
    with True 2 show ?thesis by (subst split) (auto simp: mult.commute max_def)
  next
    case False
    then show ?thesis by (subst split) (auto simp: max_def split: if_splits)
  qed
qed simp

lemma digits_val_bound:
  "list_all is_ascii_digit ds \<Longrightarrow> digits_val acc ds < (acc + 1) * 10 ^ length ds"
proof (induction ds arbitrary: acc)
  case (Cons c ds)
  have "digit_value c < 10" using Cons.prems by (auto simp: is_ascii_digit_def digit_value_def)
  then have "(10 * acc + digit_value c + 1) * 10 ^ length ds \<le> (10 * acc + 10) * 10 ^ length ds"
    by (intro mult_right_mono) auto
  also have "\<dots> = (acc + 1) * 10 ^ length (c # ds)" by (simp add: algebra_simps)
  finally show ?case using Cons.IH [of "10 * acc + digit_value c"] Cons.prems by simp
qed simp

lemma show_nat_length: "n < 10 ^ k \<Longrightarrow> 0 < k \<Longrightarrow> length (show_nat n) \<le> k"
proof (induction k arbitrary: n)
  case (Suc k)
  show ?case
  proof (cases "n < 10")
    case False
    then have "n div 10 < 10 ^ k" "0 < k" using Suc.prems by (cases k; simp; linarith)+
    from Suc.IH [OF this] False show ?thesis by (subst show_nat.simps) simp
  qed (subst show_nat.simps, simp)
qed simp

lemma more_bytes_width: "more_bytes c = Some k \<Longrightarrow> char_width c = Some (Suc k)"
  by (auto simp: more_bytes_def char_width_def Let_def split: if_splits)

lemma guacd_bytes_complete: "read_bytes eof (length bs) (bs @ r) = Inr (bs, r)"
  by (induction bs) simp_all

lemma guacd_value_skip:
  "guacd_value eof n s = Inr (v, r) \<Longrightarrow> skip_chars n s = Some (v, r) \<and> (\<forall>t eof'. guacd_value eof' n (v @ t) = Inr (v, t))"
proof (induction n arbitrary: s v)
  case (Suc n)
  then obtain lead s1 k bs s2 v' where s: "s = lead # s1" "more_bytes lead = Some k"
      "read_bytes eof k s1 = Inr (bs, s2)" "guacd_value eof n s2 = Inr (v', r)" "v = lead # bs @ v'"
    by (auto split: sum.splits option.splits)
  note b = read_bytes_append [OF s(3)] and ih = Suc.IH [OF s(4)]
  have "skip_chars (Suc n) s = Some (v, r)"
    using s b ih more_bytes_width [OF s(2)] by simp
  moreover have "guacd_value eof' (Suc n) (v @ t) = Inr (v, t)" for t eof'
    using guacd_bytes_complete [of eof' bs "v' @ t"] s(2,5) b ih by simp
  ultimately show ?case by blast
qed simp

lemma guacd_element_sound:
  assumes "guacd_element eof s = Inr ((v, b), r)"
  shows "\<exists>w. element_text v w \<and> valid_utf8 v \<and> s = w @ b # r \<and> (\<forall>t eof'. guacd_element eof' (w @ b # t) = Inr ((v, b), t))"
proof -
  obtain n s1 where a: "guacd_length eof 0 0 s = Inr (n, s1)" "guacd_value eof n s1 = Inr (v, b # r)" "valid_utf8 v"
    using assms by (auto simp: guacd_element_def split: sum.splits if_splits)
  obtain ds where ds: "list_all is_ascii_digit ds" "length ds \<le> 9" "ds \<noteq> []" "s = ds @ CHR ''.'' # s1" "n = digits_val 0 ds"
    using a(1) by (auto simp: guacd_length_iff)
  note v = guacd_value_skip [OF a(2)]
  have "(10::nat) ^ length ds \<le> 10 ^ 9" using ds(2) by (intro power_increasing) auto
  then have "n < 2 ^ 64" using digits_val_bound [OF ds(1), of 0] ds(5) by simp
  then have "element_text v (ds @ CHR ''.'' # v)"
    using ds skip_chars_exact [OF v [THEN conjunct1]]
    by (intro element_text.element [of ds n]) (simp_all add: parse_unsigned_digits)
  moreover have "guacd_length eof' 0 0 ((ds @ CHR ''.'' # v) @ b # t) = Inr (n, v @ b # t)" for eof' t
    unfolding guacd_length_iff using ds by (intro exI [of _ ds]) simp
  then have "guacd_element eof' ((ds @ CHR ''.'' # v) @ b # t) = Inr ((v, b), t)" for eof' t
    using v a(3) by (simp add: guacd_element_def)
  moreover have "s = (ds @ CHR ''.'' # v) @ b # r" using ds(4) guacd_value_append [OF a(2)] by simp
  ultimately show ?thesis using a(3) by blast
qed

lemma guacd_elements_sound:
  "guacd_elements eof s = Inr (vs, r) \<Longrightarrow>
   \<exists>w. instr_text vs w \<and> list_all valid_utf8 vs \<and> s = w @ r \<and> (\<forall>t eof'. guacd_elements eof' (w @ t) = Inr (vs, t))"
proof (induction eof s arbitrary: vs rule: guacd_elements.induct)
  case (1 eof s)
  obtain v b s' where e: "guacd_element eof s = Inr ((v, b), s')"
    using "1.prems" by (subst (asm) guacd_elements.simps) (auto split: sum.splits)
  obtain w where w: "element_text v w" "valid_utf8 v" "s = w @ b # s'"
      "\<And>t eof'. guacd_element eof' (w @ b # t) = Inr ((v, b), t)"
    using guacd_element_sound [OF e] by blast
  show ?case
  proof (cases "b = CHR '',''")
    case True
    then obtain vs' where vs: "guacd_elements eof s' = Inr (vs', r)" "vs = v # vs'"
      using "1.prems" e by (subst (asm) guacd_elements.simps) (auto split: sum.splits)
    from "1.IH" [OF e refl refl True vs(1)]
    obtain w' where w': "instr_text vs' w'" "list_all valid_utf8 vs'" "s' = w' @ r"
      "\<And>t eof'. guacd_elements eof' (w' @ t) = Inr (vs', t)" by blast
    have "instr_text vs (w @ CHR '','' # w')" unfolding vs(2) using w(1) w'(1) by (rule instr_text.more)
    moreover have "guacd_elements eof' ((w @ CHR '','' # w') @ t) = Inr (vs, t)" for t eof'
      using w(4) w'(4) True vs(2) by (subst guacd_elements.simps) simp
    moreover have "s = (w @ CHR '','' # w') @ r" using w(3) w'(3) True by simp
    ultimately show ?thesis using w(2) w'(2) vs(2) by (intro exI [of _ "w @ CHR '','' # w'"]) simp
  next
    case False
    then have b: "b = CHR '';''" "vs = [v]" "s' = r"
      using "1.prems" e by (subst (asm) guacd_elements.simps, simp split: if_splits)+
    have "instr_text vs (w @ [CHR '';''])" unfolding b(2) using w(1) by (rule instr_text.last_element)
    moreover have "guacd_elements eof' ((w @ [CHR '';'']) @ t) = Inr (vs, t)" for t eof'
      using w(4) b by (subst guacd_elements.simps) simp
    moreover have "s = (w @ [CHR '';'']) @ r" using w(3) b by simp
    ultimately show ?thesis using w(2) b(2) by (intro exI [of _ "w @ [CHR '';'']"]) simp
  qed
qed

text \<open>
  C19: The reader of the handshake takes one instruction and not a byte more. What it consumes is
  an instruction of the wire grammar (lengths in characters) holding exactly the elements it
  returns, so the framing scanner of the proxy cuts at the same place, and the result depends
  neither on what follows nor on how the stream ends.
\<close>

theorem read_instruction_exact:
  assumes "guacd_read_instruction eof s = Inr (i, r)"
  shows "scan_instruction s = Some r \<and>
    (\<exists>w. s = w @ r \<and> instr_text (instruction_elements i) w \<and> list_all valid_utf8 (instruction_elements i) \<and>
       (\<forall>t eof'. guacd_read_instruction eof' (w @ t) = Inr (i, t)))"
proof -
  obtain vs where vs: "guacd_elements eof s = Inr (vs, r)" and i: "i = \<lparr>i_opcode = hd vs, i_args = tl vs\<rparr>"
    using assms by (auto simp: guacd_read_instruction_def split: sum.splits)
  obtain w where w: "instr_text vs w" "list_all valid_utf8 vs" "s = w @ r"
      "\<And>t eof'. guacd_elements eof' (w @ t) = Inr (vs, t)"
    using guacd_elements_sound [OF vs] by blast
  have "vs \<noteq> []" using w(1) by cases auto
  then have "instruction_elements i = vs" by (simp add: i instruction_elements_def)
  moreover have "guacd_read_instruction eof' (w @ t) = Inr (i, t)" for t eof'
    by (simp add: guacd_read_instruction_def w(4) i)
  ultimately show ?thesis using w(1-3) scan_instruction_complete [OF w(1)] by blast
qed

section \<open>The handshakes on a well-behaved guacd\<close>

text \<open>Elements guacd can send: ASCII, shorter than the nine digits of a length allow.\<close>

definition plain :: "str list \<Rightarrow> bool" where
  "plain es \<longleftrightarrow> list_all (\<lambda>e. list_all is_ascii e \<and> length e < 10 ^ 9) es"

lemma guacd_value_ascii:
  "list_all is_ascii v \<Longrightarrow> guacd_value eof (length v) (v @ t) = Inr (v, t)"
proof (induction v)
  case (Cons c v)
  then have "more_bytes c = Some 0" by (simp add: more_bytes_def is_ascii_def)
  with Cons show ?case by simp
qed simp

lemma guacd_element_encode:
  assumes "list_all is_ascii e" "length e < 10 ^ 9"
  shows "guacd_element eof (encode_element e @ b # t) = Inr ((e, b), t)"
proof -
  have "guacd_length eof 0 0 (show_nat (length e) @ CHR ''.'' # e @ b # t) = Inr (length e, e @ b # t)"
    unfolding guacd_length_iff using show_nat_length [OF assms(2)]
    by (intro exI [of _ "show_nat (length e)"]) simp
  then show ?thesis
    using assms by (simp add: guacd_element_def encode_element_def guacd_value_ascii valid_utf8_ascii)
qed

lemma guacd_elements_encode:
  "plain (es @ [e]) \<Longrightarrow>
   guacd_elements eof (concat (map (\<lambda>e. encode_element e @ [CHR '','']) es) @ encode_element e @ CHR '';'' # t) =
     Inr (es @ [e], t)"
proof (induction es)
  case Nil
  then show ?case by (subst guacd_elements.simps) (simp add: plain_def guacd_element_encode)
next
  case (Cons x es)
  then show ?case by (subst guacd_elements.simps) (simp add: plain_def guacd_element_encode)
qed

lemma guacd_read_encode:
  assumes "plain (instruction_elements i)"
  shows "guacd_read_instruction eof (encode i @ t) = Inr (i, t)"
proof -
  obtain es e where ie: "instruction_elements i = es @ [e]"
    by (cases "instruction_elements i" rule: rev_cases) (auto simp: instruction_elements_def)
  have "hd (es @ [e]) = i_opcode i" "tl (es @ [e]) = i_args i"
    unfolding ie [symmetric] by (simp_all add: instruction_elements_def)
  then show ?thesis
    using guacd_elements_encode [of es e eof t] assms
    by (simp add: guacd_read_instruction_def encode_alt [OF ie] ie)
qed

lemma instr_simps [simp]: "i_opcode (instr op args) = op" "i_args (instr op args) = args"
  by (simp_all add: instr_def)

lemma send_all_ok:
  "l_write_error l = (\<lambda>_. None) \<Longrightarrow> send_all is l = (Inr (), l\<lparr>l_out := l_out l @ map encode is\<rparr>)"
  by (induction "is" arbitrary: l) (simp_all add: return_on_def then_on_def send_def)

lemma dialogue_ok:
  assumes "l_write_error l = (\<lambda>_. None)"
    and "l_in l = encode (instr ''args'' names) @ encode (instr ''ready'' ids) @ rest"
    and "plain names" "plain ids"
  shows "dialogue selected (width, height, dpi, h264) values l =
    (Inr (instr ''ready'' ids), l\<lparr>l_in := rest, l_out := l_out l @ map encode (instr ''select'' [selected] #
       handshake_instructions width height dpi h264 @ [instr ''connect'' (values names)])\<rparr>)"
proof -
  have p: "plain (instruction_elements (instr ''args'' names))" "plain (instruction_elements (instr ''ready'' ids))"
    using assms(3,4) by (simp_all add: instr_def instruction_elements_def plain_def is_ascii_def byte_of_def)
  show ?thesis
    using assms(1,2)
    by (simp add: dialogue_def then_on_def send_def receive_def guacd_read_encode [OF p(1)] guacd_read_encode [OF p(2)]
        send_handshake_def send_all_ok return_on_def)
qed

text \<open>
  C18: The handshake with a guacd that keeps the protocol. The values are sent in the order in
  which guacd names its arguments, after \<open>select\<close> and the description of the client; the
  connection id is the one of \<open>ready\<close>; and everything guacd sends after \<open>ready\<close>, even in the
  same packet, is left for the proxy.
\<close>

theorem handshake_correct:
  assumes "l_write_error l = (\<lambda>_. None)"
    and "l_in l = encode (instr ''args'' names) @ encode (instr ''ready'' (cid # ids)) @ rest"
    and "plain names" "plain (cid # ids)"
    and "screen params = (width, height, dpi, h264)"
  shows "connect_and_handshake (Inr l) params =
    Inr (l\<lparr>l_in := rest, l_out := l_out l @ map encode (instr ''select'' [protocol_name params] #
       handshake_instructions width height dpi h264 @ [instr ''connect'' (map (arg_value params) names)])\<rparr>, cid)"
  using dialogue_ok [OF assms(1-4), of _ width height dpi h264] assms(5)
  by (simp add: connect_and_handshake_def)

definition demo_vnc :: vnc_params where
  "demo_vnc = \<lparr>vp_hostname = ''10.0.0.5'', vp_port = 5900, vp_username = None, vp_password = Some ''pw'',
     vp_color_depth = None, vp_width = 800, vp_height = 600, vp_dpi = 96, vp_disable_copy = False,
     vp_disable_paste = True, vp_display_resize = False, vp_encodings = None, vp_compress_level = None,
     vp_quality_level = None, vp_wol = wol_default\<rparr>"

definition demo_link :: link where
  "demo_link = \<lparr>l_in = encode (instr ''args'' [''hostname'', ''disable-paste'', ''new'']) @ encode (instr ''ready'' [''$1''])
       @ ''4.sync,1.0;'', l_eof = Connection [], l_write_error = (\<lambda>_. None), l_out = []\<rparr>"

theorem handshake_correct_witness:
  "\<exists>l. connect_and_handshake (Inr demo_link) (Vnc demo_vnc) = Inr (l, ''$1'') \<and> l_in l = ''4.sync,1.0;'' \<and>
     last (l_out l) = encode (instr ''connect'' [''10.0.0.5'', ''true'', []])"
proof -
  note h = handshake_correct [of demo_link "[''hostname'', ''disable-paste'', ''new'']" "''$1''" "[]" "''4.sync,1.0;''"
      "Vnc demo_vnc" 800 600 96 False]
  have v: "map (arg_value (Vnc demo_vnc)) [''hostname'', ''disable-paste'', ''new''] = [''10.0.0.5'', ''true'', []]"
    by (simp add: vnc_arg_value_def demo_vnc_def or_wol_def wol_arg_value_def flag_def or_default_def)
  have s: "screen (Vnc demo_vnc) = (800, 600, 96, False)" by (simp add: demo_vnc_def)
  show ?thesis
    by (subst h) (simp_all only: s v, simp_all add: demo_link_def plain_def is_ascii_def byte_of_def)
qed

text \<open>
  A viewer's rights are decided by the gateway. A joining user sends empty values for every
  argument guacd names except \<open>read-only\<close>, which says whether the join is view-only, to the
  connection of the session.
\<close>

theorem join_read_only:
  assumes "l_write_error l = (\<lambda>_. None)"
    and "l_in l = encode (instr ''args'' names) @ encode (instr ''ready'' ids) @ rest"
    and "plain names" "plain ids" and "k < length names"
  shows "\<exists>values l'. join_connection (Inr l) cid width height dpi read_only = Inr l' \<and> l_in l' = rest \<and>
    l_out l' = l_out l @ map encode (instr ''select'' [cid] #
       handshake_instructions width height dpi False @ [instr ''connect'' values]) \<and>
    length values = length names \<and>
    values ! k = (if names ! k = ''read-only'' then if read_only then ''true'' else ''false'' else [])"
  using dialogue_ok [OF assms(1-4), of cid width height dpi False "\<lambda>names. join_arg_values names read_only"] assms(5)
  by (intro exI [of _ "join_arg_values names read_only"]) (simp add: join_connection_def join_arg_values_def flag_def)

theorem join_read_only_witness:
  "\<exists>values l'. join_connection (Inr (demo_link\<lparr>l_in := encode (instr ''args'' [''hostname'', ''read-only'']) @
       encode (instr ''ready'' [])\<rparr>)) ''$1'' 800 600 96 True = Inr l' \<and>
     last (l_out l') = encode (instr ''connect'' values) \<and> values ! 1 = ''true''"
  using join_read_only [of "demo_link\<lparr>l_in := encode (instr ''args'' [''hostname'', ''read-only'']) @
      encode (instr ''ready'' [])\<rparr>" "[''hostname'', ''read-only'']" "[]" "[]" 1 "''$1''" 800 600 96 True]
  by (auto simp: demo_link_def plain_def is_ascii_def byte_of_def)

theorem read_instruction_exact_witness:
  "scan_instruction ''4.name,1.a;4.sync,1.0;'' = Some ''4.sync,1.0;''"
proof -
  have "encode (instr ''name'' [''a'']) = ''4.name,1.a;''"
    by (simp add: encode_def encode_element_def show_nat.simps digit_char_def)
  then have "guacd_read_instruction (Io []) ''4.name,1.a;4.sync,1.0;'' = Inr (instr ''name'' [''a''], ''4.sync,1.0;'')"
    using guacd_read_encode [of "instr ''name'' [''a'']" "Io []" "''4.sync,1.0;''"]
    by (simp add: plain_def instruction_elements_def is_ascii_def byte_of_def)
  from read_instruction_exact [OF this] show ?thesis by (rule conjunct1)
qed

end
