(* ===== verification/Net_Addr.thy ===== *)
theory Net_Addr
  imports Text_Ops "HOL-Library.Monad_Syntax"
begin

text \<open>
  The textual addresses \<^verbatim>\<open>src/src/auth.rs\<close> reads: \<open>str::parse\<close> of \<open>IpAddr\<close> and
  \<open>SocketAddr\<close>, as \<open>core::net::parser\<close> of the Rust standard library does it. A reader takes
  a text and returns a value and the rest, or \<open>None\<close> with nothing consumed.
\<close>

datatype ip_addr = Ipv4 "nat list" | Ipv6 "nat list"

type_synonym 'a reader = "str \<Rightarrow> ('a \<times> str) option"

definition digit_of :: "nat \<Rightarrow> char \<Rightarrow> nat option" where
  "digit_of radix c =
     (let b = byte_of c;
          d = (if 48 \<le> b \<and> b \<le> 57 then b - 48 else if 97 \<le> b \<and> b \<le> 102 then b - 87
               else if 65 \<le> b \<and> b \<le> 70 then b - 55 else radix)
      in if d < radix then Some d else None)"

fun number_value :: "nat \<Rightarrow> nat \<Rightarrow> str \<Rightarrow> nat" where
  "number_value radix acc [] = acc"
| "number_value radix acc (c # cs) =
     number_value radix (radix * acc + (case digit_of radix c of None \<Rightarrow> 0 | Some d \<Rightarrow> d)) cs"

text \<open>\<open>read_number\<close>: \<open>bound\<close> is \<open>T::MAX + 1\<close> of the integer type read.\<close>

definition read_number :: "nat \<Rightarrow> nat option \<Rightarrow> bool \<Rightarrow> nat \<Rightarrow> nat reader" where
  "read_number radix max_digits allow_zero_prefix bound s =
     (let ds = takeWhile (\<lambda>c. digit_of radix c \<noteq> None) s;
          n = number_value radix 0 ds
      in if ds = [] \<or> bound \<le> n \<or> (case max_digits of None \<Rightarrow> False | Some m \<Rightarrow> m < length ds) \<or>
            (\<not> allow_zero_prefix \<and> hd ds = CHR ''0'' \<and> 1 < length ds) then None
         else Some (n, dropWhile (\<lambda>c. digit_of radix c \<noteq> None) s))"

fun read_char :: "char \<Rightarrow> unit reader" where
  "read_char c [] = None"
| "read_char c (x # xs) = (if x = c then Some ((), xs) else None)"

definition read_separator :: "char \<Rightarrow> nat \<Rightarrow> 'a reader \<Rightarrow> 'a reader" where
  "read_separator sep index inner s =
     (if index = 0 then inner s
      else (case read_char sep s of None \<Rightarrow> None | Some (_, r) \<Rightarrow> inner r))"

fun read_octets :: "nat \<Rightarrow> nat \<Rightarrow> nat list reader" where
  "read_octets i 0 s = Some ([], s)"
| "read_octets i (Suc n) s =
     (case read_separator CHR ''.'' i (read_number 10 (Some 3) False 256) s of
        None \<Rightarrow> None
      | Some (v, r) \<Rightarrow> map_option (\<lambda>(vs, r). (v # vs, r)) (read_octets (i + 1) n r))"

definition read_ipv4 :: "nat list reader" where
  "read_ipv4 = read_octets 0 4"

text \<open>\<open>read_groups\<close>: groups \<open>i\<close> to \<open>i + n\<close>; the flag tells a trailing IPv4 address.\<close>

fun read_groups :: "nat \<Rightarrow> nat \<Rightarrow> str \<Rightarrow> nat list \<times> bool \<times> str" where
  "read_groups i 0 s = ([], False, s)"
| "read_groups i (Suc n) s =
     (case (if 0 < n then read_separator CHR '':'' i read_ipv4 s else None) of
        Some (v, r) \<Rightarrow> ([v ! 0 * 256 + v ! 1, v ! 2 * 256 + v ! 3], True, r)
      | None \<Rightarrow>
          (case read_separator CHR '':'' i (read_number 16 (Some 4) True 65536) s of
             None \<Rightarrow> ([], False, s)
           | Some (g, r) \<Rightarrow> (case read_groups (i + 1) n r of (gs, v4, r') \<Rightarrow> (g # gs, v4, r'))))"

definition read_ipv6 :: "nat list reader" where
  "read_ipv6 s =
     (case read_groups 0 8 s of
        (head, head_ipv4, r) \<Rightarrow>
          if length head = 8 then Some (head, r)
          else if head_ipv4 then None
          else
            (case Option.bind (read_char CHR '':'' r) (\<lambda>(_, r). read_char CHR '':'' r) of
               None \<Rightarrow> None
             | Some (_, r) \<Rightarrow>
                 (case read_groups 0 (8 - (length head + 1)) r of
                    (tail, _, r) \<Rightarrow> Some (head @ replicate (8 - length head - length tail) 0 @ tail, r))))"

definition read_ip :: "ip_addr reader" where
  "read_ip s =
     (case read_ipv4 s of
        Some (v, r) \<Rightarrow> Some (Ipv4 v, r)
      | None \<Rightarrow> map_option (\<lambda>(v, r). (Ipv6 v, r)) (read_ipv6 s))"

definition read_port :: "nat reader" where
  "read_port s = Option.bind (read_char CHR '':'' s) (\<lambda>(_, r). read_number 10 None True 65536 r)"

text \<open>\<open>read_scope_id\<close> is optional; its value does not matter to \<open>SocketAddr::ip\<close>.\<close>

definition skip_scope_id :: "str \<Rightarrow> str" where
  "skip_scope_id s =
     (case Option.bind (read_char CHR ''%'' s) (\<lambda>(_, r). read_number 10 None True (2 ^ 32) r) of
        None \<Rightarrow> s
      | Some (_, r) \<Rightarrow> r)"

definition read_socket_v4 :: "ip_addr reader" where
  "read_socket_v4 s =
     do { (v, r) \<leftarrow> read_ipv4 s; (_, r) \<leftarrow> read_port r; Some (Ipv4 v, r) }"

definition read_socket_v6 :: "ip_addr reader" where
  "read_socket_v6 s =
     do { (_, r) \<leftarrow> read_char CHR ''['' s;
          (v, r) \<leftarrow> read_ipv6 r;
          (_, r) \<leftarrow> read_char CHR '']'' (skip_scope_id r);
          (_, r) \<leftarrow> read_port r;
          Some (Ipv6 v, r) }"

definition parse_with :: "'a reader \<Rightarrow> str \<Rightarrow> 'a option" where
  "parse_with f s = (case f s of Some (v, []) \<Rightarrow> Some v | _ \<Rightarrow> None)"

definition parse_ip_addr :: "str \<Rightarrow> ip_addr option" where
  "parse_ip_addr = parse_with read_ip"

definition parse_socket_ip :: "str \<Rightarrow> ip_addr option" where
  "parse_socket_ip =
     parse_with (\<lambda>s. case read_socket_v4 s of Some r \<Rightarrow> Some r | None \<Rightarrow> read_socket_v6 s)"

section \<open>What is read\<close>

fun ip_ok :: "ip_addr \<Rightarrow> bool" where
  "ip_ok (Ipv4 os) \<longleftrightarrow> length os = 4 \<and> (\<forall>v\<in>set os. v < 256)"
| "ip_ok (Ipv6 gs) \<longleftrightarrow> length gs = 8 \<and> (\<forall>v\<in>set gs. v < 65536)"

lemma read_number_less: "read_number radix m z bound s = Some (n, r) \<Longrightarrow> n < bound"
  by (auto simp: read_number_def Let_def split: if_splits option.splits)

lemma read_separator_Some:
  "read_separator sep i f s = Some x \<Longrightarrow> \<exists>t. f t = Some x"
  by (auto simp: read_separator_def split: if_splits option.splits)

lemma read_octets_ok: "read_octets i n s = Some (vs, r) \<Longrightarrow> length vs = n \<and> (\<forall>v\<in>set vs. v < 256)"
proof (induction i n s arbitrary: vs r rule: read_octets.induct)
  case (2 i n s)
  then obtain v r1 vs' where v: "read_separator CHR ''.'' i (read_number 10 (Some 3) False 256) s = Some (v, r1)"
      "read_octets (i + 1) n r1 = Some (vs', r)" "vs = v # vs'"
    by (auto split: option.splits)
  then show ?case using 2(1) [OF v(1) refl] by (auto dest!: read_separator_Some read_number_less)
qed simp

lemma read_ipv4_ok: "read_ipv4 s = Some (vs, r) \<Longrightarrow> length vs = 4 \<and> (\<forall>v\<in>set vs. v < 256)"
  by (simp add: read_ipv4_def read_octets_ok)

lemma octet_pair_less: "(a::nat) < 256 \<Longrightarrow> b < 256 \<Longrightarrow> a * 256 + b < 65536"
  by simp

lemma read_groups_ok:
  "read_groups i n s = (gs, v4, r) \<Longrightarrow> length gs \<le> n \<and> (\<forall>g\<in>set gs. g < 65536)"
proof (induction i n s arbitrary: gs v4 r rule: read_groups.induct)
  case (2 i n s)
  show ?case
  proof (cases "if 0 < n then read_separator CHR '':'' i read_ipv4 s else None")
    case None
    then show ?thesis using 2
      by (auto split: option.splits prod.splits dest!: read_separator_Some read_number_less)
  next
    case (Some x)
    then obtain v r1 where x: "x = (v, r1)" "0 < n" "\<exists>t. read_ipv4 t = Some (v, r1)"
      by (cases x) (auto split: if_splits dest: read_separator_Some)
    then have "length v = 4" "\<forall>b\<in>set v. b < 256" by (auto dest: read_ipv4_ok)
    then have "v ! 0 * 256 + v ! 1 < 65536" "v ! 2 * 256 + v ! 3 < 65536"
      by (simp_all add: octet_pair_less)
    then show ?thesis using 2(2) Some x by auto
  qed
qed simp

lemma read_ipv6_ok: "read_ipv6 s = Some (gs, r) \<Longrightarrow> ip_ok (Ipv6 gs)"
  by (fastforce simp: read_ipv6_def split: prod.splits if_splits option.splits dest: read_groups_ok)

lemma parse_ip_addr_ok: "parse_ip_addr s = Some ip \<Longrightarrow> ip_ok ip"
  by (auto simp: parse_ip_addr_def parse_with_def read_ip_def split: option.splits list.splits
      dest!: read_ipv4_ok read_ipv6_ok)

lemma parse_socket_ip_ok: "parse_socket_ip s = Some ip \<Longrightarrow> ip_ok ip"
  by (auto simp: parse_socket_ip_def parse_with_def read_socket_v4_def read_socket_v6_def bind_eq_Some_conv
      split: option.splits list.splits prod.splits dest!: read_ipv4_ok read_ipv6_ok)

end
