(* ===== verification/Accounts.thy ===== *)
theory Accounts
  imports Net_Addr
begin

text \<open>
  \<^verbatim>\<open>src/src/db.rs\<close>: administrators, users, login sessions, API tokens and group mappings. A
  table is the list of its rows in rowid order, with the counter of an \<open>AUTOINCREMENT\<close> key;
  a statement is the list operation its SQL text denotes, with the \<open>UNIQUE\<close>, \<open>NOT NULL\<close>
  and \<open>REFERENCES\<close> constraints of the schema as error values (the bundled SQLite enforces
  foreign keys). Every operation holds the connection's mutex throughout, so a history is a
  sequence of operations. A fresh key or token is an argument of the operation that
  generates it. Failures of the database itself (I/O, full disk) are not modelled.

  Code outside the repository is the record \<open>platform\<close>: SHA-256 in hex, SQLite's
  \<open>datetime\<close> text of a number of seconds, chrono's parsers (instants in nanoseconds) and
  the \<open>IpNetwork\<close> parser with its membership test.
\<close>

record platform =
  pf_hash :: "str \<Rightarrow> str"
  pf_datetime :: "nat \<Rightarrow> str"
  pf_rfc3339 :: "str \<Rightarrow> int option"
  pf_naive :: "str \<Rightarrow> str \<Rightarrow> int option"
  pf_date :: "str \<Rightarrow> int option"
  pf_network :: "str \<Rightarrow> (ip_addr \<Rightarrow> bool) option"

section \<open>Rows and tables\<close>

record admin_info =
  a_id :: int
  a_name :: str
  a_allowed_ips :: "str option"
  a_expires_at :: "str option"
  a_disabled :: bool
  a_created_at :: str
  a_last_used_at :: "str option"

record user =
  u_id :: int
  u_email :: str
  u_name :: str
  u_oidc_subject :: "str option"
  u_role :: str
  u_disabled :: bool
  u_created_at :: str
  u_last_login_at :: "str option"
  u_oidc_groups :: str

record user_api_token =
  t_id :: int
  t_user_id :: int
  t_name :: str
  t_max_role :: "str option"
  t_expires_at :: "str option"
  t_disabled :: bool
  t_created_at :: str
  t_last_used_at :: "str option"

record auth_session =
  s_token_hash :: str
  s_user_id :: int
  s_created_at :: str
  s_expires_at :: str

record group_role_mapping =
  g_id :: int
  g_oidc_group :: str
  g_role :: str
  g_created_at :: str

record seen_group =
  sg_name :: str
  sg_first_seen :: str
  sg_last_seen :: str

text \<open>Administrators and tokens are stored with the hash of their key.\<close>

record database =
  db_admins :: "(admin_info \<times> str) list"
  db_admins_seq :: int
  db_users :: "user list"
  db_users_seq :: int
  db_sessions :: "auth_session list"
  db_mappings :: "group_role_mapping list"
  db_mappings_seq :: int
  db_seen_groups :: "seen_group list"
  db_tokens :: "(user_api_token \<times> str) list"
  db_tokens_seq :: int

definition init_db :: database where
  "init_db = \<lparr>db_admins = [], db_admins_seq = 0, db_users = [], db_users_seq = 0, db_sessions = [],
     db_mappings = [], db_mappings_seq = 0, db_seen_groups = [], db_tokens = [], db_tokens_seq = 0\<rparr>"

datatype db_error = Unique_violation | Foreign_key_violation | Not_null_violation | Query_returned_no_rows

text \<open>\<open>UPDATE ... WHERE\<close> and \<open>DELETE ... WHERE\<close>, and whether they change a row.\<close>

definition update_rows :: "('a \<Rightarrow> bool) \<Rightarrow> ('a \<Rightarrow> 'a) \<Rightarrow> 'a list \<Rightarrow> 'a list" where
  "update_rows P f xs = map (\<lambda>x. if P x then f x else x) xs"

definition delete_rows :: "('a \<Rightarrow> bool) \<Rightarrow> 'a list \<Rightarrow> 'a list" where
  "delete_rows P xs = filter (\<lambda>x. \<not> P x) xs"

definition changed :: "('a \<Rightarrow> bool) \<Rightarrow> 'a list \<Rightarrow> bool" where
  "changed P xs = list_ex P xs"

text \<open>\<open>query_row\<close>: the first row.\<close>

definition query_row :: "('a \<Rightarrow> bool) \<Rightarrow> 'a list \<Rightarrow> db_error + 'a" where
  "query_row P xs = (case List.find P xs of None \<Rightarrow> Inl Query_returned_no_rows | Some x \<Rightarrow> Inr x)"

text \<open>The text of \<open>datetime('now')\<close>, with \<open>now\<close> in nanoseconds.\<close>

definition datetime_now :: "platform \<Rightarrow> nat \<Rightarrow> str" where
  "datetime_now pf now = pf_datetime pf (now div 10 ^ 9)"

section \<open>Administrators\<close>

definition groups_vec :: "user \<Rightarrow> str list" where
  "groups_vec u = (if u_oidc_groups u = [] then [] else split_on CHR '','' (u_oidc_groups u))"

definition parse_expires_at :: "platform \<Rightarrow> str \<Rightarrow> int option" where
  "parse_expires_at pf s =
     (let s = trim s in
      case pf_rfc3339 pf s of
        Some t \<Rightarrow> Some t
      | None \<Rightarrow>
          (case find_map (\<lambda>fmt. pf_naive pf fmt s) [''%Y-%m-%d %H:%M:%S'', ''%Y-%m-%dT%H:%M:%S''] of
             Some t \<Rightarrow> Some t
           | None \<Rightarrow> map_option (\<lambda>midnight. midnight + (23 * 3600 + 59 * 60 + 59) * 10 ^ 9) (pf_date pf s)))"

definition add_admin ::
  "platform \<Rightarrow> nat \<Rightarrow> str \<Rightarrow> str \<Rightarrow> str option \<Rightarrow> str option \<Rightarrow> database \<Rightarrow> db_error + database \<times> str" where
  "add_admin pf now key name allowed_ips expires_at db =
     (if list_ex (\<lambda>(a, _). a_name a = name) (db_admins db) then Inl Unique_violation
      else
        (let uid = db_admins_seq db + 1;
             row = \<lparr>a_id = uid, a_name = name, a_allowed_ips = allowed_ips, a_expires_at = expires_at,
                    a_disabled = False, a_created_at = datetime_now pf now, a_last_used_at = None\<rparr>
         in Inr (db\<lparr>db_admins := db_admins db @ [(row, pf_hash pf key)], db_admins_seq := uid\<rparr>, key)))"

definition list_admins :: "database \<Rightarrow> admin_info list" where
  "list_admins db = sort_key a_id (map fst (db_admins db))"

datatype auth_error = InvalidKey | Disabled | Expired | IpNotAllowed | InvalidSession

definition unexpired :: "platform \<Rightarrow> nat \<Rightarrow> str option \<Rightarrow> bool" where
  "unexpired pf now expires_at =
     (case expires_at of
        None \<Rightarrow> True
      | Some e \<Rightarrow> (case parse_expires_at pf e of Some t \<Rightarrow> int now \<le> t | None \<Rightarrow> False))"

definition ip_allowed :: "platform \<Rightarrow> str option \<Rightarrow> ip_addr option \<Rightarrow> bool" where
  "ip_allowed pf allowed_ips client_ip =
     (case (allowed_ips, client_ip) of
        (Some cidrs, Some ip) \<Rightarrow>
          list_ex (\<lambda>cidr. case pf_network pf (trim cidr) of None \<Rightarrow> False | Some net \<Rightarrow> net ip)
            (split_on CHR '','' cidrs)
      | _ \<Rightarrow> True)"

definition validate_api_key ::
  "platform \<Rightarrow> nat \<Rightarrow> str \<Rightarrow> ip_addr option \<Rightarrow> database \<Rightarrow> (auth_error + admin_info) \<times> database" where
  "validate_api_key pf now key client_ip db =
     (case List.find (\<lambda>(_, stored_hash). pf_hash pf key = stored_hash) (db_admins db) of
        None \<Rightarrow> (Inl InvalidKey, db)
      | Some (admin, _) \<Rightarrow>
          if a_disabled admin then (Inl Disabled, db)
          else if \<not> unexpired pf now (a_expires_at admin) then (Inl Expired, db)
          else if \<not> ip_allowed pf (a_allowed_ips admin) client_ip then (Inl IpNotAllowed, db)
          else (Inr admin,
            db\<lparr>db_admins := update_rows (\<lambda>(a, _). a_id a = a_id admin)
                 (\<lambda>(a, h). (a\<lparr>a_last_used_at := Some (datetime_now pf now)\<rparr>, h)) (db_admins db)\<rparr>))"

definition disable_admin :: "str \<Rightarrow> database \<Rightarrow> database \<times> bool" where
  "disable_admin name db =
     (db\<lparr>db_admins := update_rows (\<lambda>(a, _). a_name a = name) (\<lambda>(a, h). (a\<lparr>a_disabled := True\<rparr>, h)) (db_admins db)\<rparr>,
      changed (\<lambda>(a, _). a_name a = name) (db_admins db))"

definition enable_admin :: "str \<Rightarrow> database \<Rightarrow> database \<times> bool" where
  "enable_admin name db =
     (db\<lparr>db_admins := update_rows (\<lambda>(a, _). a_name a = name) (\<lambda>(a, h). (a\<lparr>a_disabled := False\<rparr>, h)) (db_admins db)\<rparr>,
      changed (\<lambda>(a, _). a_name a = name) (db_admins db))"

definition delete_admin :: "str \<Rightarrow> database \<Rightarrow> database \<times> bool" where
  "delete_admin name db =
     (db\<lparr>db_admins := delete_rows (\<lambda>(a, _). a_name a = name) (db_admins db)\<rparr>,
      changed (\<lambda>(a, _). a_name a = name) (db_admins db))"

definition rotate_key :: "platform \<Rightarrow> str \<Rightarrow> str \<Rightarrow> database \<Rightarrow> database \<times> str option" where
  "rotate_key pf key name db =
     (db\<lparr>db_admins := update_rows (\<lambda>(a, _). a_name a = name) (\<lambda>(a, h). (a, pf_hash pf key)) (db_admins db)\<rparr>,
      if changed (\<lambda>(a, _). a_name a = name) (db_admins db) then Some key else None)"

section \<open>Users\<close>

text \<open>
  \<open>char::is_whitespace\<close> and \<open>char::is_control\<close> over the characters of a text, found by
  their UTF-8 encodings; \<open>chars().count()\<close>.
\<close>

definition has_whitespace :: "str \<Rightarrow> bool" where
  "has_whitespace s \<longleftrightarrow> list_ex (\<lambda>w. contains w s) white_spaces"

definition has_control :: "str \<Rightarrow> bool" where
  "has_control s \<longleftrightarrow>
     list_ex (\<lambda>c. byte_of c < 0x20 \<or> byte_of c = 0x7F) s \<or>
     list_ex (\<lambda>b. contains [CHR 0xC2, char_of b] s) [0x80 ..< 0xA0]"

definition chars_count :: "str \<Rightarrow> nat" where
  "chars_count s = length (filter (\<lambda>c. \<not> is_continuation c) s)"

definition check_user_email :: "str \<Rightarrow> str + unit" where
  "check_user_email email =
     (if email = [] then Inl ''email is required''
      else if 254 < length email then Inl ''email is longer than 254 characters''
      else if has_whitespace email \<or> has_control email
      then Inl ''email must not contain spaces or control characters''
      else if CHR ''@'' \<notin> set email then Inl ''email must contain @''
      else Inr ())"

definition check_user_name :: "str \<Rightarrow> str + unit" where
  "check_user_name name =
     (if 200 < chars_count name then Inl ''name is longer than 200 characters''
      else if has_control name then Inl ''name must not contain control characters''
      else Inr ())"

datatype oidc_login = Login_User user | NoAccount | SubjectMismatch | Ambiguous

datatype email_match = Match_One int "str option" | Match_None | Match_Ambiguous

definition find_user_for_email :: "str \<Rightarrow> database \<Rightarrow> email_match" where
  "find_user_for_email email db =
     (case List.find (\<lambda>u. u_email u = email) (db_users db) of
        Some u \<Rightarrow> Match_One (u_id u) (u_oidc_subject u)
      | None \<Rightarrow>
          (case filter (\<lambda>u. eq_ignore_ascii_case (u_email u) email) (db_users db) of
             [] \<Rightarrow> Match_None
           | [u] \<Rightarrow> Match_One (u_id u) (u_oidc_subject u)
           | _ \<Rightarrow> Match_Ambiguous))"

definition user_by_id :: "int \<Rightarrow> database \<Rightarrow> db_error + user" where
  "user_by_id uid db = query_row (\<lambda>u. u_id u = uid) (db_users db)"

definition insert_user :: "user \<Rightarrow> database \<Rightarrow> db_error + database \<times> int" where
  "insert_user u db =
     (if list_ex (\<lambda>v. u_email v = u_email u) (db_users db) then Inl Unique_violation
      else
        (let uid = db_users_seq db + 1
         in Inr (db\<lparr>db_users := db_users db @ [u\<lparr>u_id := uid\<rparr>], db_users_seq := uid\<rparr>, uid)))"

definition upsert_user ::
  "platform \<Rightarrow> nat \<Rightarrow> str \<Rightarrow> str \<Rightarrow> str option \<Rightarrow> str \<Rightarrow> str list \<Rightarrow> bool \<Rightarrow> database \<Rightarrow> db_error + database \<times> oidc_login" where
  "upsert_user pf now email name oidc_subject default_role groups create_if_missing db =
     (let groups_str = join_with '','' groups;
          logged_in = (\<lambda>uid db. case user_by_id uid db of Inl e \<Rightarrow> Inl e | Inr u \<Rightarrow> Inr (db, Login_User u))
      in case find_user_for_email email db of
           Match_Ambiguous \<Rightarrow> Inr (db, Ambiguous)
         | Match_One uid recorded \<Rightarrow>
             if recorded \<noteq> None \<and> oidc_subject \<noteq> None \<and> recorded \<noteq> oidc_subject then Inr (db, SubjectMismatch)
             else logged_in uid (db\<lparr>db_users := update_rows (\<lambda>u. u_id u = uid)
               (\<lambda>u. u\<lparr>u_name := name,
                      u_oidc_subject := (case oidc_subject of None \<Rightarrow> u_oidc_subject u | Some s \<Rightarrow> Some s),
                      u_oidc_groups := groups_str, u_last_login_at := Some (datetime_now pf now)\<rparr>) (db_users db)\<rparr>)
         | Match_None \<Rightarrow>
             if create_if_missing then
               (case insert_user \<lparr>u_id = 0, u_email = email, u_name = name, u_oidc_subject = oidc_subject,
                   u_role = default_role, u_disabled = False, u_created_at = datetime_now pf now,
                   u_last_login_at = Some (datetime_now pf now), u_oidc_groups = groups_str\<rparr> db of
                  Inl e \<Rightarrow> Inl e
                | Inr (db, uid) \<Rightarrow> logged_in uid db)
             else Inr (db, NoAccount))"

datatype create_user_error = Exists | Db db_error

definition create_user ::
  "platform \<Rightarrow> nat \<Rightarrow> str \<Rightarrow> str \<Rightarrow> str \<Rightarrow> database \<Rightarrow> create_user_error + database \<times> user" where
  "create_user pf now email name role db =
     (if list_ex (\<lambda>u. eq_ignore_ascii_case (u_email u) email) (db_users db) then Inl Exists
      else
        (case insert_user \<lparr>u_id = 0, u_email = email, u_name = name, u_oidc_subject = None, u_role = role,
            u_disabled = False, u_created_at = datetime_now pf now, u_last_login_at = None, u_oidc_groups = []\<rparr> db of
           Inl e \<Rightarrow> Inl (Db e)
         | Inr (db, uid) \<Rightarrow>
             (case user_by_id uid db of Inl e \<Rightarrow> Inl (Db e) | Inr u \<Rightarrow> Inr (db, u))))"

definition reset_oidc_subject :: "str \<Rightarrow> database \<Rightarrow> db_error + database \<times> str option" where
  "reset_oidc_subject email db =
     (case find_user_for_email email db of
        Match_One uid _ \<Rightarrow>
          (let db = db\<lparr>db_users := update_rows (\<lambda>u. u_id u = uid) (\<lambda>u. u\<lparr>u_oidc_subject := None\<rparr>) (db_users db)\<rparr>
           in case user_by_id uid db of Inl e \<Rightarrow> Inl e | Inr u \<Rightarrow> Inr (db, Some (u_email u)))
      | _ \<Rightarrow> Inr (db, None))"

definition get_user_by_email :: "str \<Rightarrow> database \<Rightarrow> db_error + user" where
  "get_user_by_email email db = query_row (\<lambda>u. u_email u = email) (db_users db)"

definition list_users :: "database \<Rightarrow> user list" where
  "list_users db = sort_key u_id (db_users db)"

definition set_user_role :: "str \<Rightarrow> str \<Rightarrow> database \<Rightarrow> database \<times> bool" where
  "set_user_role email role db =
     (db\<lparr>db_users := update_rows (\<lambda>u. u_email u = email) (\<lambda>u. u\<lparr>u_role := role\<rparr>) (db_users db)\<rparr>,
      changed (\<lambda>u. u_email u = email) (db_users db))"

definition disable_user :: "str \<Rightarrow> database \<Rightarrow> database \<times> bool" where
  "disable_user email db =
     (db\<lparr>db_users := update_rows (\<lambda>u. u_email u = email) (\<lambda>u. u\<lparr>u_disabled := True\<rparr>) (db_users db)\<rparr>,
      changed (\<lambda>u. u_email u = email) (db_users db))"

definition enable_user :: "str \<Rightarrow> database \<Rightarrow> database \<times> bool" where
  "enable_user email db =
     (db\<lparr>db_users := update_rows (\<lambda>u. u_email u = email) (\<lambda>u. u\<lparr>u_disabled := False\<rparr>) (db_users db)\<rparr>,
      changed (\<lambda>u. u_email u = email) (db_users db))"

text \<open>
  \<open>delete_user\<close> deletes sessions and tokens of the user before the user's row, so no
  foreign key refers to the row any more when it goes.
\<close>

definition delete_user :: "str \<Rightarrow> database \<Rightarrow> db_error + database \<times> bool" where
  "delete_user email db =
     (let ids = map u_id (filter (\<lambda>u. u_email u = email) (db_users db));
          sessions = delete_rows (\<lambda>s. s_user_id s \<in> set ids) (db_sessions db);
          tokens = delete_rows (\<lambda>(t, _). t_user_id t \<in> set ids) (db_tokens db)
      in if list_ex (\<lambda>s. s_user_id s \<in> set ids) sessions \<or> list_ex (\<lambda>(t, _). t_user_id t \<in> set ids) tokens
         then Inl Foreign_key_violation
         else Inr (db\<lparr>db_sessions := sessions, db_tokens := tokens,
                db_users := delete_rows (\<lambda>u. u_email u = email) (db_users db)\<rparr>,
              changed (\<lambda>u. u_email u = email) (db_users db)))"

section \<open>Login sessions\<close>

text \<open>The last second SQLite's \<open>datetime\<close> can denote: the end of the year 9999.\<close>

definition SQLITE_DATETIME_MAX :: nat where
  "SQLITE_DATETIME_MAX = 253402300799"

definition create_auth_session ::
  "platform \<Rightarrow> nat \<Rightarrow> str \<Rightarrow> int \<Rightarrow> nat \<Rightarrow> database \<Rightarrow> db_error + database \<times> str" where
  "create_auth_session pf now token user_id ttl_secs db =
     (let token_hash = pf_hash pf token; expires = now div 10 ^ 9 + ttl_secs in
      if SQLITE_DATETIME_MAX < expires then Inl Not_null_violation
      else if list_ex (\<lambda>s. s_token_hash s = token_hash) (db_sessions db) then Inl Unique_violation
      else if \<not> list_ex (\<lambda>u. u_id u = user_id) (db_users db) then Inl Foreign_key_violation
      else Inr (db\<lparr>db_sessions := db_sessions db @
             [\<lparr>s_token_hash = token_hash, s_user_id = user_id, s_created_at = datetime_now pf now,
               s_expires_at = pf_datetime pf expires\<rparr>]\<rparr>, token))"

definition delete_user_sessions :: "int \<Rightarrow> database \<Rightarrow> database \<times> nat" where
  "delete_user_sessions user_id db =
     (db\<lparr>db_sessions := delete_rows (\<lambda>s. s_user_id s = user_id) (db_sessions db)\<rparr>,
      length (filter (\<lambda>s. s_user_id s = user_id) (db_sessions db)))"

definition validate_auth_session :: "platform \<Rightarrow> nat \<Rightarrow> str \<Rightarrow> database \<Rightarrow> auth_error + user" where
  "validate_auth_session pf now token db =
     (case query_row (\<lambda>(s, u). s_token_hash s = pf_hash pf token \<and> datetime_now pf now < s_expires_at s)
         [(s, u). s \<leftarrow> db_sessions db, u \<leftarrow> db_users db, u_id u = s_user_id s] of
        Inl _ \<Rightarrow> Inl InvalidSession
      | Inr (_, u) \<Rightarrow> if u_disabled u then Inl Disabled else Inr u)"

definition delete_auth_session :: "platform \<Rightarrow> str \<Rightarrow> database \<Rightarrow> database \<times> bool" where
  "delete_auth_session pf token db =
     (db\<lparr>db_sessions := delete_rows (\<lambda>s. s_token_hash s = pf_hash pf token) (db_sessions db)\<rparr>,
      changed (\<lambda>s. s_token_hash s = pf_hash pf token) (db_sessions db))"

definition cleanup_expired_sessions :: "platform \<Rightarrow> nat \<Rightarrow> database \<Rightarrow> database \<times> nat" where
  "cleanup_expired_sessions pf now db =
     (db\<lparr>db_sessions := delete_rows (\<lambda>s. s_expires_at s \<le> datetime_now pf now) (db_sessions db)\<rparr>,
      length (filter (\<lambda>s. s_expires_at s \<le> datetime_now pf now) (db_sessions db)))"

section \<open>Group mappings\<close>

definition list_group_mappings :: "database \<Rightarrow> group_role_mapping list" where
  "list_group_mappings db = sort_key g_id (db_mappings db)"

definition create_group_mapping ::
  "platform \<Rightarrow> nat \<Rightarrow> str \<Rightarrow> str \<Rightarrow> database \<Rightarrow> db_error + database \<times> group_role_mapping" where
  "create_group_mapping pf now oidc_group role db =
     (if list_ex (\<lambda>g. g_oidc_group g = oidc_group) (db_mappings db) then Inl Unique_violation
      else
        (let uid = db_mappings_seq db + 1;
             row = \<lparr>g_id = uid, g_oidc_group = oidc_group, g_role = role, g_created_at = datetime_now pf now\<rparr>;
             db = db\<lparr>db_mappings := db_mappings db @ [row], db_mappings_seq := uid\<rparr>
         in case query_row (\<lambda>g. g_id g = uid) (db_mappings db) of Inl e \<Rightarrow> Inl e | Inr g \<Rightarrow> Inr (db, g)))"

definition update_group_mapping :: "int \<Rightarrow> str \<Rightarrow> str \<Rightarrow> database \<Rightarrow> db_error + database \<times> bool" where
  "update_group_mapping mid oidc_group role db =
     (if list_ex (\<lambda>g. g_id g = mid) (db_mappings db) \<and>
         list_ex (\<lambda>g. g_id g \<noteq> mid \<and> g_oidc_group g = oidc_group) (db_mappings db) then Inl Unique_violation
      else Inr (db\<lparr>db_mappings := update_rows (\<lambda>g. g_id g = mid)
             (\<lambda>g. g\<lparr>g_oidc_group := oidc_group, g_role := role\<rparr>) (db_mappings db)\<rparr>,
           changed (\<lambda>g. g_id g = mid) (db_mappings db)))"

definition delete_group_mapping :: "int \<Rightarrow> database \<Rightarrow> database \<times> bool" where
  "delete_group_mapping mid db =
     (db\<lparr>db_mappings := delete_rows (\<lambda>g. g_id g = mid) (db_mappings db)\<rparr>,
      changed (\<lambda>g. g_id g = mid) (db_mappings db))"

definition see_group :: "str \<Rightarrow> seen_group list \<Rightarrow> str \<Rightarrow> seen_group list" where
  "see_group now seen g =
     (let trimmed = trim g in
      if trimmed = [] then seen
      else if list_ex (\<lambda>s. sg_name s = trimmed) seen
      then update_rows (\<lambda>s. sg_name s = trimmed) (\<lambda>s. s\<lparr>sg_last_seen := now\<rparr>) seen
      else seen @ [\<lparr>sg_name = trimmed, sg_first_seen = now, sg_last_seen = now\<rparr>])"

definition upsert_seen_groups :: "platform \<Rightarrow> nat \<Rightarrow> str list \<Rightarrow> database \<Rightarrow> database" where
  "upsert_seen_groups pf now groups db =
     (if groups = [] then db
      else db\<lparr>db_seen_groups := foldl (see_group (datetime_now pf now)) (db_seen_groups db) groups\<rparr>)"

definition role_level :: "str \<Rightarrow> nat" where
  "role_level role =
     (if role = ''admin'' then 4 else if role = ''poweruser'' then 3
      else if role = ''operator'' then 2 else if role = ''viewer'' then 1 else 0)"

definition best_role ::
  "str list \<Rightarrow> nat \<times> str option \<Rightarrow> group_role_mapping \<Rightarrow> nat \<times> str option" where
  "best_role groups best g =
     (if g_oidc_group g \<in> set groups \<and> fst best < role_level (g_role g)
      then (role_level (g_role g), Some (g_role g)) else best)"

definition resolve_role_from_groups :: "str list \<Rightarrow> database \<Rightarrow> str option" where
  "resolve_role_from_groups groups db =
     (if groups = [] then None
      else
        (let mappings = list_group_mappings db in
         if mappings = [] then None else snd (foldl (best_role groups) (0, None) mappings)))"

section \<open>User API tokens\<close>

definition create_user_token ::
  "platform \<Rightarrow> nat \<Rightarrow> str \<Rightarrow> int \<Rightarrow> str \<Rightarrow> str option \<Rightarrow> str option \<Rightarrow> database \<Rightarrow> db_error + database \<times> int \<times> str" where
  "create_user_token pf now raw_key user_id name max_role expires_at db =
     (let token = ''rgu_'' @ raw_key; token_hash = pf_hash pf token; uid = db_tokens_seq db + 1 in
      if list_ex (\<lambda>(t, h). h = token_hash \<or> t_user_id t = user_id \<and> t_name t = name) (db_tokens db)
      then Inl Unique_violation
      else if \<not> list_ex (\<lambda>u. u_id u = user_id) (db_users db) then Inl Foreign_key_violation
      else Inr (db\<lparr>db_tokens := db_tokens db @
             [(\<lparr>t_id = uid, t_user_id = user_id, t_name = name, t_max_role = max_role, t_expires_at = expires_at,
                t_disabled = False, t_created_at = datetime_now pf now, t_last_used_at = None\<rparr>, token_hash)],
             db_tokens_seq := uid\<rparr>, uid, token))"

definition list_user_tokens :: "int \<Rightarrow> database \<Rightarrow> user_api_token list" where
  "list_user_tokens user_id db = sort_key t_id (filter (\<lambda>t. t_user_id t = user_id) (map fst (db_tokens db)))"

definition list_all_user_tokens :: "database \<Rightarrow> (user_api_token \<times> str) list" where
  "list_all_user_tokens db =
     sort_key (\<lambda>(t, _). t_id t) [(t, u_email u). (t, _) \<leftarrow> db_tokens db, u \<leftarrow> db_users db, u_id u = t_user_id t]"

definition validate_user_token ::
  "platform \<Rightarrow> nat \<Rightarrow> str \<Rightarrow> database \<Rightarrow> (auth_error + user \<times> user_api_token) \<times> database" where
  "validate_user_token pf now token db =
     (case List.find (\<lambda>(_, _, stored_hash). pf_hash pf token = stored_hash)
         [(u, t, h). (t, h) \<leftarrow> db_tokens db, u \<leftarrow> db_users db, u_id u = t_user_id t] of
        None \<Rightarrow> (Inl InvalidKey, db)
      | Some (user, token_info, _) \<Rightarrow>
          if t_disabled token_info then (Inl Disabled, db)
          else if u_disabled user then (Inl Disabled, db)
          else if \<not> unexpired pf now (t_expires_at token_info) then (Inl Expired, db)
          else (Inr (user, token_info),
            db\<lparr>db_tokens := update_rows (\<lambda>(t, _). t_id t = t_id token_info)
                 (\<lambda>(t, h). (t\<lparr>t_last_used_at := Some (datetime_now pf now)\<rparr>, h)) (db_tokens db)\<rparr>))"

definition revoke_user_token :: "int \<Rightarrow> int \<Rightarrow> database \<Rightarrow> database \<times> bool" where
  "revoke_user_token user_id token_id db =
     (db\<lparr>db_tokens := delete_rows (\<lambda>(t, _). t_id t = token_id \<and> t_user_id t = user_id) (db_tokens db)\<rparr>,
      changed (\<lambda>(t, _). t_id t = token_id \<and> t_user_id t = user_id) (db_tokens db))"

definition admin_revoke_user_token :: "int \<Rightarrow> database \<Rightarrow> database \<times> bool" where
  "admin_revoke_user_token token_id db =
     (db\<lparr>db_tokens := delete_rows (\<lambda>(t, _). t_id t = token_id) (db_tokens db)\<rparr>,
      changed (\<lambda>(t, _). t_id t = token_id) (db_tokens db))"

definition revoke_all_user_tokens :: "int \<Rightarrow> database \<Rightarrow> database \<times> nat" where
  "revoke_all_user_tokens user_id db =
     (db\<lparr>db_tokens := delete_rows (\<lambda>(t, _). t_user_id t = user_id) (db_tokens db)\<rparr>,
      length (filter (\<lambda>(t, _). t_user_id t = user_id) (db_tokens db)))"

definition token_text_expired :: "str \<Rightarrow> user_api_token \<Rightarrow> bool" where
  "token_text_expired now t \<longleftrightarrow> (case t_expires_at t of None \<Rightarrow> False | Some e \<Rightarrow> e \<le> now)"

definition cleanup_expired_user_tokens :: "platform \<Rightarrow> nat \<Rightarrow> database \<Rightarrow> database \<times> nat" where
  "cleanup_expired_user_tokens pf now db =
     (db\<lparr>db_tokens := delete_rows (\<lambda>(t, _). token_text_expired (datetime_now pf now) t) (db_tokens db)\<rparr>,
      length (filter (\<lambda>(t, _). token_text_expired (datetime_now pf now) t) (db_tokens db)))"

end
