(* ===== verification/Session_Request.thy ===== *)
theory Session_Request
  imports Guacd Accounts Complex_Main
begin

text \<open>
  What a session is asked to be, from \<^verbatim>\<open>src/src/session.rs\<close>: the request, the policy for ad-hoc
  requests, the network fence and the small resolutions (VDI account, typescript name,
  presets, autofill). Settings are the parts of \<^verbatim>\<open>src/src/config.rs\<close> and \<^verbatim>\<open>src/src/drive.rs\<close> they read.

  DNS, URL and certificate parsing, serde and chrono are arguments. \<open>f64\<close> values are rationals.
\<close>

section \<open>Settings\<close>

record drive_config =
  dr_enabled :: bool
  dr_drive_path :: str
  dr_drive_name :: str
  dr_allow_download :: bool
  dr_allow_upload :: bool
  dr_cleanup_on_close :: bool
  dr_retention_secs :: nat

definition drive_config_default :: drive_config where
  "drive_config_default = \<lparr>dr_enabled = False, dr_drive_path = ''./drives'', dr_drive_name = ''Shared Drive'',
     dr_allow_download = True, dr_allow_upload = True, dr_cleanup_on_close = True, dr_retention_secs = 0\<rparr>"

record recording_settings =
  rs_path :: str
  rs_enabled :: bool
  rs_typescript_path :: "str option"
  rs_typescript_name :: "str option"
  rs_create_typescript_path :: bool

record vdi_config =
  vc_enabled :: bool
  vc_default_cpu_limit :: rat
  vc_default_memory_limit :: nat
  vc_idle_timeout_mins :: nat
  vc_allowed_images :: "str list"
  vc_home_base :: "str option"

record config =
  cf_ssh_allowed_networks :: "str list"
  cf_rdp_allowed_networks :: "str list"
  cf_vnc_allowed_networks :: "str list"
  cf_web_allowed_networks :: "str list"
  cf_max_sessions :: nat
  cf_max_sessions_per_user :: nat
  cf_session_pending_timeout_secs :: nat
  cf_session_max_duration_secs :: nat
  cf_session_cleanup_delay_secs :: nat
  cf_recording_path :: str
  cf_recording :: "recording_settings option"
  cf_drive :: "drive_config option"
  cf_vdi :: "vdi_config option"
  cf_rdp_default_auth_pkg :: "str option option"

definition is_drive_enabled :: "drive_config option \<Rightarrow> bool option \<Rightarrow> bool" where
  "is_drive_enabled config override_enabled =
     (case override_enabled of
        Some v \<Rightarrow> v
      | None \<Rightarrow> (case config of None \<Rightarrow> False | Some d \<Rightarrow> dr_enabled d))"

definition drive_config_or_default :: "drive_config option \<Rightarrow> drive_config" where
  "drive_config_or_default config = (case config of None \<Rightarrow> drive_config_default | Some d \<Rightarrow> d)"

definition effective_recording_path :: "config \<Rightarrow> str" where
  "effective_recording_path cf = (case cf_recording cf of Some rec \<Rightarrow> rs_path rec | None \<Rightarrow> cf_recording_path cf)"

definition ssh_typescript :: "config \<Rightarrow> (str \<times> str option \<times> bool) option" where
  "ssh_typescript cf =
     Option.bind (cf_recording cf) (\<lambda>rec.
       Option.bind (rs_typescript_path rec) (\<lambda>path.
         Some (path, rs_typescript_name rec, rs_create_typescript_path rec)))"

definition recording_enabled :: "config \<Rightarrow> bool" where
  "recording_enabled cf = (case cf_recording cf of None \<Rightarrow> True | Some r \<Rightarrow> rs_enabled r)"

definition drive_cleanup_settings :: "drive_config option \<Rightarrow> bool \<times> nat" where
  "drive_cleanup_settings drive =
     (case drive of Some d \<Rightarrow> (dr_cleanup_on_close d, dr_retention_secs d) | None \<Rightarrow> (True, 0))"

section \<open>The request\<close>

datatype session_type = SSH | WEB | RDP | VNC | VDI | SPICE | PROXMOX

record jump_host =
  jh_hostname :: str
  jh_port :: nat
  jh_username :: str
  jh_password :: "str option"
  jh_private_key :: "str option"
  jh_host_key :: "str option"

record create_session_request =
  cs_session_type :: session_type
  cs_hostname :: "str option"
  cs_port :: "nat option"
  cs_username :: "str option"
  cs_password :: "str option"
  cs_private_key :: "str option"
  cs_generate_keypair :: "bool option"
  cs_url :: "str option"
  cs_domain :: "str option"
  cs_security :: "str option"
  cs_server_layout :: "str option"
  cs_ignore_cert :: "bool option"
  cs_auth_pkg :: "str option"
  cs_kdc_url :: "str option"
  cs_kerberos_cache :: "str option"
  cs_color_depth :: "nat option"
  cs_jump_hosts :: "jump_host list option"
  cs_jump_host :: "str option"
  cs_jump_port :: "nat option"
  cs_jump_username :: "str option"
  cs_jump_password :: "str option"
  cs_jump_private_key :: "str option"
  cs_width :: "nat option"
  cs_height :: "nat option"
  cs_dpi :: "nat option"
  cs_desktop_scale :: "nat option"
  cs_display_scale :: "rat option"
  cs_banner :: "str option"
  cs_enable_drive :: "bool option"
  cs_remote_app :: "str option"
  cs_remote_app_dir :: "str option"
  cs_remote_app_args :: "str option"
  cs_enable_recording :: "bool option"
  cs_record_typescript :: "bool option"
  cs_address_book_entry :: "str option"
  cs_address_book_folder :: "str option"
  cs_entry_display_name :: "str option"
  cs_max_recordings :: "nat option"
  cs_login_script :: "str option"
  cs_autofill :: "str option"
  cs_allowed_domains :: "str list option"
  cs_vnc_resize :: "bool option"
  cs_vnc_network :: "str option"
  cs_disable_copy :: "bool option"
  cs_disable_paste :: "bool option"
  cs_enable_gfx :: "bool option"
  cs_enable_desktop_composition :: "bool option"
  cs_enable_wallpaper :: "bool option"
  cs_enable_theming :: "bool option"
  cs_enable_full_window_drag :: "bool option"
  cs_force_lossless :: "bool option"
  cs_enable_h264 :: "bool option"
  cs_h264_chroma444 :: "bool option"
  cs_container_image :: "str option"
  cs_container_cpu_limit :: "rat option"
  cs_container_memory_limit :: "nat option"
  cs_container_env :: "(str \<times> str) list option"
  cs_container_idle_timeout_mins :: "nat option"
  cs_container_username :: "str option"
  cs_container_password :: "str option"
  cs_allow_sharing :: "bool option"
  cs_fullscreen_on_connect :: "bool option"
  cs_autohide_side_tabs :: "bool option"
  cs_spice_tls :: "bool option"
  cs_spice_tls_port :: "nat option"
  cs_spice_ca_cert :: "str option"
  cs_spice_cert_subject :: "str option"
  cs_spice_proxy :: "str option"
  cs_proxmox_url :: "str option"
  cs_proxmox_node :: "str option"
  cs_proxmox_vmid :: "nat option"
  cs_proxmox_token_id :: "str option"
  cs_proxmox_token_secret :: "str option"
  cs_proxmox_verify_tls :: "bool option"
  cs_max_monitors :: "nat option"
  cs_owner :: "str option"
  cs_fence_all_targets :: bool
  cs_ssh_font_size :: "nat option"
  cs_wol_send_packet :: "bool option"
  cs_wol_mac_addr :: "str option"
  cs_wol_broadcast_addr :: "str option"
  cs_wol_udp_port :: "nat option"
  cs_wol_wait_time :: "nat option"

datatype session_error =
  GuacdConnection guacd_error | NotFound | NotActive | ValidationError str | BrowserSpawn str | VdiError str

text \<open>\<open>Display\<close> of an error; \<open>shown\<close> is that of \<open>GuacdError\<close>.\<close>

fun session_error_text :: "(guacd_error \<Rightarrow> str) \<Rightarrow> session_error \<Rightarrow> str" where
  "session_error_text shown (GuacdConnection e) = ''guacd connection failed: '' @ shown e"
| "session_error_text shown NotFound = ''session not found''"
| "session_error_text shown NotActive = ''session is not active''"
| "session_error_text shown (ValidationError msg) = ''validation error: '' @ msg"
| "session_error_text shown (BrowserSpawn msg) = ''browser spawn failed: '' @ msg"
| "session_error_text shown (VdiError msg) = ''VDI error: '' @ msg"

definition clear_entry_only_fields :: "create_session_request \<Rightarrow> create_session_request" where
  "clear_entry_only_fields req = req\<lparr>
     cs_address_book_entry := None, cs_address_book_folder := None, cs_entry_display_name := None,
     cs_max_recordings := None, cs_record_typescript := None, cs_container_username := None,
     cs_container_password := None, cs_kerberos_cache := None, cs_allow_sharing := None,
     cs_wol_send_packet := None, cs_wol_mac_addr := None, cs_wol_broadcast_addr := None,
     cs_wol_udp_port := None, cs_wol_wait_time := None\<rparr>"

text \<open>\<open>Option::filter\<close>.\<close>

definition filter_opt :: "('a \<Rightarrow> bool) \<Rightarrow> 'a option \<Rightarrow> 'a option" where
  "filter_opt P v = (case v of None \<Rightarrow> None | Some x \<Rightarrow> if P x then Some x else None)"

definition apply_adhoc_policy :: "create_session_request \<Rightarrow> bool \<Rightarrow> config \<Rightarrow> create_session_request" where
  "apply_adhoc_policy req is_admin cf =
     (let req = req\<lparr>cs_fence_all_targets := \<not> is_admin\<rparr> in
      if is_admin then req
      else
        (let req = clear_entry_only_fields req;
             req = (if cs_enable_recording req = Some False \<and> recording_enabled cf
                    then req\<lparr>cs_enable_recording := None\<rparr> else req);
             req = (if cs_enable_drive req = Some True \<and> \<not> is_drive_enabled (cf_drive cf) None
                    then req\<lparr>cs_enable_drive := None\<rparr> else req)
         in case cf_vdi cf of
              Some vdi \<Rightarrow>
                req\<lparr>cs_container_cpu_limit := filter_opt (\<lambda>c. vc_default_cpu_limit vdi \<le> 0 \<or>
                       0 < c \<and> c \<le> vc_default_cpu_limit vdi) (cs_container_cpu_limit req),
                    cs_container_memory_limit := filter_opt (\<lambda>m. vc_default_memory_limit vdi = 0 \<or>
                       0 < m \<and> m \<le> vc_default_memory_limit vdi) (cs_container_memory_limit req),
                    cs_container_idle_timeout_mins := filter_opt (\<lambda>t. t \<le> vc_idle_timeout_mins vdi)
                       (cs_container_idle_timeout_mins req)\<rparr>
            | None \<Rightarrow>
                req\<lparr>cs_container_cpu_limit := None, cs_container_memory_limit := None,
                    cs_container_idle_timeout_mins := None\<rparr>))"

text \<open>
  The fingerprint: \<open>ser\<close> is serde's object of the request (the fence flag is skipped),
  \<open>text\<close> its canonical text.
\<close>

datatype json = J_str str | J_bool bool | J_object "(str \<times> json) list" | J_other str

definition DISPLAY_ONLY_FIELDS :: "str list" where
  "DISPLAY_ONLY_FIELDS = [''width'', ''height'', ''dpi'', ''banner'']"

definition reuse_fingerprint ::
  "platform \<Rightarrow> (create_session_request \<Rightarrow> (str \<rightharpoonup> json) option) \<Rightarrow> ((str \<rightharpoonup> json) \<Rightarrow> str) \<Rightarrow> str \<Rightarrow>
   create_session_request \<Rightarrow> str" where
  "reuse_fingerprint pf ser text uuid req =
     (case ser req of
        None \<Rightarrow> uuid
      | Some obj \<Rightarrow>
          pf_hash pf (text ((obj |` (- set DISPLAY_ONLY_FIELDS))(''fence_all_targets'' \<mapsto> J_bool (cs_fence_all_targets req)))))"

section \<open>Small resolutions\<close>

definition resolve_rdp_auth_pkg :: "str option \<Rightarrow> config \<Rightarrow> str option" where
  "resolve_rdp_auth_pkg entry_value cf =
     (case filter_opt (\<lambda>t. t \<noteq> []) (map_option trim entry_value) of
        Some t \<Rightarrow> Some t
      | None \<Rightarrow>
          (case filter_opt (\<lambda>t. t \<noteq> []) (map_option trim (Option.bind (cf_rdp_default_auth_pkg cf) id)) of
             Some t \<Rightarrow> Some t
           | None \<Rightarrow> Some ''ntlm''))"

definition MAX_WOL_WAIT_SECS :: nat where "MAX_WOL_WAIT_SECS = 600"
definition MIN_SSH_FONT :: nat where "MIN_SSH_FONT = 6"
definition MAX_SSH_FONT :: nat where "MAX_SSH_FONT = 72"

text \<open>\<open>Ord::clamp\<close>.\<close>

definition clamp :: "nat \<Rightarrow> nat \<Rightarrow> nat \<Rightarrow> nat" where
  "clamp lo hi x = (if x < lo then lo else if hi < x then hi else x)"

definition wol_params_for :: "create_session_request \<Rightarrow> bool \<Rightarrow> wol_params" where
  "wol_params_for req fence_all_targets =
     (if fence_all_targets then wol_default
      else \<lparr>wp_send_packet = (cs_wol_send_packet req = Some True),
            wp_mac_addr = cs_wol_mac_addr req,
            wp_broadcast_addr = cs_wol_broadcast_addr req,
            wp_udp_port = cs_wol_udp_port req,
            wp_wait_time = map_option (\<lambda>t. min t MAX_WOL_WAIT_SECS) (cs_wol_wait_time req)\<rparr>)"

definition is_ascii_alphanumeric :: "char \<Rightarrow> bool" where
  "is_ascii_alphanumeric c \<longleftrightarrow>
     (let b = byte_of c in 48 \<le> b \<and> b \<le> 57 \<or> 65 \<le> b \<and> b \<le> 90 \<or> 97 \<le> b \<and> b \<le> 122)"

text \<open>
  \<open>to_lowercase\<close> followed by the map of characters: an ASCII letter or digit in lower case, every
  other character an underscore. Of the characters beyond ASCII only two have an ASCII letter
  in their lower case: the Kelvin sign, and the dotted capital I, which becomes two characters.
\<close>

fun vdi_chars :: "str \<Rightarrow> str" where
  "vdi_chars [] = []"
| "vdi_chars (c # cs) =
     (if is_ascii c then (if is_ascii_alphanumeric c then ascii_lower c else CHR ''_'') # vdi_chars cs
      else if is_continuation c then vdi_chars cs
      else if c = CHR 0xE2 \<and> take 2 cs = [CHR 0x84, CHR 0xAA] then CHR ''k'' # vdi_chars cs
      else if c = CHR 0xC4 \<and> take 1 cs = [CHR 0xB0] then CHR ''i'' # CHR ''_'' # vdi_chars cs
      else CHR ''_'' # vdi_chars cs)"

definition vdi_username :: "str option \<Rightarrow> str \<Rightarrow> str" where
  "vdi_username container_username created_by =
     (case filter_opt (\<lambda>s. s \<noteq> []) container_username of
        Some s \<Rightarrow> s
      | None \<Rightarrow> vdi_chars (hd (split_on CHR ''@'' created_by)))"

definition valid_vdi_username :: "str \<Rightarrow> bool" where
  "valid_vdi_username name \<longleftrightarrow>
     name \<noteq> [] \<and> length name \<le> 32 \<and> hd name \<noteq> CHR ''.'' \<and> hd name \<noteq> CHR ''-'' \<and>
     list_all (\<lambda>c. is_ascii_alphanumeric c \<or> c \<in> {CHR ''.'', CHR ''_'', CHR ''-''}) name"

definition recording_enabled_for :: "bool option \<Rightarrow> config \<Rightarrow> bool" where
  "recording_enabled_for enable_recording cf =
     (case enable_recording of None \<Rightarrow> recording_enabled cf | Some b \<Rightarrow> b)"

definition combines :: "bool option \<Rightarrow> bool" where
  "combines h264_chroma444 \<longleftrightarrow> h264_chroma444 = Some True"

definition aux_drop_setting :: "bool option \<Rightarrow> bool option" where
  "aux_drop_setting h264_chroma444 = map_option Not h264_chroma444"

definition vnc_network :: "str option \<Rightarrow> session_error + (str \<times> nat \<times> nat \<times> nat option) option" where
  "vnc_network preset =
     (case filter_opt (\<lambda>p. p \<noteq> []) (map_option trim preset) of
        None \<Rightarrow> Inr None
      | Some p \<Rightarrow>
          if p = ''auto'' then Inr None
          else
            (case vnc_network_preset p of
               Some s \<Rightarrow> Inr (Some s)
             | None \<Rightarrow> Inl (ValidationError ''vnc_network must be one of auto, lan, wan, slow'')))"

text \<open>\<open>readable\<close>: how many certificates of a PEM text parse.\<close>

definition checked_spice_ca :: "(str \<Rightarrow> nat) \<Rightarrow> str option \<Rightarrow> session_error + str option" where
  "checked_spice_ca readable ca =
     (case filter_opt (\<lambda>c. trim c \<noteq> []) ca of
        None \<Rightarrow> Inr None
      | Some ca \<Rightarrow>
          if contains ''-----BEGIN '' ca \<and> readable ca = 0
          then Inl (ValidationError ''the SPICE CA certificate could not be read, so the server cannot be verified'')
          else Inr (Some ca))"

text \<open>\<open>str::replace\<close> for a non-empty pattern.\<close>

function replace_all :: "str \<Rightarrow> str \<Rightarrow> str \<Rightarrow> str" where
  "replace_all pat to s =
     (case s of
        [] \<Rightarrow> []
      | c # cs \<Rightarrow>
          (case strip_prefix pat s of
             Some r \<Rightarrow> if pat = [] then s else to @ replace_all pat to r
           | None \<Rightarrow> c # replace_all pat to cs))"
  by pat_completeness auto
termination by (relation "measure (length \<circ> snd \<circ> snd)") auto

declare replace_all.simps [simp del]

definition DEFAULT_TYPESCRIPT_NAME :: str where
  "DEFAULT_TYPESCRIPT_NAME = ''{connection}-{user}-{date}-{time}''"

definition safe_char :: "char \<Rightarrow> bool" where
  "safe_char c \<longleftrightarrow> is_ascii_alphanumeric c \<or> c = CHR ''_'' \<or> c = CHR ''-''"

definition sanitize :: "str \<Rightarrow> str" where
  "sanitize s =
     (let mapped = map (\<lambda>c. if safe_char c then c else CHR ''-'') (filter (\<lambda>c. \<not> is_continuation c) s);
          collapsed = join_with ''-'' (filter (\<lambda>p. p \<noteq> []) (split_on CHR ''-'' mapped))
      in if collapsed = [] then ''unknown'' else collapsed)"

text \<open>\<open>date\<close> and \<open>time\<close> are the texts chrono formats, \<open>simple\<close> the hyphen-free id of the session.\<close>

definition expand_typescript_name :: "str \<Rightarrow> str \<Rightarrow> str \<Rightarrow> str \<Rightarrow> str \<Rightarrow> str \<Rightarrow> str \<Rightarrow> str" where
  "expand_typescript_name template username hostname connection simple date time =
     replace_all ''{session}'' (take 8 simple)
       (replace_all ''{time}'' time
         (replace_all ''{date}'' date
           (replace_all ''{host}'' (sanitize hostname)
             (replace_all ''{connection}'' (sanitize connection)
               (replace_all ''{user}'' (sanitize username) template)))))"

fun json_get :: "str \<Rightarrow> json \<Rightarrow> json option" where
  "json_get k (J_object kvs) = map_of kvs k"
| "json_get k _ = None"

fun as_str :: "json \<Rightarrow> str option" where
  "as_str (J_str s) = Some s"
| "as_str _ = None"

definition parse_autofill_credentials ::
  "(str \<Rightarrow> json list option) \<Rightarrow> str option \<Rightarrow> str option \<Rightarrow> str option \<Rightarrow> (str \<times> str \<times> str) list option" where
  "parse_autofill_credentials from_str autofill_json username password =
     (case autofill_json of
        None \<Rightarrow> None
      | Some json_str \<Rightarrow>
          if json_str = [] then None
          else
            (case from_str json_str of
               None \<Rightarrow> None
             | Some entries \<Rightarrow>
                 (let user = or_default username; pass = or_default password;
                      field = (\<lambda>k entry. Option.bind (json_get k entry) as_str);
                      creds = List.map_filter (\<lambda>entry.
                        case (field ''url'' entry, field ''username'' entry, field ''password'' entry) of
                          (Some url, Some u, Some p) \<Rightarrow>
                            Some (url, replace_all ''$USERNAME'' user u, replace_all ''$PASSWORD'' pass p)
                        | _ \<Rightarrow> None) entries
                  in if creds = [] then None else Some creds)))"

section \<open>The network fence\<close>

text \<open>What a lookup of the system resolver can end in.\<close>

datatype lookup = Addrs "ip_addr list" | Lookup_failed str | Timed_out

definition DNS_TIMEOUT :: nat where "DNS_TIMEOUT = 5"

definition resolve_host :: "(str \<Rightarrow> nat \<Rightarrow> lookup) \<Rightarrow> str \<Rightarrow> nat \<Rightarrow> session_error + ip_addr list" where
  "resolve_host dns host port =
     (case dns host port of
        Addrs addrs \<Rightarrow> Inr addrs
      | Lookup_failed e \<Rightarrow> Inl (ValidationError (''failed to resolve host '' @ [CHR 0x27] @ host @ [CHR 0x27] @ '': '' @ e))
      | Timed_out \<Rightarrow> Inl (ValidationError (''failed to resolve host '' @ [CHR 0x27] @ host @ [CHR 0x27] @
          '': DNS did not answer within '' @ show_nat DNS_TIMEOUT @ '' seconds'')))"

definition allowed_address ::
  "platform \<Rightarrow> (str \<Rightarrow> nat \<Rightarrow> lookup) \<Rightarrow> str \<Rightarrow> nat \<Rightarrow> str list \<Rightarrow> session_error + ip_addr" where
  "allowed_address pf dns host port allowed =
     (let networks = List.map_filter (pf_network pf) allowed;
          inside = (\<lambda>ip. list_ex (\<lambda>net. net ip) networks)
      in if networks = [] then Inl (ValidationError ''no valid CIDR networks configured in allowlist'')
         else
           (case parse_ip_addr host of
              Some ip \<Rightarrow>
                if inside ip then Inr ip
                else Inl (ValidationError (''host '' @ host @ '' is not in the allowed network list''))
            | None \<Rightarrow>
                (case resolve_host dns host port of
                   Inl e \<Rightarrow> Inl e
                 | Inr addrs \<Rightarrow>
                     if addrs = [] then Inl (ValidationError (''host '' @ [CHR 0x27] @ host @ [CHR 0x27] @
                          '' did not resolve to any addresses''))
                     else
                       (case find inside addrs of
                          Some ip \<Rightarrow> Inr ip
                        | None \<Rightarrow> Inl (ValidationError (''host '' @ [CHR 0x27] @ host @ [CHR 0x27] @
                            '' resolves to addresses not in the allowed network list''))))))"

definition check_allowed_network ::
  "platform \<Rightarrow> (str \<Rightarrow> nat \<Rightarrow> lookup) \<Rightarrow> str \<Rightarrow> nat \<Rightarrow> str list \<Rightarrow> session_error + unit" where
  "check_allowed_network pf dns host port allowed = map_sum id (\<lambda>_. ()) (allowed_address pf dns host port allowed)"

definition check_session_network ::
  "platform \<Rightarrow> (str \<Rightarrow> nat \<Rightarrow> lookup) \<Rightarrow> str \<Rightarrow> nat \<Rightarrow> str list \<Rightarrow> jump_host list \<Rightarrow> session_error + unit" where
  "check_session_network pf dns target_host target_port allowed jump_hops =
     (if jump_hops = [] then check_allowed_network pf dns target_host target_port allowed else Inr ())"

text \<open>
  \<open>Display\<close> of an address: dotted octets; hexadecimal segments with the first longest run of at
  least two zeros left out; an IPv4-mapped address with its octets.
\<close>

definition hex_char :: "nat \<Rightarrow> char" where
  "hex_char d = ''0123456789abcdef'' ! d"

fun show_hex :: "nat \<Rightarrow> str" where
  "show_hex n = (if n < 16 then [hex_char n] else show_hex (n div 16) @ [hex_char (n mod 16)])"

declare show_hex.simps [simp del]

text \<open>The longest run so far, and the run at the current position, each as start and length.\<close>

fun zero_run :: "nat \<Rightarrow> nat \<times> nat \<Rightarrow> nat \<times> nat \<Rightarrow> nat list \<Rightarrow> nat \<times> nat" where
  "zero_run i longest current [] = longest"
| "zero_run i longest current (seg # segs) =
     (if seg = 0 then
        (let current = (if snd current = 0 then (i, 1) else (fst current, snd current + 1)) in
         zero_run (i + 1) (if snd longest < snd current then current else longest) current segs)
      else zero_run (i + 1) longest (0, 0) segs)"

definition show_segments :: "nat list \<Rightarrow> str" where
  "show_segments segs = join_with '':'' (map show_hex segs)"

fun show_ip :: "ip_addr \<Rightarrow> str" where
  "show_ip (Ipv4 octets) = join_with ''.'' (map show_nat octets)"
| "show_ip (Ipv6 segs) =
     (if take 6 segs = [0, 0, 0, 0, 0, 0xFFFF] then
        ''::ffff:'' @ join_with ''.'' (concat (map (\<lambda>s. [show_nat (s div 256), show_nat (s mod 256)]) (drop 6 segs)))
      else
        (let (start, len) = zero_run 0 (0, 0) (0, 0) segs in
         if 1 < len then show_segments (take start segs) @ ''::'' @ show_segments (drop (start + len) segs)
         else show_segments segs))"

fun dial_host :: "ip_addr \<Rightarrow> str" where
  "dial_host (Ipv4 v4) = show_ip (Ipv4 v4)"
| "dial_host (Ipv6 v6) = ''['' @ show_ip (Ipv6 v6) @ '']''"

text \<open>A parsed URL of the url crate.\<close>

record url =
  url_scheme :: str
  url_host :: "str option"
  url_port :: "nat option"
  url_known_port :: "nat option"
  url_path :: str
  url_query :: "str option"

definition parse_host_port :: "(str \<Rightarrow> str + url) \<Rightarrow> str \<Rightarrow> nat \<Rightarrow> session_error + str \<times> nat" where
  "parse_host_port parse_url input default_port =
     (case parse_url (if contains ''://'' input then input else ''tcp://'' @ input) of
        Inl e \<Rightarrow> Inl (ValidationError (''invalid host/URL '' @ [CHR 0x27] @ input @ [CHR 0x27] @ '': '' @ e))
      | Inr parsed \<Rightarrow>
          (case url_host parsed of
             None \<Rightarrow> Inl (ValidationError (''no host in '' @ [CHR 0x27] @ input @ [CHR 0x27]))
           | Some host \<Rightarrow> Inr (host, case url_port parsed of None \<Rightarrow> default_port | Some p \<Rightarrow> p)))"

end
