(* ===== verification/Session_Policy.thy ===== *)
theory Session_Policy
  imports Session_Request
begin

text \<open>
  What the resolutions of a session request guarantee: an ad-hoc request stays inside the site's
  policy, the network fence is exact, and no name given by a user leaves its directory.
\<close>

section \<open>Ad-hoc requests stay inside the site's policy\<close>

lemma filter_opt_Some: "filter_opt P v = Some x \<longleftrightarrow> v = Some x \<and> P x"
  by (auto simp: filter_opt_def split: option.split)

lemma filter_opt_idem [simp]: "filter_opt P (filter_opt P v) = filter_opt P v"
  by (auto simp: filter_opt_def split: option.split)

text \<open>The policy field by field.\<close>

definition keep_recording :: "config \<Rightarrow> bool option \<Rightarrow> bool option" where
  "keep_recording cf v = (if v = Some False \<and> recording_enabled cf then None else v)"

definition keep_drive :: "config \<Rightarrow> bool option \<Rightarrow> bool option" where
  "keep_drive cf v = (if v = Some True \<and> \<not> is_drive_enabled (cf_drive cf) None then None else v)"

definition cap_by :: "config \<Rightarrow> (vdi_config \<Rightarrow> 'a \<Rightarrow> bool) \<Rightarrow> 'a option \<Rightarrow> 'a option" where
  "cap_by cf P v = (case cf_vdi cf of None \<Rightarrow> None | Some vdi \<Rightarrow> filter_opt (P vdi) v)"

abbreviation cpu_ok :: "vdi_config \<Rightarrow> rat \<Rightarrow> bool" where
  "cpu_ok vdi c \<equiv> vc_default_cpu_limit vdi \<le> 0 \<or> 0 < c \<and> c \<le> vc_default_cpu_limit vdi"

abbreviation memory_ok :: "vdi_config \<Rightarrow> nat \<Rightarrow> bool" where
  "memory_ok vdi m \<equiv> vc_default_memory_limit vdi = 0 \<or> 0 < m \<and> m \<le> vc_default_memory_limit vdi"

abbreviation idle_ok :: "vdi_config \<Rightarrow> nat \<Rightarrow> bool" where
  "idle_ok vdi t \<equiv> t \<le> vc_idle_timeout_mins vdi"

lemma keep_idem [simp]:
  "keep_recording cf (keep_recording cf v) = keep_recording cf v" "keep_drive cf (keep_drive cf v) = keep_drive cf v"
  "cap_by cf P (cap_by cf P w) = cap_by cf P w"
  by (simp_all add: keep_recording_def keep_drive_def cap_by_def split: option.split)

lemma adhoc_fields:
  "apply_adhoc_policy req False cf = clear_entry_only_fields req\<lparr>
     cs_enable_drive := keep_drive cf (cs_enable_drive req),
     cs_enable_recording := keep_recording cf (cs_enable_recording req),
     cs_container_cpu_limit := cap_by cf cpu_ok (cs_container_cpu_limit req),
     cs_container_memory_limit := cap_by cf memory_ok (cs_container_memory_limit req),
     cs_container_idle_timeout_mins := cap_by cf idle_ok (cs_container_idle_timeout_mins req),
     cs_fence_all_targets := True\<rparr>"
  by (cases "cf_vdi cf"; cases "cs_enable_recording req = Some False \<and> recording_enabled cf";
      cases "cs_enable_drive req = Some True \<and> \<not> is_drive_enabled (cf_drive cf) None")
    (auto simp: apply_adhoc_policy_def Let_def clear_entry_only_fields_def keep_drive_def keep_recording_def cap_by_def
      intro!: create_session_request.equality)

text \<open>What a caller below administrator may ask for.\<close>

definition within_policy :: "create_session_request \<Rightarrow> config \<Rightarrow> bool" where
  "within_policy r cf \<longleftrightarrow>
     cs_fence_all_targets r \<and>
     (cs_enable_recording r = Some False \<longrightarrow> \<not> recording_enabled cf) \<and>
     (cs_enable_drive r = Some True \<longrightarrow> is_drive_enabled (cf_drive cf) None) \<and>
     cs_address_book_entry r = None \<and> cs_address_book_folder r = None \<and> cs_entry_display_name r = None \<and>
     cs_max_recordings r = None \<and> cs_record_typescript r = None \<and>
     cs_kerberos_cache r = None \<and> cs_allow_sharing r = None \<and>
     cs_container_username r = None \<and> cs_container_password r = None \<and>
     cs_wol_send_packet r = None \<and> cs_wol_mac_addr r = None \<and> cs_wol_broadcast_addr r = None \<and>
     cs_wol_udp_port r = None \<and> cs_wol_wait_time r = None \<and>
     (\<forall>c. cs_container_cpu_limit r = Some c \<longrightarrow>
        (\<exists>vdi. cf_vdi cf = Some vdi \<and> (0 < vc_default_cpu_limit vdi \<longrightarrow> 0 < c \<and> c \<le> vc_default_cpu_limit vdi))) \<and>
     (\<forall>m. cs_container_memory_limit r = Some m \<longrightarrow>
        (\<exists>vdi. cf_vdi cf = Some vdi \<and> (0 < vc_default_memory_limit vdi \<longrightarrow> 0 < m \<and> m \<le> vc_default_memory_limit vdi))) \<and>
     (\<forall>t. cs_container_idle_timeout_mins r = Some t \<longrightarrow> (\<exists>vdi. cf_vdi cf = Some vdi \<and> t \<le> vc_idle_timeout_mins vdi))"

lemma adhoc_within: "within_policy (apply_adhoc_policy req False cf) cf"
  by (auto simp: within_policy_def adhoc_fields clear_entry_only_fields_def keep_recording_def
      keep_drive_def cap_by_def filter_opt_Some split: option.splits if_splits)

lemma cap_by_fixed:
  assumes "\<forall>c. v = Some c \<longrightarrow> (\<exists>vdi. cf_vdi cf = Some vdi \<and> P vdi c)"
  shows "cap_by cf P v = v"
  using assms by (auto simp: cap_by_def filter_opt_def split: option.split)

lemma within_fixed:
  assumes "within_policy r cf"
  shows "apply_adhoc_policy r False cf = r"
proof (rule create_session_request.equality)
  note w = assms [unfolded within_policy_def]
  have "cap_by cf cpu_ok (cs_container_cpu_limit r) = cs_container_cpu_limit r"
    "cap_by cf memory_ok (cs_container_memory_limit r) = cs_container_memory_limit r"
    "cap_by cf idle_ok (cs_container_idle_timeout_mins r) = cs_container_idle_timeout_mins r"
    using w by (fastforce intro!: cap_by_fixed)+
  then show "cs_container_cpu_limit (apply_adhoc_policy r False cf) = cs_container_cpu_limit r"
    "cs_container_memory_limit (apply_adhoc_policy r False cf) = cs_container_memory_limit r"
    "cs_container_idle_timeout_mins (apply_adhoc_policy r False cf) = cs_container_idle_timeout_mins r"
    by (simp_all add: adhoc_fields)
qed (use assms in \<open>auto simp: adhoc_fields within_policy_def clear_entry_only_fields_def keep_recording_def keep_drive_def\<close>)

text \<open>
  C17: The ad-hoc policy holds whatever a caller below administrator sends: targets are fenced, a
  session is recorded if the site records or the request asks for it, the drive is on if both
  the site and the request have it on, nothing that only a saved entry may set survives, and the processor and memory
  of a container stay within the site's defaults where these are positive, the idle timeout
  always (0 there means that a container is removed at once). The requests the policy leaves as
  they are are exactly those that keep to it, an administrator's request is only marked unfenced.
\<close>

theorem adhoc_policy_enforced:
  "let r = apply_adhoc_policy req False cf in
   within_policy r cf \<and> (r = req \<longleftrightarrow> within_policy req cf) \<and>
   recording_enabled_for (cs_enable_recording r) cf =
     (recording_enabled cf \<or> recording_enabled_for (cs_enable_recording req) cf) \<and>
   is_drive_enabled (cf_drive cf) (cs_enable_drive r) =
     (is_drive_enabled (cf_drive cf) None \<and> is_drive_enabled (cf_drive cf) (cs_enable_drive req)) \<and>
   cs_hostname r = cs_hostname req \<and>
   apply_adhoc_policy req True cf = req\<lparr>cs_fence_all_targets := False\<rparr>"
proof -
  let ?r = "apply_adhoc_policy req False cf"
  have "recording_enabled_for (cs_enable_recording ?r) cf =
      (recording_enabled cf \<or> recording_enabled_for (cs_enable_recording req) cf)"
    "is_drive_enabled (cf_drive cf) (cs_enable_drive ?r) =
      (is_drive_enabled (cf_drive cf) None \<and> is_drive_enabled (cf_drive cf) (cs_enable_drive req))"
    by (auto simp: adhoc_fields recording_enabled_for_def keep_recording_def keep_drive_def is_drive_enabled_def
        split: option.splits if_splits)
  moreover have "?r = req \<longleftrightarrow> within_policy req cf" using adhoc_within [of req cf] within_fixed [of req cf] by metis
  moreover have "cs_hostname ?r = cs_hostname req" by (simp add: adhoc_fields clear_entry_only_fields_def)
  moreover have "apply_adhoc_policy req True cf = req\<lparr>cs_fence_all_targets := False\<rparr>" by (simp add: apply_adhoc_policy_def)
  ultimately show ?thesis using adhoc_within unfolding Let_def by blast
qed

section \<open>The fence\<close>

definition in_networks :: "platform \<Rightarrow> str list \<Rightarrow> ip_addr \<Rightarrow> bool" where
  "in_networks pf allowed ip \<longleftrightarrow> (\<exists>s\<in>set allowed. \<exists>net. pf_network pf s = Some net \<and> net ip)"

lemma in_networks_list_ex:
  "list_ex (\<lambda>net. net ip) (List.map_filter (pf_network pf) allowed) \<longleftrightarrow> in_networks pf allowed ip"
  by (simp add: in_networks_def list_ex_iff List.map_filter_def) force

text \<open>
  The addresses the fence decides on: the literal itself, or what the resolver answers.
\<close>

definition addresses_of :: "(str \<Rightarrow> nat \<Rightarrow> lookup) \<Rightarrow> str \<Rightarrow> nat \<Rightarrow> ip_addr list" where
  "addresses_of dns host port =
     (case parse_ip_addr host of
        Some ip \<Rightarrow> [ip]
      | None \<Rightarrow> (case dns host port of Addrs addrs \<Rightarrow> addrs | _ \<Rightarrow> []))"

lemma map_filter_Nil_iff: "List.map_filter f xs = [] \<longleftrightarrow> (\<forall>x\<in>set xs. f x = None)"
  by (induction xs) (auto simp: List.map_filter_simps split: option.splits)

lemma allowed_address_spec:
  "(case allowed_address pf dns host port allowed of
      Inr ip \<Rightarrow> find (in_networks pf allowed) (addresses_of dns host port) = Some ip
    | Inl e \<Rightarrow> find (in_networks pf allowed) (addresses_of dns host port) = None)"
proof -
  let ?inside = "\<lambda>ip. list_ex (\<lambda>net. net ip) (List.map_filter (pf_network pf) allowed)"
  have inside: "?inside = in_networks pf allowed" by (rule ext) (rule in_networks_list_ex)
  have none: "find (in_networks pf allowed) xs = None" if "List.map_filter (pf_network pf) allowed = []" for xs
    using that by (auto simp: find_None_iff in_networks_def map_filter_Nil_iff)
  show ?thesis
    unfolding allowed_address_def Let_def inside addresses_of_def resolve_host_def
    by (auto simp: none in_networks_list_ex split: option.split lookup.split)
qed

text \<open>
  The fence is exact. An address comes out of it if and only if one of the addresses the host
  stands for lies in an allowed network, and then it is the first such address: the very
  address that was checked is the one to dial.
\<close>

theorem allowed_address_exact:
  "(case allowed_address pf dns host port allowed of
      Inr ip \<Rightarrow> find (in_networks pf allowed) (addresses_of dns host port) = Some ip
    | Inl e \<Rightarrow> find (in_networks pf allowed) (addresses_of dns host port) = None)"
  by (rule allowed_address_spec)

lemma allowed_address_in:
  "allowed_address pf dns host port allowed = Inr ip \<Longrightarrow>
   in_networks pf allowed ip \<and> ip \<in> set (addresses_of dns host port)"
  using allowed_address_spec [where pf = pf and dns = dns and host = host and port = port and allowed = allowed]
  by (auto simp: find_Some_iff in_set_conv_nth)

section \<open>Names that reach the file system\<close>

lemma replace_all_within: "set to \<subseteq> S \<Longrightarrow> set s \<subseteq> S \<Longrightarrow> set (replace_all pat to s) \<subseteq> S"
proof (induction pat to s rule: replace_all.induct)
  case (1 pat to s)
  show ?case
  proof (cases s)
    case (Cons c cs)
    show ?thesis
    proof (cases "strip_prefix pat s")
      case None
      then have "replace_all pat to s = c # replace_all pat to cs" using Cons by (simp add: replace_all.simps [of pat to "c # cs"])
      then show ?thesis using 1 Cons None by simp
    next
      case (Some r)
      then have "replace_all pat to s = (if pat = [] then s else to @ replace_all pat to r)"
        using Cons by (simp add: replace_all.simps [of pat to "c # cs"] del: strip_prefix_Some)
      moreover have "set r \<subseteq> S" using "1.prems"(2) Some by auto
      ultimately show ?thesis using "1.IH"(2) [OF Cons Some] "1.prems" by simp
    qed
  qed (simp add: replace_all.simps)
qed

lemma join_within: "set sep \<subseteq> S \<Longrightarrow> \<forall>w\<in>set ws. set w \<subseteq> S \<Longrightarrow> set (join_with sep ws) \<subseteq> S"
  by (induction sep ws rule: join_with.induct) simp_all

lemma split_on_set: "w \<in> set (split_on c s) \<Longrightarrow> set w \<subseteq> set s"
proof (induction s arbitrary: w)
  case (Cons x s)
  obtain v vs where s: "split_on c s = v # vs" by (cases "split_on c s") auto
  have "set v \<subseteq> set s" "\<And>u. u \<in> set vs \<Longrightarrow> set u \<subseteq> set s" using Cons.IH s by simp_all
  then show ?case using Cons.prems s by (fastforce split: if_splits)
qed simp

lemma sanitize_safe: "set (sanitize s) \<subseteq> Collect safe_char"
proof -
  let ?m = "map (\<lambda>c. if safe_char c then c else CHR ''-'') (filter (\<lambda>c. \<not> is_continuation c) s)"
  have dash: "set ''-'' \<subseteq> Collect safe_char" by (simp add: safe_char_def)
  have unknown: "set ''unknown'' \<subseteq> Collect safe_char"
    by (simp add: safe_char_def is_ascii_alphanumeric_def byte_of_def)
  have "set ?m \<subseteq> Collect safe_char" using dash by (simp add: image_subset_iff)
  then have "\<forall>w\<in>set (filter (\<lambda>p. p \<noteq> []) (split_on CHR ''-'' ?m)). set w \<subseteq> Collect safe_char"
    using split_on_set [of _ "CHR ''-''" ?m] by (meson filter_is_subset order_trans subsetD)
  from join_within [OF dash this] unknown show ?thesis by (simp add: sanitize_def Let_def)
qed

text \<open>
  A typescript name cannot leave its directory. Whatever the user name, the host name and the
  display name are, every byte the expansion adds to the template is a letter, a digit, a
  dash or an underscore; a slash or a dot can only come from the administrator's template.
\<close>

theorem typescript_name_safe:
  assumes "list_all safe_char date" "list_all safe_char time" "list_all safe_char simple"
  shows "\<forall>c\<in>set (expand_typescript_name template username hostname connection simple date time).
    c \<in> set template \<or> safe_char c"
proof -
  let ?S = "set template \<union> Collect safe_char"
  have "set (take 8 simple) \<subseteq> ?S" "set date \<subseteq> ?S" "set time \<subseteq> ?S"
    using assms set_take_subset [of 8 simple] by (auto simp: list_all_iff)
  moreover have "set (sanitize s) \<subseteq> ?S" for s using sanitize_safe [of s] by blast
  ultimately have "set (expand_typescript_name template username hostname connection simple date time) \<subseteq> ?S"
    unfolding expand_typescript_name_def by (intro replace_all_within) simp_all
  then show ?thesis by blast
qed

theorem typescript_name_safe_witness:
  "CHR ''/'' \<notin> set (expand_typescript_name DEFAULT_TYPESCRIPT_NAME ''../../root'' ''h'' ''a/b'' ''0123456789ab'' ''20260610'' ''143022'')"
proof -
  have digits: "list_all safe_char ''20260610''" "list_all safe_char ''143022''" "list_all safe_char ''0123456789ab''"
    by (simp_all add: safe_char_def is_ascii_alphanumeric_def byte_of_def)
  have "CHR ''/'' \<notin> set DEFAULT_TYPESCRIPT_NAME" "\<not> safe_char CHR ''/''"
    by (simp_all add: DEFAULT_TYPESCRIPT_NAME_def safe_char_def is_ascii_alphanumeric_def byte_of_def)
  then show ?thesis using typescript_name_safe [OF digits] by blast
qed

lemma ascii_lower_cases:
  "is_ascii (ascii_lower c) = is_ascii c" "is_continuation (ascii_lower c) = is_continuation c"
  "is_ascii_alphanumeric (ascii_lower c) = is_ascii_alphanumeric c" "ascii_lower (ascii_lower c) = ascii_lower c"
  "\<not> is_ascii c \<Longrightarrow> ascii_lower c = c"
  by (auto simp: is_ascii_def is_continuation_def is_ascii_alphanumeric_def ascii_lower_def byte_of_def Let_def)

lemma byte_of_lower: "byte_of (ascii_lower c) = (if 65 \<le> byte_of c \<and> byte_of c \<le> 90 then byte_of c + 32 else byte_of c)"
  by (auto simp: ascii_lower_def byte_of_def)

lemma ascii_lower_other: "byte_of d < 65 \<or> 122 < byte_of d \<Longrightarrow> ascii_lower c = d \<longleftrightarrow> c = d"
  unfolding byte_of_eq_iff [symmetric] byte_of_lower by auto

lemma vdi_chars_lower: "vdi_chars (to_ascii_lowercase s) = vdi_chars s"
proof (induction s)
  case (Cons c s)
  have t: "take 2 (map ascii_lower s) = [CHR 0x84, CHR 0xAA] \<longleftrightarrow> take 2 s = [CHR 0x84, CHR 0xAA]"
    "take 1 (map ascii_lower s) = [CHR 0xB0] \<longleftrightarrow> take 1 s = [CHR 0xB0]"
    by (cases s; cases "tl s"; simp add: ascii_lower_other byte_of_def)+
  show ?case using Cons t by (simp add: to_ascii_lowercase_def ascii_lower_cases)
qed (simp add: to_ascii_lowercase_def)

lemma vdi_chars_plain: "list_all (\<lambda>c. is_ascii_alphanumeric c \<or> c = CHR ''_'') (vdi_chars s)"
proof (induction s)
  case (Cons c s)
  have "is_ascii_alphanumeric (ascii_lower c)" if "is_ascii_alphanumeric c"
    using that by (auto simp: is_ascii_alphanumeric_def ascii_lower_def byte_of_def Let_def)
  moreover have "is_ascii_alphanumeric CHR ''k''" "is_ascii_alphanumeric CHR ''i''"
    by (simp_all add: is_ascii_alphanumeric_def byte_of_def)
  ultimately show ?case using Cons by (cases "is_ascii_alphanumeric c") simp_all
qed simp

text \<open>
  The account derived for a VDI session is not the caller's own. It is a plain name for every
  creator, but it keeps only the part of the identity before the first \<open>@\<close>, in lower case, with
  every other character folded into an underscore: two users of different domains get the same
  account, hence the same container and home directory.
\<close>

theorem vdi_account_shared:
  assumes "CHR ''@'' \<notin> set name"
  shows "list_all (\<lambda>c. is_ascii_alphanumeric c \<or> c = CHR ''_'') (vdi_username None (name @ CHR ''@'' # domain)) \<and>
    vdi_username None (name @ CHR ''@'' # domain) = vdi_username None (name @ CHR ''@'' # other_domain) \<and>
    vdi_username None (name @ CHR ''@'' # domain) = vdi_username None (to_ascii_lowercase name)"
proof -
  have at: "CHR ''@'' \<notin> set (to_ascii_lowercase name)"
  proof -
    have "ascii_lower c = CHR ''@'' \<longleftrightarrow> c = CHR ''@''" for c
      by (rule ascii_lower_other) (simp add: byte_of_def)
    then show ?thesis using assms by (simp add: to_ascii_lowercase_def image_iff) metis
  qed
  have "vdi_chars (to_ascii_lowercase s) = vdi_chars s" for s
    by (rule vdi_chars_lower)
  then show ?thesis
    using split_on_append_sep [OF assms, of domain] split_on_append_sep [OF assms, of other_domain] vdi_chars_plain
    by (simp add: vdi_username_def filter_opt_def split_on_none [OF at])
qed

theorem vdi_account_shared_witness:
  "vdi_username None ''alice@corp'' = vdi_username None ''alice@evil'' \<and> vdi_username None ''alice@corp'' = ''alice''"
proof -
  have "vdi_chars ''alice'' = ''alice''"
    by (simp add: is_ascii_def is_ascii_alphanumeric_def ascii_lower_def byte_of_def)
  then show ?thesis
    using vdi_account_shared [of "''alice''" "''corp''" "''evil''"]
    by (simp add: vdi_username_def filter_opt_def)
qed

end
