(* ===== verification/Session_Create.thy ===== *)
theory Session_Create
  imports Session_Policy
begin

text \<open>
  \<open>SessionManager::create_session\<close> of \<^verbatim>\<open>src/src/session.rs\<close>: from a request to a pending session.
  One definition per session type builds the parameters of the connection; then come the
  SSH tunnels, the browser of a web session, the handshake with guacd and the session itself.

  What lies outside (DNS, URLs, keys, tunnels, Proxmox, containers, browsers, guacd's socket,
  random values, the clock) is the record \<open>services\<close>. Log lines are left out.
\<close>

section \<open>Services\<close>

record pve_spice_config =
  pc_host :: str
  pc_proxy :: str
  pc_tls_port :: nat
  pc_ticket :: str
  pc_ca_cert :: str
  pc_host_subject :: str

record pve_broker =
  pb_base_url :: str
  pb_api_token :: str
  pb_verify_tls :: bool

record container_spec =
  co_image :: str
  co_username :: str
  co_password :: str
  co_cpu_limit :: rat
  co_memory_limit :: nat
  co_env :: "str \<rightharpoonup> str"
  co_home_base :: "str option"
  co_entry_key :: "str option"
  co_idle_timeout_mins :: "nat option"

record container_info =
  ci_container_id :: str
  ci_container_name :: str
  ci_rdp_host :: str
  ci_rdp_port :: nat
  ci_reused :: bool

record browser_session =
  br_display :: nat
  br_vnc_port :: nat
  br_cdp_port :: "nat option"

text \<open>A tunnel and a task are known by a number; the end of a chain is an address and a port.\<close>

record services =
  sv_dns :: "str \<Rightarrow> nat \<Rightarrow> lookup"
  sv_url :: "str \<Rightarrow> str + url"
  sv_urlencode :: "str \<Rightarrow> str"
  sv_readable_certs :: "str \<Rightarrow> nat"
  sv_keypair :: "str + str \<times> str"
  sv_json :: "str \<Rightarrow> json list option"
  sv_serialise :: "create_session_request \<Rightarrow> (str \<rightharpoonup> json) option"
  sv_json_text :: "(str \<rightharpoonup> json) \<Rightarrow> str"
  sv_create_dir :: "str \<Rightarrow> str \<Rightarrow> str option"
  sv_start_chain :: "jump_host list \<Rightarrow> str \<Rightarrow> nat \<Rightarrow> str + nat list \<times> ip_addr \<times> nat"
  sv_resolve_node :: "pve_broker \<Rightarrow> nat \<Rightarrow> str + str"
  sv_fetch_spice_config :: "pve_broker \<Rightarrow> str \<Rightarrow> nat \<Rightarrow> str + pve_spice_config"
  sv_vdi_driver :: "(container_spec \<Rightarrow> str + container_info) option"
  sv_spawn_browser ::
    "str \<Rightarrow> nat \<Rightarrow> nat \<Rightarrow> bool \<Rightarrow> (str \<times> str \<times> str) list option \<Rightarrow> str list option \<Rightarrow> str + browser_session"
  sv_login_script :: "str \<Rightarrow> nat \<Rightarrow> nat \<Rightarrow> str \<Rightarrow> nat option"
  sv_guacd :: "guacd_error + link"
  sv_guacd_error_text :: "guacd_error \<Rightarrow> str"
  sv_uuid :: str
  sv_uuid_simple :: str
  sv_fallback_uuid :: str
  sv_random_password :: str
  sv_share_token :: str
  sv_share_token_ro :: str
  sv_cancel_token :: nat
  sv_utc_now :: int
  sv_date :: str
  sv_time :: str

text \<open>The \<open>?\<close> of a \<open>Result\<close>, \<open>ok_or\<close>, \<open>map_err\<close> and \<open>unwrap_or\<close>.\<close>

definition and_then :: "'e + 'a \<Rightarrow> ('a \<Rightarrow> 'e + 'b) \<Rightarrow> 'e + 'b" where
  "and_then r f = (case r of Inl e \<Rightarrow> Inl e | Inr x \<Rightarrow> f x)"

definition ok_or :: "'e \<Rightarrow> 'a option \<Rightarrow> 'e + 'a" where
  "ok_or e v = (case v of None \<Rightarrow> Inl e | Some x \<Rightarrow> Inr x)"

definition map_err :: "('d \<Rightarrow> 'e) \<Rightarrow> 'd + 'a \<Rightarrow> 'e + 'a" where
  "map_err f r = (case r of Inl e \<Rightarrow> Inl (f e) | Inr x \<Rightarrow> Inr x)"

definition unwrap_or :: "'a \<Rightarrow> 'a option \<Rightarrow> 'a" where
  "unwrap_or d v = (case v of None \<Rightarrow> d | Some x \<Rightarrow> x)"

lemma and_then_Inr [simp]: "and_then r f = Inr y \<longleftrightarrow> (\<exists>x. r = Inr x \<and> f x = Inr y)"
  by (cases r) (simp_all add: and_then_def)

lemma ok_or_Inr [simp]: "ok_or e v = Inr x \<longleftrightarrow> v = Some x"
  by (cases v) (simp_all add: ok_or_def)

lemma map_err_Inr [simp]: "map_err f r = Inr x \<longleftrightarrow> r = Inr x"
  by (cases r) (simp_all add: map_err_def)

definition invalid :: "str \<Rightarrow> session_error" where
  "invalid = ValidationError"

section \<open>What every session shares\<close>

record screen_size =
  sz_width :: nat
  sz_height :: nat
  sz_dpi :: nat

definition screen_size_of :: "create_session_request \<Rightarrow> screen_size" where
  "screen_size_of req = \<lparr>sz_width = clamp 640 8192 (unwrap_or 1920 (cs_width req)),
     sz_height = clamp 480 8192 (unwrap_or 1080 (cs_height req)),
     sz_dpi = clamp 16 384 (unwrap_or 96 (cs_dpi req))\<rparr>"

definition desktop_scale_of :: "create_session_request \<Rightarrow> nat option" where
  "desktop_scale_of req = map_option (clamp 100 500) (cs_desktop_scale req)"

definition secondary_monitors_of :: "create_session_request \<Rightarrow> nat" where
  "secondary_monitors_of req = unwrap_or 1 (cs_max_monitors req) - 1"

definition requested_hops :: "create_session_request \<Rightarrow> jump_host list" where
  "requested_hops req =
     (case cs_jump_hosts req of
        Some hops \<Rightarrow> hops
      | None \<Rightarrow>
          (case cs_jump_host req of
             Some jh \<Rightarrow>
               if jh \<noteq> [] then
                 [\<lparr>jh_hostname = jh, jh_port = unwrap_or 22 (cs_jump_port req),
                   jh_username = or_default (cs_jump_username req), jh_password = cs_jump_password req,
                   jh_private_key = cs_jump_private_key req, jh_host_key = None\<rparr>]
               else []
           | None \<Rightarrow> []))"

definition fenced_hops ::
  "platform \<Rightarrow> services \<Rightarrow> config \<Rightarrow> bool \<Rightarrow> jump_host list \<Rightarrow> session_error + jump_host list" where
  "fenced_hops pf sv cf fence hops =
     (case hops of
        [] \<Rightarrow> Inr []
      | first # rest \<Rightarrow>
          if fence then
            and_then (map_err (\<lambda>e. invalid (''jump host: '' @ session_error_text (sv_guacd_error_text sv) e))
                (allowed_address pf (sv_dns sv) (jh_hostname first) (jh_port first) (cf_ssh_allowed_networks cf)))
              (\<lambda>ip. Inr (first\<lparr>jh_hostname := dial_host ip\<rparr> # rest))
          else Inr hops)"

text \<open>What a branch of the match on the session type yields.\<close>

record prepared =
  pr_params :: connection_params
  pr_hostname :: str
  pr_username :: str
  pr_url :: "str option"
  pr_banner :: "str option"
  pr_drive_path :: "str option"
  pr_container :: "(str \<times> str) option"
  pr_tunnels :: "nat list"

definition prepared_as :: "connection_params \<Rightarrow> str \<Rightarrow> str \<Rightarrow> prepared" where
  "prepared_as params hostname username = \<lparr>pr_params = params, pr_hostname = hostname, pr_username = username,
     pr_url = None, pr_banner = None, pr_drive_path = None, pr_container = None, pr_tunnels = []\<rparr>"

text \<open>SSH and VNC: the checked address is dialled, unless a bastion resolves the name.\<close>

definition connect_host ::
  "platform \<Rightarrow> services \<Rightarrow> str \<Rightarrow> nat \<Rightarrow> str list \<Rightarrow> jump_host list \<Rightarrow> session_error + str" where
  "connect_host pf sv hostname port allowed hops =
     (if hops = [] then and_then (allowed_address pf (sv_dns sv) hostname port allowed) (\<lambda>ip. Inr (show_ip ip))
      else Inr hostname)"

section \<open>SSH\<close>

definition ssh_key_and_banner :: "services \<Rightarrow> create_session_request \<Rightarrow> str \<Rightarrow> session_error + str option \<times> str option" where
  "ssh_key_and_banner sv req username =
     (if cs_generate_keypair req = Some True then
        and_then (map_err invalid (sv_keypair sv)) (\<lambda>(private_pem, public_openssh).
          (let public_key = public_openssh @ '' rustguac-ephemeral'';
               auth_keys_path = (if username = [] then ''~/.ssh/authorized_keys''
                  else ''~'' @ username @ ''/.ssh/authorized_keys'');
               banner = ''Add this public key to '' @ auth_keys_path @ '' on the target host:'' @ [CHR 0x0A, CHR 0x0A] @
                  public_key @ [CHR 0x0A, CHR 0x0A] @ ''Do not click Continue until the key is installed '' @
                  [CHR 0xE2, CHR 0x80, CHR 0x94] @ '' authentication will fail.''
           in Inr (Some private_pem, Some (case cs_banner req of
                 None \<Rightarrow> banner
               | Some user_banner \<Rightarrow> user_banner @ [CHR 0x0A, CHR 0x0A] @ banner))))
      else Inr (cs_private_key req, None))"

definition typescript_of ::
  "services \<Rightarrow> config \<Rightarrow> create_session_request \<Rightarrow> str \<Rightarrow> str \<Rightarrow> (str \<times> str \<times> bool) option" where
  "typescript_of sv cf req username hostname =
     map_option (\<lambda>(path, name, create).
       (path,
        expand_typescript_name (unwrap_or DEFAULT_TYPESCRIPT_NAME name) username hostname
          (unwrap_or hostname (filter_opt (\<lambda>s. s \<noteq> []) (cs_entry_display_name req)))
          (sv_uuid_simple sv) (sv_date sv) (sv_time sv),
        create))
       (filter_opt (\<lambda>_. cs_record_typescript req = Some True) (ssh_typescript cf))"

definition prepare_ssh ::
  "platform \<Rightarrow> services \<Rightarrow> config \<Rightarrow> create_session_request \<Rightarrow> jump_host list \<Rightarrow> session_error + prepared" where
  "prepare_ssh pf sv cf req hops =
     and_then (ok_or (invalid ''hostname is required for SSH sessions'') (cs_hostname req)) (\<lambda>hostname.
       (let port = unwrap_or 22 (cs_port req); username = or_default (cs_username req); sz = screen_size_of req in
        and_then (connect_host pf sv hostname port (cf_ssh_allowed_networks cf) hops) (\<lambda>host.
        and_then (ssh_key_and_banner sv req username) (\<lambda>(private_key, ssh_banner).
          (let drive_enabled = is_drive_enabled (cf_drive cf) (cs_enable_drive req);
               drive_cfg = drive_config_or_default (cf_drive cf);
               typescript = typescript_of sv cf req username hostname;
               params = Ssh \<lparr>sh_hostname = host, sh_port = port, sh_username = username,
                  sh_password = cs_password req, sh_private_key = private_key,
                  sh_width = sz_width sz, sh_height = sz_height sz, sh_dpi = 96,
                  sh_enable_sftp = drive_enabled,
                  sh_sftp_disable_download = (\<not> dr_allow_download drive_cfg),
                  sh_sftp_disable_upload = (\<not> dr_allow_upload drive_cfg),
                  sh_disable_copy = (cs_disable_copy req = Some True),
                  sh_disable_paste = (cs_disable_paste req = Some True),
                  sh_typescript_path = map_option fst typescript,
                  sh_typescript_name = map_option (fst \<circ> snd) typescript,
                  sh_create_typescript_path = (map_option (snd \<circ> snd) typescript = Some True),
                  sh_font_size = map_option (clamp MIN_SSH_FONT MAX_SSH_FONT) (cs_ssh_font_size req),
                  sh_wol = wol_params_for req (cs_fence_all_targets req)\<rparr>
           in Inr ((prepared_as params hostname username)\<lparr>pr_banner := ssh_banner\<rparr>))))))"

section \<open>RDP, VNC, SPICE\<close>

definition prepare_rdp ::
  "platform \<Rightarrow> services \<Rightarrow> config \<Rightarrow> create_session_request \<Rightarrow> jump_host list \<Rightarrow> session_error + prepared" where
  "prepare_rdp pf sv cf req hops =
     and_then (ok_or (invalid ''hostname is required for RDP sessions'') (cs_hostname req)) (\<lambda>hostname.
       (let port = unwrap_or 3389 (cs_port req); username = or_default (cs_username req); sz = screen_size_of req in
        and_then (check_session_network pf (sv_dns sv) hostname port (cf_rdp_allowed_networks cf) hops) (\<lambda>_.
          (let drive_cfg = drive_config_or_default (cf_drive cf);
               drive_path = (if is_drive_enabled (cf_drive cf) (cs_enable_drive req)
                  then sv_create_dir sv (dr_drive_path drive_cfg) (sv_uuid sv) else None);
               on = (\<lambda>v. v = Some True);
               params = Rdp \<lparr>rp_hostname = hostname, rp_port = port, rp_username = username,
                  rp_password = cs_password req, rp_domain = cs_domain req, rp_security = cs_security req,
                  rp_server_layout = cs_server_layout req,
                  rp_width = sz_width sz, rp_height = sz_height sz, rp_dpi = sz_dpi sz,
                  rp_ignore_cert = on (cs_ignore_cert req),
                  rp_enable_drive = (drive_path \<noteq> None), rp_drive_path = drive_path,
                  rp_drive_name = dr_drive_name drive_cfg,
                  rp_disable_download = (\<not> dr_allow_download drive_cfg),
                  rp_disable_upload = (\<not> dr_allow_upload drive_cfg),
                  rp_auth_pkg = resolve_rdp_auth_pkg (cs_auth_pkg req) cf, rp_kdc_url = cs_kdc_url req,
                  rp_kerberos_cache = cs_kerberos_cache req, rp_remote_app = cs_remote_app req,
                  rp_remote_app_dir = cs_remote_app_dir req, rp_remote_app_args = cs_remote_app_args req,
                  rp_disable_copy = on (cs_disable_copy req), rp_disable_paste = on (cs_disable_paste req),
                  rp_enable_gfx = on (cs_enable_gfx req),
                  rp_enable_desktop_composition = on (cs_enable_desktop_composition req),
                  rp_enable_wallpaper = on (cs_enable_wallpaper req), rp_enable_theming = on (cs_enable_theming req),
                  rp_enable_full_window_drag = on (cs_enable_full_window_drag req),
                  rp_force_lossless = on (cs_force_lossless req), rp_enable_h264 = on (cs_enable_h264 req),
                  rp_desktop_scale = desktop_scale_of req, rp_secondary_monitors = secondary_monitors_of req,
                  rp_wol = wol_params_for req (cs_fence_all_targets req)\<rparr>
           in Inr ((prepared_as params hostname username)\<lparr>pr_drive_path := drive_path\<rparr>)))))"

definition prepare_vnc ::
  "platform \<Rightarrow> services \<Rightarrow> config \<Rightarrow> create_session_request \<Rightarrow> jump_host list \<Rightarrow> session_error + prepared" where
  "prepare_vnc pf sv cf req hops =
     and_then (ok_or (invalid ''hostname is required for VNC sessions'') (cs_hostname req)) (\<lambda>hostname.
       (let port = unwrap_or 5900 (cs_port req); username = or_default (cs_username req); sz = screen_size_of req in
        and_then (connect_host pf sv hostname port (cf_vnc_allowed_networks cf) hops) (\<lambda>host.
        and_then (vnc_network (cs_vnc_network req)) (\<lambda>preset.
          (let depth = (case cs_color_depth req of
                   Some d \<Rightarrow> Some d
                 | None \<Rightarrow> Option.bind preset (\<lambda>(_, _, _, d). d));
               params = Vnc \<lparr>vp_hostname = host, vp_port = port,
                  vp_username = filter_opt (\<lambda>u. u \<noteq> []) (cs_username req), vp_password = cs_password req,
                  vp_color_depth = depth, vp_width = sz_width sz, vp_height = sz_height sz, vp_dpi = sz_dpi sz,
                  vp_disable_copy = (cs_disable_copy req = Some True),
                  vp_disable_paste = (cs_disable_paste req = Some True),
                  vp_display_resize = (cs_vnc_resize req = Some True),
                  vp_encodings = map_option (\<lambda>(e, _). e) preset,
                  vp_compress_level = map_option (\<lambda>(_, c, _). c) preset,
                  vp_quality_level = map_option (\<lambda>(_, _, q, _). q) preset,
                  vp_wol = wol_params_for req (cs_fence_all_targets req)\<rparr>
           in Inr (prepared_as params hostname username))))))"

definition prepare_spice ::
  "platform \<Rightarrow> services \<Rightarrow> config \<Rightarrow> create_session_request \<Rightarrow> jump_host list \<Rightarrow> session_error + prepared" where
  "prepare_spice pf sv cf req hops =
     (let username = or_default (cs_username req); sz = screen_size_of req in
      and_then (ok_or (invalid ''hostname is required for SPICE sessions'') (cs_hostname req)) (\<lambda>hostname.
        (let port = unwrap_or 5900 (cs_port req) in
         and_then (check_session_network pf (sv_dns sv) hostname port (cf_vnc_allowed_networks cf) hops) (\<lambda>_.
         and_then (checked_spice_ca (sv_readable_certs sv) (cs_spice_ca_cert req)) (\<lambda>ca_cert.
           Inr (prepared_as (Spice \<lparr>pp_hostname = hostname, pp_port = port, pp_password = cs_password req,
             pp_username = cs_username req, pp_tls = (cs_spice_tls req = Some True),
             pp_tls_port = cs_spice_tls_port req, pp_ca_cert = ca_cert, pp_cert_subject = cs_spice_cert_subject req,
             pp_ignore_cert = (cs_ignore_cert req = Some True), pp_proxy = cs_spice_proxy req,
             pp_color_depth = cs_color_depth req, pp_width = sz_width sz, pp_height = sz_height sz, pp_dpi = sz_dpi sz,
             pp_disable_copy = (cs_disable_copy req = Some True), pp_disable_paste = (cs_disable_paste req = Some True),
             pp_enable_audio = False, pp_secondary_monitors = secondary_monitors_of req\<rparr>) hostname username))))))"

section \<open>Proxmox\<close>

definition fence_endpoint ::
  "platform \<Rightarrow> services \<Rightarrow> config \<Rightarrow> bool \<Rightarrow> str \<Rightarrow> str \<Rightarrow> nat \<Rightarrow> session_error + unit" where
  "fence_endpoint pf sv cf fence what input default_port =
     (if fence then
        and_then (parse_host_port (sv_url sv) input default_port) (\<lambda>(host, port).
          map_err (\<lambda>e. invalid (what @ '': '' @ session_error_text (sv_guacd_error_text sv) e))
            (check_allowed_network pf (sv_dns sv) host port (cf_vnc_allowed_networks cf)))
      else Inr ())"

text \<open>A hop of the broker through the bastions: its tunnels, and the local end as \<open>host:port\<close>.\<close>

definition show_socket_addr :: "ip_addr \<times> nat \<Rightarrow> str" where
  "show_socket_addr a = dial_host (fst a) @ '':'' @ show_nat (snd a)"

definition tunnel_endpoint ::
  "services \<Rightarrow> jump_host list \<Rightarrow> str \<Rightarrow> str \<Rightarrow> nat \<Rightarrow> session_error + nat list \<times> str" where
  "tunnel_endpoint sv hops what input default_port =
     and_then (parse_host_port (sv_url sv) input default_port) (\<lambda>(host, port).
     and_then (map_err (\<lambda>e. invalid (what @ '' tunnel failed: '' @ e)) (sv_start_chain sv hops host port)) (\<lambda>(tuns, local).
       Inr (tuns, show_socket_addr local)))"

definition prepare_proxmox ::
  "platform \<Rightarrow> services \<Rightarrow> config \<Rightarrow> create_session_request \<Rightarrow> jump_host list \<Rightarrow> session_error + prepared" where
  "prepare_proxmox pf sv cf req hops =
     (let username = or_default (cs_username req); sz = screen_size_of req;
          fence = (cs_fence_all_targets req \<and> hops = []) in
      and_then (ok_or (invalid ''Proxmox sessions require proxmox_url'') (cs_proxmox_url req)) (\<lambda>pve_url.
        (let vmid = unwrap_or 0 (cs_proxmox_vmid req); verify_tls = (cs_proxmox_verify_tls req = Some True) in
         if vmid = 0 then Inl (invalid ''Proxmox sessions require proxmox_vmid'')
         else
           and_then (fence_endpoint pf sv cf fence ''Proxmox API'' pve_url 8006) (\<lambda>_.
             (let token_id = or_default (cs_proxmox_token_id req); secret = or_default (cs_proxmox_token_secret req);
                  api_token = (if secret = [] then token_id else token_id @ ''='' @ secret) in
              and_then (if hops \<noteq> [] then
                  and_then (tunnel_endpoint sv hops ''Proxmox API'' pve_url 8006) (\<lambda>(tuns, api_local).
                    Inr (tuns, ''https://'' @ api_local, False))
                else Inr ([], pve_url, verify_tls)) (\<lambda>(api_tunnels, base, broker_verify).
                (let broker = \<lparr>pb_base_url = base, pb_api_token = api_token, pb_verify_tls = broker_verify\<rparr> in
                 and_then (case filter_opt (\<lambda>n. trim n \<noteq> []) (cs_proxmox_node req) of
                     Some n \<Rightarrow> Inr n
                   | None \<Rightarrow> map_err (\<lambda>e. invalid (''Proxmox node lookup failed: '' @ e)) (sv_resolve_node sv broker vmid)) (\<lambda>node.
                 and_then (map_err (\<lambda>e. invalid (''Proxmox SPICE broker failed: '' @ e))
                     (sv_fetch_spice_config sv broker node vmid)) (\<lambda>cfg.
                 and_then (fence_endpoint pf sv cf fence ''Proxmox SPICE proxy'' (pc_proxy cfg) 3128) (\<lambda>_.
                 and_then (if hops \<noteq> [] then
                     and_then (tunnel_endpoint sv hops ''Proxmox SPICE proxy'' (pc_proxy cfg) 3128) (\<lambda>(tuns, proxy_local).
                       Inr (tuns, ''http://'' @ proxy_local))
                   else Inr ([], pc_proxy cfg)) (\<lambda>(proxy_tunnels, proxy).
                 and_then (if verify_tls then checked_spice_ca (sv_readable_certs sv) (Some (pc_ca_cert cfg)) else Inr None) (\<lambda>ca_cert.
                   Inr ((prepared_as (Spice \<lparr>pp_hostname = pc_host cfg, pp_port = 0, pp_password = Some (pc_ticket cfg),
                     pp_username = cs_username req, pp_tls = True, pp_tls_port = Some (pc_tls_port cfg),
                     pp_ca_cert = ca_cert, pp_cert_subject = (if verify_tls then Some (pc_host_subject cfg) else None),
                     pp_ignore_cert = (\<not> verify_tls), pp_proxy = Some proxy, pp_color_depth = cs_color_depth req,
                     pp_width = sz_width sz, pp_height = sz_height sz, pp_dpi = sz_dpi sz,
                     pp_disable_copy = (cs_disable_copy req = Some True),
                     pp_disable_paste = (cs_disable_paste req = Some True), pp_enable_audio = False,
                     pp_secondary_monitors = secondary_monitors_of req\<rparr>) (pc_host cfg) username)
                     \<lparr>pr_tunnels := api_tunnels @ proxy_tunnels\<rparr>)))))))))))))"

section \<open>Web\<close>

definition checked_scheme :: "str \<Rightarrow> url \<Rightarrow> session_error + url" where
  "checked_scheme wording parsed =
     (if url_scheme parsed = ''http'' \<or> url_scheme parsed = ''https'' then Inr parsed
      else Inl (invalid (''URL scheme '' @ [CHR 0x27] @ url_scheme parsed @ [CHR 0x27] @ wording)))"

definition prepare_web ::
  "platform \<Rightarrow> services \<Rightarrow> config \<Rightarrow> create_session_request \<Rightarrow> jump_host list \<Rightarrow> session_error + prepared" where
  "prepare_web pf sv cf req hops =
     and_then (ok_or (invalid ''url is required for web sessions'') (cs_url req)) (\<lambda>raw_url.
     and_then (map_err (\<lambda>e. invalid (''invalid URL: '' @ e)) (sv_url sv raw_url)) (\<lambda>parsed.
     and_then (checked_scheme '' not allowed (must be http or https)'' parsed) (\<lambda>_.
       (let enc_user = sv_urlencode sv (or_default (cs_username req));
            enc_pass = sv_urlencode sv (or_default (cs_password req));
            url = replace_all ''$RUSTGUAC_PASSWORD'' enc_pass (replace_all ''$RUSTGUAC_USERNAME'' enc_user raw_url);
            sz = screen_size_of req in
        and_then (map_err (\<lambda>e. invalid (''URL invalid after credential substitution: '' @ e)) (sv_url sv url)) (\<lambda>parsed.
        and_then (checked_scheme '' after substitution not allowed'' parsed) (\<lambda>_.
        and_then (ok_or (invalid ''URL has no host'') (url_host parsed)) (\<lambda>host.
          (let port = unwrap_or (if url_scheme parsed = ''https'' then 443 else 80) (url_port parsed) in
           and_then (check_session_network pf (sv_dns sv) host port (cf_web_allowed_networks cf) hops) (\<lambda>_.
             Inr ((prepared_as (Vnc \<lparr>vp_hostname = ''127.0.0.1'', vp_port = 0, vp_username = None, vp_password = None,
               vp_color_depth = None, vp_width = sz_width sz, vp_height = sz_height sz, vp_dpi = sz_dpi sz,
               vp_disable_copy = (cs_disable_copy req = Some True), vp_disable_paste = (cs_disable_paste req = Some True),
               vp_display_resize = True, vp_encodings = None, vp_compress_level = None, vp_quality_level = None,
               vp_wol = wol_default\<rparr>) ''localhost'' [])\<lparr>pr_url := Some url\<rparr>))))))))))"

section \<open>VDI\<close>

definition container_spec_of ::
  "services \<Rightarrow> create_session_request \<Rightarrow> str \<Rightarrow> vdi_config \<Rightarrow> str \<Rightarrow> container_spec" where
  "container_spec_of sv req created_by vdi_cfg img =
     (let username = vdi_username (cs_container_username req) created_by;
          password = unwrap_or (sv_random_password sv) (filter_opt (\<lambda>s. s \<noteq> []) (cs_container_password req))
      in \<lparr>co_image = img, co_username = username, co_password = password,
          co_cpu_limit = unwrap_or (vc_default_cpu_limit vdi_cfg) (cs_container_cpu_limit req),
          co_memory_limit = unwrap_or (vc_default_memory_limit vdi_cfg) (cs_container_memory_limit req) * 1024 * 1024 mod 2 ^ 64,
          co_env = (map_of (unwrap_or [] (cs_container_env req)))(''VDI_USERNAME'' \<mapsto> username, ''VDI_PASSWORD'' \<mapsto> password),
          co_home_base = vc_home_base vdi_cfg, co_entry_key = cs_address_book_entry req,
          co_idle_timeout_mins = cs_container_idle_timeout_mins req\<rparr>)"

definition prepare_vdi ::
  "services \<Rightarrow> config \<Rightarrow> create_session_request \<Rightarrow> str \<Rightarrow> session_error + prepared" where
  "prepare_vdi sv cf req created_by =
     (let sz = screen_size_of req in
      and_then (ok_or (VdiError ''VDI feature is not enabled'') (filter_opt vc_enabled (cf_vdi cf))) (\<lambda>vdi_cfg.
      and_then (ok_or (VdiError ''VDI driver not initialized'') (sv_vdi_driver sv)) (\<lambda>start_or_reuse.
      and_then (ok_or (invalid ''container_image is required for VDI sessions'') (cs_container_image req)) (\<lambda>img.
        if vc_allowed_images vdi_cfg \<noteq> [] \<and> img \<notin> set (vc_allowed_images vdi_cfg)
        then Inl (VdiError (''image '' @ [CHR 0x27] @ img @ [CHR 0x27] @ '' is not in the allowed list''))
        else if (case filter_opt (\<lambda>s. s \<noteq> []) (cs_container_username req) of
                   Some name \<Rightarrow> \<not> valid_vdi_username name | None \<Rightarrow> False)
        then Inl (invalid (''container_username must be 1-32 letters, digits, '' @ [CHR 0x27] @ ''.'' @ [CHR 0x27] @ '', '' @
            [CHR 0x27] @ ''_'' @ [CHR 0x27] @ '' or '' @ [CHR 0x27] @ ''-'' @ [CHR 0x27] @ '', not starting with '' @
            [CHR 0x27] @ ''.'' @ [CHR 0x27] @ '' or '' @ [CHR 0x27] @ ''-'' @ [CHR 0x27]))
        else
          (let spec = container_spec_of sv req created_by vdi_cfg img in
           and_then (map_err VdiError (start_or_reuse spec)) (\<lambda>info.
             Inr ((prepared_as (Rdp \<lparr>rp_hostname = ci_rdp_host info, rp_port = ci_rdp_port info,
               rp_username = co_username spec, rp_password = Some (co_password spec), rp_domain = None,
               rp_security = None, rp_server_layout = cs_server_layout req,
               rp_width = sz_width sz, rp_height = sz_height sz, rp_dpi = sz_dpi sz, rp_ignore_cert = True,
               rp_enable_drive = False, rp_drive_path = None, rp_drive_name = [], rp_disable_download = True,
               rp_disable_upload = True, rp_auth_pkg = None, rp_kdc_url = None, rp_kerberos_cache = None,
               rp_remote_app = None, rp_remote_app_dir = None, rp_remote_app_args = None,
               rp_disable_copy = (cs_disable_copy req = Some True), rp_disable_paste = (cs_disable_paste req = Some True),
               rp_enable_gfx = True, rp_enable_desktop_composition = True, rp_enable_wallpaper = False,
               rp_enable_theming = False, rp_enable_full_window_drag = False, rp_force_lossless = False,
               rp_enable_h264 = True, rp_desktop_scale = desktop_scale_of req,
               rp_secondary_monitors = secondary_monitors_of req, rp_wol = wol_default\<rparr>) img (co_username spec))
               \<lparr>pr_container := Some (ci_container_id info, ci_container_name info)\<rparr>)))))))"

definition prepare ::
  "platform \<Rightarrow> services \<Rightarrow> config \<Rightarrow> create_session_request \<Rightarrow> str \<Rightarrow> jump_host list \<Rightarrow> session_error + prepared" where
  "prepare pf sv cf req created_by hops =
     (case cs_session_type req of
        SSH \<Rightarrow> prepare_ssh pf sv cf req hops
      | RDP \<Rightarrow> prepare_rdp pf sv cf req hops
      | VNC \<Rightarrow> prepare_vnc pf sv cf req hops
      | SPICE \<Rightarrow> prepare_spice pf sv cf req hops
      | PROXMOX \<Rightarrow> prepare_proxmox pf sv cf req hops
      | WEB \<Rightarrow> prepare_web pf sv cf req hops
      | VDI \<Rightarrow> prepare_vdi sv cf req created_by)"

section \<open>Tunnels and the browser\<close>

fun target_of :: "connection_params \<Rightarrow> str \<times> nat" where
  "target_of (Ssh p) = (sh_hostname p, sh_port p)"
| "target_of (Rdp p) = (rp_hostname p, rp_port p)"
| "target_of (Vnc p) = (vp_hostname p, vp_port p)"
| "target_of (Spice p) = (pp_hostname p, dial_port p)"

fun redirected :: "connection_params \<Rightarrow> ip_addr \<times> nat \<Rightarrow> connection_params" where
  "redirected (Ssh p) addr = Ssh (p\<lparr>sh_hostname := show_ip (fst addr), sh_port := snd addr\<rparr>)"
| "redirected (Rdp p) addr = Rdp (p\<lparr>rp_hostname := show_ip (fst addr), rp_port := snd addr\<rparr>)"
| "redirected (Vnc p) addr = Vnc (p\<lparr>vp_hostname := show_ip (fst addr), vp_port := snd addr\<rparr>)"
| "redirected (Spice p) addr = Spice (if pp_tls p
     then p\<lparr>pp_hostname := show_ip (fst addr), pp_tls_port := Some (snd addr)\<rparr>
     else p\<lparr>pp_hostname := show_ip (fst addr), pp_port := snd addr\<rparr>)"

text \<open>The tunnels, the local end of the chain if there is one, and the parameters guacd gets.\<close>

definition open_tunnels ::
  "services \<Rightarrow> create_session_request \<Rightarrow> jump_host list \<Rightarrow> prepared \<Rightarrow>
   session_error + (nat list \<times> ip_addr \<times> nat) option \<times> connection_params" where
  "open_tunnels sv req hops pr =
     (if hops \<noteq> [] \<and> cs_session_type req \<noteq> PROXMOX then
        and_then (case pr_url pr of
            Some u \<Rightarrow>
              and_then (map_err (\<lambda>e. invalid (''invalid URL: '' @ e)) (sv_url sv u)) (\<lambda>parsed.
                Inr (unwrap_or ''localhost'' (url_host parsed),
                     case url_port parsed of Some p \<Rightarrow> p | None \<Rightarrow> unwrap_or 80 (url_known_port parsed)))
          | None \<Rightarrow> Inr (target_of (pr_params pr))) (\<lambda>(target_host, target_port).
        and_then (map_err (\<lambda>e. invalid (''SSH tunnel failed: '' @ e)) (sv_start_chain sv hops target_host target_port)) (\<lambda>(tunnels, final_addr).
          Inr (Some (tunnels, final_addr),
               if pr_url pr = None then redirected (pr_params pr) final_addr else pr_params pr)))
      else Inr (None, pr_params pr))"

definition browser_url :: "services \<Rightarrow> str \<Rightarrow> (nat list \<times> ip_addr \<times> nat) option \<Rightarrow> str" where
  "browser_url sv u tunnels =
     (case tunnels of
        None \<Rightarrow> u
      | Some (_, _, port) \<Rightarrow>
          (case sv_url sv u of
             Inl _ \<Rightarrow> u
           | Inr parsed \<Rightarrow>
               url_scheme parsed @ ''://127.0.0.1:'' @ show_nat port @ url_path parsed @
               (case url_query parsed of None \<Rightarrow> [] | Some q \<Rightarrow> ''?'' @ q)))"

fun at_vnc_port :: "nat \<Rightarrow> connection_params \<Rightarrow> connection_params" where
  "at_vnc_port port (Vnc p) = Vnc (p\<lparr>vp_port := port\<rparr>)"
| "at_vnc_port port params = params"

definition start_browser ::
  "services \<Rightarrow> create_session_request \<Rightarrow> prepared \<Rightarrow> (nat list \<times> ip_addr \<times> nat) option \<Rightarrow> connection_params \<Rightarrow>
   session_error + browser_session option \<times> connection_params" where
  "start_browser sv req pr tunnels params =
     (case pr_url pr of
        None \<Rightarrow> Inr (None, params)
      | Some u \<Rightarrow>
          and_then (map_err BrowserSpawn (sv_spawn_browser sv (browser_url sv u tunnels)
              (sz_width (screen_size_of req)) (sz_height (screen_size_of req)) (cs_login_script req \<noteq> None)
              (parse_autofill_credentials (sv_json sv) (cs_autofill req) (cs_username req) (cs_password req))
              (cs_allowed_domains req))) (\<lambda>browser.
            Inr (Some browser, at_vnc_port (br_vnc_port browser) params)))"

definition start_login_script :: "services \<Rightarrow> create_session_request \<Rightarrow> str option \<Rightarrow> browser_session option \<Rightarrow> nat option" where
  "start_login_script sv req u browser =
     (case (cs_login_script req, browser) of
        (Some script, Some bs) \<Rightarrow>
          (case br_cdp_port bs of
             Some cdp_port \<Rightarrow> sv_login_script sv script (br_display bs) cdp_port (or_default u)
           | None \<Rightarrow> None)
      | _ \<Rightarrow> None)"

section \<open>Sessions\<close>

datatype session_status = Pending | Active | Completed | Error | Expired

record shadow_token =
  st_token_hash :: str
  st_issued_by :: str
  st_expires_at :: int
  st_read_only :: bool

text \<open>A cancellation token is known by a number, a stream to guacd is its link.\<close>

record session =
  se_id :: str
  se_session_type :: session_type
  se_status :: session_status
  se_created_at :: int
  se_hostname :: str
  se_username :: str
  se_url :: "str option"
  se_banner :: "str option"
  se_guacd_stream :: "link option"
  se_connection_id :: str
  se_share_token :: str
  se_share_token_ro :: str
  se_width :: nat
  se_height :: nat
  se_active_connections :: nat
  se_created_by :: str
  se_cancel :: nat
  se_browser_session :: "browser_session option"
  se_deferred_params :: "connection_params option"
  se_drive_path :: "str option"
  se_tunnels :: "nat list"
  se_container_id :: "str option"
  se_container_name :: "str option"
  se_recording_enabled :: bool
  se_address_book_entry :: "str option"
  se_address_book_folder :: "str option"
  se_entry_display_name :: "str option"
  se_max_recordings :: "nat option"
  se_login_script_handle :: "nat option"
  se_shadow_tokens :: "shadow_token list"
  se_share_allowed :: bool
  se_display_scale :: "rat option"
  se_fullscreen_on_connect :: bool
  se_reuse_fingerprint :: str
  se_h264_chroma444 :: "bool option"
  se_autohide_side_tabs :: bool

definition is_live :: "session \<Rightarrow> bool" where
  "is_live s \<longleftrightarrow> se_status s = Pending \<or> se_status s = Active"

definition check_limits :: "config \<Rightarrow> str \<Rightarrow> session list \<Rightarrow> session_error + unit" where
  "check_limits cf created_by sessions =
     (if 0 < cf_max_sessions cf \<and> cf_max_sessions cf \<le> length sessions
      then Inl (invalid (''maximum concurrent sessions reached ('' @ show_nat (cf_max_sessions cf) @ '')''))
      else if 0 < cf_max_sessions_per_user cf \<and>
              cf_max_sessions_per_user cf \<le> length (filter (\<lambda>s. se_created_by s = created_by \<and> is_live s) sessions)
      then Inl (invalid (''maximum sessions per user reached ('' @ show_nat (cf_max_sessions_per_user cf) @ '')''))
      else Inr ())"

text \<open>The stream, the connection id and the parameters kept for later.\<close>

definition connect_guacd ::
  "services \<Rightarrow> bool \<Rightarrow> connection_params \<Rightarrow> session_error + link option \<times> str \<times> connection_params option" where
  "connect_guacd sv deferred params =
     (if deferred then Inr (None, [], Some params)
      else
        and_then (map_err GuacdConnection (connect_and_handshake (sv_guacd sv) params)) (\<lambda>(stream, connection_id).
          Inr (Some stream, connection_id, None)))"

definition create_session ::
  "platform \<Rightarrow> services \<Rightarrow> config \<Rightarrow> create_session_request \<Rightarrow> str \<Rightarrow> session list \<Rightarrow> session_error + session" where
  "create_session pf sv cf req created_by sessions =
     and_then (check_limits cf created_by sessions) (\<lambda>_.
     and_then (fenced_hops pf sv cf (cs_fence_all_targets req) (requested_hops req)) (\<lambda>hops.
     and_then (prepare pf sv cf req created_by hops) (\<lambda>pr.
     and_then (open_tunnels sv req hops pr) (\<lambda>(tunnels, params).
     and_then (start_browser sv req pr tunnels params) (\<lambda>(browser, params).
     and_then (connect_guacd sv (pr_banner pr \<noteq> None) params) (\<lambda>(stream, connection_id, deferred_params).
       Inr \<lparr>se_id = sv_uuid sv, se_session_type = cs_session_type req, se_status = Pending,
            se_created_at = sv_utc_now sv, se_hostname = pr_hostname pr, se_username = pr_username pr,
            se_url = pr_url pr,
            se_banner = (case pr_banner pr of Some b \<Rightarrow> Some b | None \<Rightarrow> cs_banner req),
            se_guacd_stream = stream, se_connection_id = connection_id,
            se_share_token = sv_share_token sv, se_share_token_ro = sv_share_token_ro sv,
            se_width = sz_width (screen_size_of req), se_height = sz_height (screen_size_of req),
            se_active_connections = 0, se_created_by = created_by, se_cancel = sv_cancel_token sv,
            se_browser_session = browser, se_deferred_params = deferred_params,
            se_drive_path = pr_drive_path pr,
            se_tunnels = (case tunnels of None \<Rightarrow> [] | Some (ts, _) \<Rightarrow> ts) @ pr_tunnels pr,
            se_container_id = map_option fst (pr_container pr), se_container_name = map_option snd (pr_container pr),
            se_recording_enabled = recording_enabled_for (cs_enable_recording req) cf,
            se_address_book_entry = cs_address_book_entry req, se_address_book_folder = cs_address_book_folder req,
            se_entry_display_name = cs_entry_display_name req, se_max_recordings = cs_max_recordings req,
            se_login_script_handle = start_login_script sv req (pr_url pr) browser,
            se_shadow_tokens = [],
            se_share_allowed = unwrap_or (cs_address_book_entry req = None) (cs_allow_sharing req),
            se_display_scale = cs_display_scale req,
            se_fullscreen_on_connect = (cs_fullscreen_on_connect req = Some True),
            se_reuse_fingerprint = reuse_fingerprint pf (sv_serialise sv) (sv_json_text sv) (sv_fallback_uuid sv) req,
            se_h264_chroma444 = cs_h264_chroma444 req,
            se_autohide_side_tabs = (cs_autohide_side_tabs req = Some True)\<rparr>))))))"

section \<open>What a fenced request can make the gateway dial\<close>












lemma container_image: "co_image (container_spec_of sv req created_by vdi_cfg img) = img"
  by (simp add: container_spec_of_def Let_def)


lemma adhoc_keeps:
  "requested_hops (apply_adhoc_policy req False cf) = requested_hops req"
  "cs_session_type (apply_adhoc_policy req False cf) = cs_session_type req"
  "cs_fence_all_targets (apply_adhoc_policy req False cf)"
  by (simp_all add: adhoc_fields clear_entry_only_fields_def requested_hops_def split: option.split)


lemma create_session_Inr:
  assumes "create_session pf sv cf req created_by sessions = Inr s"
  obtains hops pr tunnels params browser params' stream cid deferred where
    "check_limits cf created_by sessions = Inr ()"
    "fenced_hops pf sv cf (cs_fence_all_targets req) (requested_hops req) = Inr hops"
    "prepare pf sv cf req created_by hops = Inr pr"
    "open_tunnels sv req hops pr = Inr (tunnels, params)"
    "start_browser sv req pr tunnels params = Inr (browser, params')"
    "connect_guacd sv (pr_banner pr \<noteq> None) params' = Inr (stream, cid, deferred)"
    "se_guacd_stream s = stream" "se_connection_id s = cid" "se_deferred_params s = deferred"
    "se_browser_session s = browser"
    "se_status s = Pending" "se_created_by s = created_by" "se_active_connections s = 0" "se_shadow_tokens s = []"
    "se_width s = sz_width (screen_size_of req)" "se_height s = sz_height (screen_size_of req)"
    "se_recording_enabled s = recording_enabled_for (cs_enable_recording req) cf"
    "se_address_book_entry s = cs_address_book_entry req" "se_max_recordings s = cs_max_recordings req"
    "se_share_allowed s = unwrap_or (cs_address_book_entry req = None) (cs_allow_sharing req)"
  using assms by (auto simp: create_session_def)







lemma adhoc_proxy:
  "apply_adhoc_policy (req\<lparr>cs_spice_proxy := q\<rparr>) False cf = (apply_adhoc_policy req False cf)\<lparr>cs_spice_proxy := q\<rparr>"
  by (rule create_session_request.equality) (simp_all add: adhoc_fields clear_entry_only_fields_def)

lemma proxy_keeps:
  "screen_size_of (r\<lparr>cs_spice_proxy := q\<rparr>) = screen_size_of r"
  "secondary_monitors_of (r\<lparr>cs_spice_proxy := q\<rparr>) = secondary_monitors_of r"
  by (simp_all add: screen_size_of_def secondary_monitors_of_def)

text \<open>
  One address of a SPICE session escapes the fence. guacd reaches a SPICE server through the
  proxy named by its \<open>proxy\<close> argument, and for an ad-hoc SPICE request that argument is the
  caller's own text, whatever the allowlists are: if the request passes with one proxy, it
  passes with every other.
\<close>

theorem spice_proxy_unfenced:
  assumes "cs_session_type req = SPICE"
    and "prepare pf sv cf (apply_adhoc_policy req False cf) created_by hops = Inr pr"
  shows "\<exists>pr'. prepare pf sv cf (apply_adhoc_policy (req\<lparr>cs_spice_proxy := Some proxy\<rparr>) False cf) created_by hops = Inr pr' \<and>
    arg_value (pr_params pr') ''proxy'' = proxy \<and> target_of (pr_params pr') = target_of (pr_params pr)"
proof -
  let ?r = "apply_adhoc_policy req False cf"
  have ty: "cs_session_type ?r = SPICE" using assms(1) by (simp add: adhoc_keeps)
  show ?thesis
    using assms(2) unfolding adhoc_proxy prepare_def ty session_type.case
    by (auto simp: prepare_spice_def Let_def prepared_as_def proxy_keeps spice_arg_value_def or_default_def dial_port_def ty
        split: option.split)
qed

text \<open>
  C39: What every session starts as. Its screen is within bounds whatever was asked for, it is
  pending, unshared with anyone, not yet connected, and belongs to its creator; and an ad-hoc
  session of a caller below administrator is recorded wherever the site records, belongs to
  no entry, so that its end rotates away no entry's recordings.
\<close>

theorem new_session_bounds:
  assumes "create_session pf sv cf req created_by sessions = Inr s"
  shows "se_status s = Pending \<and> se_active_connections s = 0 \<and> se_shadow_tokens s = [] \<and> se_created_by s = created_by \<and>
    640 \<le> se_width s \<and> se_width s \<le> 8192 \<and> 480 \<le> se_height s \<and> se_height s \<le> 8192 \<and>
    (0 < cf_max_sessions cf \<longrightarrow> length sessions < cf_max_sessions cf) \<and>
    (se_guacd_stream s = None \<longleftrightarrow> se_deferred_params s \<noteq> None) \<and>
    (\<forall>sent. req = apply_adhoc_policy sent False cf \<longrightarrow>
       (recording_enabled cf \<longrightarrow> se_recording_enabled s) \<and> se_address_book_entry s = None \<and> se_max_recordings s = None)"
proof -
  have c: "640 \<le> clamp 640 8192 x" "clamp 640 8192 x \<le> 8192" "480 \<le> clamp 480 8192 x" "clamp 480 8192 x \<le> 8192" for x
    by (simp_all add: clamp_def)
  show ?thesis
    by (rule create_session_Inr [OF assms])
      (auto simp: screen_size_of_def c check_limits_def connect_guacd_def adhoc_fields clear_entry_only_fields_def
        recording_enabled_for_def keep_recording_def split: if_splits option.splits)
qed

section \<open>A small site\<close>

text \<open>A site that allows one address, a request for an SSH session with a fresh key, and what answers it.\<close>

definition demo_pf :: platform where
  "demo_pf = \<lparr>pf_hash = (\<lambda>s. s), pf_datetime = (\<lambda>_. []), pf_rfc3339 = (\<lambda>_. None), pf_naive = (\<lambda>_ _. None),
     pf_date = (\<lambda>_. None), pf_network = (\<lambda>s. if s = ''10.0.0.5/32'' then Some (\<lambda>ip. ip = Ipv4 [10, 0, 0, 5]) else None)\<rparr>"

definition demo_config :: config where
  "demo_config = \<lparr>cf_ssh_allowed_networks = [''10.0.0.5/32''], cf_rdp_allowed_networks = [],
     cf_vnc_allowed_networks = [''10.0.0.5/32''], cf_web_allowed_networks = [], cf_max_sessions = 2,
     cf_max_sessions_per_user = 0, cf_session_pending_timeout_secs = 60, cf_session_max_duration_secs = 3600,
     cf_session_cleanup_delay_secs = 60, cf_recording_path = ''rec'', cf_recording = None, cf_drive = None,
     cf_vdi = None, cf_rdp_default_auth_pkg = None\<rparr>"

definition demo_create_request :: create_session_request where
  "demo_create_request = \<lparr>cs_session_type = SSH, cs_hostname = Some ''10.0.0.5'', cs_port = None, cs_username = None, cs_password = None,
     cs_private_key = None, cs_generate_keypair = Some True, cs_url = None, cs_domain = None, cs_security = None,
     cs_server_layout = None, cs_ignore_cert = None, cs_auth_pkg = None, cs_kdc_url = None, cs_kerberos_cache = None,
     cs_color_depth = None, cs_jump_hosts = None, cs_jump_host = None, cs_jump_port = None, cs_jump_username = None,
     cs_jump_password = None, cs_jump_private_key = None, cs_width = None, cs_height = None, cs_dpi = None,
     cs_desktop_scale = None, cs_display_scale = None, cs_banner = None, cs_enable_drive = None, cs_remote_app = None,
     cs_remote_app_dir = None, cs_remote_app_args = None, cs_enable_recording = None, cs_record_typescript = None,
     cs_address_book_entry = None, cs_address_book_folder = None, cs_entry_display_name = None,
     cs_max_recordings = None, cs_login_script = None, cs_autofill = None, cs_allowed_domains = None,
     cs_vnc_resize = None, cs_vnc_network = None, cs_disable_copy = None, cs_disable_paste = None,
     cs_enable_gfx = None, cs_enable_desktop_composition = None, cs_enable_wallpaper = None, cs_enable_theming = None,
     cs_enable_full_window_drag = None, cs_force_lossless = None, cs_enable_h264 = None, cs_h264_chroma444 = None,
     cs_container_image = None, cs_container_cpu_limit = None, cs_container_memory_limit = None,
     cs_container_env = None, cs_container_idle_timeout_mins = None, cs_container_username = None,
     cs_container_password = None, cs_allow_sharing = None, cs_fullscreen_on_connect = None,
     cs_autohide_side_tabs = None, cs_spice_tls = None, cs_spice_tls_port = None, cs_spice_ca_cert = None,
     cs_spice_cert_subject = None, cs_spice_proxy = None, cs_proxmox_url = None, cs_proxmox_node = None,
     cs_proxmox_vmid = None, cs_proxmox_token_id = None, cs_proxmox_token_secret = None, cs_proxmox_verify_tls = None,
     cs_max_monitors = None, cs_owner = None, cs_fence_all_targets = False, cs_ssh_font_size = None,
     cs_wol_send_packet = None, cs_wol_mac_addr = None, cs_wol_broadcast_addr = None, cs_wol_udp_port = None,
     cs_wol_wait_time = None\<rparr>"

definition demo_services :: services where
  "demo_services = \<lparr>sv_dns = (\<lambda>_ _. Timed_out), sv_url = (\<lambda>_. Inl []), sv_urlencode = id, sv_readable_certs = (\<lambda>_. 0),
     sv_keypair = Inr (''priv'', ''pub''), sv_json = (\<lambda>_. None), sv_serialise = (\<lambda>_. None), sv_json_text = (\<lambda>_. []),
     sv_create_dir = (\<lambda>_ _. None), sv_start_chain = (\<lambda>_ _ _. Inl []), sv_resolve_node = (\<lambda>_ _. Inl []),
     sv_fetch_spice_config = (\<lambda>_ _ _. Inl []), sv_vdi_driver = None, sv_spawn_browser = (\<lambda>_ _ _ _ _ _. Inl []),
     sv_login_script = (\<lambda>_ _ _ _. None), sv_guacd = Inl (Io []), sv_guacd_error_text = (\<lambda>_. []), sv_uuid = ''u1'',
     sv_uuid_simple = ''u1'', sv_fallback_uuid = ''u2'', sv_random_password = [], sv_share_token = ''share'', sv_share_token_ro = ''look'',
     sv_cancel_token = 1, sv_utc_now = 0, sv_date = [], sv_time = []\<rparr>"

lemma demo_address: "allowed_address demo_pf dns ''10.0.0.5'' port [''10.0.0.5/32''] = Inr (Ipv4 [10, 0, 0, 5])"
proof -
  have "parse_ip_addr ''10.0.0.5'' = Some (Ipv4 [10, 0, 0, 5])" by code_simp
  then show ?thesis by (simp add: allowed_address_def demo_pf_def List.map_filter_simps)
qed

lemma demo_created:
  "\<exists>s. create_session demo_pf demo_services demo_config (apply_adhoc_policy demo_create_request False demo_config) ''ann'' [] = Inr s \<and>
     se_id s = ''u1'' \<and> se_cancel s = 1 \<and> se_created_at s = 0 \<and> se_deferred_params s \<noteq> None"
proof -
  let ?r = "apply_adhoc_policy demo_create_request False demo_config"
  have r: "cs_session_type ?r = SSH" "cs_hostname ?r = Some ''10.0.0.5''" "cs_generate_keypair ?r = Some True"
      "requested_hops ?r = []" "cs_banner ?r = None"
    by (simp_all add: adhoc_fields clear_entry_only_fields_def demo_create_request_def requested_hops_def)
  have "connect_host demo_pf demo_services ''10.0.0.5'' port (cf_ssh_allowed_networks demo_config) [] = Inr (show_ip (Ipv4 [10, 0, 0, 5]))" for port
    by (simp add: connect_host_def demo_config_def demo_address and_then_def)
  moreover have "sv_keypair demo_services = Inr (''priv'', ''pub'')" "sv_uuid demo_services = ''u1''" "sv_cancel_token demo_services = 1"
      "sv_utc_now demo_services = 0" "cf_max_sessions demo_config = 2" "cf_max_sessions_per_user demo_config = 0"
    by (simp_all add: demo_services_def demo_config_def)
  ultimately show ?thesis
    by (simp add: create_session_def check_limits_def and_then_def fenced_hops_def r prepare_def prepare_ssh_def ok_or_def Let_def
        ssh_key_and_banner_def map_err_def prepared_as_def open_tunnels_def start_browser_def connect_guacd_def)
qed


theorem new_session_bounds_witness:
  "\<exists>s. create_session demo_pf demo_services demo_config (apply_adhoc_policy demo_create_request False demo_config) ''ann'' [] = Inr s \<and>
     se_width s \<le> 8192 \<and> se_recording_enabled s"
proof -
  obtain s where s: "create_session demo_pf demo_services demo_config (apply_adhoc_policy demo_create_request False demo_config) ''ann'' [] = Inr s"
    using demo_created by (elim exE conjE)
  have "recording_enabled demo_config" by (simp add: recording_enabled_def demo_config_def)
  moreover note b = new_session_bounds [OF s]
  ultimately have "se_recording_enabled s" by (elim conjE allE [of _ demo_create_request]) simp
  moreover have "se_width s \<le> 8192" using b by (elim conjE)
  ultimately show ?thesis using s by (intro exI conjI)
qed

theorem spice_proxy_unfenced_witness:
  "\<exists>pr. prepare demo_pf demo_services demo_config (apply_adhoc_policy
       (demo_create_request\<lparr>cs_session_type := SPICE, cs_spice_proxy := Some ''http://10.9.9.9:80''\<rparr>) False demo_config) ''ann'' [] = Inr pr \<and>
     arg_value (pr_params pr) ''proxy'' = ''http://10.9.9.9:80''"
proof -
  let ?q = "demo_create_request\<lparr>cs_session_type := SPICE\<rparr>"
  let ?r = "apply_adhoc_policy ?q False demo_config"
  have r: "cs_session_type ?r = SPICE" "cs_hostname ?r = Some ''10.0.0.5''" "cs_spice_ca_cert ?r = None"
    by (simp_all add: adhoc_fields clear_entry_only_fields_def demo_create_request_def)
  have "check_session_network demo_pf (sv_dns demo_services) ''10.0.0.5'' port (cf_vnc_allowed_networks demo_config) [] = Inr ()" for port
    by (simp add: check_session_network_def check_allowed_network_def demo_config_def demo_address)
  then have "\<exists>pr. prepare demo_pf demo_services demo_config ?r ''ann'' [] = Inr pr"
    by (simp add: prepare_def r prepare_spice_def and_then_def ok_or_def Let_def checked_spice_ca_def filter_opt_def)
  then obtain pr where p: "prepare demo_pf demo_services demo_config ?r ''ann'' [] = Inr pr" by (elim exE)
  have "cs_session_type ?q = SPICE" by simp
  from spice_proxy_unfenced [OF this p, of "''http://10.9.9.9:80''"] show ?thesis by auto
qed

end
