(* ===== verification/Account_History.thy ===== *)
theory Account_History
  imports Accounts
begin

text \<open>
  Histories of the account database of \<^verbatim>\<open>src/src/db.rs\<close>: the writing operations as one
  step function, the invariant of the tables (keys, uniqueness, references), and what holds
  over every sequence of operations: a deleted user stays deleted, a user bound to an OIDC
  subject stays bound to it, credentials authenticate whom they were issued to.
\<close>

section \<open>Histories\<close>

text \<open>The operations that write to the database, with the time they are called at.\<close>

datatype db_op =
    Op_add_admin nat str str "str option" "str option"
  | Op_validate_api_key nat str "ip_addr option"
  | Op_disable_admin str | Op_enable_admin str | Op_delete_admin str
  | Op_rotate_key str str
  | Op_upsert_user nat str str "str option" str "str list" bool
  | Op_create_user nat str str str
  | Op_reset_oidc_subject str
  | Op_set_user_role str str | Op_disable_user str | Op_enable_user str | Op_delete_user str
  | Op_create_auth_session nat str int nat
  | Op_delete_user_sessions int
  | Op_delete_auth_session str
  | Op_cleanup_expired_sessions nat
  | Op_create_group_mapping nat str str
  | Op_update_group_mapping int str str
  | Op_delete_group_mapping int
  | Op_upsert_seen_groups nat "str list"
  | Op_create_user_token nat str int str "str option" "str option"
  | Op_validate_user_token nat str
  | Op_revoke_user_token int int | Op_admin_revoke_user_token int | Op_revoke_all_user_tokens int
  | Op_cleanup_expired_user_tokens nat

text \<open>A statement that fails leaves the database as it was.\<close>

definition committed :: "database \<Rightarrow> 'e + database \<times> 'a \<Rightarrow> database" where
  "committed db r = (case r of Inl _ \<Rightarrow> db | Inr (db', _) \<Rightarrow> db')"

fun apply_op :: "platform \<Rightarrow> db_op \<Rightarrow> database \<Rightarrow> database" where
  "apply_op pf (Op_add_admin now key name ips ex) db = committed db (add_admin pf now key name ips ex db)"
| "apply_op pf (Op_validate_api_key now key ip) db = snd (validate_api_key pf now key ip db)"
| "apply_op pf (Op_disable_admin name) db = fst (disable_admin name db)"
| "apply_op pf (Op_enable_admin name) db = fst (enable_admin name db)"
| "apply_op pf (Op_delete_admin name) db = fst (delete_admin name db)"
| "apply_op pf (Op_rotate_key key name) db = fst (rotate_key pf key name db)"
| "apply_op pf (Op_upsert_user now email name sub role groups create) db =
     committed db (upsert_user pf now email name sub role groups create db)"
| "apply_op pf (Op_create_user now email name role) db = committed db (create_user pf now email name role db)"
| "apply_op pf (Op_reset_oidc_subject email) db = committed db (reset_oidc_subject email db)"
| "apply_op pf (Op_set_user_role email role) db = fst (set_user_role email role db)"
| "apply_op pf (Op_disable_user email) db = fst (disable_user email db)"
| "apply_op pf (Op_enable_user email) db = fst (enable_user email db)"
| "apply_op pf (Op_delete_user email) db = committed db (delete_user email db)"
| "apply_op pf (Op_create_auth_session now token user ttl) db =
     committed db (create_auth_session pf now token user ttl db)"
| "apply_op pf (Op_delete_user_sessions user) db = fst (delete_user_sessions user db)"
| "apply_op pf (Op_delete_auth_session token) db = fst (delete_auth_session pf token db)"
| "apply_op pf (Op_cleanup_expired_sessions now) db = fst (cleanup_expired_sessions pf now db)"
| "apply_op pf (Op_create_group_mapping now g role) db = committed db (create_group_mapping pf now g role db)"
| "apply_op pf (Op_update_group_mapping i g role) db = committed db (update_group_mapping i g role db)"
| "apply_op pf (Op_delete_group_mapping i) db = fst (delete_group_mapping i db)"
| "apply_op pf (Op_upsert_seen_groups now groups) db = upsert_seen_groups pf now groups db"
| "apply_op pf (Op_create_user_token now key user name role ex) db =
     committed db (create_user_token pf now key user name role ex db)"
| "apply_op pf (Op_validate_user_token now token) db = snd (validate_user_token pf now token db)"
| "apply_op pf (Op_revoke_user_token user i) db = fst (revoke_user_token user i db)"
| "apply_op pf (Op_admin_revoke_user_token i) db = fst (admin_revoke_user_token i db)"
| "apply_op pf (Op_revoke_all_user_tokens user) db = fst (revoke_all_user_tokens user db)"
| "apply_op pf (Op_cleanup_expired_user_tokens now) db = fst (cleanup_expired_user_tokens pf now db)"

definition db_run :: "platform \<Rightarrow> db_op list \<Rightarrow> database \<Rightarrow> database" where
  "db_run pf ops db = foldl (\<lambda>db op. apply_op pf op db) db ops"

text \<open>What a store of operations promises: each of them keeps the invariant.\<close>

locale op_system =
  fixes step :: "'op \<Rightarrow> 's \<Rightarrow> 's"
    and inv :: "'s \<Rightarrow> bool"
  assumes step_inv: "inv s \<Longrightarrow> inv (step op s)"
begin

lemma run_inv: "inv s \<Longrightarrow> inv (foldl (\<lambda>s op. step op s) s ops)"
  by (induction ops arbitrary: s) (simp_all add: step_inv)

lemma run_stable:
  assumes "\<And>op s. inv s \<Longrightarrow> P s \<Longrightarrow> op \<in> A \<Longrightarrow> P (step op s)" "inv s" "P s" "set ops \<subseteq> A"
  shows "P (foldl (\<lambda>s op. step op s) s ops)"
  using assms(2-4) by (induction ops arbitrary: s) (simp_all add: step_inv assms(1))

end

section \<open>The invariant of the tables\<close>

text \<open>A table with an \<open>AUTOINCREMENT\<close> key: no two rows of a key, none beyond the counter.\<close>

definition table_ok :: "('row \<Rightarrow> int) \<Rightarrow> 'row list \<Rightarrow> int \<Rightarrow> bool" where
  "table_ok rid rows sq \<longleftrightarrow> distinct (map rid rows) \<and> (\<forall>i\<in>rid ` set rows. i \<le> sq)"

definition admins_ok :: "(admin_info \<times> str) list \<Rightarrow> int \<Rightarrow> bool" where
  "admins_ok rows sq \<longleftrightarrow> table_ok (a_id \<circ> fst) rows sq \<and> distinct (map (a_name \<circ> fst) rows)"

definition users_ok :: "user list \<Rightarrow> int \<Rightarrow> bool" where
  "users_ok rows sq \<longleftrightarrow> table_ok u_id rows sq \<and> distinct (map u_email rows)"

definition mappings_ok :: "group_role_mapping list \<Rightarrow> int \<Rightarrow> bool" where
  "mappings_ok rows sq \<longleftrightarrow> table_ok g_id rows sq \<and> distinct (map g_oidc_group rows)"

text \<open>Sessions and tokens refer to users that exist.\<close>

definition sessions_ok :: "auth_session list \<Rightarrow> int set \<Rightarrow> bool" where
  "sessions_ok rows uids \<longleftrightarrow> distinct (map s_token_hash rows) \<and> s_user_id ` set rows \<subseteq> uids"

definition tokens_ok :: "(user_api_token \<times> str) list \<Rightarrow> int \<Rightarrow> int set \<Rightarrow> bool" where
  "tokens_ok rows sq uids \<longleftrightarrow>
     table_ok (t_id \<circ> fst) rows sq \<and> distinct (map snd rows) \<and>
     distinct (map (\<lambda>r. (t_user_id (fst r), t_name (fst r))) rows) \<and> (t_user_id \<circ> fst) ` set rows \<subseteq> uids"

abbreviation user_ids :: "database \<Rightarrow> int set" where
  "user_ids db \<equiv> u_id ` set (db_users db)"

definition db_ok :: "database \<Rightarrow> bool" where
  "db_ok db \<longleftrightarrow>
     admins_ok (db_admins db) (db_admins_seq db) \<and> users_ok (db_users db) (db_users_seq db) \<and>
     sessions_ok (db_sessions db) (user_ids db) \<and> mappings_ok (db_mappings db) (db_mappings_seq db) \<and>
     distinct (map sg_name (db_seen_groups db)) \<and> tokens_ok (db_tokens db) (db_tokens_seq db) (user_ids db)"

lemma map_update_rows:
  "(\<And>x. P x \<Longrightarrow> k (f x) = k x) \<Longrightarrow> map k (update_rows P f xs) = map k xs"
  by (simp add: update_rows_def)

lemma image_update_rows:
  "(\<And>x. P x \<Longrightarrow> k (f x) = k x) \<Longrightarrow> k ` set (update_rows P f xs) = k ` set xs"
  using map_update_rows [of P k f xs] by (metis list.set_map)

lemma set_delete_rows [simp]: "set (delete_rows P xs) = {x \<in> set xs. \<not> P x}"
  by (auto simp: delete_rows_def)

lemma distinct_delete_rows: "distinct (map k xs) \<Longrightarrow> distinct (map k (delete_rows P xs))"
  by (simp add: delete_rows_def distinct_map_filter)

lemma table_ok_update:
  "(\<And>x. P x \<Longrightarrow> rid (f x) = rid x) \<Longrightarrow> table_ok rid (update_rows P f xs) sq = table_ok rid xs sq"
  unfolding table_ok_def by (simp only: map_update_rows image_update_rows)

lemma table_ok_delete: "table_ok rid xs sq \<Longrightarrow> table_ok rid (delete_rows P xs) sq"
  by (auto simp: table_ok_def distinct_delete_rows)

lemma table_ok_insert: "table_ok rid xs sq \<Longrightarrow> rid x = sq + 1 \<Longrightarrow> table_ok rid (xs @ [x]) (sq + 1)"
  by (force simp: table_ok_def)

lemma distinct_snoc: "distinct (map k xs) \<Longrightarrow> k x \<notin> k ` set xs \<Longrightarrow> distinct (map k (xs @ [x]))"
  by simp

lemma admins_ok_laws:
  "(\<And>r. a_id (fst (f r)) = a_id (fst r) \<and> a_name (fst (f r)) = a_name (fst r)) \<Longrightarrow>
     admins_ok (update_rows P f rows) sq = admins_ok rows sq"
  "admins_ok rows sq \<Longrightarrow> admins_ok (delete_rows P rows) sq"
  "admins_ok rows sq \<Longrightarrow> a_id (fst r) = sq + 1 \<Longrightarrow> a_name (fst r) \<notin> (a_name \<circ> fst) ` set rows \<Longrightarrow>
     admins_ok (rows @ [r]) (sq + 1)"
  by (simp_all add: admins_ok_def table_ok_update table_ok_delete table_ok_insert map_update_rows
      distinct_delete_rows image_def)

lemma users_ok_laws:
  "(\<And>u. u_id (f u) = u_id u \<and> u_email (f u) = u_email u) \<Longrightarrow> users_ok (update_rows P f rows) sq = users_ok rows sq"
  "users_ok rows sq \<Longrightarrow> users_ok (delete_rows P rows) sq"
  "users_ok rows sq \<Longrightarrow> u_id u = sq + 1 \<Longrightarrow> u_email u \<notin> u_email ` set rows \<Longrightarrow> users_ok (rows @ [u]) (sq + 1)"
  by (simp_all add: users_ok_def table_ok_update table_ok_delete table_ok_insert map_update_rows distinct_delete_rows)

lemma sessions_ok_laws:
  "sessions_ok rows uids \<Longrightarrow> sessions_ok (delete_rows P rows) uids"
  "sessions_ok rows uids \<Longrightarrow> s_token_hash s \<notin> s_token_hash ` set rows \<Longrightarrow> s_user_id s \<in> uids \<Longrightarrow>
     sessions_ok (rows @ [s]) uids"
  "sessions_ok rows uids \<Longrightarrow> uids \<subseteq> uids' \<Longrightarrow> sessions_ok rows uids'"
  by (auto simp: sessions_ok_def distinct_delete_rows)

lemma mappings_ok_laws:
  "mappings_ok rows sq \<Longrightarrow> mappings_ok (delete_rows P rows) sq"
  "mappings_ok rows sq \<Longrightarrow> g_id g = sq + 1 \<Longrightarrow> g_oidc_group g \<notin> g_oidc_group ` set rows \<Longrightarrow>
     mappings_ok (rows @ [g]) (sq + 1)"
  by (simp_all add: mappings_ok_def table_ok_delete table_ok_insert distinct_delete_rows)

lemma tokens_ok_laws:
  "(\<And>r. t_id (fst (f r)) = t_id (fst r) \<and> t_user_id (fst (f r)) = t_user_id (fst r) \<and>
         t_name (fst (f r)) = t_name (fst r) \<and> snd (f r) = snd r) \<Longrightarrow>
     tokens_ok (update_rows P f rows) sq uids = tokens_ok rows sq uids"
  "tokens_ok rows sq uids \<Longrightarrow> tokens_ok (delete_rows P rows) sq uids"
  "tokens_ok rows sq uids \<Longrightarrow> t_id (fst r) = sq + 1 \<Longrightarrow> snd r \<notin> snd ` set rows \<Longrightarrow>
     (t_user_id (fst r), t_name (fst r)) \<notin> (\<lambda>r. (t_user_id (fst r), t_name (fst r))) ` set rows \<Longrightarrow>
     t_user_id (fst r) \<in> uids \<Longrightarrow> tokens_ok (rows @ [r]) (sq + 1) uids"
  "tokens_ok rows sq uids \<Longrightarrow> uids \<subseteq> uids' \<Longrightarrow> tokens_ok rows sq uids'"
  by (auto simp: tokens_ok_def table_ok_update table_ok_delete table_ok_insert map_update_rows image_update_rows
      distinct_delete_rows)

lemma committed_simps [simp]:
  "committed db (Inl e) = db" "committed db (Inr r) = fst r"
  by (simp_all add: committed_def split_def)

text \<open>Operations on users keep ids and emails, so references stay valid.\<close>

lemma db_ok_users:
  assumes "db_ok db" "\<And>u. u_id (f u) = u_id u \<and> u_email (f u) = u_email u"
  shows "db_ok (db\<lparr>db_users := update_rows P f (db_users db)\<rparr>)"
proof -
  have "u_id ` set (update_rows P f (db_users db)) = user_ids db" using assms(2) by (simp add: image_update_rows)
  then show ?thesis using assms by (simp add: db_ok_def users_ok_laws)
qed

lemma db_ok_admins:
  assumes "db_ok db" "\<And>r. a_id (fst (f r)) = a_id (fst r) \<and> a_name (fst (f r)) = a_name (fst r)"
  shows "db_ok (db\<lparr>db_admins := update_rows P f (db_admins db)\<rparr>)"
  using assms by (simp add: db_ok_def admins_ok_laws)

lemma insert_user_Inr:
  assumes "insert_user u db = Inr (db', uid)"
  shows "uid = db_users_seq db + 1" "u_email u \<notin> u_email ` set (db_users db)"
    "db' = db\<lparr>db_users := db_users db @ [u\<lparr>u_id := uid\<rparr>], db_users_seq := uid\<rparr>"
  using assms by (auto simp: insert_user_def Let_def list_ex_iff image_iff split: if_splits)

lemma db_ok_insert_user:
  assumes "db_ok db" "insert_user u db = Inr (db', uid)"
  shows "db_ok db'"
proof -
  note i = insert_user_Inr [OF assms(2)]
  have "user_ids db \<subseteq> insert uid (user_ids db)" by blast
  then show ?thesis using assms(1) i(1,2)
    by (simp add: i(3) db_ok_def users_ok_laws) (auto intro: sessions_ok_laws tokens_ok_laws)
qed

lemma find_snoc: "\<forall>x\<in>set xs. \<not> P x \<Longrightarrow> P y \<Longrightarrow> List.find P (xs @ [y]) = Some y"
  by (induction xs) auto

lemma find_key: "distinct (map k xs) \<Longrightarrow> x \<in> set xs \<Longrightarrow> List.find (\<lambda>y. k y = k x) xs = Some x"
  by (induction xs) auto

lemma user_by_id_insert:
  assumes "db_ok db" "insert_user u db = Inr (db', uid)"
  shows "user_by_id uid db' = Inr (u\<lparr>u_id := uid\<rparr>)"
proof -
  note i = insert_user_Inr [OF assms(2)]
  have "\<forall>v\<in>set (db_users db). u_id v \<noteq> uid"
    using assms(1) i(1) by (auto simp: db_ok_def users_ok_def table_ok_def)
  then show ?thesis by (simp add: i(3) user_by_id_def query_row_def find_snoc)
qed

lemma user_by_id_present:
  "db_ok db \<Longrightarrow> u \<in> set (db_users db) \<Longrightarrow> user_by_id (u_id u) db = Inr u"
  by (simp add: db_ok_def users_ok_def table_ok_def user_by_id_def query_row_def find_key)

lemma find_user_Match_One:
  assumes "find_user_for_email email db = Match_One uid recorded"
  obtains u where "u \<in> set (db_users db)" "u_id u = uid" "u_oidc_subject u = recorded"
    "eq_ignore_ascii_case (u_email u) email"
proof (cases "List.find (\<lambda>u. u_email u = email) (db_users db)")
  case (Some u)
  then have "u \<in> set (db_users db)" "u_email u = email" by (auto simp: find_Some_iff)
  then show ?thesis using assms that [of u] Some
    by (simp add: find_user_for_email_def eq_ignore_ascii_case_def)
next
  case None
  then obtain u where f: "filter (\<lambda>u. eq_ignore_ascii_case (u_email u) email) (db_users db) = [u]"
      "u_id u = uid" "u_oidc_subject u = recorded"
    using assms by (auto simp: find_user_for_email_def split: list.splits)
  then have "set (filter (\<lambda>u. eq_ignore_ascii_case (u_email u) email) (db_users db)) = {u}" by simp
  then have "u \<in> set (db_users db) \<and> eq_ignore_ascii_case (u_email u) email"
    unfolding set_filter by blast
  then show ?thesis using f(2,3) that [of u] by blast
qed

text \<open>The row of a user who logs in, and the outcomes of a login.\<close>

definition logged_in_row :: "platform \<Rightarrow> nat \<Rightarrow> str \<Rightarrow> str option \<Rightarrow> str list \<Rightarrow> user \<Rightarrow> user" where
  "logged_in_row pf now name sub groups u =
     u\<lparr>u_name := name, u_oidc_subject := (case sub of None \<Rightarrow> u_oidc_subject u | Some s \<Rightarrow> Some s),
       u_oidc_groups := join_with '','' groups, u_last_login_at := Some (datetime_now pf now)\<rparr>"

lemma logged_in_row_keeps [simp]:
  "u_id (logged_in_row pf now name sub groups u) = u_id u"
  "u_email (logged_in_row pf now name sub groups u) = u_email u"
  "u_role (logged_in_row pf now name sub groups u) = u_role u"
  "u_disabled (logged_in_row pf now name sub groups u) = u_disabled u"
  by (simp_all add: logged_in_row_def)

lemma upsert_user_cases:
  assumes ok: "db_ok db"
  obtains (refused) l where
      "upsert_user pf now email name sub role groups create db = Inr (db, l)" "l \<in> {NoAccount, SubjectMismatch, Ambiguous}"
  | (known) u where "u \<in> set (db_users db)" "eq_ignore_ascii_case (u_email u) email"
      "u_oidc_subject u = None \<or> sub = None \<or> u_oidc_subject u = sub"
      "upsert_user pf now email name sub role groups create db =
        Inr (db\<lparr>db_users := update_rows (\<lambda>v. u_id v = u_id u) (logged_in_row pf now name sub groups) (db_users db)\<rparr>,
             Login_User (logged_in_row pf now name sub groups u))"
  | (added) db' uid u where "find_user_for_email email db = Match_None"
      "insert_user u db = Inr (db', uid)" "u_email u = email" "u_role u = role" "u_oidc_subject u = sub" "\<not> u_disabled u"
      "upsert_user pf now email name sub role groups create db = Inr (db', Login_User (u\<lparr>u_id := uid\<rparr>))"
proof (cases "find_user_for_email email db")
  case (Match_One uid recorded)
  then obtain u where u: "u \<in> set (db_users db)" "u_id u = uid" "u_oidc_subject u = recorded"
    "eq_ignore_ascii_case (u_email u) email" by (rule find_user_Match_One)
  show ?thesis
  proof (cases "recorded \<noteq> None \<and> sub \<noteq> None \<and> recorded \<noteq> sub")
    case True
    then show ?thesis using Match_One refused by (auto simp: upsert_user_def Let_def)
  next
    case False
    let ?db = "db\<lparr>db_users := update_rows (\<lambda>v. u_id v = uid) (logged_in_row pf now name sub groups) (db_users db)\<rparr>"
    have "db_ok ?db" by (rule db_ok_users [OF ok]) simp
    moreover have "logged_in_row pf now name sub groups u \<in> set (db_users ?db)"
      using u by (auto simp: update_rows_def)
    ultimately have "user_by_id uid ?db = Inr (logged_in_row pf now name sub groups u)"
      using user_by_id_present [of ?db "logged_in_row pf now name sub groups u"] u(2) by simp
    then have "upsert_user pf now email name sub role groups create db =
        Inr (?db, Login_User (logged_in_row pf now name sub groups u))"
      using Match_One False by (auto simp: upsert_user_def Let_def logged_in_row_def [abs_def])
    then show ?thesis using known [of u] u False by auto
  qed
next
  case Match_None
  show ?thesis
  proof (cases create)
    case True
    define u where "u = \<lparr>u_id = 0, u_email = email, u_name = name, u_oidc_subject = sub, u_role = role,
      u_disabled = False, u_created_at = datetime_now pf now, u_last_login_at = Some (datetime_now pf now),
      u_oidc_groups = join_with '','' groups\<rparr>"
    have "\<not> list_ex (\<lambda>v. u_email v = u_email u) (db_users db)"
      using Match_None by (auto simp: u_def find_user_for_email_def list_ex_iff find_None_iff split: option.splits list.splits)
    then obtain db' uid where i: "insert_user u db = Inr (db', uid)" by (auto simp: insert_user_def Let_def)
    then show ?thesis
      using added [OF Match_None i] user_by_id_insert [OF ok i] Match_None True
      by (auto simp: upsert_user_def Let_def u_def)
  next
    case False
    then show ?thesis using Match_None refused by (auto simp: upsert_user_def Let_def)
  qed
next
  case Match_Ambiguous
  then show ?thesis using refused by (auto simp: upsert_user_def Let_def)
qed

lemma create_user_cases:
  assumes ok: "db_ok db"
  obtains (exists) "create_user pf now email name role db = Inl Exists"
  | (created) db' uid u where "\<forall>v\<in>set (db_users db). \<not> eq_ignore_ascii_case (u_email v) email"
      "insert_user u db = Inr (db', uid)" "u_email u = email" "u_role u = role" "u_oidc_subject u = None"
      "create_user pf now email name role db = Inr (db', u\<lparr>u_id := uid\<rparr>)"
proof (cases "list_ex (\<lambda>u. eq_ignore_ascii_case (u_email u) email) (db_users db)")
  case True
  then show ?thesis using exists by (simp add: create_user_def)
next
  case False
  define u where "u = \<lparr>u_id = 0, u_email = email, u_name = name, u_oidc_subject = None, u_role = role,
    u_disabled = False, u_created_at = datetime_now pf now, u_last_login_at = None, u_oidc_groups = []\<rparr>"
  have none: "\<forall>v\<in>set (db_users db). \<not> eq_ignore_ascii_case (u_email v) email" using False by (simp add: list_ex_iff)
  then have "\<not> list_ex (\<lambda>v. u_email v = u_email u) (db_users db)"
    by (auto simp: u_def list_ex_iff eq_ignore_ascii_case_def)
  then obtain db' uid where i: "insert_user u db = Inr (db', uid)" by (auto simp: insert_user_def Let_def)
  then show ?thesis
    using created [OF none i] user_by_id_insert [OF ok i] False by (simp add: create_user_def u_def)
qed

lemma reset_oidc_subject_cases:
  assumes ok: "db_ok db"
  obtains (none) "reset_oidc_subject email db = Inr (db, None)"
  | (one) u where "u \<in> set (db_users db)" "reset_oidc_subject email db =
      Inr (db\<lparr>db_users := update_rows (\<lambda>v. u_id v = u_id u) (\<lambda>v. v\<lparr>u_oidc_subject := None\<rparr>) (db_users db)\<rparr>, Some (u_email u))"
proof (cases "find_user_for_email email db")
  case (Match_One uid recorded)
  then obtain u where u: "u \<in> set (db_users db)" "u_id u = uid" by (rule find_user_Match_One)
  let ?db = "db\<lparr>db_users := update_rows (\<lambda>v. u_id v = uid) (\<lambda>v. v\<lparr>u_oidc_subject := None\<rparr>) (db_users db)\<rparr>"
  have "db_ok ?db" by (rule db_ok_users [OF ok]) simp
  moreover have "u\<lparr>u_oidc_subject := None\<rparr> \<in> set (db_users ?db)" using u by (auto simp: update_rows_def)
  ultimately have "user_by_id uid ?db = Inr (u\<lparr>u_oidc_subject := None\<rparr>)"
    using user_by_id_present [of ?db "u\<lparr>u_oidc_subject := None\<rparr>"] u(2) by simp
  then show ?thesis using one [OF u(1)] u(2) Match_One by (simp add: reset_oidc_subject_def)
qed (simp_all add: none reset_oidc_subject_def)

lemma delete_user_eq:
  "delete_user email db =
     (let ids = u_id ` {u \<in> set (db_users db). u_email u = email} in
      Inr (db\<lparr>db_sessions := delete_rows (\<lambda>s. s_user_id s \<in> ids) (db_sessions db),
              db_tokens := delete_rows (\<lambda>r. t_user_id (fst r) \<in> ids) (db_tokens db),
              db_users := delete_rows (\<lambda>u. u_email u = email) (db_users db)\<rparr>,
           changed (\<lambda>u. u_email u = email) (db_users db)))"
  by (auto simp: delete_user_def Let_def list_ex_iff split_def)

lemma db_ok_delete_user:
  assumes "db_ok db"
  shows "db_ok (committed db (delete_user email db))"
proof -
  define ids where "ids = u_id ` {u \<in> set (db_users db). u_email u = email}"
  have left: "u_id ` set (delete_rows (\<lambda>u. u_email u = email) (db_users db)) = user_ids db - ids"
    using assms by (auto simp: ids_def db_ok_def users_ok_def table_ok_def distinct_map inj_on_def)
  have "sessions_ok (delete_rows (\<lambda>s. s_user_id s \<in> ids) (db_sessions db)) (user_ids db - ids)"
    using assms by (auto simp: db_ok_def sessions_ok_def distinct_delete_rows)
  moreover have "tokens_ok (delete_rows (\<lambda>r. t_user_id (fst r) \<in> ids) (db_tokens db)) (db_tokens_seq db) (user_ids db - ids)"
    using assms by (auto simp: db_ok_def tokens_ok_def distinct_delete_rows table_ok_delete)
  moreover have "users_ok (delete_rows (\<lambda>u. u_email u = email) (db_users db)) (db_users_seq db)"
    using assms by (simp add: db_ok_def users_ok_laws)
  ultimately show ?thesis
    using assms left by (simp add: delete_user_eq Let_def db_ok_def ids_def [symmetric])
qed

text \<open>Every operation keeps the tables consistent.\<close>

lemma update_rows_none: "\<forall>x\<in>set xs. \<not> P x \<Longrightarrow> update_rows P f xs = xs"
  by (induction xs) (simp_all add: update_rows_def)

lemma distinct_update_one:
  assumes "distinct (map rid xs)" "distinct (map k xs)" "\<And>x. k (f x) = c" "\<forall>x\<in>set xs. rid x \<noteq> i \<longrightarrow> k x \<noteq> c"
  shows "distinct (map k (update_rows (\<lambda>x. rid x = i) f xs))"
  using assms(1,2,4)
proof (induction xs)
  case (Cons x xs)
  have set: "k ` set (update_rows (\<lambda>x. rid x = i) f xs) \<subseteq> insert c (k ` set xs)"
    using assms(3) by (auto simp: update_rows_def)
  show ?case
  proof (cases "rid x = i")
    case True
    then have "\<forall>y\<in>set xs. rid y \<noteq> i" using Cons.prems(1) by (metis distinct.simps(2) image_eqI list.set_map list.simps(9))
    then have "update_rows (\<lambda>x. rid x = i) f xs = xs" "c \<notin> k ` set xs"
      using Cons.prems(3) by (auto simp: update_rows_none)
    then show ?thesis using True Cons.prems(2) assms(3) by (simp add: update_rows_def)
  next
    case False
    then have "k x \<notin> insert c (k ` set xs)" using Cons.prems by auto
    then have "k x \<notin> k ` set (update_rows (\<lambda>x. rid x = i) f xs)" using set by blast
    moreover have "update_rows (\<lambda>x. rid x = i) f (x # xs) = x # update_rows (\<lambda>x. rid x = i) f xs"
      using False by (simp add: update_rows_def)
    ultimately show ?thesis using Cons by simp
  qed
qed (simp add: update_rows_def)

lemma mappings_ok_update:
  assumes "mappings_ok rows sq"
    "(\<forall>g\<in>set rows. g_id g \<noteq> i) \<or> (\<forall>g\<in>set rows. g_id g \<noteq> i \<longrightarrow> g_oidc_group g \<noteq> grp)"
  shows "mappings_ok (update_rows (\<lambda>g. g_id g = i) (\<lambda>g. g\<lparr>g_oidc_group := grp, g_role := role\<rparr>) rows) sq"
  using assms(2)
proof
  assume "\<forall>g\<in>set rows. g_id g \<noteq> i"
  then show ?thesis using assms(1) by (simp add: update_rows_none)
next
  assume "\<forall>g\<in>set rows. g_id g \<noteq> i \<longrightarrow> g_oidc_group g \<noteq> grp"
  moreover have "distinct (map g_id rows)" using assms(1) by (simp add: mappings_ok_def table_ok_def)
  ultimately show ?thesis using assms(1)
    by (simp add: mappings_ok_def table_ok_update distinct_update_one [where c = grp])
qed

lemma see_group_distinct:
  "distinct (map sg_name seen) \<Longrightarrow> distinct (map sg_name (see_group now seen g))"
  by (auto simp: see_group_def Let_def list_ex_iff map_update_rows)

lemma see_groups_distinct:
  "distinct (map sg_name seen) \<Longrightarrow> distinct (map sg_name (foldl (see_group now) seen groups))"
  by (induction groups arbitrary: seen) (simp_all add: see_group_distinct)

lemma db_ok_step_users:
  assumes "db_ok db"
  shows "db_ok (apply_op pf (Op_upsert_user now email name sub role groups create) db)"
    "db_ok (apply_op pf (Op_create_user now email name role) db)"
    "db_ok (apply_op pf (Op_reset_oidc_subject email) db)"
    "db_ok (apply_op pf (Op_set_user_role email role) db)"
    "db_ok (apply_op pf (Op_disable_user email) db)"
    "db_ok (apply_op pf (Op_enable_user email) db)"
    "db_ok (apply_op pf (Op_delete_user email) db)"
proof -
  show "db_ok (apply_op pf (Op_upsert_user now email name sub role groups create) db)"
  proof (cases rule: upsert_user_cases [OF assms, of pf now email name sub role groups create])
    case (2 u)
    then show ?thesis using db_ok_users [OF assms, of "logged_in_row pf now name sub groups"] by simp
  next
    case (3 db' uid u)
    then show ?thesis using db_ok_insert_user [OF assms 3(2)] by simp
  qed (use assms in simp)
  show "db_ok (apply_op pf (Op_create_user now email name role) db)"
  proof (cases rule: create_user_cases [OF assms, of pf now email name role])
    case (2 db' uid u)
    then show ?thesis using db_ok_insert_user [OF assms 2(2)] by simp
  qed (use assms in simp)
  show "db_ok (apply_op pf (Op_reset_oidc_subject email) db)"
  proof (cases rule: reset_oidc_subject_cases [OF assms, of email])
    case (2 u)
    then show ?thesis using db_ok_users [OF assms, of "\<lambda>v. v\<lparr>u_oidc_subject := None\<rparr>"] by simp
  qed (use assms in simp)
  show "db_ok (apply_op pf (Op_delete_user email) db)" using assms by (simp add: db_ok_delete_user)
qed (use assms in \<open>auto simp: set_user_role_def disable_user_def enable_user_def intro!: db_ok_users\<close>)

lemma db_ok_step_admins:
  assumes "db_ok db"
  shows "db_ok (apply_op pf (Op_add_admin now key name ips ex) db)"
    "db_ok (apply_op pf (Op_validate_api_key now key ip) db)"
    "db_ok (apply_op pf (Op_disable_admin name) db)" "db_ok (apply_op pf (Op_enable_admin name) db)"
    "db_ok (apply_op pf (Op_delete_admin name) db)" "db_ok (apply_op pf (Op_rotate_key key name) db)"
proof -
  show "db_ok (apply_op pf (Op_add_admin now key name ips ex) db)"
    using assms by (auto simp: add_admin_def Let_def db_ok_def list_ex_iff intro!: admins_ok_laws(3))
  show "db_ok (apply_op pf (Op_delete_admin name) db)"
    using assms by (simp add: delete_admin_def db_ok_def admins_ok_laws)
qed (use assms in \<open>auto simp: validate_api_key_def disable_admin_def enable_admin_def rotate_key_def split_def
      split: option.split intro!: db_ok_admins\<close>)

lemma db_ok_step_rest:
  assumes "db_ok db"
  shows "db_ok (apply_op pf (Op_create_auth_session now token user ttl) db)"
    "db_ok (apply_op pf (Op_delete_user_sessions user) db)" "db_ok (apply_op pf (Op_delete_auth_session token) db)"
    "db_ok (apply_op pf (Op_cleanup_expired_sessions now) db)"
    "db_ok (apply_op pf (Op_create_group_mapping now g role) db)"
    "db_ok (apply_op pf (Op_update_group_mapping i g role) db)" "db_ok (apply_op pf (Op_delete_group_mapping i) db)"
    "db_ok (apply_op pf (Op_upsert_seen_groups now groups) db)"
    "db_ok (apply_op pf (Op_create_user_token now key user name mrole ex) db)"
    "db_ok (apply_op pf (Op_validate_user_token now token) db)"
    "db_ok (apply_op pf (Op_revoke_user_token user i) db)" "db_ok (apply_op pf (Op_admin_revoke_user_token i) db)"
    "db_ok (apply_op pf (Op_revoke_all_user_tokens user) db)"
    "db_ok (apply_op pf (Op_cleanup_expired_user_tokens now) db)"
proof -
  show "db_ok (apply_op pf (Op_create_auth_session now token user ttl) db)"
    using assms by (auto simp: create_auth_session_def Let_def db_ok_def list_ex_iff intro!: sessions_ok_laws(2))
  show "db_ok (apply_op pf (Op_create_group_mapping now g role) db)"
    using assms by (auto simp: create_group_mapping_def Let_def db_ok_def list_ex_iff split: sum.split intro!: mappings_ok_laws(2))
  show "db_ok (apply_op pf (Op_update_group_mapping i g role) db)"
    using assms by (auto simp: update_group_mapping_def db_ok_def list_ex_iff intro!: mappings_ok_update)
  show "db_ok (apply_op pf (Op_upsert_seen_groups now groups) db)"
    using assms by (simp add: upsert_seen_groups_def db_ok_def see_groups_distinct)
  show "db_ok (apply_op pf (Op_create_user_token now key user name mrole ex) db)"
    using assms by (auto simp: create_user_token_def Let_def db_ok_def list_ex_iff intro!: tokens_ok_laws(3))
  show "db_ok (apply_op pf (Op_validate_user_token now token) db)"
    using assms by (auto simp: validate_user_token_def split_def db_ok_def tokens_ok_laws(1) split: option.split)
qed (use assms in \<open>simp_all add: delete_user_sessions_def delete_auth_session_def cleanup_expired_sessions_def
      delete_group_mapping_def revoke_user_token_def admin_revoke_user_token_def revoke_all_user_tokens_def
      cleanup_expired_user_tokens_def db_ok_def sessions_ok_laws(1) mappings_ok_laws(1) tokens_ok_laws(2)\<close>)

interpretation accounts: op_system "apply_op pf" db_ok for pf
proof
  fix db op
  assume "db_ok db"
  then show "db_ok (apply_op pf op db)"
    by (cases op) (simp_all only: db_ok_step_users db_ok_step_admins db_ok_step_rest)
qed

section \<open>What holds over every history\<close>

lemma init_db_ok: "db_ok init_db"
  by (simp add: init_db_def db_ok_def admins_ok_def users_ok_def sessions_ok_def mappings_ok_def tokens_ok_def table_ok_def)

lemma db_run_ok: "db_ok db \<Longrightarrow> db_ok (db_run pf ops db)"
  unfolding db_run_def by (rule accounts.run_inv)

lemma db_run_append: "db_run pf (ops @ ops') db = db_run pf ops' (db_run pf ops db)"
  by (simp add: db_run_def)

text \<open>The users table changes by a new row with the next id, by deletion, and in place.\<close>

lemma update_rows_cases:
  "v \<in> set (update_rows P f xs) \<Longrightarrow> (\<exists>u\<in>set xs. P u \<and> v = f u) \<or> v \<in> set xs"
  by (auto simp: update_rows_def)

lemma apply_op_users:
  assumes ok: "db_ok db" and v: "v \<in> set (db_users (apply_op pf op db))"
  shows "u_id v = db_users_seq db + 1 \<or>
    (\<exists>u\<in>set (db_users db). u_id v = u_id u \<and> u_email v = u_email u \<and>
       (u_oidc_subject v = u_oidc_subject u \<or> u_oidc_subject u = None \<or> (\<exists>e. op = Op_reset_oidc_subject e)))"
proof -
  have keep: ?thesis if "v \<in> set (db_users db)" using that by blast
  show ?thesis
  proof (cases op)
    case (Op_upsert_user now email name sub role groups create)
    show ?thesis
    proof (cases rule: upsert_user_cases [OF ok, of pf now email name sub role groups create])
      case (2 u)
      have "v \<in> set (db_users db) \<or> v = logged_in_row pf now name sub groups u" 
        using v Op_upsert_user 2(1,4) find_key [of u_id "db_users db"] ok
        by (auto simp: update_rows_def db_ok_def users_ok_def table_ok_def distinct_map inj_on_def)
      then show ?thesis using keep 2(1,3) by (auto simp: logged_in_row_def split: option.splits)
    next
      case (3 db' uid u)
      then show ?thesis using v Op_upsert_user keep insert_user_Inr [OF 3(2)] by auto
    qed (use v Op_upsert_user keep in simp)
  next
    case (Op_create_user now email name role)
    show ?thesis
    proof (cases rule: create_user_cases [OF ok, of pf now email name role])
      case (2 db' uid u)
      then show ?thesis using v Op_create_user keep insert_user_Inr [OF 2(2)] by auto
    qed (use v Op_create_user keep in simp)
  next
    case (Op_reset_oidc_subject email)
    show ?thesis
    proof (cases rule: reset_oidc_subject_cases [OF ok, of email])
      case (2 u)
      then have "(\<exists>w\<in>set (db_users db). v = w\<lparr>u_oidc_subject := None\<rparr>) \<or> v \<in> set (db_users db)"
        using v Op_reset_oidc_subject update_rows_cases by fastforce
      then show ?thesis using keep Op_reset_oidc_subject by auto
    qed (use v Op_reset_oidc_subject keep in simp)
  qed (use v keep in \<open>auto simp: committed_def add_admin_def validate_api_key_def disable_admin_def enable_admin_def
      delete_admin_def rotate_key_def set_user_role_def disable_user_def enable_user_def delete_user_eq
      create_auth_session_def delete_user_sessions_def delete_auth_session_def cleanup_expired_sessions_def
      create_group_mapping_def update_group_mapping_def delete_group_mapping_def upsert_seen_groups_def
      create_user_token_def validate_user_token_def revoke_user_token_def admin_revoke_user_token_def
      revoke_all_user_tokens_def cleanup_expired_user_tokens_def Let_def
      split: sum.splits option.splits if_splits prod.splits dest!: update_rows_cases\<close>)
qed

lemma insert_user_seq: "insert_user u db = Inr (db', uid) \<Longrightarrow> db_users_seq db \<le> db_users_seq db'"
  using insert_user_Inr(1,3) [of u db db' uid] by simp

lemma apply_op_users_seq:
  assumes ok: "db_ok db"
  shows "db_users_seq db \<le> db_users_seq (apply_op pf op db)"
proof (cases op)
  case (Op_upsert_user now email name sub role groups create)
  then show ?thesis
    by (cases rule: upsert_user_cases [OF ok, of pf now email name sub role groups create])
      (auto dest: insert_user_seq)
next
  case (Op_create_user now email name role)
  then show ?thesis
    by (cases rule: create_user_cases [OF ok, of pf now email name role]) (auto dest: insert_user_seq)
next
  case (Op_reset_oidc_subject email)
  then show ?thesis by (cases rule: reset_oidc_subject_cases [OF ok, of email]) auto
qed (auto simp: committed_def add_admin_def validate_api_key_def disable_admin_def enable_admin_def
      delete_admin_def rotate_key_def set_user_role_def disable_user_def enable_user_def delete_user_eq
      create_auth_session_def delete_user_sessions_def delete_auth_session_def cleanup_expired_sessions_def
      create_group_mapping_def update_group_mapping_def delete_group_mapping_def upsert_seen_groups_def
      create_user_token_def validate_user_token_def revoke_user_token_def admin_revoke_user_token_def
      revoke_all_user_tokens_def cleanup_expired_user_tokens_def Let_def
      split: sum.splits option.splits prod.splits)

text \<open>A user id that has been given out and has no row never gets one again.\<close>

definition gone :: "int \<Rightarrow> database \<Rightarrow> bool" where
  "gone uid db \<longleftrightarrow> uid \<le> db_users_seq db \<and> uid \<notin> user_ids db"

lemma gone_step:
  assumes "db_ok db" "gone uid db"
  shows "gone uid (apply_op pf op db)"
proof -
  have "u_id v \<noteq> uid" if "v \<in> set (db_users (apply_op pf op db))" for v
    using apply_op_users [OF assms(1) that] assms(2) by (auto simp: gone_def)
  then show ?thesis using apply_op_users_seq [OF assms(1), of pf op] assms(2) by (auto simp: gone_def)
qed

lemma gone_run: "db_ok db \<Longrightarrow> gone uid db \<Longrightarrow> gone uid (db_run pf ops db)"
  unfolding db_run_def by (rule accounts.run_stable [where A = UNIV]) (auto intro: gone_step)

text \<open>A user once bound to a subject is bound to it, as long as the user exists.\<close>

definition bound :: "int \<Rightarrow> str \<Rightarrow> database \<Rightarrow> bool" where
  "bound uid sub db \<longleftrightarrow> uid \<le> db_users_seq db \<and> (\<forall>u\<in>set (db_users db). u_id u = uid \<longrightarrow> u_oidc_subject u = Some sub)"

lemma bound_step:
  assumes "db_ok db" "bound uid sub db" "op \<notin> range Op_reset_oidc_subject"
  shows "bound uid sub (apply_op pf op db)"
proof -
  have "u_oidc_subject v = Some sub" if "v \<in> set (db_users (apply_op pf op db))" "u_id v = uid" for v
    using apply_op_users [OF assms(1) that(1)] that(2) assms(2,3) by (auto simp: bound_def)
  then show ?thesis using apply_op_users_seq [OF assms(1), of pf op] assms(2) by (auto simp: bound_def)
qed

lemma bound_run:
  "db_ok db \<Longrightarrow> bound uid sub db \<Longrightarrow> set ops \<inter> range Op_reset_oidc_subject = {} \<Longrightarrow> bound uid sub (db_run pf ops db)"
  unfolding db_run_def by (rule accounts.run_stable [where A = "- range Op_reset_oidc_subject"]) (auto intro: bound_step)

text \<open>Who is authenticated by a session token, a user token, an API key.\<close>

lemma query_row_Inr: "query_row P xs = Inr x \<Longrightarrow> x \<in> set xs \<and> P x"
  by (auto simp: query_row_def find_Some_iff split: option.splits)

lemma validate_auth_session_sound:
  assumes "validate_auth_session pf now token db = Inr u"
  shows "u \<in> set (db_users db) \<and> \<not> u_disabled u \<and>
    (\<exists>s\<in>set (db_sessions db). s_token_hash s = pf_hash pf token \<and> s_user_id s = u_id u \<and> datetime_now pf now < s_expires_at s)"
  using assms by (auto simp: validate_auth_session_def split: sum.splits if_splits dest!: query_row_Inr)

lemma validate_user_token_sound:
  assumes "validate_user_token pf now token db = (Inr (u, t), db')"
  shows "u \<in> set (db_users db) \<and> \<not> u_disabled u \<and> \<not> t_disabled t \<and> unexpired pf now (t_expires_at t) \<and>
    (t, pf_hash pf token) \<in> set (db_tokens db) \<and> t_user_id t = u_id u"
proof -
  obtain h where f: "List.find (\<lambda>(_, _, stored_hash). pf_hash pf token = stored_hash)
      [(u, t, h). (t, h) \<leftarrow> db_tokens db, u \<leftarrow> db_users db, u_id u = t_user_id t] = Some (u, t, h)"
    "\<not> u_disabled u" "\<not> t_disabled t" "unexpired pf now (t_expires_at t)"
    using assms by (auto simp: validate_user_token_def split: option.splits if_splits)
  then have "(u, t, h) \<in> set [(u, t, h). (t, h) \<leftarrow> db_tokens db, u \<leftarrow> db_users db, u_id u = t_user_id t]"
      "pf_hash pf token = h"
    by (force simp only: find_Some_iff set_conv_nth mem_Collect_eq case_prod_conv)+
  then show ?thesis using f(2-) by auto
qed

lemma validate_api_key_sound:
  assumes "validate_api_key pf now key ip db = (Inr a, db')"
  shows "(a, pf_hash pf key) \<in> set (db_admins db) \<and> \<not> a_disabled a \<and> unexpired pf now (a_expires_at a) \<and>
    ip_allowed pf (a_allowed_ips a) ip"
  using assms by (auto simp: validate_api_key_def find_Some_iff in_set_conv_nth split: option.splits if_splits)







text \<open>
  C27: A deleted user stays out. After \<open>delete_user\<close> no session token and no API token ever
  authenticates as that user again, whatever operations follow: not even when a user with
  the same email is added, who has a new id and starts with no session and no token.
\<close>

theorem deleted_user_stays_out:
  fixes pf ops ops' u
  defines "db \<equiv> db_run pf ops init_db"
  defines "db' \<equiv> db_run pf ops' (apply_op pf (Op_delete_user (u_email u)) db)"
  assumes "u \<in> set (db_users db)"
  shows "(\<forall>now token v. validate_auth_session pf now token db' = Inr v \<longrightarrow> u_id v \<noteq> u_id u) \<and>
    (\<forall>now token v t db''. validate_user_token pf now token db' = (Inr (v, t), db'') \<longrightarrow>
       u_id v \<noteq> u_id u \<and> t_user_id t \<noteq> u_id u) \<and>
    (\<forall>s\<in>set (db_sessions db'). s_user_id s \<noteq> u_id u) \<and> (\<forall>(t, h)\<in>set (db_tokens db'). t_user_id t \<noteq> u_id u)"
proof -
  have ok: "db_ok db" by (simp add: db_def db_run_ok init_db_ok)
  then have "gone (u_id u) (apply_op pf (Op_delete_user (u_email u)) db)"
    using assms(3) by (auto simp: gone_def delete_user_eq Let_def db_ok_def users_ok_def table_ok_def
        distinct_map inj_on_def)
  then have "gone (u_id u) db'" unfolding db'_def by (rule gone_run [OF accounts.step_inv [OF ok]])
  moreover have ok': "db_ok db'" unfolding db'_def by (rule db_run_ok [OF accounts.step_inv [OF ok]])
  ultimately have out: "u_id u \<notin> user_ids db'" by (simp add: gone_def)
  then have users: "\<forall>v\<in>set (db_users db'). u_id v \<noteq> u_id u" by (metis imageI)
  have sessions: "\<forall>s\<in>set (db_sessions db'). s_user_id s \<noteq> u_id u"
    using ok' out unfolding db_ok_def sessions_ok_def by (metis imageI subsetD)
  have tokens: "\<forall>r\<in>set (db_tokens db'). t_user_id (fst r) \<noteq> u_id u"
    using ok' out unfolding db_ok_def tokens_ok_def by (metis comp_apply imageI subsetD)
  show ?thesis using users sessions tokens
    by (auto dest!: validate_auth_session_sound validate_user_token_sound)
qed

text \<open>
  C28: An account cannot be taken over through its email. Once a user is bound to an OIDC
  subject, and until an administrator runs \<open>reset-oidc-subject\<close>, a login that brings another
  subject never logs in as that user, whatever email it claims and in whatever case, and
  leaves the user's row as it was.
\<close>

theorem no_account_takeover:
  fixes pf ops ops' u
  defines "db \<equiv> db_run pf ops' (db_run pf ops init_db)"
  assumes "u \<in> set (db_users (db_run pf ops init_db))" "u_oidc_subject u = Some sub" "sub' \<noteq> sub"
    "set ops' \<inter> range Op_reset_oidc_subject = {}"
  shows "\<exists>db' l. upsert_user pf now email name (Some sub') role groups create db = Inr (db', l) \<and>
    (\<forall>v. l = Login_User v \<longrightarrow> u_id v \<noteq> u_id u) \<and>
    (\<forall>v\<in>set (db_users db). u_id v = u_id u \<longrightarrow> v \<in> set (db_users db'))"
proof -
  have ok0: "db_ok (db_run pf ops init_db)" by (simp add: db_run_ok init_db_ok)
  then have "bound (u_id u) sub (db_run pf ops init_db)"
    using assms(2,3) by (auto simp: bound_def db_ok_def users_ok_def table_ok_def distinct_map inj_on_def)
  then have b: "bound (u_id u) sub db" and ok: "db_ok db"
    using bound_run [OF ok0 _ assms(5)] db_run_ok [OF ok0] by (auto simp: db_def)
  show ?thesis
  proof (cases rule: upsert_user_cases [OF ok, of pf now email name "Some sub'" role groups create])
    case (2 w)
    then have "u_id w \<noteq> u_id u" using b assms(4) by (auto simp: bound_def)
    then show ?thesis using 2(4) by (auto simp: update_rows_def image_iff)
  next
    case (3 db' uid w)
    then show ?thesis using insert_user_Inr [OF 3(2)] b by (auto simp: bound_def)
  qed auto
qed

section \<open>Examples\<close>

definition demo_platform :: platform where
  "demo_platform = \<lparr>pf_hash = (\<lambda>s. ''#'' @ s), pf_datetime = (\<lambda>n. [char_of n]), pf_rfc3339 = (\<lambda>_. None),
     pf_naive = (\<lambda>_ _. None), pf_date = (\<lambda>_. None), pf_network = (\<lambda>_. None)\<rparr>"

text \<open>Ann logs in for the first time, takes a session and a token.\<close>

definition demo_ops :: "db_op list" where
  "demo_ops = [Op_upsert_user 0 ''ann@x'' ''Ann'' (Some ''sub-ann'') ''viewer'' [''staff''] True,
     Op_create_auth_session 0 ''tok'' 1 60, Op_create_user_token 0 ''key'' 1 ''ci'' None None]"

definition demo_ann :: user where
  "demo_ann = \<lparr>u_id = 1, u_email = ''ann@x'', u_name = ''Ann'', u_oidc_subject = Some ''sub-ann'', u_role = ''viewer'',
     u_disabled = False, u_created_at = [char_of (0::nat)], u_last_login_at = Some [char_of (0::nat)], u_oidc_groups = ''staff''\<rparr>"

lemma demo_users: "db_users (db_run demo_platform demo_ops init_db) = [demo_ann]"
  by (simp add: demo_ops_def db_run_def init_db_def demo_ann_def upsert_user_def find_user_for_email_def insert_user_def
      user_by_id_def query_row_def create_auth_session_def create_user_token_def demo_platform_def datetime_now_def
      SQLITE_DATETIME_MAX_def Let_def)

lemma demo_ann_simps:
  "u_id demo_ann = 1" "u_email demo_ann = ''ann@x''" "u_oidc_subject demo_ann = Some ''sub-ann''"
  by (simp_all add: demo_ann_def)

theorem deleted_user_stays_out_witness:
  "demo_ann \<in> set (db_users (db_run demo_platform demo_ops init_db)) \<and>
   validate_auth_session demo_platform 1 ''tok''
      (db_run demo_platform [Op_create_user 1 ''ann@x'' ''Ann'' ''viewer'']
        (apply_op demo_platform (Op_delete_user ''ann@x'') (db_run demo_platform demo_ops init_db))) \<noteq> Inr demo_ann"
proof -
  have "demo_ann \<in> set (db_users (db_run demo_platform demo_ops init_db))" by (simp add: demo_users)
  with deleted_user_stays_out [OF this, of "[Op_create_user 1 ''ann@x'' ''Ann'' ''viewer'']", THEN conjunct1]
  show ?thesis using demo_ann_simps(1) unfolding demo_ann_simps(2) by metis
qed

theorem no_account_takeover_witness:
  "demo_ann \<in> set (db_users (db_run demo_platform demo_ops init_db)) \<and>
   (\<exists>db' l. upsert_user demo_platform 5 ''ANN@x'' ''Eve'' (Some ''sub-eve'') ''viewer'' [] True
      (db_run demo_platform [Op_disable_user ''bob@x''] (db_run demo_platform demo_ops init_db)) = Inr (db', l) \<and>
    l \<noteq> Login_User demo_ann)"
proof -
  have ann: "demo_ann \<in> set (db_users (db_run demo_platform demo_ops init_db))" by (simp add: demo_users)
  have "set [Op_disable_user ''bob@x''] \<inter> range Op_reset_oidc_subject = {}" by auto
  with no_account_takeover [OF ann demo_ann_simps(3), of "''sub-eve''" "[Op_disable_user ''bob@x'']"
      5 "''ANN@x''" "''Eve''" "''viewer''" "[]" True]
  show ?thesis using ann by auto
qed

section \<open>Groups and roles\<close>

lemma join_with_Nil: "join_with sep ws = [] \<Longrightarrow> sep \<noteq> [] \<Longrightarrow> ws = [] \<or> ws = [[]]"
  by (cases "(sep, ws)" rule: join_with.cases) auto

text \<open>
  The groups of a login come back on later requests exactly when none of their names
  contains a comma. \<open>upsert_user\<close> stores them joined by commas and \<open>groups_vec\<close> splits the
  text again; a name with a comma, such as an LDAP distinguished name, comes back as several
  groups, which may be groups the identity provider never sent.
\<close>

theorem groups_roundtrip:
  "groups_vec (logged_in_row pf now name sub groups u) = groups \<longleftrightarrow>
     groups \<noteq> [[]] \<and> (\<forall>g\<in>set groups. CHR '','' \<notin> set g)"
proof (cases "join_with '','' groups = []")
  case True
  then have "groups = [] \<or> groups = [[]]" by (rule join_with_Nil) simp
  then show ?thesis by (auto simp: groups_vec_def logged_in_row_def)
next
  case False
  then have "groups \<noteq> []" "groups \<noteq> [[]]" by auto
  then show ?thesis using False by (simp add: groups_vec_def logged_in_row_def split_join_iff)
qed

theorem groups_roundtrip_witness:
  "groups_vec (logged_in_row demo_platform 0 ''Ann'' None [''cn=x,ou=admins''] demo_ann) \<noteq> [''cn=x,ou=admins''] \<and>
   groups_vec (logged_in_row demo_platform 0 ''Ann'' None [''staff'', ''ops''] demo_ann) = [''staff'', ''ops'']"
  using groups_roundtrip [of demo_platform 0 "''Ann''" None "[''cn=x,ou=admins'']" demo_ann]
    groups_roundtrip [of demo_platform 0 "''Ann''" None "[''staff'', ''ops'']" demo_ann] by simp

lemma best_role_fold:
  assumes "foldl (best_role groups) (l, r) ms = (l', r')"
  shows "l \<le> l' \<and> (\<forall>g\<in>set ms. g_oidc_group g \<in> set groups \<longrightarrow> role_level (g_role g) \<le> l') \<and>
    (l' = l \<and> r' = r \<or> (\<exists>g\<in>set ms. g_oidc_group g \<in> set groups \<and> r' = Some (g_role g) \<and> l' = role_level (g_role g) \<and> l < l'))"
  using assms
proof (induction ms arbitrary: l r)
  case (Cons g ms)
  show ?case
  proof (cases "g_oidc_group g \<in> set groups \<and> l < role_level (g_role g)")
    case True
    then have "best_role groups (l, r) g = (role_level (g_role g), Some (g_role g))" by (simp add: best_role_def)
    then have "foldl (best_role groups) (role_level (g_role g), Some (g_role g)) ms = (l', r')"
      using Cons.prems by simp
    note ih = Cons.IH [OF this]
    have "l < l'" using ih True by linarith
    then show ?thesis using ih True by auto
  next
    case False
    then have "best_role groups (l, r) g = (l, r)" by (auto simp: best_role_def)
    then show ?thesis using Cons.IH [of l r] Cons.prems False by fastforce
  qed
qed simp

text \<open>
  The role a login gets from its groups is the highest of the mapped ones: \<open>Some\<close> role when
  some group of the login is mapped to a known role, and then no group of the login is mapped
  to a higher one; \<open>None\<close> exactly when none is mapped to a known role.
\<close>

theorem resolve_role_highest:
  "case resolve_role_from_groups groups db of
     None \<Rightarrow> \<forall>g\<in>set (db_mappings db). g_oidc_group g \<in> set groups \<longrightarrow> role_level (g_role g) = 0
   | Some role \<Rightarrow> 0 < role_level role \<and>
       (\<exists>g\<in>set (db_mappings db). g_oidc_group g \<in> set groups \<and> g_role g = role) \<and>
       (\<forall>g\<in>set (db_mappings db). g_oidc_group g \<in> set groups \<longrightarrow> role_level (g_role g) \<le> role_level role)"
proof -
  obtain l r where f: "foldl (best_role groups) (0, None) (list_group_mappings db) = (l, r)" by fastforce
  have "set (list_group_mappings db) = set (db_mappings db)" by (simp add: list_group_mappings_def)
  then show ?thesis using best_role_fold [OF f] f
    by (auto simp: resolve_role_from_groups_def Let_def split: option.split)
qed

definition demo_mapped :: database where
  "demo_mapped = init_db\<lparr>db_mappings := [\<lparr>g_id = 1, g_oidc_group = ''staff'', g_role = ''viewer'', g_created_at = []\<rparr>,
     \<lparr>g_id = 2, g_oidc_group = ''ops'', g_role = ''operator'', g_created_at = []\<rparr>]\<rparr>"

theorem resolve_role_highest_witness:
  "resolve_role_from_groups [''staff'', ''ops''] demo_mapped = Some ''operator'' \<and>
   role_level ''viewer'' \<le> role_level ''operator''"
proof -
  have "resolve_role_from_groups [''staff'', ''ops''] demo_mapped = Some ''operator''"
    by (simp add: resolve_role_from_groups_def demo_mapped_def list_group_mappings_def best_role_def role_level_def)
  then show ?thesis using resolve_role_highest [of demo_mapped "[''staff'', ''ops'']"]
    by (simp add: demo_mapped_def)
qed

text \<open>
  A token whose expiry is a bare date is valid to the end of that day, but the cleanup
  deletes it from the first second of the day on. \<open>parse_expires_at\<close> reads the date as the end
  of the day; the cleanup compares its text with the text of the current time, of which the
  date is a proper prefix, and so less.
\<close>

theorem date_expiry_deleted_early:
  assumes today: "datetime_now pf now = date @ CHR '' '' # time"
    and date: "trim date = date" "pf_rfc3339 pf date = None" "\<forall>fmt. pf_naive pf fmt date = None"
      "pf_date pf date = Some midnight" "int now \<le> midnight + 86399 * 10 ^ 9"
    and token: "(t, h) \<in> set (db_tokens db)" "t_expires_at t = Some date"
  shows "unexpired pf now (t_expires_at t) \<and> (t, h) \<notin> set (db_tokens (fst (cleanup_expired_user_tokens pf now db)))"
proof -
  have "date \<le> date @ w" for w by (induction date) simp_all
  then have "token_text_expired (datetime_now pf now) t" by (simp add: token_text_expired_def token(2) today)
  moreover have "unexpired pf now (t_expires_at t)"
    using date by (simp add: unexpired_def parse_expires_at_def token(2))
  ultimately show ?thesis by (simp add: cleanup_expired_user_tokens_def)
qed

definition demo_calendar :: platform where
  "demo_calendar = demo_platform\<lparr>pf_datetime := (\<lambda>_. ''2030-06-01 08:00:00''),
     pf_date := (\<lambda>s. if s = ''2030-06-01'' then Some 0 else None)\<rparr>"

definition demo_token :: user_api_token where
  "demo_token = \<lparr>t_id = 1, t_user_id = 1, t_name = ''ci'', t_max_role = None, t_expires_at = Some ''2030-06-01'',
     t_disabled = False, t_created_at = '''', t_last_used_at = None\<rparr>"

theorem date_expiry_deleted_early_witness:
  "unexpired demo_calendar (8 * 3600 * 10 ^ 9) (t_expires_at demo_token) \<and>
   (demo_token, ''h'') \<notin> set (db_tokens (fst (cleanup_expired_user_tokens demo_calendar (8 * 3600 * 10 ^ 9)
      (init_db\<lparr>db_tokens := [(demo_token, ''h'')]\<rparr>))))"
  by (rule date_expiry_deleted_early [where date = "''2030-06-01''" and time = "''08:00:00''" and midnight = 0])
    (simp_all add: demo_calendar_def demo_platform_def demo_token_def datetime_now_def trim_def strip_all.simps white_spaces_def)

end
