(* ===== verification/Auth.thy ===== *)
theory Auth
  imports Account_History
begin

text \<open>
  \<^verbatim>\<open>src/src/auth.rs\<close> and the login of \<^verbatim>\<open>src/src/oidc.rs\<close>: roles, single-use WebSocket tickets,
  the client address behind trusted proxies, the two authentication middlewares, what an OIDC
  callback does once the identity provider has vouched for its claims, and the checks of
  \<^verbatim>\<open>src/src/websocket.rs\<close> on who may attach to a session. A request is the part of it these
  functions read; a middleware's result is what it passes on or the response it returns.
  Blocking tasks are taken to run to their end. Log lines are left out.
\<close>

section \<open>Identities and roles\<close>

datatype auth_identity = ApiKey str | User (id_email: str) (id_role: str) (id_groups: "str list")

fun display_name :: "auth_identity \<Rightarrow> str" where
  "display_name (ApiKey name) = name"
| "display_name (User email role groups) = email"

fun identity_role :: "auth_identity \<Rightarrow> str" where
  "identity_role (ApiKey name) = ''admin''"
| "identity_role (User email role groups) = role"

fun identity_groups :: "auth_identity \<Rightarrow> str list" where
  "identity_groups (ApiKey name) = []"
| "identity_groups (User email role groups) = groups"

definition has_role :: "auth_identity \<Rightarrow> str \<Rightarrow> bool" where
  "has_role identity min_role \<longleftrightarrow> role_level min_role \<le> role_level (identity_role identity)"

definition compute_effective_role :: "str \<Rightarrow> str option \<Rightarrow> str" where
  "compute_effective_role user_role max_role =
     (case max_role of
        Some mx \<Rightarrow> if role_level mx < role_level user_role then mx else user_role
      | None \<Rightarrow> user_role)"

section \<open>WebSocket tickets\<close>

text \<open>An \<open>Instant\<close> is a number of nanoseconds; the part of a ticket after \<open>wst_\<close> is drawn at random.\<close>

record ws_ticket =
  tk_identity :: auth_identity
  tk_created :: int

type_synonym ticket_store = "str \<rightharpoonup> ws_ticket"

definition WS_TICKET_TTL_SECS :: int where "WS_TICKET_TTL_SECS = 30"

definition ticket_create :: "int \<Rightarrow> str \<Rightarrow> auth_identity \<Rightarrow> ticket_store \<Rightarrow> ticket_store \<times> str" where
  "ticket_create now uuid identity store =
     (let ticket = ''wst_'' @ uuid;
          cutoff = now - WS_TICKET_TTL_SECS * 10 ^ 9;
          retained = (\<lambda>k. case store k of None \<Rightarrow> None | Some t \<Rightarrow> if cutoff < tk_created t then Some t else None)
      in (retained(ticket \<mapsto> \<lparr>tk_identity = identity, tk_created = now\<rparr>), ticket))"

definition ticket_consume :: "int \<Rightarrow> str \<Rightarrow> ticket_store \<Rightarrow> ticket_store \<times> auth_identity option" where
  "ticket_consume now ticket store =
     (case store ticket of
        None \<Rightarrow> (store, None)
      | Some entry \<Rightarrow>
          (store(ticket := None),
           if (now - tk_created entry) div 10 ^ 9 \<le> WS_TICKET_TTL_SECS then Some (tk_identity entry) else None))"

section \<open>The client's address\<close>

definition parse_trusted_proxies :: "platform \<Rightarrow> str list \<Rightarrow> (ip_addr \<Rightarrow> bool) list" where
  "parse_trusted_proxies pf trusted_proxies = List.map_filter (pf_network pf) trusted_proxies"

definition strip_suffix :: "str \<Rightarrow> str \<Rightarrow> str option" where
  "strip_suffix p s = map_option rev (strip_prefix (rev p) (rev s))"

definition parse_forwarded_ip :: "str \<Rightarrow> ip_addr option" where
  "parse_forwarded_ip raw =
     (if \<not> valid_utf8 raw then None
      else
        (let s = trim raw in
         case parse_ip_addr s of
           Some ip \<Rightarrow> Some ip
         | None \<Rightarrow>
             (case parse_socket_ip s of
                Some ip \<Rightarrow> Some ip
              | None \<Rightarrow> Option.bind (Option.bind (strip_prefix ''['' s) (strip_suffix '']'')) parse_ip_addr)))"

text \<open>A header map: names in lower case, values as bytes, in the order of the lines.\<close>

type_synonym headers = "(str \<times> str) list"

definition get_all :: "str \<Rightarrow> headers \<Rightarrow> str list" where
  "get_all name hs = map snd (filter (\<lambda>(n, _). n = name) hs)"

fun walk_hops :: "(ip_addr \<Rightarrow> bool) \<Rightarrow> ip_addr \<Rightarrow> str list \<Rightarrow> ip_addr" where
  "walk_hops is_trusted client [] = client"
| "walk_hops is_trusted client (hop # hops) =
     (case parse_forwarded_ip hop of
        None \<Rightarrow> client
      | Some ip \<Rightarrow> if \<not> is_trusted ip then ip else walk_hops is_trusted ip hops)"

definition forwarded_hops :: "headers \<Rightarrow> str list" where
  "forwarded_hops hs = concat (map (split_on CHR '','') (get_all ''x-forwarded-for'' hs))"

definition client_ip_from :: "headers \<Rightarrow> ip_addr \<Rightarrow> (ip_addr \<Rightarrow> bool) list \<Rightarrow> ip_addr" where
  "client_ip_from hs socket_addr trusted =
     (let is_trusted = (\<lambda>ip. list_ex (\<lambda>net. net ip) trusted) in
      if \<not> is_trusted socket_addr then socket_addr
      else walk_hops is_trusted socket_addr (rev (forwarded_hops hs)))"

definition client_ip :: "platform \<Rightarrow> headers \<Rightarrow> ip_addr \<Rightarrow> str list \<Rightarrow> ip_addr" where
  "client_ip pf hs socket_addr trusted_proxies =
     client_ip_from hs socket_addr (parse_trusted_proxies pf trusted_proxies)"

section \<open>The middlewares\<close>

text \<open>\<open>HeaderValue::to_str\<close>: visible ASCII, blank and tab.\<close>

definition to_str :: "str \<Rightarrow> str option" where
  "to_str v = (if list_all (\<lambda>c. 32 \<le> byte_of c \<and> byte_of c < 127 \<or> byte_of c = 9) v then Some v else None)"

definition get_header :: "str \<Rightarrow> headers \<Rightarrow> str option" where
  "get_header name hs = Option.bind (map_of hs name) to_str"

record request =
  rq_headers :: headers
  rq_peer :: ip_addr
  rq_query :: "str option"
  rq_trusted_proxies :: "str list option"

definition cookie_value :: "str \<Rightarrow> str \<Rightarrow> str option" where
  "cookie_value name cookie =
     (let c = trim cookie in Option.bind (strip_prefix name c) (strip_prefix ''=''))"

definition extract_cookie :: "headers \<Rightarrow> str \<Rightarrow> str option" where
  "extract_cookie hs name =
     Option.bind (get_header ''cookie'' hs) (\<lambda>cookies. find_map (cookie_value name) (split_on CHR '';'' cookies))"

definition request_ip :: "platform \<Rightarrow> request \<Rightarrow> ip_addr" where
  "request_ip pf req =
     client_ip pf (rq_headers req) (rq_peer req) (case rq_trusted_proxies req of None \<Rightarrow> [] | Some ps \<Rightarrow> ps)"

definition header_key :: "headers \<Rightarrow> str option" where
  "header_key hs =
     (case Option.bind (get_header ''authorization'' hs) (strip_prefix ''Bearer '') of
        Some k \<Rightarrow> Some k
      | None \<Rightarrow> get_header ''x-api-key'' hs)"

text \<open>An API key, or else a user's token: the identity, or why it is refused.\<close>

definition key_identity ::
  "platform \<Rightarrow> nat \<Rightarrow> str \<Rightarrow> ip_addr \<Rightarrow> database \<Rightarrow> (auth_error + auth_identity) \<times> database" where
  "key_identity pf now key ip db =
     (case validate_api_key pf now key (Some ip) db of
        (Inr admin, db) \<Rightarrow> (Inr (ApiKey (a_name admin)), db)
      | (Inl InvalidKey, db) \<Rightarrow>
          (case validate_user_token pf now key db of
             (Inr (user, token_meta), db) \<Rightarrow>
               (Inr (User (u_email user) (compute_effective_role (u_role user) (t_max_role token_meta)) (groups_vec user)), db)
           | (Inl _, db) \<Rightarrow> (Inl InvalidKey, db))
      | (Inl e, db) \<Rightarrow> (Inl e, db))"

datatype auth_outcome = Run_next "auth_identity option" | Respond nat str

fun auth_error_text :: "auth_error \<Rightarrow> str" where
  "auth_error_text InvalidKey = ''invalid API key''"
| "auth_error_text Disabled = ''admin account is disabled''"
| "auth_error_text Expired = ''API key has expired''"
| "auth_error_text IpNotAllowed = ''client IP not in allowed list''"
| "auth_error_text InvalidSession = ''invalid or expired session''"

definition session_identity :: "platform \<Rightarrow> nat \<Rightarrow> str \<Rightarrow> database \<Rightarrow> auth_identity option" where
  "session_identity pf now token db =
     (case validate_auth_session pf now token db of
        Inl _ \<Rightarrow> None
      | Inr user \<Rightarrow> Some (User (u_email user) (u_role user) (groups_vec user)))"

definition require_auth ::
  "platform \<Rightarrow> nat \<Rightarrow> request \<Rightarrow> database option \<Rightarrow> auth_outcome \<times> database option" where
  "require_auth pf now req dbo =
     (case dbo of
        None \<Rightarrow> (Run_next None, None)
      | Some db \<Rightarrow>
          (case header_key (rq_headers req) of
             Some key \<Rightarrow>
               (case key_identity pf now key (request_ip pf req) db of
                  (Inr identity, db) \<Rightarrow> (Run_next (Some identity), Some db)
                | (Inl InvalidKey, db) \<Rightarrow> (Respond 401 ''invalid API key or token'', Some db)
                | (Inl e, db) \<Rightarrow> (Respond 403 (auth_error_text e), Some db))
           | None \<Rightarrow>
               (case extract_cookie (rq_headers req) ''rustguac_session'' of
                  Some token \<Rightarrow>
                    (case session_identity pf now token db of
                       Some identity \<Rightarrow> (Run_next (Some identity), Some db)
                     | None \<Rightarrow> (Respond 401 ''invalid or expired session'', Some db))
                | None \<Rightarrow> (Respond 401 (''authentication required '' @ [CHR 0xE2, CHR 0x80, CHR 0x94] @
                    '' use API key or sign in via SSO''), Some db))))"

definition query_value :: "str \<Rightarrow> str option \<Rightarrow> str option" where
  "query_value name query =
     Option.bind query (\<lambda>q. find_map (\<lambda>pair.
       case split_at_char CHR ''='' pair of
         None \<Rightarrow> None
       | Some (k, v) \<Rightarrow> if k = name then Some (hd (split_on CHR ''?'' v)) else None) (split_on CHR ''&'' q))"

definition optional_auth ::
  "platform \<Rightarrow> nat \<Rightarrow> int \<Rightarrow> request \<Rightarrow> database option \<Rightarrow> ticket_store option \<Rightarrow>
   auth_identity option \<times> database option \<times> ticket_store option" where
  "optional_auth pf now instant req dbo tickets =
     (case dbo of
        None \<Rightarrow> (None, None, tickets)
      | Some db \<Rightarrow>
          (let (tickets, by_ticket) =
             (case (tickets, query_value ''ticket'' (rq_query req)) of
                (Some store, Some ticket) \<Rightarrow>
                  (case ticket_consume instant ticket store of (store, identity) \<Rightarrow> (Some store, identity))
              | _ \<Rightarrow> (tickets, None))
           in case by_ticket of
                Some identity \<Rightarrow> (Some identity, Some db, tickets)
              | None \<Rightarrow>
                  (case (case header_key (rq_headers req) of
                           Some k \<Rightarrow> Some k
                         | None \<Rightarrow> query_value ''key'' (rq_query req)) of
                     Some key \<Rightarrow>
                       (case key_identity pf now key (request_ip pf req) db of
                          (Inr identity, db) \<Rightarrow> (Some identity, Some db, tickets)
                        | (Inl _, db) \<Rightarrow> (None, Some db, tickets))
                   | None \<Rightarrow>
                       (case extract_cookie (rq_headers req) ''rustguac_session'' of
                          Some token \<Rightarrow> (session_identity pf now token db, Some db, tickets)
                        | None \<Rightarrow> (None, Some db, tickets)))))"

section \<open>Attaching to a session\<close>

definition is_session_owner :: "auth_identity \<Rightarrow> str option \<Rightarrow> bool" where
  "is_session_owner identity creator =
     (case creator of
        Some c \<Rightarrow> c \<noteq> [] \<and> eq_ignore_ascii_case (display_name identity) c
      | None \<Rightarrow> False)"

definition origin_host_matches :: "str \<Rightarrow> str \<Rightarrow> bool" where
  "origin_host_matches origin host =
     (let origin_host = hd (split_on CHR '':'' (trim_end_matches CHR ''/''
            (strip_all [''http://''] (strip_all [''https://''] origin))));
          host_name = hd (split_on CHR '':'' host)
      in if host_name = [] \<or> origin_host = [] then True
         else eq_ignore_ascii_case origin_host host_name)"

section \<open>OIDC login\<close>

definition refuse_unverified_email :: "bool \<Rightarrow> bool option \<Rightarrow> bool \<Rightarrow> bool" where
  "refuse_unverified_email has_email verified allow \<longleftrightarrow> has_email \<and> verified = Some False \<and> \<not> allow"

definition safe_next :: "str \<Rightarrow> str option" where
  "safe_next next =
     (if 2048 < length next \<or> (case next of [] \<Rightarrow> True | c # _ \<Rightarrow> c \<noteq> CHR ''/'') \<or>
         (case next of _ # c # _ \<Rightarrow> c = CHR ''/'' | _ \<Rightarrow> False) then None
      else if \<not> list_all (\<lambda>c. 0x21 \<le> byte_of c \<and> byte_of c \<le> 0x7E \<and>
                 c \<notin> {CHR 0x5C, CHR '';'', CHR '','', CHR 0x22}) next then None
      else
        (let lower = to_ascii_lowercase next in
         if strip_prefix ''/%2f'' lower \<noteq> None \<or> strip_prefix ''/%5c'' lower \<noteq> None then None
         else Some next))"

text \<open>
  The claims of a verified ID token (its groups as \<open>extract_groups_from_jwt\<close> returns them) and
  the settings a login uses.
\<close>

record oidc_claims =
  cl_subject :: str
  cl_email :: "str option"
  cl_email_verified :: "bool option"
  cl_name :: "str option"
  cl_groups :: "str list"

record oidc_config =
  oc_default_role :: str
  oc_auto_create_users :: bool
  oc_allow_unverified_email :: bool
  oc_session_ttl_secs :: nat

datatype login_outcome = Redirect str | Internal_error str | Logged_in str str str

text \<open>\<open>callback\<close> from the verified claims on: the session token, the role it logs and the redirect.\<close>

definition callback ::
  "platform \<Rightarrow> nat \<Rightarrow> oidc_config \<Rightarrow> oidc_claims \<Rightarrow> headers \<Rightarrow> str \<Rightarrow> database \<Rightarrow> login_outcome \<times> database" where
  "callback pf now cfg cl hs token db =
     (if refuse_unverified_email (cl_email cl \<noteq> None) (cl_email_verified cl) (oc_allow_unverified_email cfg)
      then (Redirect ''/?sso_error=email_unverified'', db)
      else
        (let email = (case cl_email cl of None \<Rightarrow> cl_subject cl | Some e \<Rightarrow> e);
             name = (case cl_name cl of None \<Rightarrow> [] | Some n \<Rightarrow> n);
             groups = cl_groups cl;
             db = (if groups = [] then db else upsert_seen_groups pf now groups db);
             mapped_role = resolve_role_from_groups groups db
         in case upsert_user pf now email name (Some (cl_subject cl)) (oc_default_role cfg) groups
                (oc_auto_create_users cfg) db of
              Inl _ \<Rightarrow> (Internal_error ''failed to create user'', db)
            | Inr (db, NoAccount) \<Rightarrow> (Redirect ''/?sso_error=no_account'', db)
            | Inr (db, SubjectMismatch) \<Rightarrow> (Redirect ''/?sso_error=account_mismatch'', db)
            | Inr (db, Ambiguous) \<Rightarrow> (Redirect ''/?sso_error=account_mismatch'', db)
            | Inr (db, Login_User user) \<Rightarrow>
                (let (db, effective_role) =
                   (case mapped_role of
                      Some role \<Rightarrow> (fst (set_user_role email role db), role)
                    | None \<Rightarrow> (db, u_role user))
                 in if u_disabled user then (Redirect ''/?sso_error=disabled'', db)
                    else
                      (case create_auth_session pf now token (u_id user) (oc_session_ttl_secs cfg) db of
                         Inl _ \<Rightarrow> (Internal_error ''failed to create session'', db)
                       | Inr (db, token) \<Rightarrow>
                           (Logged_in token effective_role
                              (case Option.bind (extract_cookie hs ''rustguac_next'') safe_next of
                                 None \<Rightarrow> ''/addressbook.html''
                               | Some n \<Rightarrow> n), db)))))"

definition logout :: "platform \<Rightarrow> headers \<Rightarrow> database \<Rightarrow> database" where
  "logout pf hs db =
     (case extract_cookie hs ''rustguac_session'' of
        None \<Rightarrow> db
      | Some token \<Rightarrow> fst (delete_auth_session pf token db))"

section \<open>Roles\<close>

lemma effective_role_level:
  "role_level (compute_effective_role user_role max_role) =
     (case max_role of None \<Rightarrow> role_level user_role | Some mx \<Rightarrow> min (role_level mx) (role_level user_role))"
  by (auto simp: compute_effective_role_def split: option.split)

section \<open>The client's address cannot be chosen by the client\<close>

text \<open>A hop at which the walk from the right ends.\<close>

definition ends_walk :: "(ip_addr \<Rightarrow> bool) \<Rightarrow> str \<Rightarrow> bool" where
  "ends_walk is_trusted hop \<longleftrightarrow>
     (case parse_forwarded_ip hop of None \<Rightarrow> True | Some ip \<Rightarrow> \<not> is_trusted ip)"

lemma walk_hops_append:
  "\<exists>hop\<in>set xs. ends_walk is_trusted hop \<Longrightarrow> walk_hops is_trusted client (xs @ ys) = walk_hops is_trusted client xs"
  by (induction xs arbitrary: client) (auto simp: ends_walk_def split: option.splits)

text \<open>
  The walk, without recursion: past the trusted proxies at the front of the entries; the next
  entry is the client if it is an address, else the last of the proxies passed.
\<close>

definition passed :: "(ip_addr \<Rightarrow> bool) \<Rightarrow> str \<Rightarrow> bool" where
  "passed is_trusted hop \<longleftrightarrow> (\<exists>ip. parse_forwarded_ip hop = Some ip \<and> is_trusted ip)"

lemma walk_hops_spec:
  "walk_hops is_trusted client hops =
     (case dropWhile (passed is_trusted) hops of
        [] \<Rightarrow> last (client # map (the \<circ> parse_forwarded_ip) (takeWhile (passed is_trusted) hops))
      | hop # _ \<Rightarrow> (case parse_forwarded_ip hop of
          Some ip \<Rightarrow> ip
        | None \<Rightarrow> last (client # map (the \<circ> parse_forwarded_ip) (takeWhile (passed is_trusted) hops))))"
proof (induction hops arbitrary: client)
  case (Cons hop hops)
  show ?case
  proof (cases "passed is_trusted hop")
    case True
    then obtain ip where "parse_forwarded_ip hop = Some ip" "is_trusted ip" by (auto simp: passed_def)
    then show ?thesis using True Cons.IH [of ip]
      by (cases "dropWhile (passed is_trusted) hops") (simp_all del: dropWhile_eq_Nil_conv split: option.split)
  next
    case False
    then show ?thesis by (auto simp: passed_def split: option.split)
  qed
qed simp

text \<open>
  C25: The client's address is taken from the chain of trusted proxies only. A peer that is not a
  trusted proxy is its own address whatever it sends. Otherwise the entries of \<open>X-Forwarded-For\<close>
  are read from the right past those that are addresses of trusted proxies (\<open>rs\<close>): the next
  entry is the client if it is an address; if it is none, or there is no further entry, the
  client is the last trusted proxy read, or the peer if there was none. Whatever stands left of
  an entry at which the walk ends (one that is not an address, or not a trusted proxy's) has no
  influence.
\<close>

theorem client_ip_unforgeable:
  fixes trusted :: "(ip_addr \<Rightarrow> bool) list"
  defines "is_trusted \<equiv> \<lambda>ip. list_ex (\<lambda>net. net ip) trusted"
  shows "(\<not> is_trusted peer \<longrightarrow> client_ip_from hs peer trusted = peer) \<and>
    (is_trusted peer \<longrightarrow>
      (\<exists>ls rs. forwarded_hops hs = ls @ rs \<and> (\<forall>h\<in>set rs. \<exists>ip. parse_forwarded_ip h = Some ip \<and> is_trusted ip) \<and>
         (ls = [] \<or> ends_walk is_trusted (last ls)) \<and>
         (let nearest = (case rs of [] \<Rightarrow> peer | h # _ \<Rightarrow> the (parse_forwarded_ip h)) in
          client_ip_from hs peer trusted =
            (if ls = [] then nearest
             else case parse_forwarded_ip (last ls) of Some ip \<Rightarrow> ip | None \<Rightarrow> nearest)))) \<and>
    (\<forall>hs' forged forged' tail. forwarded_hops hs = forged @ tail \<longrightarrow> forwarded_hops hs' = forged' @ tail \<longrightarrow>
       (\<exists>hop\<in>set tail. ends_walk is_trusted hop) \<longrightarrow>
       client_ip_from hs peer trusted = client_ip_from hs' peer trusted)"
proof (intro conjI allI impI)
  show "\<not> is_trusted peer \<Longrightarrow> client_ip_from hs peer trusted = peer"
    by (simp add: client_ip_from_def is_trusted_def)
next
  assume "is_trusted peer"
  let ?hops = "rev (forwarded_hops hs)"
  let ?ls = "rev (dropWhile (passed is_trusted) ?hops)" and ?rs = "rev (takeWhile (passed is_trusted) ?hops)"
  have walk: "client_ip_from hs peer trusted = walk_hops is_trusted peer ?hops"
    using \<open>is_trusted peer\<close> by (simp add: client_ip_from_def is_trusted_def)
  have split: "forwarded_hops hs = ?ls @ ?rs" 
    unfolding rev_append [symmetric] takeWhile_dropWhile_id by simp
  have run: "\<forall>h\<in>set ?rs. \<exists>ip. parse_forwarded_ip h = Some ip \<and> is_trusted ip" by (auto simp: passed_def dest: set_takeWhileD)
  have stop: "?ls = [] \<or> ends_walk is_trusted (last ?ls)"
    using hd_dropWhile [of "passed is_trusted" ?hops]
    by (cases "dropWhile (passed is_trusted) ?hops") (auto simp: ends_walk_def passed_def split: option.splits)
  have near: "last (peer # map (the \<circ> parse_forwarded_ip) (rev xs)) = (case xs of [] \<Rightarrow> peer | h # _ \<Rightarrow> the (parse_forwarded_ip h))" for xs
    by (cases xs) simp_all
  have "client_ip_from hs peer trusted =
      (if ?ls = [] then case ?rs of [] \<Rightarrow> peer | h # _ \<Rightarrow> the (parse_forwarded_ip h)
       else case parse_forwarded_ip (last ?ls) of Some ip \<Rightarrow> ip | None \<Rightarrow> case ?rs of [] \<Rightarrow> peer | h # _ \<Rightarrow> the (parse_forwarded_ip h))"
    unfolding walk walk_hops_spec near [of ?rs, symmetric] rev_rev_ident
    by (cases "dropWhile (passed is_trusted) ?hops") (simp_all del: dropWhile_eq_Nil_conv split: option.split)
  then show "\<exists>ls rs. forwarded_hops hs = ls @ rs \<and> (\<forall>h\<in>set rs. \<exists>ip. parse_forwarded_ip h = Some ip \<and> is_trusted ip) \<and>
      (ls = [] \<or> ends_walk is_trusted (last ls)) \<and>
      (let nearest = (case rs of [] \<Rightarrow> peer | h # _ \<Rightarrow> the (parse_forwarded_ip h)) in
       client_ip_from hs peer trusted =
         (if ls = [] then nearest
          else case parse_forwarded_ip (last ls) of Some ip \<Rightarrow> ip | None \<Rightarrow> nearest))"
    using split run stop unfolding Let_def by (intro exI [of _ ?ls] exI [of _ ?rs] conjI)
next
  fix hs' forged forged' tail
  assume f: "forwarded_hops hs = forged @ tail" "forwarded_hops hs' = forged' @ tail"
    "\<exists>hop\<in>set tail. ends_walk is_trusted hop"
  have "walk_hops is_trusted peer (rev tail @ xs) = walk_hops is_trusted peer (rev tail)" for xs
    by (rule walk_hops_append) (use f(3) in simp)
  then show "client_ip_from hs peer trusted = client_ip_from hs' peer trusted"
    by (simp add: client_ip_from_def is_trusted_def [symmetric] f(1,2))
qed

definition demo_proxy_net :: "(ip_addr \<Rightarrow> bool) list" where
  "demo_proxy_net = [\<lambda>ip. ip = Ipv4 [10, 0, 0, 1]]"

lemma demo_hop: "parse_forwarded_ip '' 203.0.113.5'' = Some (Ipv4 [203, 0, 113, 5])"
  by (simp add: parse_forwarded_ip_def valid_utf8.simps followers_def byte_of_def trim_def strip_all.simps white_spaces_def
      parse_ip_addr_def parse_with_def read_ip_def read_ipv4_def numeral_eq_Suc read_separator_def read_number_def digit_of_def)

theorem client_ip_unforgeable_witness:
  "client_ip_from [(''x-forwarded-for'', ''8.8.8.8, 203.0.113.5'')] (Ipv4 [10, 0, 0, 1]) demo_proxy_net =
     client_ip_from [(''x-forwarded-for'', ''junk, 9.9.9.9, 203.0.113.5'')] (Ipv4 [10, 0, 0, 1]) demo_proxy_net \<and>
   client_ip_from [(''x-forwarded-for'', ''8.8.8.8'')] (Ipv4 [1, 2, 3, 4]) demo_proxy_net = Ipv4 [1, 2, 3, 4]"
proof -
  have hops: "forwarded_hops [(''x-forwarded-for'', ''8.8.8.8, 203.0.113.5'')] = [''8.8.8.8''] @ ['' 203.0.113.5'']"
    "forwarded_hops [(''x-forwarded-for'', ''junk, 9.9.9.9, 203.0.113.5'')] = [''junk'', '' 9.9.9.9''] @ ['' 203.0.113.5'']"
    by (simp_all add: forwarded_hops_def get_all_def)
  have "ends_walk (\<lambda>ip. list_ex (\<lambda>net. net ip) demo_proxy_net) '' 203.0.113.5''"
    by (simp add: ends_walk_def demo_hop demo_proxy_net_def)
  then have "\<exists>hop\<in>set ['' 203.0.113.5'']. ends_walk (\<lambda>ip. list_ex (\<lambda>net. net ip) demo_proxy_net) hop" by simp
  moreover have "\<not> list_ex (\<lambda>net. net (Ipv4 [1, 2, 3, 4])) demo_proxy_net" by (simp add: demo_proxy_net_def)
  ultimately show ?thesis
    using client_ip_unforgeable [THEN conjunct2, THEN conjunct2, rule_format, OF hops] client_ip_unforgeable [THEN conjunct1]
    by blast
qed

section \<open>Who gets through\<close>

text \<open>What a request has to present to act as an identity.\<close>

definition by_admin_key :: "platform \<Rightarrow> nat \<Rightarrow> str \<Rightarrow> ip_addr \<Rightarrow> database \<Rightarrow> str \<Rightarrow> bool" where
  "by_admin_key pf now key ip db name \<longleftrightarrow>
     (\<exists>a. (a, pf_hash pf key) \<in> set (db_admins db) \<and> a_name a = name \<and> \<not> a_disabled a \<and>
        unexpired pf now (a_expires_at a) \<and> ip_allowed pf (a_allowed_ips a) (Some ip))"

definition by_user_token :: "platform \<Rightarrow> nat \<Rightarrow> str \<Rightarrow> database \<Rightarrow> user \<Rightarrow> str \<Rightarrow> bool" where
  "by_user_token pf now key db u role \<longleftrightarrow>
     (\<exists>t. (t, pf_hash pf key) \<in> set (db_tokens db) \<and> t_user_id t = u_id u \<and> \<not> t_disabled t \<and>
        unexpired pf now (t_expires_at t) \<and>
        role_level role = (case t_max_role t of None \<Rightarrow> role_level (u_role u) | Some m \<Rightarrow> min (role_level m) (role_level (u_role u))))"

definition by_session :: "platform \<Rightarrow> nat \<Rightarrow> str \<Rightarrow> database \<Rightarrow> user \<Rightarrow> bool" where
  "by_session pf now token db u \<longleftrightarrow>
     (\<exists>s\<in>set (db_sessions db). s_token_hash s = pf_hash pf token \<and> s_user_id s = u_id u \<and> datetime_now pf now < s_expires_at s)"

lemma key_identity_sound:
  assumes "key_identity pf now key ip db = (Inr i, db')"
  shows "case i of ApiKey name \<Rightarrow> by_admin_key pf now key ip db name
    | User email role groups \<Rightarrow> \<exists>u\<in>set (db_users db). u_email u = email \<and> groups = groups_vec u \<and> \<not> u_disabled u \<and>
        by_user_token pf now key db u role"
proof (cases "validate_api_key pf now key (Some ip) db")
  case (Pair r db1)
  show ?thesis
  proof (cases r)
    case (Inr a)
    then show ?thesis using assms Pair validate_api_key_sound [of pf now key "Some ip" db a db1]
      by (auto simp: key_identity_def by_admin_key_def)
  next
    case (Inl e)
    then have db1: "db1 = db" using Pair
      by (auto simp: validate_api_key_def split: option.splits if_splits)
    have "e = InvalidKey" using assms Pair Inl by (cases e) (auto simp: key_identity_def)
    then obtain u t where ut: "validate_user_token pf now key db = (Inr (u, t), db')"
        "i = User (u_email u) (compute_effective_role (u_role u) (t_max_role t)) (groups_vec u)"
      using assms Pair Inl db1 by (auto simp: key_identity_def split: prod.splits sum.splits)
    then show ?thesis using validate_user_token_sound [OF ut(1)]
      by (auto simp: by_user_token_def effective_role_level intro!: bexI [of _ u] exI [of _ t])
  qed
qed

lemma session_identity_sound:
  assumes "session_identity pf now token db = Some i"
  shows "\<exists>u\<in>set (db_users db). i = User (u_email u) (u_role u) (groups_vec u) \<and> \<not> u_disabled u \<and> by_session pf now token db u"
  using assms by (auto simp: session_identity_def by_session_def split: sum.splits dest!: validate_auth_session_sound)

text \<open>
  C3: Nobody gets through without a credential that is valid now, and with no more than its role.
  A request that \<open>require_auth\<close> passes on carries an identity. An API key identity has a key
  whose hash belongs to an administrator who is enabled, not expired and allowed at the
  client's address; a user identity belongs to an enabled user, with that user's groups, and
  comes from an unexpired session with the user's own role, or from an enabled, unexpired token
  of the user with the lower of the user's and the token's role.
\<close>

theorem require_auth_sound:
  assumes "require_auth pf now req (Some db) = (Run_next identity, db')"
  shows "\<exists>i. identity = Some i \<and>
    (case i of
       ApiKey name \<Rightarrow>
         \<exists>key. header_key (rq_headers req) = Some key \<and> by_admin_key pf now key (request_ip pf req) db name
     | User email role groups \<Rightarrow>
         \<exists>u\<in>set (db_users db). u_email u = email \<and> groups = groups_vec u \<and> \<not> u_disabled u \<and>
           ((\<exists>key. header_key (rq_headers req) = Some key \<and> by_user_token pf now key db u role) \<or>
            (\<exists>token. extract_cookie (rq_headers req) ''rustguac_session'' = Some token \<and>
               by_session pf now token db u \<and> role = u_role u)))"
proof (cases "header_key (rq_headers req)")
  case (Some key)
  then obtain i db1 where "key_identity pf now key (request_ip pf req) db = (Inr i, db1)" "identity = Some i"
    using assms by (auto simp: require_auth_def split: prod.splits sum.splits auth_error.splits)
  then show ?thesis using key_identity_sound [of pf now key "request_ip pf req" db i db1] Some
    by (cases i) auto
next
  case None
  then obtain token where token: "extract_cookie (rq_headers req) ''rustguac_session'' = Some token"
    using assms by (auto simp: require_auth_def split: option.splits)
  then obtain i where "session_identity pf now token db = Some i" "identity = Some i"
    using assms None by (cases "session_identity pf now token db") (simp_all add: require_auth_def)
  then show ?thesis using session_identity_sound [of pf now token db i] token by auto
qed

text \<open>A request with Ann's session cookie, and one with no credential.\<close>

definition demo_request :: request where
  "demo_request = \<lparr>rq_headers = [(''cookie'', ''a=b; rustguac_session=tok'')], rq_peer = Ipv4 [1, 2, 3, 4],
     rq_query = None, rq_trusted_proxies = None\<rparr>"

lemma demo_cookie: "extract_cookie (rq_headers demo_request) ''rustguac_session'' = Some ''tok''"
  by (simp add: demo_request_def extract_cookie_def get_header_def to_str_def byte_of_def cookie_value_def trim_def
      strip_all.simps white_spaces_def)

lemma demo_db:
  "db_run demo_platform demo_ops init_db = init_db\<lparr>db_users := [demo_ann], db_users_seq := 1,
     db_sessions := [\<lparr>s_token_hash = ''#tok'', s_user_id = 1, s_created_at = [char_of (0::nat)], s_expires_at = [char_of (60::nat)]\<rparr>],
     db_tokens := [(\<lparr>t_id = 1, t_user_id = 1, t_name = ''ci'', t_max_role = None, t_expires_at = None, t_disabled = False,
        t_created_at = [char_of (0::nat)], t_last_used_at = None\<rparr>, ''#rgu_key'')], db_tokens_seq := 1\<rparr>"
  by (simp add: demo_ops_def db_run_def init_db_def demo_ann_def upsert_user_def find_user_for_email_def insert_user_def
      user_by_id_def query_row_def create_auth_session_def create_user_token_def demo_platform_def datetime_now_def
      SQLITE_DATETIME_MAX_def Let_def)

lemma demo_auth:
  "require_auth demo_platform (10 ^ 9) demo_request (Some (db_run demo_platform demo_ops init_db)) =
     (Run_next (Some (User ''ann@x'' ''viewer'' [''staff''])), Some (db_run demo_platform demo_ops init_db))"
proof -
  have "header_key (rq_headers demo_request) = None"
    by (simp add: header_key_def demo_request_def get_header_def)
  moreover have "session_identity demo_platform (10 ^ 9) ''tok'' (db_run demo_platform demo_ops init_db) =
      Some (User ''ann@x'' ''viewer'' [''staff''])"
    unfolding demo_db
    by (simp add: session_identity_def validate_auth_session_def query_row_def demo_ann_def demo_platform_def
        datetime_now_def groups_vec_def less_char_def)
  ultimately show ?thesis by (simp add: require_auth_def demo_cookie)
qed

theorem require_auth_sound_witness:
  "require_auth demo_platform (10 ^ 9) demo_request (Some (db_run demo_platform demo_ops init_db)) =
     (Run_next (Some (User ''ann@x'' ''viewer'' [''staff''])), Some (db_run demo_platform demo_ops init_db)) \<and>
   (\<exists>u. u \<in> set (db_users (db_run demo_platform demo_ops init_db)) \<and> u_email u = ''ann@x'' \<and> \<not> u_disabled u)"
  using require_auth_sound [OF demo_auth] demo_auth by auto

section \<open>Tickets are used once\<close>

datatype ticket_op = Tk_create int str auth_identity | Tk_consume int str

fun ticket_step :: "ticket_op \<Rightarrow> ticket_store \<Rightarrow> ticket_store" where
  "ticket_step (Tk_create now uuid identity) store = fst (ticket_create now uuid identity store)"
| "ticket_step (Tk_consume now ticket) store = fst (ticket_consume now ticket store)"

definition ticket_run :: "ticket_op list \<Rightarrow> ticket_store \<Rightarrow> ticket_store" where
  "ticket_run ops store = foldl (\<lambda>s op. ticket_step op s) store ops"

fun creates :: "str \<Rightarrow> ticket_op \<Rightarrow> bool" where
  "creates ticket (Tk_create now uuid identity) \<longleftrightarrow> ticket = ''wst_'' @ uuid"
| "creates ticket (Tk_consume now t) \<longleftrightarrow> False"

fun touches :: "str \<Rightarrow> ticket_op \<Rightarrow> bool" where
  "touches ticket (Tk_create now uuid identity) \<longleftrightarrow> ticket = ''wst_'' @ uuid"
| "touches ticket (Tk_consume now t) \<longleftrightarrow> t = ticket"

lemma ticket_step_None: "store t = None \<Longrightarrow> \<not> creates t op \<Longrightarrow> ticket_step op store t = None"
  by (cases op) (auto simp: ticket_create_def ticket_consume_def Let_def split: option.splits)

lemma ticket_run_None:
  "store t = None \<Longrightarrow> \<forall>op\<in>set ops. \<not> creates t op \<Longrightarrow> ticket_run ops store t = None"
  unfolding ticket_run_def by (induction ops arbitrary: store) (simp_all add: ticket_step_None)

text \<open>A ticket in the store was created, and has not been touched since.\<close>

definition issued_by :: "ticket_op list \<Rightarrow> str \<Rightarrow> ws_ticket \<Rightarrow> bool" where
  "issued_by ops t e \<longleftrightarrow>
     (\<exists>ops1 uuid ops2. ops = ops1 @ Tk_create (tk_created e) uuid (tk_identity e) # ops2 \<and> t = ''wst_'' @ uuid \<and>
        (\<forall>op\<in>set ops2. \<not> touches t op))"

lemma issued_by_later: "issued_by ops t e \<Longrightarrow> \<not> touches t op \<Longrightarrow> issued_by (ops @ [op]) t e"
  unfolding issued_by_def by fastforce

lemma issued_by_now:
  "issued_by (ops @ [Tk_create now uuid i]) (''wst_'' @ uuid) \<lparr>tk_identity = i, tk_created = now\<rparr>"
  unfolding issued_by_def by (intro exI [of _ ops] exI [of _ uuid] exI [of _ "[]"]) simp

lemma ticket_run_issued:
  "ticket_run ops Map.empty t = Some e \<Longrightarrow> issued_by ops t e"
proof (induction ops arbitrary: t e rule: rev_induct)
  case (snoc op ops)
  then have s: "ticket_step op (ticket_run ops Map.empty) t = Some e" by (simp add: ticket_run_def)
  show ?case
  proof (cases op)
    case (Tk_create now uuid i)
    then show ?thesis using s snoc.IH issued_by_now [of ops now uuid i] issued_by_later [of ops t e op]
      by (auto simp: ticket_create_def Let_def split: if_splits option.splits)
  next
    case (Tk_consume now t')
    then have "t' \<noteq> t" "ticket_run ops Map.empty t = Some e"
      using s by (auto simp: ticket_consume_def split: option.splits if_splits)
    then show ?thesis using snoc.IH issued_by_later [of ops t e op] Tk_consume by simp
  qed
qed (simp add: ticket_run_def)

text \<open>
  C26: A WebSocket ticket authenticates once, the identity it was made for, for 31 seconds. If a
  ticket is accepted after any sequence of ticket operations, then one of them created it for
  that identity less than 31 seconds before, nobody has presented it since, and it is refused
  from then on, unless it is drawn again.
\<close>

theorem ticket_single_use:
  assumes "ticket_consume now t (ticket_run ops Map.empty) = (store, Some i)"
  shows "(\<exists>ops1 created uuid ops2. ops = ops1 @ Tk_create created uuid i # ops2 \<and> t = ''wst_'' @ uuid \<and>
      (\<forall>op\<in>set ops2. \<not> touches t op) \<and> now - created < 31 * 10 ^ 9) \<and>
    (\<forall>ops' later. (\<forall>op\<in>set ops'. \<not> creates t op) \<longrightarrow>
       snd (ticket_consume later t (ticket_run ops' store)) = None)"
proof -
  obtain e where e: "ticket_run ops Map.empty t = Some e" "tk_identity e = i"
      "(now - tk_created e) div 10 ^ 9 \<le> WS_TICKET_TTL_SECS" "store t = None"
    using assms by (auto simp: ticket_consume_def split: option.splits if_splits)
  have "now - tk_created e < 31 * 10 ^ 9" using e(3) by (simp add: WS_TICKET_TTL_SECS_def)
  then have "\<exists>ops1 created uuid ops2. ops = ops1 @ Tk_create created uuid i # ops2 \<and> t = ''wst_'' @ uuid \<and>
      (\<forall>op\<in>set ops2. \<not> touches t op) \<and> now - created < 31 * 10 ^ 9"
    using ticket_run_issued [OF e(1)] e(2) unfolding issued_by_def by blast
  moreover have "snd (ticket_consume later t (ticket_run ops' store)) = None"
    if "\<forall>op\<in>set ops'. \<not> creates t op" for ops' later
    using ticket_run_None [of store t ops'] e(4) that by (simp add: ticket_consume_def)
  ultimately show ?thesis by blast
qed

theorem ticket_single_use_witness:
  "snd (ticket_consume (5 * 10 ^ 9) ''wst_a'' (ticket_run [Tk_create 0 ''a'' (ApiKey ''root'')] Map.empty)) = Some (ApiKey ''root'') \<and>
   snd (ticket_consume (6 * 10 ^ 9) ''wst_a'' (ticket_run [Tk_create 0 ''b'' (ApiKey ''root'')]
     (fst (ticket_consume (5 * 10 ^ 9) ''wst_a'' (ticket_run [Tk_create 0 ''a'' (ApiKey ''root'')] Map.empty))))) = None"
proof -
  have "ticket_consume (5 * 10 ^ 9) ''wst_a'' (ticket_run [Tk_create 0 ''a'' (ApiKey ''root'')] Map.empty) =
      (Map.empty, Some (ApiKey ''root''))"
    by (auto simp: ticket_consume_def ticket_run_def ticket_create_def WS_TICKET_TTL_SECS_def Let_def fun_eq_iff)
  from this ticket_single_use [OF this, THEN conjunct2, rule_format, of "[Tk_create 0 ''b'' (ApiKey ''root'')]"]
  show ?thesis by simp
qed

section \<open>The redirect after a login\<close>

text \<open>How browsers read a \<open>Location\<close>: tabs and newlines dropped, backslashes taken for slashes.\<close>

definition browser_reads :: "str \<Rightarrow> str" where
  "browser_reads s = map (\<lambda>c. if c = CHR 0x5C then CHR ''/'' else c) (filter (\<lambda>c. c \<notin> {CHR 0x09, CHR 0x0A, CHR 0x0D}) s)"

lemma printable_not_blank:
  assumes "33 \<le> byte_of c"
  shows "c \<noteq> CHR 0x09" "c \<noteq> CHR 0x0A" "c \<noteq> CHR 0x0D"
  using assms by (auto simp: byte_of_def)

text \<open>
  The redirect after a login stays on the site and fits in its headers. What \<open>safe_next\<close> accepts
  it returns unchanged; a browser reads it as a path, one slash not followed by another nor by
  an encoded slash or backslash; and it has no blank, control, quote, comma or semicolon that could
  end the cookie or the header it is put into.
\<close>

theorem safe_next_same_origin:
  assumes "safe_next n = Some m"
  shows "m = n \<and> length m \<le> 2048 \<and>
    (\<exists>path. browser_reads m = CHR ''/'' # path \<and> take 1 path \<noteq> ''/'' \<and>
       take 3 (to_ascii_lowercase path) \<notin> {''%2f'', ''%5c''}) \<and>
    (\<forall>c\<in>set m. 0x20 < byte_of c \<and> byte_of c < 0x7F \<and> c \<notin> {CHR '';'', CHR '','', CHR 0x22, CHR 0x5C})"
proof -
  have m: "m = n" "length n \<le> 2048" "\<forall>c\<in>set n. 0x21 \<le> byte_of c \<and> byte_of c \<le> 0x7E \<and>
      c \<notin> {CHR 0x5C, CHR '';'', CHR '','', CHR 0x22}"
    using assms by (auto simp: safe_next_def Let_def list_all_iff split: if_splits)
  obtain path where path: "n = CHR ''/'' # path" "take 1 path \<noteq> ''/''"
    using assms by (auto simp: safe_next_def split: if_splits list.splits)
  have "\<not> (\<exists>r. to_ascii_lowercase n = ''/%2f'' @ r)" "\<not> (\<exists>r. to_ascii_lowercase n = ''/%5c'' @ r)"
    using assms by (auto simp: safe_next_def Let_def split: if_splits)
  moreover have "to_ascii_lowercase n = CHR ''/'' # to_ascii_lowercase path"
    by (simp add: path(1) to_ascii_lowercase_def ascii_lower_def byte_of_def)
  moreover have "s = take 3 s @ drop 3 s" for s :: str by simp
  ultimately have "take 3 (to_ascii_lowercase path) \<notin> {''%2f'', ''%5c''}"
    by (metis append_Cons append_Nil insert_iff singletonD)
  moreover have "browser_reads n = n"
  proof -
    have "filter (\<lambda>c. c \<notin> {CHR 0x09, CHR 0x0A, CHR 0x0D}) n = n"
      using m(3) printable_not_blank by (intro filter_True) simp
    moreover have "map (\<lambda>c. if c = CHR 0x5C then CHR ''/'' else c) n = n" using m(3) by (intro map_idI) auto
    ultimately show ?thesis by (simp only: browser_reads_def)
  qed
  ultimately have "browser_reads n = CHR ''/'' # path \<and> take 1 path \<noteq> ''/'' \<and>
      take 3 (to_ascii_lowercase path) \<notin> {''%2f'', ''%5c''}" using path by (simp only: simp_thms)
  moreover have "\<forall>c\<in>set n. 0x20 < byte_of c \<and> byte_of c < 0x7F \<and> c \<notin> {CHR '';'', CHR '','', CHR 0x22, CHR 0x5C}"
  proof
    fix c assume "c \<in> set n"
    with m(3) have "0x21 \<le> byte_of c \<and> byte_of c \<le> 0x7E \<and> c \<notin> {CHR 0x5C, CHR '';'', CHR '','', CHR 0x22}" by (rule bspec)
    then show "0x20 < byte_of c \<and> byte_of c < 0x7F \<and> c \<notin> {CHR '';'', CHR '','', CHR 0x22, CHR 0x5C}" by auto
  qed
  ultimately show ?thesis using m(1,2) by blast
qed

theorem safe_next_same_origin_witness:
  "safe_next ''/client/1?token=a'' = Some ''/client/1?token=a'' \<and>
   (\<exists>path. browser_reads ''/client/1?token=a'' = CHR ''/'' # path \<and> take 1 path \<noteq> ''/'')"
proof -
  have "safe_next ''/client/1?token=a'' = Some ''/client/1?token=a''"
    by (simp add: safe_next_def byte_of_def to_ascii_lowercase_def ascii_lower_def)
  from this safe_next_same_origin [OF this] show ?thesis by blast
qed

section \<open>What a login gives\<close>

lemma validate_auth_session_complete:
  assumes ok: "db_ok db" and u: "u \<in> set (db_users db)" "\<not> u_disabled u" and s: "s \<in> set (db_sessions db)"
    "s_token_hash s = pf_hash pf token" "s_user_id s = u_id u" "datetime_now pf now < s_expires_at s"
  shows "validate_auth_session pf now token db = Inr u"
proof -
  define rows where "rows = [(s, u). s \<leftarrow> db_sessions db, u \<leftarrow> db_users db, u_id u = s_user_id s]"
  define P where "P = (\<lambda>(s :: auth_session, u :: user). s_token_hash s = pf_hash pf token \<and> datetime_now pf now < s_expires_at s)"
  have "(s, u) \<in> set rows" "P (s, u)" using u(1) s by (auto simp: rows_def P_def)
  then obtain r where r: "List.find P rows = Some r" by (cases "List.find P rows") (auto simp: find_None_iff)
  then have "r \<in> set rows" "P r" by (auto simp: find_Some_iff)
  moreover obtain s' u' where su: "r = (s', u')" by fastforce
  ultimately have r': "s' \<in> set (db_sessions db)" "u' \<in> set (db_users db)" "u_id u' = s_user_id s'"
      "s_token_hash s' = pf_hash pf token" by (auto simp: rows_def P_def)
  then have "s' = s" using ok s(1,2) by (auto simp: db_ok_def sessions_ok_def distinct_map inj_on_def)
  then have "u' = u" using ok r'(2,3) u(1) s(3)
    by (auto simp: db_ok_def users_ok_def table_ok_def distinct_map inj_on_def)
  then show ?thesis using r su u(2)
    by (simp add: validate_auth_session_def query_row_def rows_def [symmetric] P_def [symmetric])
qed

text \<open>The row of a user who has logged in, after the role of a group mapping has been set.\<close>

lemma upsert_user_row:
  assumes "db_ok db" "upsert_user pf now email name (Some sub) role groups create db = Inr (db', Login_User u)"
  shows "db_ok db' \<and> u \<in> set (db_users db') \<and> u_oidc_subject u = Some sub \<and> eq_ignore_ascii_case (u_email u) email \<and>
    (\<forall>w\<in>set (db_users db). u_id w = u_id u \<longrightarrow> u_role w = u_role u \<and> u_email w = u_email u)"
proof (cases rule: upsert_user_cases [OF assms(1), of pf now email name "Some sub" role groups create])
  case (2 v)
  then have u: "u = logged_in_row pf now name (Some sub) groups v"
    "db' = db\<lparr>db_users := update_rows (\<lambda>w. u_id w = u_id v) (logged_in_row pf now name (Some sub) groups) (db_users db)\<rparr>"
    using assms(2) by simp_all
  have "db_ok db'" unfolding u(2) by (rule db_ok_users [OF assms(1)]) simp
  moreover have "\<forall>w\<in>set (db_users db). u_id w = u_id v \<longrightarrow> w = v"
    using assms(1) 2(1) by (auto simp: db_ok_def users_ok_def table_ok_def distinct_map inj_on_def)
  ultimately show ?thesis using 2(1,2) u by (auto simp: logged_in_row_def update_rows_def)
next
  case (3 db1 uid v)
  have "\<forall>w\<in>set (db_users db). u_id w \<noteq> uid"
    using assms(1) insert_user_Inr(1) [OF 3(2)] by (auto simp: db_ok_def users_ok_def table_ok_def)
  then show ?thesis using 3 assms insert_user_Inr [OF 3(2)] db_ok_insert_user [OF assms(1) 3(2)]
    by (auto simp: eq_ignore_ascii_case_def)
qed (use assms(2) in auto)

lemma set_user_role_row:
  assumes "db_ok db" "u \<in> set (db_users db)"
  obtains v where "v \<in> set (db_users (fst (set_user_role email role db)))" "u_id v = u_id u" "u_disabled v = u_disabled u"
    "u_oidc_subject v = u_oidc_subject u" "u_email v = u_email u" "u_role v = (if u_email u = email then role else u_role u)"
  using assms that [of "if u_email u = email then u\<lparr>u_role := role\<rparr> else u"]
  by (auto simp: set_user_role_def update_rows_def)

lemma upsert_seen_groups_ok: "db_ok db \<Longrightarrow> db_ok (upsert_seen_groups pf now groups db)"
  using db_ok_step_rest(8) by (metis apply_op.simps(21))

lemma upsert_seen_groups_users [simp]:
  "db_users (upsert_seen_groups pf now groups db) = db_users db"
  "db_mappings (upsert_seen_groups pf now groups db) = db_mappings db"
  by (simp_all add: upsert_seen_groups_def)

lemma set_user_role_ok: "db_ok db \<Longrightarrow> db_ok (fst (set_user_role email role db))"
  using db_ok_step_users(4) by (metis apply_op.simps(10))

definition claimed_email :: "oidc_claims \<Rightarrow> str" where
  "claimed_email cl = (case cl_email cl of None \<Rightarrow> cl_subject cl | Some e \<Rightarrow> e)"

lemma resolve_role_seen:
  "resolve_role_from_groups groups (upsert_seen_groups pf now gs db) = resolve_role_from_groups groups db"
  by (simp add: resolve_role_from_groups_def list_group_mappings_def)

lemma callback_Logged_in:
  assumes ok: "db_ok db" and c: "callback pf now cfg cl hs token db = (Logged_in tok role nxt, db')"
  obtains u where "u \<in> set (db_users db')" "\<not> u_disabled u" "u_oidc_subject u = Some (cl_subject cl)"
    "eq_ignore_ascii_case (u_email u) (claimed_email cl)" "tok = token" "db_ok db'"
    "now div 10 ^ 9 + oc_session_ttl_secs cfg \<le> SQLITE_DATETIME_MAX"
    "\<lparr>s_token_hash = pf_hash pf token, s_user_id = u_id u, s_created_at = datetime_now pf now,
      s_expires_at = pf_datetime pf (now div 10 ^ 9 + oc_session_ttl_secs cfg)\<rparr> \<in> set (db_sessions db')"
    "\<forall>r. resolve_role_from_groups (cl_groups cl) db = Some r \<longrightarrow> role = r"
    "\<forall>w\<in>set (db_users db). u_id w = u_id u \<longrightarrow> u_email w = u_email u \<and>
       u_role u = (case resolve_role_from_groups (cl_groups cl) db of
         Some r \<Rightarrow> if u_email w = claimed_email cl then r else u_role w | None \<Rightarrow> u_role w)"
proof -
  define db1 where "db1 = (if cl_groups cl = [] then db else upsert_seen_groups pf now (cl_groups cl) db)"
  define mapped where "mapped = resolve_role_from_groups (cl_groups cl) db"
  have db1: "db_ok db1" "db_users db1 = db_users db" "resolve_role_from_groups (cl_groups cl) db1 = mapped"
    by (simp_all add: db1_def mapped_def ok upsert_seen_groups_ok resolve_role_seen)
  define up where "up = upsert_user pf now (claimed_email cl) (case cl_name cl of None \<Rightarrow> [] | Some n \<Rightarrow> n)
      (Some (cl_subject cl)) (oc_default_role cfg) (cl_groups cl) (oc_auto_create_users cfg) db1"
  have "\<not> refuse_unverified_email (cl_email cl \<noteq> None) (cl_email_verified cl) (oc_allow_unverified_email cfg)"
    using c by (auto simp: callback_def)
  note c' = c [unfolded callback_def Let_def claimed_email_def [symmetric] db1_def [symmetric] db1(3) up_def [symmetric]
      if_not_P [OF this]]
  obtain db2 l where l: "up = Inr (db2, l)" using c' by (cases up) auto
  obtain u where u: "l = Login_User u" using c' l by (cases l) auto
  note c'' = c' [unfolded l u sum.case prod.case oidc_login.case]
  have rest: "\<not> u_disabled u" using c'' by (cases mapped) (auto split: if_splits)
  have rest2: "create_auth_session pf now token (u_id u) (oc_session_ttl_secs cfg)
         (case mapped of Some r \<Rightarrow> fst (set_user_role (claimed_email cl) r db2) | None \<Rightarrow> db2) = Inr (db', tok) \<and>
      role = (case mapped of Some r \<Rightarrow> r | None \<Rightarrow> u_role u)"
    using c'' rest by (cases mapped) (auto split: sum.splits)
  have up: "upsert_user pf now (claimed_email cl) (case cl_name cl of None \<Rightarrow> [] | Some n \<Rightarrow> n)
      (Some (cl_subject cl)) (oc_default_role cfg) (cl_groups cl) (oc_auto_create_users cfg) db1 = Inr (db2, Login_User u)"
    using l u by (simp add: up_def)
  note row = upsert_user_row [OF db1(1) up]
  define db3 where "db3 = (case mapped of Some r \<Rightarrow> fst (set_user_role (claimed_email cl) r db2) | None \<Rightarrow> db2)"
  have ok3: "db_ok db3" using row by (auto simp: db3_def set_user_role_ok split: option.split)
  obtain v where v: "v \<in> set (db_users db3)" "u_id v = u_id u" "u_disabled v = u_disabled u"
      "u_oidc_subject v = u_oidc_subject u" "u_email v = u_email u"
      "u_role v = (case mapped of Some r \<Rightarrow> if u_email u = claimed_email cl then r else u_role u | None \<Rightarrow> u_role u)"
    using row set_user_role_row [of db2 u "claimed_email cl"] by (cases mapped) (auto simp: db3_def)
  have created: "db' = db3\<lparr>db_sessions := db_sessions db3 @
      [\<lparr>s_token_hash = pf_hash pf token, s_user_id = u_id u, s_created_at = datetime_now pf now,
        s_expires_at = pf_datetime pf (now div 10 ^ 9 + oc_session_ttl_secs cfg)\<rparr>]\<rparr>" "tok = token"
      "now div 10 ^ 9 + oc_session_ttl_secs cfg \<le> SQLITE_DATETIME_MAX"
    using rest2 by (auto simp: create_auth_session_def db3_def [symmetric] Let_def split: if_splits)
  have ok': "db_ok db'" using accounts.step_inv [OF ok3, of pf "Op_create_auth_session now token (u_id u) (oc_session_ttl_secs cfg)"]
      rest2 by (simp add: db3_def)
  show ?thesis
    by (rule that [of v]) (use v row rest rest2 created ok' db1(2) in \<open>auto simp: mapped_def split: option.splits\<close>)
qed

text \<open>
  A login ends in a session that works. When the callback reports success for verified claims,
  the token in the cookie authenticates an enabled user who is bound to the provider's subject
  and whose email is the claimed one up to case, at every time before the session's
  lifetime has passed (SQLite's texts of later times being greater).
\<close>

theorem login_session_valid:
  assumes "callback pf now cfg cl hs token (db_run pf ops init_db) = (Logged_in tok role nxt, db')"
    and mono: "\<forall>a b. a < b \<longrightarrow> b \<le> SQLITE_DATETIME_MAX \<longrightarrow> pf_datetime pf a < pf_datetime pf b"
  shows "\<exists>u. u_oidc_subject u = Some (cl_subject cl) \<and> \<not> u_disabled u \<and>
    eq_ignore_ascii_case (u_email u) (claimed_email cl) \<and>
    (\<forall>later. later div 10 ^ 9 < now div 10 ^ 9 + oc_session_ttl_secs cfg \<longrightarrow>
       validate_auth_session pf later tok db' = Inr u)"
proof -
  have ok: "db_ok (db_run pf ops init_db)" by (simp add: db_run_ok init_db_ok)
  obtain u where u: "u \<in> set (db_users db')" "\<not> u_disabled u" "u_oidc_subject u = Some (cl_subject cl)"
      "eq_ignore_ascii_case (u_email u) (claimed_email cl)" "tok = token" "db_ok db'"
      "now div 10 ^ 9 + oc_session_ttl_secs cfg \<le> SQLITE_DATETIME_MAX"
      "\<lparr>s_token_hash = pf_hash pf token, s_user_id = u_id u, s_created_at = datetime_now pf now,
        s_expires_at = pf_datetime pf (now div 10 ^ 9 + oc_session_ttl_secs cfg)\<rparr> \<in> set (db_sessions db')"
    by (rule callback_Logged_in [OF ok assms(1)])
  have "validate_auth_session pf later tok db' = Inr u"
    if "later div 10 ^ 9 < now div 10 ^ 9 + oc_session_ttl_secs cfg" for later
    unfolding u(5) by (rule validate_auth_session_complete [OF u(6) u(1,2) u(8)])
      (use that mono u(7) in \<open>simp_all add: datetime_now_def\<close>)
  then show ?thesis using u(2-4) by blast
qed

text \<open>
  The role of a group mapping takes effect only if the provider spells the email as it is
  stored. The login finds the user without regard to case, but the role is set by the exact
  email: for a user stored under another spelling the callback reports the mapped role and
  leaves the old one, so a demotion through a group mapping never takes hold.
\<close>

theorem mapped_role_needs_exact_email:
  assumes "callback pf now cfg cl hs token (db_run pf ops init_db) = (Logged_in tok role nxt, db')"
    and "resolve_role_from_groups (cl_groups cl) (db_run pf ops init_db) = Some r"
  shows "role = r \<and> (\<exists>u\<in>set (db_users db'). u_oidc_subject u = Some (cl_subject cl) \<and>
    eq_ignore_ascii_case (u_email u) (claimed_email cl) \<and>
    (\<forall>w\<in>set (db_users (db_run pf ops init_db)). u_id w = u_id u \<longrightarrow>
       u_role u = (if u_email w = claimed_email cl then r else u_role w)))"
proof -
  have ok: "db_ok (db_run pf ops init_db)" by (simp add: db_run_ok init_db_ok)
  show ?thesis
    by (rule callback_Logged_in [OF ok assms(1)]) (use assms(2) in auto)
qed

text \<open>Ann is an administrator, stored in lower case; her group is now mapped to the role of a viewer.\<close>

definition demo_demotion :: "db_op list" where
  "demo_demotion = [Op_upsert_user 0 ''ann@x'' ''Ann'' (Some ''sub-ann'') ''admin'' [] True,
     Op_create_group_mapping 0 ''staff'' ''viewer'']"

definition demo_claims :: oidc_claims where
  "demo_claims = \<lparr>cl_subject = ''sub-ann'', cl_email = Some ''Ann@x'', cl_email_verified = None, cl_name = None,
     cl_groups = [''staff'']\<rparr>"

definition demo_oidc :: oidc_config where
  "demo_oidc = \<lparr>oc_default_role = ''viewer'', oc_auto_create_users = True, oc_allow_unverified_email = False,
     oc_session_ttl_secs = 60\<rparr>"

lemma demo_demoted_db:
  "db_run demo_platform demo_demotion init_db = init_db\<lparr>
     db_users := [demo_ann\<lparr>u_role := ''admin'', u_oidc_groups := []\<rparr>], db_users_seq := 1,
     db_mappings := [\<lparr>g_id = 1, g_oidc_group = ''staff'', g_role = ''viewer'', g_created_at = [char_of (0::nat)]\<rparr>],
     db_mappings_seq := 1\<rparr>"
  by (simp add: demo_demotion_def db_run_def init_db_def demo_ann_def upsert_user_def find_user_for_email_def insert_user_def
      user_by_id_def query_row_def create_group_mapping_def demo_platform_def datetime_now_def Let_def)

lemma demo_trim_staff: "trim ''staff'' = ''staff''"
  by (simp add: trim_def strip_all.simps white_spaces_def)

lemma demo_emails: "eq_ignore_ascii_case ''ann@x'' ''Ann@x''" "''ann@x'' \<noteq> ''Ann@x''"
  by code_simp+

lemma demo_mapped_role:
  "resolve_role_from_groups [''staff''] (db_run demo_platform demo_demotion init_db) = Some ''viewer''"
  unfolding demo_demoted_db
  by (simp add: resolve_role_from_groups_def list_group_mappings_def best_role_def role_level_def)

lemma demo_callback:
  "\<exists>db'. callback demo_platform 0 demo_oidc demo_claims [] ''tok'' (db_run demo_platform demo_demotion init_db) =
     (Logged_in ''tok'' ''viewer'' ''/addressbook.html'', db') \<and>
     map u_id (db_users db') = [1] \<and> map u_role (db_users db') = [''admin'']"
  unfolding demo_demoted_db
  by (simp add: callback_def demo_claims_def demo_oidc_def refuse_unverified_email_def resolve_role_from_groups_def
      list_group_mappings_def best_role_def role_level_def upsert_seen_groups_def see_group_def demo_trim_staff
      upsert_user_def find_user_for_email_def demo_emails
      demo_ann_def update_rows_def user_by_id_def query_row_def set_user_role_def create_auth_session_def
      SQLITE_DATETIME_MAX_def extract_cookie_def get_header_def init_db_def Let_def)

theorem mapped_role_needs_exact_email_witness:
  "\<exists>db' u. callback demo_platform 0 demo_oidc demo_claims [] ''tok'' (db_run demo_platform demo_demotion init_db) =
     (Logged_in ''tok'' ''viewer'' ''/addressbook.html'', db') \<and>
     u \<in> set (db_users db') \<and> u_oidc_subject u = Some ''sub-ann'' \<and> u_role u = ''admin''"
proof -
  obtain db' where c: "callback demo_platform 0 demo_oidc demo_claims [] ''tok'' (db_run demo_platform demo_demotion init_db) =
      (Logged_in ''tok'' ''viewer'' ''/addressbook.html'', db')" and i: "map u_id (db_users db') = [1]"
    using demo_callback by (elim exE conjE)
  have "resolve_role_from_groups (cl_groups demo_claims) (db_run demo_platform demo_demotion init_db) = Some ''viewer''"
    using demo_mapped_role by (simp add: demo_claims_def)
  from mapped_role_needs_exact_email [OF c this]
  obtain u where u: "u \<in> set (db_users db')" "u_oidc_subject u = Some (cl_subject demo_claims)"
    "\<forall>w\<in>set (db_users (db_run demo_platform demo_demotion init_db)). u_id w = u_id u \<longrightarrow>
       u_role u = (if u_email w = claimed_email demo_claims then ''viewer'' else u_role w)" by blast
  have "u_id u = 1" using u(1) i by (auto simp: Cons_eq_map_conv map_eq_Cons_conv)
  then have "u_role u = ''admin''"
    using u(3) demo_emails(2) by (simp add: demo_demoted_db demo_ann_def claimed_email_def demo_claims_def)
  then show ?thesis using c u(1,2) by (intro exI [of _ db'] exI [of _ u]) (simp add: demo_claims_def)
qed

text \<open>A platform whose texts of times are unary, so that later times have greater texts.\<close>

definition unary_platform :: platform where
  "unary_platform = demo_platform\<lparr>pf_datetime := \<lambda>n. replicate n CHR ''1''\<rparr>"

lemma replicate_less: "a < b \<Longrightarrow> replicate a (c::char) < replicate b c"
  by (induction a arbitrary: b) (auto simp: gr0_conv_Suc Suc_less_eq2)

lemma unary_callback:
  "\<exists>db'. callback unary_platform 0 demo_oidc demo_claims [] ''tok'' (db_run unary_platform [] init_db) =
     (Logged_in ''tok'' ''viewer'' ''/addressbook.html'', db')"
  by (simp add: callback_def demo_claims_def demo_oidc_def refuse_unverified_email_def resolve_role_from_groups_def
      list_group_mappings_def best_role_def role_level_def upsert_seen_groups_def see_group_def demo_trim_staff
      upsert_user_def find_user_for_email_def insert_user_def db_run_def
      update_rows_def user_by_id_def query_row_def set_user_role_def create_auth_session_def
      SQLITE_DATETIME_MAX_def extract_cookie_def get_header_def init_db_def Let_def)

theorem login_session_valid_witness:
  "\<exists>db' u. callback unary_platform 0 demo_oidc demo_claims [] ''tok'' (db_run unary_platform [] init_db) =
     (Logged_in ''tok'' ''viewer'' ''/addressbook.html'', db') \<and>
     u_oidc_subject u = Some ''sub-ann'' \<and> validate_auth_session unary_platform (59 * 10 ^ 9) ''tok'' db' = Inr u"
proof -
  obtain db' where c: "callback unary_platform 0 demo_oidc demo_claims [] ''tok'' (db_run unary_platform [] init_db) =
      (Logged_in ''tok'' ''viewer'' ''/addressbook.html'', db')"
    using unary_callback by (elim exE)
  have "\<forall>a b. a < b \<longrightarrow> b \<le> SQLITE_DATETIME_MAX \<longrightarrow> pf_datetime unary_platform a < pf_datetime unary_platform b"
    by (simp add: unary_platform_def replicate_less)
  from login_session_valid [OF c this]
  obtain u where "u_oidc_subject u = Some (cl_subject demo_claims)"
    "\<forall>later. later div 10 ^ 9 < 0 div 10 ^ 9 + oc_session_ttl_secs demo_oidc \<longrightarrow>
       validate_auth_session unary_platform later ''tok'' db' = Inr u" by blast
  then show ?thesis using c
    by (intro exI [of _ db'] exI [of _ u]) (simp add: demo_claims_def demo_oidc_def)
qed

end
