(* ===== verification/Sessions.thy ===== *)
theory Sessions
  imports Session_Create Auth
begin

text \<open>
  The session manager of \<^verbatim>\<open>src/src/session.rs\<close> after creation: lookup, reuse, the owner's stream,
  viewers, share and shadow tokens, endings and the two reapers; and the admission of a
  WebSocket in \<^verbatim>\<open>src/src/websocket.rs\<close> (\<open>ws_handler\<close>, the start and the end of \<open>handle_ws\<close>).

  The \<open>HashMap\<close> of sessions is an association list in the order of its iteration. A cancelled
  token is remembered by its number, because the proxies of a session hold clones of it that
  outlive the session. \<open>DateTime<Utc>\<close> is a number of nanoseconds.
\<close>

section \<open>The manager\<close>

record manager =
  mg_sessions :: "(str \<times> session) list"
  mg_cancelled :: "nat set"

definition manager_new :: manager where
  "manager_new = \<lparr>mg_sessions = [], mg_cancelled = {}\<rparr>"

definition get_sess :: "str \<Rightarrow> manager \<Rightarrow> session option" where
  "get_sess sid mg = map_of (mg_sessions mg) sid"

definition with_session :: "str \<Rightarrow> (session \<Rightarrow> session) \<Rightarrow> manager \<Rightarrow> manager" where
  "with_session sid f mg = mg\<lparr>mg_sessions := map (\<lambda>(k, s). (k, if k = sid then f s else s)) (mg_sessions mg)\<rparr>"

definition insert_session :: "session \<Rightarrow> manager \<Rightarrow> manager" where
  "insert_session s mg = mg\<lparr>mg_sessions := (se_id s, s) # mg_sessions mg\<rparr>"

record session_info =
  si_session_id :: str
  si_session_type :: session_type
  si_status :: session_status
  si_created_at :: int
  si_client_url :: str
  si_share_url :: "str option"
  si_share_url_readonly :: "str option"
  si_ws_url :: str
  si_hostname :: str
  si_username :: str
  si_active_connections :: nat
  si_created_by :: str
  si_banner :: "str option"
  si_url :: "str option"
  si_address_book_entry :: "str option"
  si_address_book_folder :: "str option"
  si_entry_display_name :: "str option"
  si_thumbnail_url :: "str option"
  si_display_scale :: "rat option"
  si_fullscreen_on_connect :: bool
  si_h264_no_combine :: bool
  si_autohide_side_tabs :: bool

definition info :: "session \<Rightarrow> session_info" where
  "info s = \<lparr>si_session_id = se_id s, si_session_type = se_session_type s, si_status = se_status s,
     si_created_at = se_created_at s, si_client_url = ''/client/'' @ se_id s,
     si_share_url = (if se_share_allowed s then Some (''/client/'' @ se_id s @ ''?token='' @ se_share_token s) else None),
     si_share_url_readonly =
       (if se_share_allowed s then Some (''/client/'' @ se_id s @ ''?token='' @ se_share_token_ro s) else None),
     si_ws_url = ''/ws/'' @ se_id s, si_hostname = se_hostname s, si_username = se_username s,
     si_active_connections = se_active_connections s, si_created_by = se_created_by s, si_banner = se_banner s,
     si_url = se_url s, si_address_book_entry = se_address_book_entry s,
     si_address_book_folder = se_address_book_folder s, si_entry_display_name = se_entry_display_name s,
     si_thumbnail_url = Some (''/api/sessions/'' @ se_id s @ ''/thumbnail''), si_display_scale = se_display_scale s,
     si_fullscreen_on_connect = se_fullscreen_on_connect s, si_h264_no_combine = (\<not> combines (se_h264_chroma444 s)),
     si_autohide_side_tabs = se_autohide_side_tabs s\<rparr>"

definition list_sessions :: "manager \<Rightarrow> session_info list" where
  "list_sessions mg = map (info \<circ> snd) (mg_sessions mg)"

definition get_session :: "str \<Rightarrow> manager \<Rightarrow> session_info option" where
  "get_session sid mg = map_option info (get_sess sid mg)"

text \<open>\<open>TimeDelta::num_seconds\<close>, which truncates towards zero.\<close>

definition num_seconds :: "int \<Rightarrow> int" where
  "num_seconds d = (if 0 \<le> d then d div 10 ^ 9 else - ((- d) div 10 ^ 9))"

definition REUSABLE_PENDING_SECS :: int where "REUSABLE_PENDING_SECS = 15"

definition find_reusable_session :: "int \<Rightarrow> str \<Rightarrow> str \<Rightarrow> str \<Rightarrow> manager \<Rightarrow> session_info option" where
  "find_reusable_session now created_by entry_key fingerprint mg =
     map_option info (find (\<lambda>s. se_status s = Pending \<and> se_guacd_stream s \<noteq> None \<and> se_created_by s = created_by \<and>
       se_address_book_entry s = Some entry_key \<and> se_reuse_fingerprint s = fingerprint \<and>
       num_seconds (now - se_created_at s) < REUSABLE_PENDING_SECS) (map snd (mg_sessions mg)))"

section \<open>The owner and the viewers\<close>

text \<open>\<open>dialled\<close> is the socket to guacd, used by a deferred connection.\<close>

definition take_guacd_stream :: "guacd_error + link \<Rightarrow> str \<Rightarrow> manager \<Rightarrow> (link \<times> nat) option \<times> manager" where
  "take_guacd_stream dialled sid mg =
     (case get_sess sid mg of
        None \<Rightarrow> (None, mg)
      | Some s \<Rightarrow>
          if se_status s \<noteq> Pending then (None, mg)
          else
            (case (case se_deferred_params s of
                     None \<Rightarrow> Inr s
                   | Some params \<Rightarrow>
                       (case connect_and_handshake dialled params of
                          Inr (stream, connection_id) \<Rightarrow>
                            Inr (s\<lparr>se_deferred_params := None, se_guacd_stream := Some stream,
                                   se_connection_id := connection_id\<rparr>)
                        | Inl e \<Rightarrow> Inl (s\<lparr>se_deferred_params := None, se_status := Error\<rparr>))) of
               Inl s' \<Rightarrow> (None, with_session sid (\<lambda>_. s') mg)
             | Inr s' \<Rightarrow>
                 (case se_guacd_stream s' of
                    None \<Rightarrow> (None, with_session sid (\<lambda>_. s') mg)
                  | Some stream \<Rightarrow>
                      (Some (stream, se_cancel s'),
                       with_session sid (\<lambda>_. s'\<lparr>se_guacd_stream := None, se_status := Active,
                         se_active_connections := se_active_connections s' + 1\<rparr>) mg))))"

text \<open>The two halves of \<open>join_session\<close>, around the handshake with guacd, during which no lock is held.\<close>

definition join_begin :: "str \<Rightarrow> manager \<Rightarrow> session_error + str \<times> nat \<times> nat \<times> nat" where
  "join_begin sid mg =
     (case get_sess sid mg of
        None \<Rightarrow> Inl NotFound
      | Some s \<Rightarrow>
          if se_status s \<noteq> Active then Inl NotActive
          else Inr (se_connection_id s, se_width s, se_height s, se_cancel s))"

definition join_end :: "str \<Rightarrow> manager \<Rightarrow> manager" where
  "join_end sid mg = with_session sid (\<lambda>s. s\<lparr>se_active_connections := se_active_connections s + 1\<rparr>) mg"

definition disconnect_viewer :: "str \<Rightarrow> manager \<Rightarrow> manager" where
  "disconnect_viewer sid mg = with_session sid (\<lambda>s. s\<lparr>se_active_connections := se_active_connections s - 1\<rparr>) mg"

section \<open>Tokens\<close>

datatype share_token_validation = Invalid | Owner | OwnerReadOnly | Shadow (issued_by: str) (shadow_read_only: bool)

fun is_valid :: "share_token_validation \<Rightarrow> bool" where
  "is_valid Invalid = False"
| "is_valid _ = True"

fun is_read_only :: "share_token_validation \<Rightarrow> bool" where
  "is_read_only OwnerReadOnly = True"
| "is_read_only (Shadow _ read_only) = read_only"
| "is_read_only Owner = False"
| "is_read_only Invalid = False"

definition check_share_token_match ::
  "platform \<Rightarrow> str \<Rightarrow> str \<Rightarrow> shadow_token list \<Rightarrow> str \<Rightarrow> int \<Rightarrow> share_token_validation" where
  "check_share_token_match pf share_token share_token_ro shadow_tokens provided now =
     (if pf_hash pf share_token = pf_hash pf provided then Owner
      else if pf_hash pf share_token_ro = pf_hash pf provided then OwnerReadOnly
      else
        (case find (\<lambda>t. now < st_expires_at t \<and> st_token_hash t = pf_hash pf provided) shadow_tokens of
           Some t \<Rightarrow> Shadow (st_issued_by t) (st_read_only t)
         | None \<Rightarrow> Invalid))"

definition validate_share_token :: "platform \<Rightarrow> int \<Rightarrow> str \<Rightarrow> str \<Rightarrow> manager \<Rightarrow> share_token_validation" where
  "validate_share_token pf now sid token mg =
     (case get_sess sid mg of
        None \<Rightarrow> Invalid
      | Some s \<Rightarrow> check_share_token_match pf (se_share_token s) (se_share_token_ro s) (se_shadow_tokens s) token now)"

definition SHADOW_TTL :: int where "SHADOW_TTL = 10 * 60 * 10 ^ 9"

definition mint_shadow_token ::
  "platform \<Rightarrow> int \<Rightarrow> str \<Rightarrow> str \<Rightarrow> str \<Rightarrow> bool \<Rightarrow> manager \<Rightarrow> (session_error + str \<times> int) \<times> manager" where
  "mint_shadow_token pf now raw sid issuer read_only mg =
     (case get_sess sid mg of
        None \<Rightarrow> (Inl NotFound, mg)
      | Some s \<Rightarrow>
          if se_status s \<noteq> Active then (Inl NotActive, mg)
          else
            (Inr (raw, now + SHADOW_TTL),
             with_session sid (\<lambda>s. s\<lparr>se_shadow_tokens := filter (\<lambda>t. now < st_expires_at t) (se_shadow_tokens s) @
               [\<lparr>st_token_hash = pf_hash pf raw, st_issued_by = issuer, st_expires_at = now + SHADOW_TTL,
                 st_read_only = read_only\<rparr>]\<rparr>) mg))"

section \<open>Endings\<close>

datatype cleanup_effect =
  Abort_script nat | Kill_browser browser_session | Remove_dir str nat | Shutdown_tunnels "nat list"

definition cleanup_browser :: "bool \<Rightarrow> nat \<Rightarrow> session \<Rightarrow> session \<times> cleanup_effect list" where
  "cleanup_browser cleanup_on_close retention_secs s =
     (s\<lparr>se_login_script_handle := None, se_browser_session := None, se_drive_path := None, se_tunnels := []\<rparr>,
      (case se_login_script_handle s of None \<Rightarrow> [] | Some h \<Rightarrow> [Abort_script h]) @
      (case se_browser_session s of None \<Rightarrow> [] | Some b \<Rightarrow> [Kill_browser b]) @
      (case se_drive_path s of None \<Rightarrow> [] | Some p \<Rightarrow> if cleanup_on_close then [Remove_dir p retention_secs] else []) @
      [Shutdown_tunnels (se_tunnels s)])"

abbreviation cleaned :: "config \<Rightarrow> session \<Rightarrow> session" where
  "cleaned cf s \<equiv> fst (cleanup_browser (fst (drive_cleanup_settings (cf_drive cf))) (snd (drive_cleanup_settings (cf_drive cf))) s)"

definition complete_session :: "config \<Rightarrow> str \<Rightarrow> manager \<Rightarrow> manager" where
  "complete_session cf sid mg =
     with_session sid (\<lambda>s. if se_status s = Active then cleaned cf (s\<lparr>se_status := Completed\<rparr>) else s) mg"

definition error_session :: "config \<Rightarrow> str \<Rightarrow> manager \<Rightarrow> manager" where
  "error_session cf sid mg =
     with_session sid (\<lambda>s. cleaned cf (s\<lparr>se_status := Error, se_guacd_stream := None\<rparr>)) mg"

text \<open>The task spawned at creation, when the pending timeout has passed.\<close>

definition expire_pending :: "config \<Rightarrow> str \<Rightarrow> manager \<Rightarrow> manager" where
  "expire_pending cf sid mg =
     with_session sid (\<lambda>s. if se_status s = Pending
       then cleaned cf (s\<lparr>se_status := Expired, se_guacd_stream := None\<rparr>) else s) mg"

definition delete_session :: "str \<Rightarrow> manager \<Rightarrow> bool \<times> manager" where
  "delete_session sid mg =
     (case get_sess sid mg of
        None \<Rightarrow> (False, mg)
      | Some s \<Rightarrow>
          (True, mg\<lparr>mg_sessions := filter (\<lambda>(k, _). k \<noteq> sid) (mg_sessions mg),
                    mg_cancelled := insert (se_cancel s) (mg_cancelled mg)\<rparr>))"

text \<open>\<open>to_std().unwrap_or_default()\<close>: a negative age counts as zero.\<close>

definition older_than :: "int \<Rightarrow> nat \<Rightarrow> session \<Rightarrow> bool" where
  "older_than now secs s \<longleftrightarrow> int secs * 10 ^ 9 < max 0 (now - se_created_at s)"

definition reap_expired_sessions :: "config \<Rightarrow> int \<Rightarrow> manager \<Rightarrow> manager \<times> nat" where
  "reap_expired_sessions cf now mg =
     (let to_delete = map fst (filter (\<lambda>(_, s). (se_status s = Active \<or> se_status s = Pending) \<and>
            older_than now (cf_session_max_duration_secs cf) s) (mg_sessions mg))
      in (fold (\<lambda>sid mg. snd (delete_session sid mg)) to_delete mg, length to_delete))"

definition reap_completed_sessions :: "config \<Rightarrow> int \<Rightarrow> manager \<Rightarrow> manager \<times> nat" where
  "reap_completed_sessions cf now mg =
     (let to_remove = map fst (filter (\<lambda>(_, s). (se_status s = Completed \<or> se_status s = Error \<or> se_status s = Expired) \<and>
            older_than now (cf_session_cleanup_delay_secs cf) s) (mg_sessions mg))
      in (mg\<lparr>mg_sessions := filter (\<lambda>(k, _). k \<notin> set to_remove) (mg_sessions mg)\<rparr>, length to_remove))"

section \<open>Questions\<close>

definition is_session_pending :: "str \<Rightarrow> manager \<Rightarrow> bool" where
  "is_session_pending sid mg = (case get_sess sid mg of None \<Rightarrow> False | Some s \<Rightarrow> se_status s = Pending)"

definition get_session_creator :: "str \<Rightarrow> manager \<Rightarrow> str option" where
  "get_session_creator sid mg = map_option se_created_by (get_sess sid mg)"

definition get_vdi_info :: "str \<Rightarrow> manager \<Rightarrow> (session_type \<times> str option \<times> str option) option" where
  "get_vdi_info sid mg = map_option (\<lambda>s. (se_session_type s, se_container_id s, se_container_name s)) (get_sess sid mg)"

text \<open>The container to stop, if there is a driver.\<close>

definition stop_vdi_container :: "str \<Rightarrow> manager \<Rightarrow> str option \<times> manager" where
  "stop_vdi_container sid mg =
     (Option.bind (get_sess sid mg) se_container_id, with_session sid (\<lambda>s. s\<lparr>se_container_id := None\<rparr>) mg)"

definition is_recording_enabled :: "str \<Rightarrow> manager \<Rightarrow> bool" where
  "is_recording_enabled sid mg = (case get_sess sid mg of None \<Rightarrow> False | Some s \<Rightarrow> se_recording_enabled s)"

definition h264_drop_aux :: "str \<Rightarrow> manager \<Rightarrow> bool option" where
  "h264_drop_aux sid mg = Option.bind (get_sess sid mg) (\<lambda>s. aux_drop_setting (se_h264_chroma444 s))"

definition get_recording_meta :: "str \<Rightarrow> manager \<Rightarrow> (str option \<times> nat option) option" where
  "get_recording_meta sid mg = map_option (\<lambda>s. (se_address_book_entry s, se_max_recordings s)) (get_sess sid mg)"

definition has_active_vdi_session :: "str \<Rightarrow> manager \<Rightarrow> bool" where
  "has_active_vdi_session container_id mg =
     list_ex (\<lambda>(_, s). se_container_id s = Some container_id \<and> (se_status s = Active \<or> se_status s = Pending)) (mg_sessions mg)"

section \<open>A WebSocket attaches and leaves\<close>

datatype ws_outcome = Ws_refused str | Ws_upgrade bool

definition ws_handler :: "headers \<Rightarrow> auth_identity option \<Rightarrow> str \<Rightarrow> manager \<Rightarrow> ws_outcome" where
  "ws_handler hs identity sid mg =
     (if (case get_header ''origin'' hs of
            None \<Rightarrow> False
          | Some origin \<Rightarrow> \<not> origin_host_matches origin (or_default (get_header ''host'' hs)))
      then Ws_refused ''cross-origin WebSocket request rejected''
      else
        (let is_owner = is_session_pending sid mg in
         if is_owner then
           (case identity of
              Some who \<Rightarrow>
                if has_role who ''operator'' \<and> is_session_owner who (get_session_creator sid mg) then Ws_upgrade True
                else Ws_refused ''only the user who created this session can connect to it before it starts''
            | None \<Rightarrow> Ws_refused ''authentication required to connect as session owner'')
         else Ws_upgrade False))"

text \<open>How the proxy of a socket ended, and how long it ran, in seconds.\<close>

datatype proxy_result = GuacdEnded | BrowserEnded | Cancelled

definition mark_error :: "proxy_result \<Rightarrow> nat \<Rightarrow> bool" where
  "mark_error result elapsed_secs \<longleftrightarrow> result = GuacdEnded \<and> elapsed_secs < 5"

text \<open>
  The rest of \<open>handle_ws\<close> runs in steps between which other requests run. A socket that has been
  upgraded takes the owner's stream or, failing that, shows its token, joins and waits for
  guacd; at the end it leaves, looks whether it was the last and ends the session.
\<close>

datatype socket_state =
  Upgraded bool "str option"
| Unowned "str option"
| Validated bool
| Joining bool "str \<times> nat \<times> nat" nat
| Attached bool nat
| Leaving bool
| Last_out
| Closed

record socket =
  so_session :: str
  so_identity :: "auth_identity option"
  so_state :: socket_state

datatype grant = Took_stream str "auth_identity option" | Joined str bool

record gateway =
  gw_manager :: manager
  gw_sockets :: "socket list"
  gw_grants :: "grant list"
  gw_created :: "str \<rightharpoonup> str"
  gw_tokens :: "nat \<rightharpoonup> str"

definition gateway_new :: gateway where
  "gateway_new = \<lparr>gw_manager = manager_new, gw_sockets = [], gw_grants = [], gw_created = Map.empty, gw_tokens = Map.empty\<rparr>"

definition moves :: "nat \<Rightarrow> socket_state \<Rightarrow> gateway \<Rightarrow> gateway" where
  "moves k st gw = gw\<lparr>gw_sockets := (gw_sockets gw)[k := (gw_sockets gw ! k)\<lparr>so_state := st\<rparr>]\<rparr>"

abbreviation in_state :: "nat \<Rightarrow> str \<Rightarrow> socket_state \<Rightarrow> gateway \<Rightarrow> bool" where
  "in_state k sid st gw \<equiv> k < length (gw_sockets gw) \<and> so_session (gw_sockets gw ! k) = sid \<and> so_state (gw_sockets gw ! k) = st"

text \<open>
  A creation reads the sessions \<open>seen\<close> when it starts and enters its session when it ends; other
  requests may run in between. Ids and cancellation tokens of new sessions are fresh (random).
\<close>

inductive gw_step :: "platform \<Rightarrow> config \<Rightarrow> gateway \<Rightarrow> gateway \<Rightarrow> bool" for pf cf where
  create: "create_session pf sv cf req who seen = Inr s \<Longrightarrow> gw_created gw (se_id s) = None \<Longrightarrow>
    gw_tokens gw (se_cancel s) = None \<Longrightarrow>
    gw_step pf cf gw (gw\<lparr>gw_manager := insert_session s (gw_manager gw),
      gw_created := (gw_created gw)(se_id s \<mapsto> who), gw_tokens := (gw_tokens gw)(se_cancel s \<mapsto> se_id s)\<rparr>)"
| upgrade: "ws_handler hs identity sid (gw_manager gw) = Ws_upgrade owner \<Longrightarrow>
    gw_step pf cf gw (gw\<lparr>gw_sockets := gw_sockets gw @
      [\<lparr>so_session = sid, so_identity = identity, so_state = Upgraded owner token\<rparr>]\<rparr>)"
| take_owner: "in_state k sid (Upgraded True token) gw \<Longrightarrow>
    take_guacd_stream dialled sid (gw_manager gw) = (Some (stream, cancel), mg) \<Longrightarrow>
    gw_step pf cf gw (moves k (Attached True cancel) (gw\<lparr>gw_manager := mg,
      gw_grants := Took_stream sid (so_identity (gw_sockets gw ! k)) # gw_grants gw\<rparr>))"
| take_missed: "in_state k sid (Upgraded True token) gw \<Longrightarrow>
    take_guacd_stream dialled sid (gw_manager gw) = (None, mg) \<Longrightarrow>
    gw_step pf cf gw (moves k (Unowned token) (gw\<lparr>gw_manager := mg\<rparr>))"
| not_owner: "in_state k sid (Upgraded False token) gw \<Longrightarrow> gw_step pf cf gw (moves k (Unowned token) gw)"
| validate: "in_state k sid (Unowned (Some token)) gw \<Longrightarrow>
    validate_share_token pf now sid token (gw_manager gw) = v \<Longrightarrow> is_valid v \<Longrightarrow>
    gw_step pf cf gw (moves k (Validated (is_read_only v)) gw)"
| reject: "in_state k sid (Unowned token) gw \<Longrightarrow>
    (case token of None \<Rightarrow> True | Some t \<Rightarrow> \<not> is_valid (validate_share_token pf now sid t (gw_manager gw))) \<Longrightarrow>
    gw_step pf cf gw (moves k Closed gw)"
| joining: "in_state k sid (Validated ro) gw \<Longrightarrow> join_begin sid (gw_manager gw) = Inr (cid, width, height, cancel) \<Longrightarrow>
    gw_step pf cf gw (moves k (Joining ro (cid, width, height) cancel) gw)"
| join_refused: "in_state k sid (Validated ro) gw \<Longrightarrow> join_begin sid (gw_manager gw) = Inl e \<Longrightarrow>
    gw_step pf cf gw (moves k Closed gw)"
| joined: "in_state k sid (Joining ro (cid, width, height) cancel) gw \<Longrightarrow> join_connection dialled cid width height 96 ro = Inr l \<Longrightarrow>
    gw_step pf cf gw (moves k (Attached False cancel) (gw\<lparr>gw_manager := join_end sid (gw_manager gw),
      gw_grants := Joined sid ro # gw_grants gw\<rparr>))"
| join_failed: "in_state k sid (Joining ro (cid, width, height) cancel) gw \<Longrightarrow> join_connection dialled cid width height 96 ro = Inl e \<Longrightarrow>
    gw_step pf cf gw (moves k Closed gw)"
| leave: "in_state k sid (Attached owner cancel) gw \<Longrightarrow> (result = Cancelled \<longrightarrow> cancel \<in> mg_cancelled (gw_manager gw)) \<Longrightarrow>
    gw_step pf cf gw (moves k (Leaving (mark_error result elapsed)) (gw\<lparr>gw_manager := disconnect_viewer sid (gw_manager gw)\<rparr>))"
| errored: "in_state k sid (Leaving True) gw \<Longrightarrow>
    gw_step pf cf gw (moves k Closed (gw\<lparr>gw_manager := error_session cf sid (gw_manager gw)\<rparr>))"
| not_last: "in_state k sid (Leaving False) gw \<Longrightarrow>
    (case get_session sid (gw_manager gw) of None \<Rightarrow> True | Some i \<Rightarrow> si_active_connections i \<noteq> 0) \<Longrightarrow>
    gw_step pf cf gw (moves k Closed gw)"
| last: "in_state k sid (Leaving False) gw \<Longrightarrow> get_session sid (gw_manager gw) = Some i \<Longrightarrow> si_active_connections i = 0 \<Longrightarrow>
    gw_step pf cf gw (moves k Last_out gw)"
| complete: "in_state k sid Last_out gw \<Longrightarrow>
    gw_step pf cf gw (moves k Closed (gw\<lparr>gw_manager := complete_session cf sid (gw_manager gw)\<rparr>))"
| mint: "mint_shadow_token pf now raw sid issuer ro (gw_manager gw) = (r, mg) \<Longrightarrow> gw_step pf cf gw (gw\<lparr>gw_manager := mg\<rparr>)"
| expire: "gw_step pf cf gw (gw\<lparr>gw_manager := expire_pending cf sid (gw_manager gw)\<rparr>)"
| delete: "gw_step pf cf gw (gw\<lparr>gw_manager := snd (delete_session sid (gw_manager gw))\<rparr>)"
| stop_vdi: "gw_step pf cf gw (gw\<lparr>gw_manager := snd (stop_vdi_container sid (gw_manager gw))\<rparr>)"
| reap_expired: "gw_step pf cf gw (gw\<lparr>gw_manager := fst (reap_expired_sessions cf now (gw_manager gw))\<rparr>)"
| reap_completed: "gw_step pf cf gw (gw\<lparr>gw_manager := fst (reap_completed_sessions cf now (gw_manager gw))\<rparr>)"

inductive reachable :: "platform \<Rightarrow> config \<Rightarrow> gateway \<Rightarrow> bool" for pf cf where
  start: "reachable pf cf gateway_new"
| step: "reachable pf cf gw \<Longrightarrow> gw_step pf cf gw gw' \<Longrightarrow> reachable pf cf gw'"

section \<open>Lookup after each operation\<close>

lemma get_sess_with [simp]:
  "get_sess k (with_session sid f mg) = (if k = sid then map_option f (get_sess k mg) else get_sess k mg)"
proof -
  have "map_of (map (\<lambda>(k, s). (k, if k = sid then f s else s)) xs) k =
      (if k = sid then map_option f (map_of xs k) else map_of xs k)" for xs :: "(str \<times> session) list"
    by (induction xs) auto
  then show ?thesis by (simp add: get_sess_def with_session_def)
qed

lemma get_sess_insert [simp]: "get_sess k (insert_session s mg) = (if k = se_id s then Some s else get_sess k mg)"
  by (simp add: get_sess_def insert_session_def)

lemma map_of_filter_key: "map_of (filter (\<lambda>(k, _). P k) xs) k = (if P k then map_of xs k else None)"
  by (induction xs) auto

lemma get_sess_delete [simp]: "get_sess k (snd (delete_session sid mg)) = (if k = sid then None else get_sess k mg)"
proof (cases "get_sess sid mg")
  case (Some s)
  then show ?thesis
    using map_of_filter_key [of "\<lambda>k. k \<noteq> sid" "mg_sessions mg" k]
    by (simp add: delete_session_def get_sess_def)
qed (simp add: delete_session_def)

lemma get_sess_fold_delete:
  "get_sess k (fold (\<lambda>i mg. snd (delete_session i mg)) ids mg) = (if k \<in> set ids then None else get_sess k mg)"
  by (induction ids arbitrary: mg) simp_all

lemma get_sess_reap_completed:
  "get_sess k (fst (reap_completed_sessions cf now mg)) = Some s \<Longrightarrow> get_sess k mg = Some s"
  by (auto simp: reap_completed_sessions_def get_sess_def Let_def map_of_filter_key split: if_splits)

lemma get_sess_reap_expired:
  "get_sess k (fst (reap_expired_sessions cf now mg)) = Some s \<Longrightarrow> get_sess k mg = Some s"
  by (auto simp: reap_expired_sessions_def Let_def get_sess_fold_delete split: if_splits)

section \<open>How a session may change\<close>

fun may_become :: "session_status \<Rightarrow> session_status \<Rightarrow> bool" where
  "may_become Pending st = (st \<noteq> Completed)"
| "may_become Active st = (st \<noteq> Pending \<and> st \<noteq> Expired)"
| "may_become st st' = (st' = st \<or> st' = Error)"

lemma may_become_refl [simp]: "may_become st st"
  by (cases st) simp_all

definition same_session :: "session \<Rightarrow> session \<Rightarrow> bool" where
  "same_session s s' \<longleftrightarrow> se_created_by s' = se_created_by s \<and> se_cancel s' = se_cancel s \<and>
     may_become (se_status s) (se_status s')"

text \<open>Every session of \<open>mg'\<close> is one of \<open>mg\<close>, its count of connections changed by \<open>g\<close>.\<close>

definition evolves :: "(str \<Rightarrow> nat \<Rightarrow> nat) \<Rightarrow> manager \<Rightarrow> manager \<Rightarrow> bool" where
  "evolves g mg mg' \<longleftrightarrow> mg_cancelled mg \<subseteq> mg_cancelled mg' \<and>
     (\<forall>k s'. get_sess k mg' = Some s' \<longrightarrow>
        (\<exists>s. get_sess k mg = Some s \<and> same_session s s' \<and> se_active_connections s' = g k (se_active_connections s)))"

lemma cancelled_with [simp]: "mg_cancelled (with_session sid f mg) = mg_cancelled mg"
  by (simp add: with_session_def)

lemma evolvesI_with:
  assumes "\<And>s. get_sess sid mg = Some s \<Longrightarrow> same_session s (f s) \<and> se_active_connections (f s) = g sid (se_active_connections s)"
    and "\<And>k n. k \<noteq> sid \<Longrightarrow> g k n = n"
  shows "evolves g mg (with_session sid f mg)"
  using assms by (auto simp: evolves_def same_session_def split: if_splits)

abbreviation unchanged :: "str \<Rightarrow> nat \<Rightarrow> nat" where
  "unchanged \<equiv> \<lambda>k n. n"

lemma evolves_refl [simp]: "evolves unchanged mg mg"
  by (auto simp: evolves_def same_session_def)

lemma cleaned_simps [simp]:
  "se_created_by (cleaned cf s) = se_created_by s" "se_cancel (cleaned cf s) = se_cancel s"
  "se_status (cleaned cf s) = se_status s" "se_active_connections (cleaned cf s) = se_active_connections s"
  "se_tunnels (cleaned cf s) = []" "se_browser_session (cleaned cf s) = None"
  by (simp_all add: cleanup_browser_def)

lemma may_become_Error [simp]: "may_become st Error"
  by (cases st) simp_all

lemma evolves_ops:
  "evolves unchanged mg (complete_session cf sid mg)"
  "evolves unchanged mg (error_session cf sid mg)"
  "evolves unchanged mg (expire_pending cf sid mg)"
  "evolves unchanged mg (snd (stop_vdi_container sid mg))"
  unfolding complete_session_def error_session_def expire_pending_def stop_vdi_container_def snd_conv
  by (rule evolvesI_with; simp add: same_session_def)+

lemma evolves_mint: "mint_shadow_token pf now raw sid issuer ro mg = (r, mg') \<Longrightarrow> evolves unchanged mg mg'"
  by (auto simp: mint_shadow_token_def split: option.splits if_splits intro!: evolvesI_with)
    (simp_all add: same_session_def)

lemma cancelled_delete: "mg_cancelled mg \<subseteq> mg_cancelled (snd (delete_session sid mg))"
  by (auto simp: delete_session_def split: option.split)

lemma cancelled_fold_delete: "mg_cancelled mg \<subseteq> mg_cancelled (fold (\<lambda>i mg. snd (delete_session i mg)) ids mg)"
proof (induction ids arbitrary: mg)
  case (Cons i ids)
  show ?case using order_trans [OF cancelled_delete Cons.IH] by simp
qed simp

lemma evolves_removal:
  assumes "mg_cancelled mg \<subseteq> mg_cancelled mg'" and "\<And>k s. get_sess k mg' = Some s \<Longrightarrow> get_sess k mg = Some s"
  shows "evolves unchanged mg mg'"
  using assms by (fastforce simp: evolves_def same_session_def)

lemma evolves_removals:
  "evolves unchanged mg (snd (delete_session sid mg))"
  "evolves unchanged mg (fst (reap_expired_sessions cf now mg))"
  "evolves unchanged mg (fst (reap_completed_sessions cf now mg))"
proof -
  show "evolves unchanged mg (snd (delete_session sid mg))"
    by (rule evolves_removal [OF cancelled_delete]) (simp split: if_splits)
  show "evolves unchanged mg (fst (reap_expired_sessions cf now mg))"
    by (rule evolves_removal [OF _ get_sess_reap_expired]) (simp_all add: reap_expired_sessions_def Let_def cancelled_fold_delete)
  show "evolves unchanged mg (fst (reap_completed_sessions cf now mg))"
    by (rule evolves_removal [OF _ get_sess_reap_completed]) (simp_all add: reap_completed_sessions_def Let_def)
qed

lemma evolves_take:
  assumes "take_guacd_stream dialled sid mg = (r, mg')"
  shows "evolves (\<lambda>k n. if k = sid \<and> r \<noteq> None then n + 1 else n) mg mg'"
proof (cases "get_sess sid mg")
  case (Some s)
  with assms show ?thesis
    by (auto simp: take_guacd_stream_def split: option.splits if_splits sum.splits intro!: evolvesI_with)
      (auto simp: same_session_def)
qed (use assms in \<open>simp add: take_guacd_stream_def\<close>)

section \<open>The invariant of the gateway\<close>

definition owner_of :: "auth_identity option \<Rightarrow> str \<Rightarrow> bool" where
  "owner_of who creator \<longleftrightarrow>
     (case who of None \<Rightarrow> False | Some w \<Rightarrow> has_role w ''operator'' \<and> is_session_owner w (Some creator))"

fun is_attached :: "socket_state \<Rightarrow> bool" where
  "is_attached (Attached _ _) = True"
| "is_attached _ = False"

fun held_token :: "socket_state \<Rightarrow> nat option" where
  "held_token (Attached _ c) = Some c"
| "held_token (Joining _ _ c) = Some c"
| "held_token _ = None"

fun known_session :: "socket_state \<Rightarrow> bool" where
  "known_session (Validated _) = True"
| "known_session st = (held_token st \<noteq> None)"

definition connections :: "str \<Rightarrow> socket list \<Rightarrow> nat" where
  "connections sid sos = length (filter (\<lambda>so. so_session so = sid \<and> is_attached (so_state so)) sos)"

definition takes :: "str \<Rightarrow> grant list \<Rightarrow> nat" where
  "takes sid gs = length (filter (\<lambda>g. case g of Took_stream k _ \<Rightarrow> k = sid | _ \<Rightarrow> False) gs)"

definition socket_ok :: "gateway \<Rightarrow> socket \<Rightarrow> bool" where
  "socket_ok gw so \<longleftrightarrow>
     (\<forall>t. so_state so = Upgraded True t \<longrightarrow> (\<exists>c. gw_created gw (so_session so) = Some c \<and> owner_of (so_identity so) c)) \<and>
     (known_session (so_state so) \<longrightarrow> gw_created gw (so_session so) \<noteq> None) \<and>
     (\<forall>c s. held_token (so_state so) = Some c \<longrightarrow> get_sess (so_session so) (gw_manager gw) = Some s \<longrightarrow> se_cancel s = c) \<and>
     (\<forall>c. held_token (so_state so) = Some c \<longrightarrow> gw_tokens gw c = Some (so_session so))"

definition session_ok :: "gateway \<Rightarrow> str \<Rightarrow> session \<Rightarrow> bool" where
  "session_ok gw k s \<longleftrightarrow> gw_created gw k = Some (se_created_by s) \<and> gw_tokens gw (se_cancel s) = Some k \<and>
     se_active_connections s = connections k (gw_sockets gw) \<and>
     (se_status s = Pending \<longrightarrow> takes k (gw_grants gw) = 0)"

definition grants_ok :: "gateway \<Rightarrow> bool" where
  "grants_ok gw \<longleftrightarrow>
     (\<forall>k who. Took_stream k who \<in> set (gw_grants gw) \<longrightarrow> (\<exists>c. gw_created gw k = Some c \<and> owner_of who c)) \<and>
     (\<forall>k. takes k (gw_grants gw) \<le> 1) \<and> (\<forall>k. gw_created gw k = None \<longrightarrow> takes k (gw_grants gw) = 0)"

definition gw_inv :: "gateway \<Rightarrow> bool" where
  "gw_inv gw \<longleftrightarrow> (\<forall>k s. get_sess k (gw_manager gw) = Some s \<longrightarrow> session_ok gw k s) \<and>
     (\<forall>so\<in>set (gw_sockets gw). socket_ok gw so) \<and> grants_ok gw"

lemma connections_update:
  assumes "k < length sos"
  shows "connections sid (sos[k := (sos ! k)\<lparr>so_state := st\<rparr>]) +
      of_bool (so_session (sos ! k) = sid \<and> is_attached (so_state (sos ! k))) =
    connections sid sos + of_bool (so_session (sos ! k) = sid \<and> is_attached st)"
proof -
  have "sos = take k sos @ sos ! k # drop (Suc k) sos" using assms by (rule id_take_nth_drop)
  then have "connections sid sos = connections sid (take k sos @ sos ! k # drop (Suc k) sos)" by simp
  then show ?thesis using assms by (simp add: connections_def upd_conv_take_nth_drop)
qed

lemma connections_snoc [simp]:
  "connections sid (sos @ [so]) = connections sid sos + of_bool (so_session so = sid \<and> is_attached (so_state so))"
  by (simp add: connections_def)

text \<open>
  One step of a socket: the manager evolves, the socket \<open>k\<close> of session \<open>sid\<close> changes state.
\<close>

lemma inv_moves:
  assumes inv: "gw_inv gw" and k: "in_state k sid st0 gw" and ev: "evolves g (gw_manager gw) mg"
    and count: "\<And>i. g i (connections i (gw_sockets gw)) + of_bool (i = sid \<and> is_attached st0) =
      connections i (gw_sockets gw) + of_bool (i = sid \<and> is_attached st)"
    and st: "\<And>t. st = Upgraded True t \<Longrightarrow> st0 = Upgraded True t"
      "known_session st \<Longrightarrow> gw_created gw sid \<noteq> None"
      "\<And>c s. held_token st = Some c \<Longrightarrow> get_sess sid mg = Some s \<Longrightarrow> se_cancel s = c"
      "\<And>c. held_token st = Some c \<Longrightarrow> gw_tokens gw c = Some sid"
  shows "gw_inv (moves k st (gw\<lparr>gw_manager := mg\<rparr>))"
proof -
  let ?gw = "moves k st (gw\<lparr>gw_manager := mg\<rparr>)"
  have sockets: "socket_ok ?gw so" if "so \<in> set (gw_sockets ?gw)" for so
  proof -
    have old: "socket_ok ?gw so'" if "so' \<in> set (gw_sockets gw)" for so'
      using inv that ev unfolding gw_inv_def socket_ok_def evolves_def same_session_def moves_def by fastforce
    have "so = (gw_sockets gw ! k)\<lparr>so_state := st\<rparr> \<or> so \<in> set (gw_sockets gw)"
      using that set_update_subset_insert by (fastforce simp: moves_def)
    moreover have "socket_ok ?gw ((gw_sockets gw ! k)\<lparr>so_state := st\<rparr>)"
      using k st old [of "gw_sockets gw ! k"] by (auto simp: socket_ok_def moves_def)
    ultimately show ?thesis using old by auto
  qed
  have sessions: "session_ok ?gw i s'" if s': "get_sess i mg = Some s'" for i s'
  proof -
    obtain s where s: "get_sess i (gw_manager gw) = Some s" "same_session s s'"
        "se_active_connections s' = g i (se_active_connections s)"
      using ev s' unfolding evolves_def by metis
    have "session_ok gw i s" using inv s(1) by (simp add: gw_inv_def)
    moreover have "connections i (gw_sockets ?gw) + of_bool (i = sid \<and> is_attached st0) =
        connections i (gw_sockets gw) + of_bool (i = sid \<and> is_attached st)"
      using connections_update [of k "gw_sockets gw" i st] k by (auto simp: moves_def)
    ultimately have "se_active_connections s' = connections i (gw_sockets ?gw)"
      using count [of i] s(3) by (simp add: session_ok_def)
    with \<open>session_ok gw i s\<close> s(2) show ?thesis
      by (cases "se_status s") (auto simp: session_ok_def same_session_def moves_def)
  qed
  show ?thesis using sockets sessions inv by (simp add: gw_inv_def grants_ok_def moves_def)
qed

lemma inv_manager:
  assumes inv: "gw_inv gw" and ev: "evolves unchanged (gw_manager gw) mg"
  shows "gw_inv (gw\<lparr>gw_manager := mg\<rparr>)"
proof -
  have "socket_ok (gw\<lparr>gw_manager := mg\<rparr>) so" if "so \<in> set (gw_sockets gw)" for so
    using inv that ev unfolding gw_inv_def socket_ok_def evolves_def same_session_def by fastforce
  moreover have "session_ok (gw\<lparr>gw_manager := mg\<rparr>) i s'" if s': "get_sess i mg = Some s'" for i s'
  proof -
    obtain s where s: "get_sess i (gw_manager gw) = Some s" "same_session s s'"
        "se_active_connections s' = se_active_connections s"
      using ev s' unfolding evolves_def by metis
    have "session_ok gw i s" using inv s(1) by (simp add: gw_inv_def)
    with s(2,3) show ?thesis by (cases "se_status s") (auto simp: session_ok_def same_session_def)
  qed
  ultimately show ?thesis using inv by (simp add: gw_inv_def grants_ok_def)
qed

lemma unknown_session:
  assumes "gw_inv gw" and "gw_created gw k = None"
  shows "get_sess k (gw_manager gw) = None" "connections k (gw_sockets gw) = 0" "takes k (gw_grants gw) = 0"
    "\<And>so. so \<in> set (gw_sockets gw) \<Longrightarrow> so_session so = k \<Longrightarrow> held_token (so_state so) = None"
proof -
  have unheld: "held_token (so_state so) = None" if "so \<in> set (gw_sockets gw)" "so_session so = k" for so
    using assms that by (cases "so_state so") (auto simp: gw_inv_def socket_ok_def)
  then show "\<And>so. so \<in> set (gw_sockets gw) \<Longrightarrow> so_session so = k \<Longrightarrow> held_token (so_state so) = None" .
  show "get_sess k (gw_manager gw) = None"
    using assms by (cases "get_sess k (gw_manager gw)") (auto simp: gw_inv_def session_ok_def)
  have "\<not> is_attached (so_state so)" if "so \<in> set (gw_sockets gw)" "so_session so = k" for so
    using unheld [OF that] by (cases "so_state so") simp_all
  then show "connections k (gw_sockets gw) = 0" by (simp add: connections_def filter_empty_conv)
  show "takes k (gw_grants gw) = 0" using assms by (simp add: gw_inv_def grants_ok_def)
qed

lemma inv_known:
  assumes "gw_inv gw" and "get_sess sid (gw_manager gw) = Some s"
  shows "gw_created gw sid \<noteq> None" "gw_tokens gw (se_cancel s) = Some sid"
  using assms by (auto simp: gw_inv_def session_ok_def)

lemma created_session:
  "create_session pf sv cf req who seen = Inr s \<Longrightarrow> se_active_connections s = 0 \<and> se_created_by s = who"
  by (erule create_session_Inr) simp

lemma inv_create:
  assumes inv: "gw_inv gw" and s: "create_session pf sv cf req who seen = Inr s" "gw_created gw (se_id s) = None"
    "gw_tokens gw (se_cancel s) = None"
  shows "gw_inv (gw\<lparr>gw_manager := insert_session s (gw_manager gw),
    gw_created := (gw_created gw)(se_id s \<mapsto> who), gw_tokens := (gw_tokens gw)(se_cancel s \<mapsto> se_id s)\<rparr>)"
    (is "gw_inv ?gw")
proof -
  note new = unknown_session [OF inv s(2)] created_session [OF s(1)]
  have "socket_ok ?gw so" if so: "so \<in> set (gw_sockets gw)" for so
  proof -
    have "socket_ok gw so" using inv so by (simp add: gw_inv_def)
    then show ?thesis using new(4) [OF so] s(2,3)
      by (cases "so_session so = se_id s"; cases "held_token (so_state so)") (auto simp: socket_ok_def)
  qed
  moreover have "session_ok ?gw k s'" if "get_sess k (insert_session s (gw_manager gw)) = Some s'" for k s'
  proof (cases "k = se_id s")
    case False
    then have s': "get_sess k (gw_manager gw) = Some s'" using that by simp
    then have "session_ok gw k s'" using inv by (simp add: gw_inv_def)
    moreover have "se_cancel s' \<noteq> se_cancel s" using inv_known(2) [OF inv s'] s(3) by auto
    ultimately show ?thesis using False by (simp add: session_ok_def)
  qed (use that new in \<open>simp add: session_ok_def\<close>)
  moreover have "grants_ok ?gw"
    using inv s(2) by (fastforce simp: gw_inv_def grants_ok_def)
  ultimately show ?thesis by (simp add: gw_inv_def)
qed

lemma ws_upgrade_owner:
  assumes "ws_handler hs who sid mg = Ws_upgrade True"
  shows "\<exists>s. get_sess sid mg = Some s \<and> se_status s = Pending \<and> owner_of who (se_created_by s)"
proof (cases "get_sess sid mg")
  case (Some s)
  with assms show ?thesis
    by (auto simp: ws_handler_def Let_def is_session_pending_def get_session_creator_def owner_of_def
        split: option.splits if_splits)
qed (use assms in \<open>auto simp: ws_handler_def is_session_pending_def split: if_splits option.splits\<close>)

lemma inv_upgrade:
  assumes inv: "gw_inv gw" and up: "ws_handler hs who sid (gw_manager gw) = Ws_upgrade owner"
  shows "gw_inv (gw\<lparr>gw_sockets := gw_sockets gw @
    [\<lparr>so_session = sid, so_identity = who, so_state = Upgraded owner token\<rparr>]\<rparr>)" (is "gw_inv ?gw")
proof -
  have "\<exists>c. gw_created gw sid = Some c \<and> owner_of who c" if "owner"
    using ws_upgrade_owner [of hs who sid "gw_manager gw"] up that inv
    by (auto simp: gw_inv_def session_ok_def)
  then have "socket_ok ?gw \<lparr>so_session = sid, so_identity = who, so_state = Upgraded owner token\<rparr>"
    by (auto simp: socket_ok_def)
  then show ?thesis using inv by (simp add: gw_inv_def grants_ok_def session_ok_def socket_ok_def)
qed

lemma take_Some:
  assumes "take_guacd_stream dialled sid mg = (Some (stream, cancel), mg')"
  shows "\<exists>s s'. get_sess sid mg = Some s \<and> se_status s = Pending \<and>
    get_sess sid mg' = Some s' \<and> se_status s' = Active \<and> se_cancel s' = cancel \<and> se_cancel s = cancel"
proof (cases "get_sess sid mg")
  case (Some s)
  with assms show ?thesis
    by (auto simp: take_guacd_stream_def split: option.splits if_splits sum.splits)
qed (use assms in \<open>simp add: take_guacd_stream_def\<close>)

lemma inv_took:
  assumes inv: "gw_inv gw" and c: "gw_created gw sid = Some c" "owner_of who c" and first: "takes sid (gw_grants gw) = 0"
    and s: "\<And>s. get_sess sid (gw_manager gw) = Some s \<Longrightarrow> se_status s \<noteq> Pending"
  shows "gw_inv (gw\<lparr>gw_grants := Took_stream sid who # gw_grants gw\<rparr>)"
proof -
  have takes: "takes k (Took_stream sid who # gw_grants gw) = takes k (gw_grants gw) + of_bool (k = sid)" for k
    by (simp add: takes_def)
  show ?thesis using inv c first s by (auto simp: gw_inv_def socket_ok_def session_ok_def grants_ok_def takes)
qed

lemma inv_joined_grant: "gw_inv gw \<Longrightarrow> gw_inv (gw\<lparr>gw_grants := Joined sid ro # gw_grants gw\<rparr>)"
  by (auto simp: gw_inv_def socket_ok_def session_ok_def grants_ok_def takes_def)

lemma evolves_join_end:
  "evolves (\<lambda>k n. if k = sid then n + 1 else n) mg (join_end sid mg)"
  unfolding join_end_def by (rule evolvesI_with) (simp_all add: same_session_def)

lemma evolves_disconnect:
  "evolves (\<lambda>k n. if k = sid then n - 1 else n) mg (disconnect_viewer sid mg)"
  unfolding disconnect_viewer_def by (rule evolvesI_with) (simp_all add: same_session_def)

text \<open>A step that neither attaches nor detaches the socket.\<close>

lemma inv_quiet_move:
  assumes "gw_inv gw" and "in_state k sid st0 gw" and "evolves unchanged (gw_manager gw) mg"
    and "is_attached st0 = is_attached st" and "held_token st = None"
    and "\<And>t. st \<noteq> Upgraded True t" and "known_session st \<Longrightarrow> gw_created gw sid \<noteq> None"
  shows "gw_inv (moves k st (gw\<lparr>gw_manager := mg\<rparr>))"
  by (rule inv_moves [where g = unchanged and ?st0.0 = st0]) (use assms in auto)

lemma inv_close:
  assumes "gw_inv gw" and "in_state k sid st0 gw" and "\<not> is_attached st0" and "held_token st = None"
    and "\<And>t. st \<noteq> Upgraded True t" and "known_session st \<Longrightarrow> gw_created gw sid \<noteq> None"
  shows "gw_inv (moves k st gw)"
proof -
  have "\<not> is_attached st" using assms(4) by (cases st) simp_all
  then have "gw_inv (moves k st (gw\<lparr>gw_manager := gw_manager gw\<rparr>))"
    by (intro inv_quiet_move [OF assms(1,2)]) (use assms in auto)
  then show ?thesis by simp
qed

lemma inv_shut:
  assumes "gw_inv gw" and "k < length (gw_sockets gw)" and "\<not> is_attached (so_state (gw_sockets gw ! k))"
    and "\<not> known_session st" and "\<forall>t. st \<noteq> Upgraded True t"
  shows "gw_inv (moves k st gw)"
  by (rule inv_close [where sid = "so_session (gw_sockets gw ! k)" and ?st0.0 = "so_state (gw_sockets gw ! k)"])
    (use assms in \<open>cases st; auto\<close>)+

lemma inv_leave:
  assumes inv: "gw_inv gw" and k: "in_state k sid (Attached owner cancel) gw"
  shows "gw_inv (moves k (Leaving e) (gw\<lparr>gw_manager := disconnect_viewer sid (gw_manager gw)\<rparr>))"
proof -
  have "0 < connections sid (gw_sockets gw)"
    using connections_update [of k "gw_sockets gw" sid Closed] k by simp
  then show ?thesis by (intro inv_moves [OF inv k evolves_disconnect]) auto
qed

lemma moves_grants:
  "moves k st (gw\<lparr>gw_manager := mg, gw_grants := gs\<rparr>) = (moves k st (gw\<lparr>gw_manager := mg\<rparr>))\<lparr>gw_grants := gs\<rparr>"
  "gw_grants (moves k st gw) = gw_grants gw"
  by (cases gw, simp add: moves_def)+

lemma inv_joined:
  assumes inv: "gw_inv gw" and k: "in_state k sid (Joining ro c cancel) gw"
  shows "gw_inv (moves k (Attached False cancel)
    (gw\<lparr>gw_manager := join_end sid (gw_manager gw), gw_grants := Joined sid ro # gw_grants gw\<rparr>))"
proof -
  have "socket_ok gw (gw_sockets gw ! k)" using inv k by (simp add: gw_inv_def)
  then have "gw_created gw sid \<noteq> None" "gw_tokens gw cancel = Some sid"
    "\<And>s. get_sess sid (gw_manager gw) = Some s \<Longrightarrow> se_cancel s = cancel"
    using k by (auto simp: socket_ok_def)
  then have "gw_inv (moves k (Attached False cancel) (gw\<lparr>gw_manager := join_end sid (gw_manager gw)\<rparr>))"
    by (intro inv_moves [OF inv k evolves_join_end]) (auto simp: join_end_def)
  then have "gw_inv ((moves k (Attached False cancel) (gw\<lparr>gw_manager := join_end sid (gw_manager gw)\<rparr>))
      \<lparr>gw_grants := Joined sid ro # gw_grants (moves k (Attached False cancel) (gw\<lparr>gw_manager := join_end sid (gw_manager gw)\<rparr>))\<rparr>)"
    by (rule inv_joined_grant)
  then show ?thesis by (simp add: moves_grants)
qed

lemma inv_take_owner:
  assumes inv: "gw_inv gw" and k: "in_state k sid (Upgraded True token) gw"
    and take: "take_guacd_stream dialled sid (gw_manager gw) = (Some (stream, cancel), mg)"
  shows "gw_inv (moves k (Attached True cancel)
    (gw\<lparr>gw_manager := mg, gw_grants := Took_stream sid (so_identity (gw_sockets gw ! k)) # gw_grants gw\<rparr>))"
proof -
  let ?gw = "moves k (Attached True cancel) (gw\<lparr>gw_manager := mg\<rparr>)"
  obtain s s' where s: "get_sess sid (gw_manager gw) = Some s" "se_status s = Pending"
      "get_sess sid mg = Some s'" "se_status s' = Active" "se_cancel s' = cancel" "se_cancel s = cancel"
    using take_Some [OF take] by metis
  obtain c where c: "gw_created gw sid = Some c" "owner_of (so_identity (gw_sockets gw ! k)) c"
    using inv k unfolding gw_inv_def socket_ok_def by (metis nth_mem)
  have "gw_tokens gw cancel = Some sid" using inv_known(2) [OF inv s(1)] s(6) by simp
  then have "gw_inv ?gw"
    by (intro inv_moves [OF inv k evolves_take [OF take]]) (use s c in auto)
  moreover have "takes sid (gw_grants gw) = 0" using inv s(1,2) by (simp add: gw_inv_def session_ok_def)
  ultimately have "gw_inv (?gw\<lparr>gw_grants := Took_stream sid (so_identity (gw_sockets gw ! k)) # gw_grants ?gw\<rparr>)"
    by (intro inv_took [where c = c]) (use s c in \<open>auto simp: moves_def\<close>)
  then show ?thesis by (simp add: moves_grants)
qed

lemma inv_take_missed:
  assumes inv: "gw_inv gw" and k: "in_state k sid (Upgraded True token) gw"
    and take: "take_guacd_stream dialled sid (gw_manager gw) = (None, mg)"
  shows "gw_inv (moves k (Unowned token) (gw\<lparr>gw_manager := mg\<rparr>))"
  by (rule inv_moves [OF inv k evolves_take [OF take]]) auto

lemma validated_known: "is_valid (validate_share_token pf now sid t mg) \<Longrightarrow> \<exists>s. get_sess sid mg = Some s"
  by (auto simp: validate_share_token_def split: option.splits)

lemma inv_validate:
  assumes inv: "gw_inv gw" and k: "in_state k sid (Unowned (Some token)) gw"
    and v: "is_valid (validate_share_token pf now sid token (gw_manager gw))"
  shows "gw_inv (moves k (Validated ro) gw)"
proof -
  obtain s where "get_sess sid (gw_manager gw) = Some s" using validated_known [OF v] ..
  then show ?thesis using inv_known [OF inv] by (intro inv_close [OF inv k]) auto
qed

lemma join_begin_Inr:
  "join_begin sid mg = Inr (cid, width, height, cancel) \<longleftrightarrow>
   (\<exists>s. get_sess sid mg = Some s \<and> se_status s = Active \<and> se_connection_id s = cid \<and> se_width s = width \<and>
      se_height s = height \<and> se_cancel s = cancel)"
  by (auto simp: join_begin_def split: option.split)

lemma inv_joining:
  assumes inv: "gw_inv gw" and k: "in_state k sid (Validated ro) gw"
    and "join_begin sid (gw_manager gw) = Inr (cid, width, height, cancel)"
  shows "gw_inv (moves k (Joining ro (cid, width, height) cancel) gw)"
proof -
  obtain s where s: "get_sess sid (gw_manager gw) = Some s" "se_cancel s = cancel"
    using assms(3) join_begin_Inr by blast
  have "gw_inv (moves k (Joining ro (cid, width, height) cancel) (gw\<lparr>gw_manager := gw_manager gw\<rparr>))"
    by (rule inv_moves [OF inv k evolves_refl]) (use s inv_known [OF inv s(1)] in auto)
  then show ?thesis by simp
qed

lemma inv_step: "gw_step pf cf gw gw' \<Longrightarrow> gw_inv gw \<Longrightarrow> gw_inv gw'"
proof (induction rule: gw_step.induct)
  case validate
  then show ?case by (auto intro!: inv_validate [OF validate.prems validate.hyps(1)])
next
  case leave
  then show ?case by (simp add: inv_leave)
next
  case errored
  then show ?case
    by (intro inv_quiet_move [OF _ errored.hyps(1) evolves_ops(2)]) simp_all
next
  case complete
  then show ?case
    by (intro inv_quiet_move [OF _ complete.hyps(1) evolves_ops(1)]) simp_all
qed (simp_all add: inv_create inv_upgrade inv_take_owner inv_take_missed inv_joining inv_joined inv_shut
      inv_manager evolves_ops evolves_mint evolves_removals)

lemma inv_reachable: "reachable pf cf gw \<Longrightarrow> gw_inv gw"
proof (induction rule: reachable.induct)
  case start
  show ?case
    by (simp add: gw_inv_def gateway_new_def manager_new_def get_sess_def grants_ok_def takes_def)
qed (rule inv_step)

section \<open>A session only moves forward\<close>

lemma manager_moves [simp]: "gw_manager (moves k st gw) = gw_manager gw" "gw_created (moves k st gw) = gw_created gw"
  by (simp_all add: moves_def)

definition changes :: "manager \<Rightarrow> manager \<Rightarrow> bool" where
  "changes mg mg' \<longleftrightarrow> (\<exists>g. evolves g mg mg')"

lemma changesI: "evolves g mg mg' \<Longrightarrow> changes mg mg'"
  by (auto simp: changes_def)

lemmas changes_ops = evolves_refl [THEN changesI] evolves_ops [THEN changesI] evolves_removals [THEN changesI]
  evolves_join_end [THEN changesI] evolves_disconnect [THEN changesI]

lemma step_evolves:
  assumes "gw_step pf cf gw gw'"
  shows "gw_created gw' = gw_created gw \<and> changes (gw_manager gw) (gw_manager gw') \<or>
    (\<exists>s who. gw_created gw (se_id s) = None \<and> gw_created gw' = (gw_created gw)(se_id s \<mapsto> who) \<and>
       gw_manager gw' = insert_session s (gw_manager gw))"
  using assms
proof (cases rule: gw_step.cases)
  case create
  then show ?thesis by auto
next
  case take_owner
  then show ?thesis by (simp add: evolves_take [THEN changesI])
next
  case take_missed
  then show ?thesis by (simp add: evolves_take [THEN changesI])
next
  case mint
  then show ?thesis by (simp add: evolves_mint [THEN changesI])
qed (simp_all add: changes_ops)

lemma step_known:
  assumes "gw_step pf cf gw gw'" and "gw_created gw k \<noteq> None"
  shows "gw_created gw' k = gw_created gw k" "mg_cancelled (gw_manager gw) \<subseteq> mg_cancelled (gw_manager gw')"
    "get_sess k (gw_manager gw') = Some s' \<Longrightarrow> \<exists>s. get_sess k (gw_manager gw) = Some s \<and> same_session s s'"
proof -
  have "gw_created gw' k = gw_created gw k \<and> mg_cancelled (gw_manager gw) \<subseteq> mg_cancelled (gw_manager gw') \<and>
      (get_sess k (gw_manager gw') = Some s' \<longrightarrow> (\<exists>s. get_sess k (gw_manager gw) = Some s \<and> same_session s s'))"
    using step_evolves [OF assms(1)]
  proof (elim disjE conjE exE)
    assume c: "gw_created gw' = gw_created gw" and "changes (gw_manager gw) (gw_manager gw')"
    then show ?thesis unfolding changes_def evolves_def by metis
  next
    fix s who assume c: "gw_created gw (se_id s) = None" "gw_created gw' = (gw_created gw)(se_id s \<mapsto> who)"
      "gw_manager gw' = insert_session s (gw_manager gw)"
    then show ?thesis using assms(2) by (auto simp: insert_session_def get_sess_def same_session_def)
  qed
  then show "gw_created gw' k = gw_created gw k" "mg_cancelled (gw_manager gw) \<subseteq> mg_cancelled (gw_manager gw')"
    "get_sess k (gw_manager gw') = Some s' \<Longrightarrow> \<exists>s. get_sess k (gw_manager gw) = Some s \<and> same_session s s'"
    by blast+
qed

fun phase :: "session_status \<Rightarrow> nat" where
  "phase Pending = 0"
| "phase Active = 1"
| "phase Completed = 2"
| "phase Expired = 2"
| "phase Error = 3"

definition forward :: "session_status \<Rightarrow> session_status \<Rightarrow> bool" where
  "forward st st' \<longleftrightarrow> st' = st \<or> phase st < phase st'"

lemma forward_step: "forward st st' \<Longrightarrow> may_become st' st'' \<Longrightarrow> forward st st''"
  by (cases st'; cases st'') (auto simp: forward_def)

lemma steps_known:
  assumes "(gw_step pf cf)\<^sup>*\<^sup>* gw gw'" and "gw_created gw k \<noteq> None"
  shows "gw_created gw' k = gw_created gw k \<and> mg_cancelled (gw_manager gw) \<subseteq> mg_cancelled (gw_manager gw') \<and>
    (\<forall>s'. get_sess k (gw_manager gw') = Some s' \<longrightarrow>
       (\<exists>s. get_sess k (gw_manager gw) = Some s \<and> se_created_by s' = se_created_by s \<and> se_cancel s' = se_cancel s \<and>
          forward (se_status s) (se_status s')))"
  using assms(1)
proof (induction rule: rtranclp_induct)
  case base
  show ?case by (auto simp: forward_def)
next
  case (step gw1 gw2)
  have c: "gw_created gw1 k \<noteq> None" using step.IH assms(2) by simp
  show ?case
  proof (intro conjI allI impI)
    show "gw_created gw2 k = gw_created gw k" using step.IH step_known(1) [OF step.hyps(2) c] by simp
    show "mg_cancelled (gw_manager gw) \<subseteq> mg_cancelled (gw_manager gw2)"
      using step.IH step_known(2) [OF step.hyps(2) c] by (meson subset_trans)
    fix s2 assume "get_sess k (gw_manager gw2) = Some s2"
    then obtain s1 where s1: "get_sess k (gw_manager gw1) = Some s1" "same_session s1 s2"
      using step_known(3) [OF step.hyps(2) c] by metis
    then obtain s where "get_sess k (gw_manager gw) = Some s" "se_created_by s1 = se_created_by s"
        "se_cancel s1 = se_cancel s" "forward (se_status s) (se_status s1)"
      using step.IH by metis
    then show "\<exists>s. get_sess k (gw_manager gw) = Some s \<and> se_created_by s2 = se_created_by s \<and>
        se_cancel s2 = se_cancel s \<and> forward (se_status s) (se_status s2)"
      using s1(2) forward_step by (intro exI [of _ s]) (auto simp: same_session_def)
  qed
qed

section \<open>What the gateway guarantees\<close>

text \<open>
  C1: The owner's stream, already logged in to the target, is handed out at most once, and only
  to an authenticated operator whose name is that of the session's creator, whatever the order
  in which requests, endings and reapers run.
\<close>

theorem owner_stream_safe:
  assumes "reachable pf cf gw" and "Took_stream k who \<in> set (gw_grants gw)"
  shows "takes k (gw_grants gw) = 1 \<and>
    (\<exists>c w. gw_created gw k = Some c \<and> who = Some w \<and> has_role w ''operator'' \<and> is_session_owner w (Some c))"
proof -
  have ok: "grants_ok gw" using inv_reachable [OF assms(1)] by (simp add: gw_inv_def)
  have "0 < takes k (gw_grants gw)"
    using assms(2) by (auto simp: takes_def filter_empty_conv intro!: bexI [of _ "Took_stream k who"])
  moreover have "takes k (gw_grants gw) \<le> 1" using ok by (simp add: grants_ok_def)
  moreover obtain c where "gw_created gw k = Some c" "owner_of who c" using ok assms(2) unfolding grants_ok_def by metis
  ultimately show ?thesis by (cases who) (auto simp: owner_of_def)
qed

text \<open>
  C16: The count of connections of a session is exact: in every reachable state it is the number of
  sockets attached to it, so \<open>handle_ws\<close> completes the session only when no socket is left.
\<close>

theorem connection_count_exact:
  assumes "reachable pf cf gw" and "get_sess k (gw_manager gw) = Some s"
  shows "se_active_connections s =
    length (filter (\<lambda>so. so_session so = k \<and> is_attached (so_state so)) (gw_sockets gw))"
  using inv_reachable [OF assms(1)] assms(2) by (simp add: gw_inv_def session_ok_def connections_def)

text \<open>
  C15: A session keeps its creator and its cancellation token, and its status only moves forward:
  pending, active, then completed, expired or error. A session that has ended never lives again,
  and one that has been removed never comes back.
\<close>

theorem session_lifecycle:
  assumes "(gw_step pf cf)\<^sup>*\<^sup>* gw gw'" and "gw_created gw k \<noteq> None"
    and "get_sess k (gw_manager gw') = Some s'"
  shows "\<exists>s. get_sess k (gw_manager gw) = Some s \<and> se_created_by s' = se_created_by s \<and> se_cancel s' = se_cancel s \<and>
    forward (se_status s) (se_status s') \<and> (is_live s' \<longrightarrow> is_live s)"
proof -
  obtain s where s: "get_sess k (gw_manager gw) = Some s" "se_created_by s' = se_created_by s"
      "se_cancel s' = se_cancel s" "forward (se_status s) (se_status s')"
    using steps_known [OF assms(1,2)] assms(3) by metis
  have "is_live s' \<longrightarrow> is_live s"
    using s(4) by (cases "se_status s"; cases "se_status s'") (auto simp: is_live_def forward_def)
  with s show ?thesis by metis
qed

lemma cancelled_delete_iff:
  "c \<in> mg_cancelled (snd (delete_session sid mg)) \<longleftrightarrow>
   c \<in> mg_cancelled mg \<or> (\<exists>s. get_sess sid mg = Some s \<and> se_cancel s = c)"
  by (auto simp: delete_session_def split: option.split)

text \<open>A session that is gone gives out no token.\<close>

lemma step_token_kept:
  assumes "gw_step pf cf gw gw'" "get_sess sid (gw_manager gw) = None" "j < length (gw_sockets gw')"
    "so_session (gw_sockets gw' ! j) = sid" "held_token (so_state (gw_sockets gw' ! j)) = Some c"
  shows "j < length (gw_sockets gw) \<and> so_session (gw_sockets gw ! j) = sid \<and> held_token (so_state (gw_sockets gw ! j)) = Some c"
  using assms
proof (induction rule: gw_step.induct)
  case (take_owner k sid' token gw dialled stream cancel mg)
  then have "sid' \<noteq> sid" by (auto simp: take_guacd_stream_def)
  with take_owner show ?case by (auto simp: moves_def nth_list_update split: if_splits)
next
  case (joining k sid' ro gw cid width height cancel)
  then have "sid' \<noteq> sid" by (auto simp: join_begin_def)
  with joining show ?case by (auto simp: moves_def nth_list_update split: if_splits)
qed (auto simp: moves_def nth_list_update nth_append split: if_splits)

lemma steps_token_kept:
  assumes "(gw_step pf cf)\<^sup>*\<^sup>* gw later" "gw_created gw sid \<noteq> None" "get_sess sid (gw_manager gw) = None"
    "j < length (gw_sockets later)" "so_session (gw_sockets later ! j) = sid" "held_token (so_state (gw_sockets later ! j)) = Some c"
  shows "j < length (gw_sockets gw) \<and> so_session (gw_sockets gw ! j) = sid \<and> held_token (so_state (gw_sockets gw ! j)) = Some c"
  using assms(1,4-6)
proof (induction rule: rtranclp_induct)
  case (step gw1 gw2)
  have "get_sess sid (gw_manager gw1) = None"
    using steps_known [OF step.hyps(1) assms(2)] assms(3) by (cases "get_sess sid (gw_manager gw1)") auto
  then show ?case using step.IH step_token_kept [OF step.hyps(2) _ step.prems] by blast
qed blast

text \<open>
  C9: Ending a session reaches every connection of it and no other. After \<open>delete_session\<close> every
  socket of the session, also one still waiting to join, holds a cancelled token, the sockets of
  other sessions are as they were, and the token stays cancelled. The session is never found
  again, and from then on the only sockets attached to it or joining it are those that held
  its token already when it was deleted: one that was joining may still finish, on a token that
  is cancelled.
\<close>

theorem delete_reaches_all:
  assumes "reachable pf cf gw" and "delete_session sid (gw_manager gw) = (True, mg)"
    and "so \<in> set (gw_sockets gw)" and "held_token (so_state so) = Some c"
    and "(gw_step pf cf)\<^sup>*\<^sup>* (gw\<lparr>gw_manager := mg\<rparr>) later"
  shows "(c \<in> mg_cancelled mg \<longleftrightarrow> so_session so = sid \<or> c \<in> mg_cancelled (gw_manager gw)) \<and>
    (so_session so = sid \<longrightarrow> c \<in> mg_cancelled (gw_manager later)) \<and>
    get_sess sid (gw_manager later) = None \<and>
    (\<forall>j c'. j < length (gw_sockets later) \<longrightarrow> so_session (gw_sockets later ! j) = sid \<longrightarrow>
       held_token (so_state (gw_sockets later ! j)) = Some c' \<longrightarrow>
       c' \<in> mg_cancelled (gw_manager later) \<and> j < length (gw_sockets gw) \<and>
       so_session (gw_sockets gw ! j) = sid \<and> held_token (so_state (gw_sockets gw ! j)) = Some c')"
proof -
  have mg: "mg = snd (delete_session sid (gw_manager gw))" using assms(2) by simp
  have inv: "gw_inv gw" by (rule inv_reachable [OF assms(1)])
  obtain s where s: "get_sess sid (gw_manager gw) = Some s"
    using assms(2) by (auto simp: delete_session_def split: option.splits)
  have own: "so_session so' = sid \<longleftrightarrow> se_cancel s = c'"
    if "so' \<in> set (gw_sockets gw)" "held_token (so_state so') = Some c'" for so' c'
  proof -
    have "socket_ok gw so'" using inv that(1) by (simp add: gw_inv_def)
    then show ?thesis using that(2) s inv_known(2) [OF inv s] by (auto simp: socket_ok_def)
  qed
  have 1: "c \<in> mg_cancelled mg \<longleftrightarrow> so_session so = sid \<or> c \<in> mg_cancelled (gw_manager gw)"
    using s own [OF assms(3,4)] by (auto simp: mg cancelled_delete_iff)
  have k: "gw_created (gw\<lparr>gw_manager := mg\<rparr>) sid \<noteq> None" using inv_known(1) [OF inv s] by simp
  have kept: "mg_cancelled mg \<subseteq> mg_cancelled (gw_manager later)" using steps_known [OF assms(5) k] by simp
  have "get_sess sid (gw_manager later) = None"
    using steps_known [OF assms(5) k] by (cases "get_sess sid (gw_manager later)") (auto simp: mg)
  moreover have "c' \<in> mg_cancelled (gw_manager later) \<and> j < length (gw_sockets gw) \<and>
      so_session (gw_sockets gw ! j) = sid \<and> held_token (so_state (gw_sockets gw ! j)) = Some c'"
    if "j < length (gw_sockets later)" "so_session (gw_sockets later ! j) = sid" "held_token (so_state (gw_sockets later ! j)) = Some c'" for j c'
  proof -
    have j: "j < length (gw_sockets gw)" "so_session (gw_sockets gw ! j) = sid" "held_token (so_state (gw_sockets gw ! j)) = Some c'"
      using steps_token_kept [OF assms(5) k _ that] by (simp_all add: mg)
    then have "c' \<in> mg_cancelled mg" using own [OF nth_mem [OF j(1)] j(3)] s by (auto simp: mg cancelled_delete_iff)
    with j kept show ?thesis by blast
  qed
  ultimately show ?thesis using 1 kept by blast
qed

text \<open>
  A shadow token opens an active session, with the rights it was minted with, for ten minutes
  to the nanosecond, and then no more; minting it changes the answer for no other token. It
  cannot be minted for a session that is not active. (The hash of the new token is not that of
  a token the session already has.)
\<close>

theorem shadow_token_life:
  assumes "get_sess sid mg = Some s"
    and "pf_hash pf raw \<notin> {pf_hash pf (se_share_token s), pf_hash pf (se_share_token_ro s)} \<union>
      st_token_hash ` set (se_shadow_tokens s)"
    and "mint_shadow_token pf now raw sid issuer ro mg = (r, mg')"
  shows "if se_status s = Active
    then r = Inr (raw, now + SHADOW_TTL) \<and>
      validate_share_token pf t sid raw mg' = (if t < now + SHADOW_TTL then Shadow issuer ro else Invalid) \<and>
      (now \<le> t \<longrightarrow> pf_hash pf other \<noteq> pf_hash pf raw \<longrightarrow>
         validate_share_token pf t k other mg' = validate_share_token pf t k other mg)
    else r = Inl NotActive \<and> mg' = mg"
proof (cases "se_status s = Active")
  case True
  let ?ts = "filter (\<lambda>t. now < st_expires_at t) (se_shadow_tokens s)"
  let ?new = "\<lparr>st_token_hash = pf_hash pf raw, st_issued_by = issuer, st_expires_at = now + SHADOW_TTL, st_read_only = ro\<rparr>"
  have m: "r = Inr (raw, now + SHADOW_TTL)"
      "get_sess k mg' = (if k = sid then Some (s\<lparr>se_shadow_tokens := ?ts @ [?new]\<rparr>) else get_sess k mg)" for k
    using assms(1,3) True by (auto simp: mint_shadow_token_def)
  have none: "find (\<lambda>x. t < st_expires_at x \<and> st_token_hash x = pf_hash pf raw) ?ts = None"
    using assms(2) by (auto simp: find_None_iff image_iff)
  have app: "find P (xs @ ys) = (case find P xs of None \<Rightarrow> find P ys | Some x \<Rightarrow> Some x)"
    for P :: "shadow_token \<Rightarrow> bool" and xs ys by (induction xs) simp_all
  have kept: "find (\<lambda>x. t < st_expires_at x \<and> st_token_hash x = h) (filter (\<lambda>t. now < st_expires_at t) xs) =
      find (\<lambda>x. t < st_expires_at x \<and> st_token_hash x = h) xs" if "now \<le> t" for h xs
    using that by (induction xs) auto
  have "validate_share_token pf t sid raw mg' = (if t < now + SHADOW_TTL then Shadow issuer ro else Invalid)"
    using assms(2) none by (auto simp: validate_share_token_def check_share_token_match_def m app)
  moreover have "validate_share_token pf t k other mg' = validate_share_token pf t k other mg"
    if "now \<le> t" "pf_hash pf other \<noteq> pf_hash pf raw"
    using that assms(1)
    by (cases "k = sid") (auto simp: validate_share_token_def check_share_token_match_def m app kept split: option.split)
  ultimately show ?thesis using True m by simp
qed (use assms in \<open>simp add: mint_shadow_token_def\<close>)

lemma step_tokens: "gw_step pf cf gw gw' \<Longrightarrow> gw_tokens gw c = Some k \<Longrightarrow> gw_tokens gw' c = Some k"
  by (erule gw_step.cases) (auto simp: moves_def)

lemma cancelled_fold_delete_iff:
  "c \<in> mg_cancelled (fold (\<lambda>i mg. snd (delete_session i mg)) ids mg) \<Longrightarrow>
   c \<in> mg_cancelled mg \<or> (\<exists>k s. get_sess k mg = Some s \<and> se_cancel s = c)"
proof (induction ids arbitrary: mg)
  case (Cons i ids)
  have "c \<in> mg_cancelled (snd (delete_session i mg)) \<or> (\<exists>k s. get_sess k (snd (delete_session i mg)) = Some s \<and> se_cancel s = c)"
    using Cons.IH [of "snd (delete_session i mg)"] Cons.prems by simp
  then show ?case by (auto simp: cancelled_delete_iff split: if_splits)
qed simp

lemma cancelled_take: "take_guacd_stream dialled sid mg = (r, mg') \<Longrightarrow> mg_cancelled mg' = mg_cancelled mg"
  by (auto simp: take_guacd_stream_def split: option.splits sum.splits if_splits)

lemma cancelled_mint: "mint_shadow_token pf now raw sid issuer ro mg = (r, mg') \<Longrightarrow> mg_cancelled mg' = mg_cancelled mg"
  by (auto simp: mint_shadow_token_def split: option.splits if_splits)

lemma step_cancelled:
  assumes "gw_step pf cf gw gw'" and "c \<in> mg_cancelled (gw_manager gw')"
  shows "c \<in> mg_cancelled (gw_manager gw) \<or> (\<exists>k s. get_sess k (gw_manager gw) = Some s \<and> se_cancel s = c)"
  using assms
proof (cases rule: gw_step.cases)
  case reap_expired
  then show ?thesis
    using assms(2) cancelled_fold_delete_iff by (simp add: reap_expired_sessions_def Let_def)
next
  case delete
  then show ?thesis using assms(2) by (auto simp: cancelled_delete_iff)
qed (use assms(2) cancelled_take cancelled_mint in \<open>auto simp: insert_session_def join_end_def disconnect_viewer_def
    error_session_def complete_session_def expire_pending_def stop_vdi_container_def reap_completed_sessions_def Let_def\<close>)

text \<open>A token whose session is gone is never cancelled.\<close>

lemma never_cancelled:
  assumes "gw_inv gw" and "gw_tokens gw c = Some k" and "get_sess k (gw_manager gw) = None" and "gw_created gw k \<noteq> None"
    and "c \<notin> mg_cancelled (gw_manager gw)" and "(gw_step pf cf)\<^sup>*\<^sup>* gw later"
  shows "gw_inv later \<and> gw_tokens later c = Some k \<and> get_sess k (gw_manager later) = None \<and>
    gw_created later k \<noteq> None \<and> c \<notin> mg_cancelled (gw_manager later)"
  using assms(6)
proof (induction rule: rtranclp_induct)
  case (step gw1 gw2)
  then have gone: "get_sess k (gw_manager gw2) = None"
    using step_known(3) [OF step.hyps(2), of k] by (cases "get_sess k (gw_manager gw2)") auto
  have "c \<notin> mg_cancelled (gw_manager gw2)"
  proof
    assume "c \<in> mg_cancelled (gw_manager gw2)"
    then obtain i s where "get_sess i (gw_manager gw1) = Some s" "se_cancel s = c"
      using step_cancelled [OF step.hyps(2)] step.IH by blast
    with step.IH show False using inv_known(2) [of gw1 i s] by auto
  qed
  with gone show ?case
    using step.IH inv_step [OF step.hyps(2)] step_tokens [OF step.hyps(2)] step_known(1) [OF step.hyps(2), of k] by simp
qed (use assms in simp)

lemma reaped:
  assumes "get_sess k mg = Some s" and "se_status s \<in> {Completed, Error, Expired}"
    and "older_than now (cf_session_cleanup_delay_secs cf) s"
  shows "get_sess k (fst (reap_completed_sessions cf now mg)) = None"
proof -
  have "k \<in> fst ` {x \<in> set (mg_sessions mg). case x of (_, s) \<Rightarrow>
      (se_status s = Completed \<or> se_status s = Error \<or> se_status s = Expired) \<and> older_than now (cf_session_cleanup_delay_secs cf) s}"
    using assms map_of_SomeD by (force simp: get_sess_def)
  then show ?thesis by (simp add: reap_completed_sessions_def get_sess_def Let_def map_of_filter_key)
qed

lemma inv_steps: "(gw_step pf cf)\<^sup>*\<^sup>* gw gw' \<Longrightarrow> gw_inv gw \<Longrightarrow> gw_inv gw'"
  by (induction rule: rtranclp_induct) (simp_all add: inv_step)

text \<open>
  C40: A viewer can end somebody else's session for everybody, and leave the owner's connection
  beyond reach. When guacd closes a viewer's connection within five seconds, the active session
  goes to \<open>Error\<close> and its tunnels and browser are taken down, though its owner is still
  attached; once it is old enough, \<open>reap_completed_sessions\<close> drops it without cancelling, and
  from then on nothing cancels the owner's connection, neither \<open>delete_session\<close> nor the reaper
  of the maximum duration.
\<close>

theorem viewer_failure_orphans_owner:
  assumes "reachable pf cf gw" and "get_sess sid (gw_manager gw) = Some s" and "se_status s = Active"
    and "in_state j sid (Attached True c) gw" and "in_state k sid (Attached False c) gw"
    and "c \<notin> mg_cancelled (gw_manager gw)"
  shows "\<exists>broken s' orphaned. (gw_step pf cf)\<^sup>*\<^sup>* gw broken \<and> get_sess sid (gw_manager broken) = Some s' \<and>
    se_status s' = Error \<and> se_tunnels s' = [] \<and> se_browser_session s' = None \<and> in_state j sid (Attached True c) broken \<and>
    (gw_step pf cf)\<^sup>*\<^sup>* broken orphaned \<and> in_state j sid (Attached True c) orphaned \<and>
    (\<forall>later. (gw_step pf cf)\<^sup>*\<^sup>* orphaned later \<longrightarrow>
       get_sess sid (gw_manager later) = None \<and> c \<notin> mg_cancelled (gw_manager later))"
proof -
  let ?leaving = "moves k (Leaving True) (gw\<lparr>gw_manager := disconnect_viewer sid (gw_manager gw)\<rparr>)"
  let ?broken = "moves k Closed (?leaving\<lparr>gw_manager := error_session cf sid (gw_manager ?leaving)\<rparr>)"
  define now where "now = se_created_at s + int (cf_session_cleanup_delay_secs cf) * 10 ^ 9 + 1"
  let ?orphaned = "?broken\<lparr>gw_manager := fst (reap_completed_sessions cf now (gw_manager ?broken))\<rparr>"
  have jk: "j \<noteq> k" using assms(4,5) by auto
  have "gw_step pf cf gw ?leaving"
    using gw_step.leave [of k gw sid False c GuacdEnded pf cf 0] assms(5) by (simp add: mark_error_def)
  moreover have "gw_step pf cf ?leaving ?broken"
    by (rule gw_step.errored) (use assms(5) in \<open>simp add: moves_def\<close>)
  ultimately have steps: "(gw_step pf cf)\<^sup>*\<^sup>* gw ?broken" by (meson r_into_rtranclp rtranclp_trans)
  have reap: "gw_step pf cf ?broken ?orphaned" by (rule gw_step.reap_completed)
  obtain s' where s': "get_sess sid (gw_manager ?broken) = Some s'" "se_status s' = Error" "se_tunnels s' = []"
      "se_browser_session s' = None" "se_created_at s' = se_created_at s"
    using assms(2) by (auto simp: error_session_def disconnect_viewer_def cleanup_browser_def)
  have gone: "get_sess sid (gw_manager ?orphaned) = None"
    using reaped [OF s'(1), of now cf] s'(2,5) by (simp add: older_than_def now_def)
  have inv: "gw_inv gw" by (rule inv_reachable [OF assms(1)])
  then have inv': "gw_inv ?orphaned" using inv_steps [OF steps] inv_step [OF reap] by blast
  have "socket_ok gw (gw_sockets gw ! j)" using inv assms(4) by (simp add: gw_inv_def)
  then have "se_cancel s = c" using assms(2,4) by (simp add: socket_ok_def)
  then have known: "gw_tokens ?orphaned c = Some sid" "gw_created ?orphaned sid \<noteq> None"
    using inv_known [OF inv assms(2)] by (simp_all add: moves_def)
  have "c \<notin> mg_cancelled (gw_manager ?orphaned)"
    using assms(6) by (simp add: reap_completed_sessions_def Let_def error_session_def disconnect_viewer_def)
  note never = never_cancelled [OF inv' known(1) gone known(2) this]
  have "in_state j sid (Attached True c) ?broken" "in_state j sid (Attached True c) ?orphaned"
    using assms(4) jk by (simp_all add: moves_def)
  then show ?thesis using steps s' reap never
    by (intro exI [of _ ?broken] exI [of _ s'] exI [of _ ?orphaned]) (simp add: r_into_rtranclp)
qed

section \<open>A small run\<close>

text \<open>Ann creates a session and attaches; a viewer with her share token joins.\<close>

definition ann_session :: session where
  "ann_session = (case create_session demo_pf demo_services demo_config
     (apply_adhoc_policy demo_create_request False demo_config) ''ann'' [] of Inr s \<Rightarrow> s)"

definition demo_gateway0 :: gateway where
  "demo_gateway0 = gateway_new\<lparr>gw_manager := insert_session ann_session manager_new,
     gw_created := [''u1'' \<mapsto> ''ann''], gw_tokens := [1 \<mapsto> ''u1'']\<rparr>"

definition ann :: auth_identity where "ann = User ''ann'' ''operator'' []"

definition demo_gateway1 :: gateway where
  "demo_gateway1 = demo_gateway0\<lparr>gw_sockets := [\<lparr>so_session = ''u1'', so_identity = Some ann, so_state = Upgraded True None\<rparr>]\<rparr>"

definition demo_taken :: manager where
  "demo_taken = snd (take_guacd_stream (Inr demo_link) ''u1'' (gw_manager demo_gateway1))"

definition demo_gateway2 :: gateway where
  "demo_gateway2 = moves 0 (Attached True 1) (demo_gateway1\<lparr>gw_manager := demo_taken,
     gw_grants := [Took_stream ''u1'' (Some ann)]\<rparr>)"

lemma ann_session:
  "create_session demo_pf demo_services demo_config (apply_adhoc_policy demo_create_request False demo_config) ''ann'' [] = Inr ann_session"
  "se_id ann_session = ''u1''" "se_cancel ann_session = 1" "se_created_at ann_session = 0"
  "\<exists>p. se_deferred_params ann_session = Some p" "se_status ann_session = Pending" "se_created_by ann_session = ''ann''"
  "se_active_connections ann_session = 0"
proof -
  obtain s where s: "create_session demo_pf demo_services demo_config (apply_adhoc_policy demo_create_request False demo_config) ''ann'' [] = Inr s"
      "se_id s = ''u1''" "se_cancel s = 1" "se_created_at s = 0" "se_deferred_params s \<noteq> None"
    using demo_created by (elim exE conjE)
  have d: "ann_session = s" by (simp add: ann_session_def s(1))
  show "create_session demo_pf demo_services demo_config (apply_adhoc_policy demo_create_request False demo_config) ''ann'' [] = Inr ann_session"
    unfolding d by (rule s(1))
  show "se_id ann_session = ''u1''" "se_cancel ann_session = 1" "se_created_at ann_session = 0"
    "\<exists>p. se_deferred_params ann_session = Some p" using s(2-5) by (simp_all add: d)
  show "se_status ann_session = Pending" "se_created_by ann_session = ''ann''" "se_active_connections ann_session = 0"
    unfolding d by (rule create_session_Inr [OF s(1)], simp)+
qed

lemma demo_handshake: "\<exists>l. connect_and_handshake (Inr demo_link) params = Inr (l, ''$1'')"
proof -
  obtain w h d x where "screen params = (w, h, d, x)" by (cases "screen params")
  with dialogue_ok [of demo_link "[''hostname'', ''disable-paste'', ''new'']" "[''$1'']" "''4.sync,1.0;''" _ w h d x]
  show ?thesis by (simp add: connect_and_handshake_def demo_link_def plain_def is_ascii_def byte_of_def)
qed

lemma demo_reach0: "reachable demo_pf demo_config demo_gateway0"
proof (rule reachable.step [OF reachable.start])
  have "gw_step demo_pf demo_config gateway_new
      (gateway_new\<lparr>gw_manager := insert_session ann_session (gw_manager gateway_new),
        gw_created := (gw_created gateway_new)(se_id ann_session \<mapsto> ''ann''),
        gw_tokens := (gw_tokens gateway_new)(se_cancel ann_session \<mapsto> se_id ann_session)\<rparr>)"
    by (rule gw_step.create [OF ann_session(1)]) (simp_all add: gateway_new_def)
  then show "gw_step demo_pf demo_config gateway_new demo_gateway0"
    by (simp add: demo_gateway0_def ann_session(2,3)) (simp add: gateway_new_def)
qed

lemma demo_reach1: "reachable demo_pf demo_config demo_gateway1"
proof (rule reachable.step [OF demo_reach0])
  have "get_sess ''u1'' (gw_manager demo_gateway0) = Some ann_session"
    by (simp add: demo_gateway0_def ann_session)
  then have "ws_handler [] (Some ann) ''u1'' (gw_manager demo_gateway0) = Ws_upgrade True"
    by (simp add: ws_handler_def is_session_pending_def get_session_creator_def ann_session ann_def has_role_def
        is_session_owner_def get_header_def eq_ignore_ascii_case_def)
  from gw_step.upgrade [OF this, of demo_pf demo_config None]
  show "gw_step demo_pf demo_config demo_gateway0 demo_gateway1"
    by (simp add: demo_gateway1_def demo_gateway0_def gateway_new_def)
qed

lemma demo_take:
  "\<exists>l. take_guacd_stream (Inr demo_link) ''u1'' (gw_manager demo_gateway1) = (Some (l, 1), demo_taken)"
  "\<exists>s. get_sess ''u1'' demo_taken = Some s \<and> se_status s = Active \<and> se_created_at s = 0 \<and> se_cancel s = 1 \<and>
     se_share_token s = se_share_token ann_session \<and> se_share_token_ro s = se_share_token_ro ann_session \<and>
     se_shadow_tokens s = se_shadow_tokens ann_session"
  "mg_cancelled demo_taken = {}"
proof -
  obtain p where p: "se_deferred_params ann_session = Some p" using ann_session(5) ..
  obtain l where l: "connect_and_handshake (Inr demo_link) p = Inr (l, ''$1'')" using demo_handshake ..
  have g: "get_sess ''u1'' (gw_manager demo_gateway1) = Some ann_session"
    by (simp add: demo_gateway1_def demo_gateway0_def ann_session)
  have t: "take_guacd_stream (Inr demo_link) ''u1'' (gw_manager demo_gateway1) = (Some (l, 1),
      with_session ''u1'' (\<lambda>_. ann_session\<lparr>se_deferred_params := None, se_guacd_stream := Some l, se_connection_id := ''$1'',
        se_guacd_stream := None, se_status := Active, se_active_connections := 1\<rparr>) (gw_manager demo_gateway1))"
    by (simp add: take_guacd_stream_def g ann_session p l)
  then show "\<exists>l. take_guacd_stream (Inr demo_link) ''u1'' (gw_manager demo_gateway1) = (Some (l, 1), demo_taken)"
    by (simp add: demo_taken_def)
  show "\<exists>s. get_sess ''u1'' demo_taken = Some s \<and> se_status s = Active \<and> se_created_at s = 0 \<and> se_cancel s = 1 \<and>
     se_share_token s = se_share_token ann_session \<and> se_share_token_ro s = se_share_token_ro ann_session \<and>
     se_shadow_tokens s = se_shadow_tokens ann_session"
    by (simp add: demo_taken_def t g ann_session)
  show "mg_cancelled demo_taken = {}"
    by (simp add: demo_taken_def t) (simp add: demo_gateway1_def demo_gateway0_def insert_session_def manager_new_def)
qed

lemma demo_reach2: "reachable demo_pf demo_config demo_gateway2"
proof (rule reachable.step [OF demo_reach1])
  obtain l where "take_guacd_stream (Inr demo_link) ''u1'' (gw_manager demo_gateway1) = (Some (l, 1), demo_taken)"
    using demo_take(1) ..
  from gw_step.take_owner [OF _ this, of 0 None demo_pf demo_config]
  show "gw_step demo_pf demo_config demo_gateway1 demo_gateway2"
    by (simp add: demo_gateway2_def) (simp add: demo_gateway1_def demo_gateway0_def gateway_new_def)
qed

text \<open>A viewer with the share token of the session.\<close>

definition demo_share_token :: str where "demo_share_token = se_share_token ann_session"

definition demo_join_link :: link where
  "demo_join_link = demo_link\<lparr>l_in := encode (instr ''args'' [''read-only'']) @ encode (instr ''ready'' [])\<rparr>"

definition demo_viewer :: "socket_state \<Rightarrow> gateway" where
  "demo_viewer st = demo_gateway2\<lparr>gw_sockets := gw_sockets demo_gateway2 @
     [\<lparr>so_session = ''u1'', so_identity = None, so_state = st\<rparr>]\<rparr>"

definition demo_gateway3 :: gateway where
  "demo_gateway3 = (demo_viewer (Attached False 1))\<lparr>gw_manager := join_end ''u1'' demo_taken,
     gw_grants := Joined ''u1'' False # gw_grants demo_gateway2\<rparr>"

lemma demo_join: "\<exists>l. join_connection (Inr demo_join_link) cid w h 96 False = Inr l"
  using dialogue_ok [of demo_join_link "[''read-only'']" "[]" "[]" cid w h 96 False "\<lambda>names. join_arg_values names False"]
  by (simp add: join_connection_def demo_join_link_def demo_link_def plain_def is_ascii_def byte_of_def)

lemma demo_sockets2:
  "gw_sockets demo_gateway2 = [\<lparr>so_session = ''u1'', so_identity = Some ann, so_state = Attached True 1\<rparr>]"
  "gw_manager demo_gateway2 = demo_taken"
  by (simp_all add: demo_gateway2_def moves_def demo_gateway1_def)

lemma demo_viewer:
  "in_state 1 ''u1'' st (demo_viewer st)" "gw_manager (demo_viewer st) = demo_taken"
  "gw_grants (demo_viewer st) = gw_grants demo_gateway2"
  "moves 1 st' (demo_viewer st) = demo_viewer st'"
  "moves 1 st' ((demo_viewer st)\<lparr>gw_manager := mg, gw_grants := gs\<rparr>) = (demo_viewer st')\<lparr>gw_manager := mg, gw_grants := gs\<rparr>"
  by (simp_all add: moves_def demo_viewer_def demo_sockets2)

lemma demo_reach3: "reachable demo_pf demo_config demo_gateway3"
proof -
  let ?reach = "\<lambda>st. reachable demo_pf demo_config (demo_viewer st)"
  obtain s where s: "get_sess ''u1'' demo_taken = Some s" "se_status s = Active" "se_cancel s = 1"
      "se_share_token s = demo_share_token"
    using demo_take(2) by (auto simp: demo_share_token_def)
  have "ws_handler [] None ''u1'' (gw_manager demo_gateway2) = Ws_upgrade False"
    by (simp add: ws_handler_def is_session_pending_def demo_sockets2 s get_header_def)
  from gw_step.upgrade [OF this, of demo_pf demo_config "Some demo_share_token"]
  have "?reach (Upgraded False (Some demo_share_token))"
    unfolding demo_viewer_def by (rule reachable.step [OF demo_reach2])
  from reachable.step [OF this gw_step.not_owner [OF demo_viewer(1)]]
  have 1: "?reach (Unowned (Some demo_share_token))" by (simp only: demo_viewer)
  have "validate_share_token demo_pf 0 ''u1'' demo_share_token demo_taken = Owner"
    by (simp add: validate_share_token_def s check_share_token_match_def)
  then have "gw_step demo_pf demo_config (demo_viewer (Unowned (Some demo_share_token))) (demo_viewer (Validated False))"
    using gw_step.validate [OF demo_viewer(1), of demo_pf 0 demo_share_token Owner demo_config] by (simp only: demo_viewer) simp
  from reachable.step [OF 1 this] have 2: "?reach (Validated False)" .
  have "join_begin ''u1'' (gw_manager (demo_viewer (Validated False))) = Inr (se_connection_id s, se_width s, se_height s, 1)"
    by (simp add: demo_viewer join_begin_def s)
  from reachable.step [OF 2 gw_step.joining [OF demo_viewer(1) this]]
  have 3: "?reach (Joining False (se_connection_id s, se_width s, se_height s) 1)" by (simp only: demo_viewer)
  obtain l where "join_connection (Inr demo_join_link) (se_connection_id s) (se_width s) (se_height s) 96 False = Inr l"
    using demo_join ..
  from reachable.step [OF 3 gw_step.joined [OF demo_viewer(1) this]]
  show ?thesis by (simp only: demo_gateway3_def demo_viewer)
qed

lemma demo_sockets3:
  "in_state 0 ''u1'' (Attached True 1) demo_gateway3" "in_state 1 ''u1'' (Attached False 1) demo_gateway3"
  "gw_manager demo_gateway3 = join_end ''u1'' demo_taken" "gw_created demo_gateway3 = [''u1'' \<mapsto> ''ann'']"
  "length (gw_sockets demo_gateway3) = 2"
  by (simp_all add: demo_gateway3_def demo_viewer_def demo_sockets2)
    (simp add: demo_gateway2_def demo_gateway1_def demo_gateway0_def)

lemma demo_live: "\<exists>s. get_sess ''u1'' (gw_manager demo_gateway3) = Some s \<and> se_status s = Active"
  using demo_take(2) by (auto simp: demo_sockets3(3) join_end_def)

theorem owner_stream_safe_witness:
  "takes ''u1'' (gw_grants demo_gateway3) = 1 \<and> is_session_owner ann (Some ''ann'')"
proof -
  have "Took_stream ''u1'' (Some ann) \<in> set (gw_grants demo_gateway3)"
    by (simp add: demo_gateway3_def demo_gateway2_def moves_grants)
  from owner_stream_safe [OF demo_reach3 this] show ?thesis by (auto simp: demo_sockets3(4))
qed

theorem connection_count_exact_witness:
  "\<exists>s. get_sess ''u1'' (gw_manager demo_gateway3) = Some s \<and> se_active_connections s = 2"
proof -
  obtain s where s: "get_sess ''u1'' (gw_manager demo_gateway3) = Some s" using demo_live by auto
  have "length (filter (\<lambda>so. so_session so = ''u1'' \<and> is_attached (so_state so)) (gw_sockets demo_gateway3)) = 2"
    by (simp add: demo_gateway3_def demo_viewer_def demo_sockets2)
  with connection_count_exact [OF demo_reach3 s] s show ?thesis by simp
qed

lemma demo_cancelled: "mg_cancelled (gw_manager demo_gateway3) = {}"
  by (simp add: demo_sockets3(3) join_end_def demo_take(3))

theorem session_lifecycle_witness:
  "\<exists>s s'. get_sess ''u1'' (gw_manager demo_gateway3) = Some s \<and>
     get_sess ''u1'' (gw_manager (demo_gateway3\<lparr>gw_manager := expire_pending demo_config ''u1'' (gw_manager demo_gateway3)\<rparr>)) = Some s' \<and>
     forward (se_status s) (se_status s') \<and> se_status s' = Active"
proof -
  let ?gw = "demo_gateway3\<lparr>gw_manager := expire_pending demo_config ''u1'' (gw_manager demo_gateway3)\<rparr>"
  obtain s where s: "get_sess ''u1'' (gw_manager demo_gateway3) = Some s" "se_status s = Active" using demo_live by auto
  have g: "get_sess ''u1'' (gw_manager ?gw) = Some s" by (simp add: expire_pending_def s)
  have "(gw_step demo_pf demo_config)\<^sup>*\<^sup>* demo_gateway3 ?gw" by (intro r_into_rtranclp gw_step.expire)
  from session_lifecycle [OF this _ g] have "\<exists>s0. get_sess ''u1'' (gw_manager demo_gateway3) = Some s0 \<and> forward (se_status s0) (se_status s)"
    by (auto simp: demo_sockets3(4))
  with g s show ?thesis by auto
qed

theorem delete_reaches_all_witness:
  "1 \<in> mg_cancelled (snd (delete_session ''u1'' (gw_manager demo_gateway3))) \<and>
   1 \<notin> mg_cancelled (gw_manager demo_gateway3)"
proof -
  obtain s where s: "get_sess ''u1'' (gw_manager demo_gateway3) = Some s" using demo_live by auto
  then have d: "delete_session ''u1'' (gw_manager demo_gateway3) = (True, snd (delete_session ''u1'' (gw_manager demo_gateway3)))"
    by (simp add: delete_session_def)
  have so: "gw_sockets demo_gateway3 ! 1 \<in> set (gw_sockets demo_gateway3)"
      "held_token (so_state (gw_sockets demo_gateway3 ! 1)) = Some 1" "so_session (gw_sockets demo_gateway3 ! 1) = ''u1''"
    using demo_sockets3(2,5) by simp_all
  show ?thesis
    using delete_reaches_all [OF demo_reach3 d so(1,2) rtranclp.rtrancl_refl] so(3) demo_cancelled by simp
qed

theorem shadow_token_life_witness:
  "\<exists>mg. mint_shadow_token demo_pf 5 (''x'' @ demo_share_token @ se_share_token_ro ann_session) ''u1'' ''root'' True demo_taken = mg \<and>
     validate_share_token demo_pf 6 ''u1'' (''x'' @ demo_share_token @ se_share_token_ro ann_session) (snd mg) = Shadow ''root'' True"
proof -
  let ?raw = "''x'' @ demo_share_token @ se_share_token_ro ann_session"
  obtain s where s: "get_sess ''u1'' demo_taken = Some s" "se_status s = Active"
      "se_share_token s = demo_share_token" "se_share_token_ro s = se_share_token_ro ann_session"
      "se_shadow_tokens s = se_shadow_tokens ann_session"
    using demo_take(2) by (auto simp: demo_share_token_def)
  have "se_shadow_tokens ann_session = []" by (rule create_session_Inr [OF ann_session(1)])
  moreover have "?raw \<noteq> demo_share_token" "?raw \<noteq> se_share_token_ro ann_session"
    by (auto dest!: arg_cong [where f = length])
  ultimately have f: "pf_hash demo_pf ?raw \<notin> {pf_hash demo_pf (se_share_token s), pf_hash demo_pf (se_share_token_ro s)} \<union>
      st_token_hash ` set (se_shadow_tokens s)"
    using s by (simp add: demo_pf_def)
  have "mint_shadow_token demo_pf 5 ?raw ''u1'' ''root'' True demo_taken =
      (fst (mint_shadow_token demo_pf 5 ?raw ''u1'' ''root'' True demo_taken),
       snd (mint_shadow_token demo_pf 5 ?raw ''u1'' ''root'' True demo_taken))" by simp
  from shadow_token_life [OF s(1) f this, of 6] s(2) show ?thesis by (simp add: SHADOW_TTL_def)
qed

theorem viewer_failure_orphans_owner_witness:
  "\<exists>orphaned. (gw_step demo_pf demo_config)\<^sup>*\<^sup>* demo_gateway3 orphaned \<and>
     in_state 0 ''u1'' (Attached True 1) orphaned \<and> get_sess ''u1'' (gw_manager orphaned) = None"
proof -
  obtain s where s: "get_sess ''u1'' (gw_manager demo_gateway3) = Some s" "se_status s = Active" using demo_live by auto
  have "(1::nat) \<notin> mg_cancelled (gw_manager demo_gateway3)" by (simp add: demo_cancelled)
  from viewer_failure_orphans_owner [OF demo_reach3 s demo_sockets3(1,2) this]
  show ?thesis by (meson rtranclp.rtrancl_refl rtranclp_trans)
qed

end
