(* ===== verification/Address_Book.thy ===== *)
theory Address_Book
  imports Session_Create Auth
begin

text \<open>
  The address book of \<^verbatim>\<open>src/src/vault.rs\<close>: entries and what users see of them, names and paths,
  who may open a folder, the credentials a folder lends, the variables of a user.

  Vault itself is outside: a request is answered by a status and a body (\<open>reply\<close>), and serde's
  readers of the bodies are arguments. A \<open>BTreeMap\<close> or \<open>HashMap\<close> is an association list.
\<close>

section \<open>Entries\<close>

text \<open>\<open>Http\<close> holds the text of the client's error.\<close>

datatype vault_error =
  Vault_auth str | Vault_not_found | Vault_forbidden | Vault_http str | Vault_parse str | Bad_name str | Vault_unavailable

fun vault_error_text :: "vault_error \<Rightarrow> str" where
  "vault_error_text (Vault_auth msg) = ''vault auth error: '' @ msg"
| "vault_error_text Vault_not_found = ''not found in vault''"
| "vault_error_text Vault_forbidden = ''vault access denied''"
| "vault_error_text (Vault_http e) = ''vault HTTP error: '' @ e"
| "vault_error_text (Vault_parse msg) = ''vault response parse error: '' @ msg"
| "vault_error_text (Bad_name msg) = ''invalid name: '' @ msg"
| "vault_error_text Vault_unavailable = ''vault backend not available''"

record address_book_entry =
  ab_session_type :: str
  ab_hostname :: "str option"
  ab_port :: "nat option"
  ab_username :: "str option"
  ab_password :: "str option"
  ab_private_key :: "str option"
  ab_url :: "str option"
  ab_domain :: "str option"
  ab_security :: "str option"
  ab_server_layout :: "str option"
  ab_ignore_cert :: "bool option"
  ab_display_name :: "str option"
  ab_enable_drive :: "bool option"
  ab_auth_pkg :: "str option"
  ab_kdc_url :: "str option"
  ab_prompt_credentials :: "bool option"
  ab_color_depth :: "nat option"
  ab_jump_hosts :: "jump_host list option"
  ab_jump_host :: "str option"
  ab_jump_port :: "nat option"
  ab_jump_username :: "str option"
  ab_jump_password :: "str option"
  ab_jump_private_key :: "str option"
  ab_remote_app :: "str option"
  ab_remote_app_dir :: "str option"
  ab_remote_app_args :: "str option"
  ab_enable_recording :: "bool option"
  ab_max_recordings :: "nat option"
  ab_record_typescript :: "bool option"
  ab_login_script :: "str option"
  ab_autofill :: "str option"
  ab_allowed_domains :: "str list option"
  ab_vnc_resize :: "bool option"
  ab_vnc_network :: "str option"
  ab_disable_copy :: "bool option"
  ab_disable_paste :: "bool option"
  ab_banner :: "str option"
  ab_enable_gfx :: "bool option"
  ab_enable_desktop_composition :: "bool option"
  ab_enable_wallpaper :: "bool option"
  ab_enable_theming :: "bool option"
  ab_enable_full_window_drag :: "bool option"
  ab_force_lossless :: "bool option"
  ab_enable_h264 :: "bool option"
  ab_h264_chroma444 :: "bool option"
  ab_native_resolution :: "bool option"
  ab_container_image :: "str option"
  ab_container_cpu_limit :: "rat option"
  ab_container_memory_limit :: "nat option"
  ab_container_env :: "(str \<times> str) list option"
  ab_container_idle_timeout_mins :: "nat option"
  ab_container_username :: "str option"
  ab_container_password :: "str option"
  ab_allow_sharing :: "bool option"
  ab_auto_open_if_singleton :: "bool option"
  ab_fullscreen_on_connect :: "bool option"
  ab_autohide_side_tabs :: "bool option"
  ab_spice_tls :: "bool option"
  ab_spice_tls_port :: "nat option"
  ab_spice_ca_cert :: "str option"
  ab_spice_cert_subject :: "str option"
  ab_spice_proxy :: "str option"
  ab_proxmox_url :: "str option"
  ab_proxmox_node :: "str option"
  ab_proxmox_vmid :: "nat option"
  ab_proxmox_token_id :: "str option"
  ab_proxmox_token_secret :: "str option"
  ab_proxmox_verify_tls :: "bool option"
  ab_max_monitors :: "nat option"
  ab_ssh_font_size :: "nat option"
  ab_wol_send_packet :: "bool option"
  ab_wol_mac_addr :: "str option"
  ab_wol_broadcast_addr :: "str option"
  ab_wol_udp_port :: "nat option"
  ab_wol_wait_time :: "nat option"
  ab_external_id :: "str option"

definition normalize_jump_hosts :: "address_book_entry \<Rightarrow> address_book_entry" where
  "normalize_jump_hosts e =
     (if ab_jump_hosts e \<noteq> None then e
      else
        (let e = (case filter_opt (\<lambda>h. h \<noteq> []) (ab_jump_host e) of
                    Some h \<Rightarrow> e\<lparr>ab_jump_hosts := Some [\<lparr>jh_hostname = h,
                      jh_port = (case ab_jump_port e of None \<Rightarrow> 22 | Some p \<Rightarrow> p),
                      jh_username = or_default (ab_jump_username e), jh_password = ab_jump_password e,
                      jh_private_key = ab_jump_private_key e, jh_host_key = None\<rparr>]\<rparr>
                  | None \<Rightarrow> e)
         in e\<lparr>ab_jump_host := None, ab_jump_port := None, ab_jump_username := None, ab_jump_password := None,
              ab_jump_private_key := None\<rparr>))"

definition nonempty :: "str option \<Rightarrow> bool" where
  "nonempty v = (case v of None \<Rightarrow> False | Some s \<Rightarrow> s \<noteq> [])"

definition entry_has_own_credentials :: "address_book_entry \<Rightarrow> bool" where
  "entry_has_own_credentials e \<longleftrightarrow> nonempty (ab_password e) \<or> nonempty (ab_private_key e)"

definition entry_takes_folder_defaults :: "address_book_entry \<Rightarrow> bool" where
  "entry_takes_folder_defaults e \<longleftrightarrow> \<not> entry_has_own_credentials e \<and> ab_prompt_credentials e \<noteq> Some True"

section \<open>Credential variables\<close>

definition is_credential_variable :: "str \<Rightarrow> bool" where
  "is_credential_variable s =
     (case s of
        [] \<Rightarrow> False
      | c # name \<Rightarrow> c = CHR ''$'' \<and> name \<noteq> [] \<and>
          list_all (\<lambda>c. is_ascii_alphanumeric c \<or> c = CHR ''_'' \<or> c = CHR ''-'') name)"

definition variable_name :: "str \<Rightarrow> str option" where
  "variable_name s = (if is_credential_variable s then Some (tl s) else None)"

text \<open>The six fields that may hold a variable.\<close>

definition credential_fields :: "address_book_entry \<Rightarrow> str option list" where
  "credential_fields e = [ab_username e, ab_password e, ab_domain e, ab_private_key e, ab_container_username e,
     ab_container_password e]"

definition entry_credential_variables :: "address_book_entry \<Rightarrow> str list" where
  "entry_credential_variables e =
     List.map_filter (\<lambda>field. Option.bind field variable_name) (credential_fields e)"

text \<open>A field and the missing names so far.\<close>

definition resolve_field :: "(str \<rightharpoonup> str) \<Rightarrow> str option \<Rightarrow> str list \<Rightarrow> str option \<times> str list" where
  "resolve_field creds field missing =
     (case Option.bind field variable_name of
        None \<Rightarrow> (field, missing)
      | Some name \<Rightarrow>
          (case creds name of
             Some v \<Rightarrow> (Some v, missing)
           | None \<Rightarrow> (field, missing @ [name])))"

definition resolve_credential_variables ::
  "address_book_entry \<Rightarrow> (str \<rightharpoonup> str) \<Rightarrow> str list + address_book_entry" where
  "resolve_credential_variables e creds =
     (let (username, m) = resolve_field creds (ab_username e) [];
          (password, m) = resolve_field creds (ab_password e) m;
          (domain, m) = resolve_field creds (ab_domain e) m;
          (private_key, m) = resolve_field creds (ab_private_key e) m;
          (container_username, m) = resolve_field creds (ab_container_username e) m;
          (container_password, m) = resolve_field creds (ab_container_password e) m
      in if m = [] then Inr (e\<lparr>ab_username := username, ab_password := password, ab_domain := domain,
             ab_private_key := private_key, ab_container_username := container_username,
             ab_container_password := container_password\<rparr>)
         else Inl m)"

section \<open>What users see of an entry\<close>

record jump_host_info =
  ji_hostname :: str
  ji_port :: nat
  ji_username :: str
  ji_host_key_fingerprint :: "str option"

record entry_info =
  ei_name :: str
  ei_session_type :: str
  ei_hostname :: "str option"
  ei_port :: "nat option"
  ei_username :: "str option"
  ei_url :: "str option"
  ei_display_name :: "str option"
  ei_domain :: "str option"
  ei_security :: "str option"
  ei_ignore_cert :: "bool option"
  ei_enable_drive :: "bool option"
  ei_auth_pkg :: "str option"
  ei_kdc_url :: "str option"
  ei_prompt_credentials :: "bool option"
  ei_has_credentials :: bool
  ei_inherited_credentials :: bool
  ei_color_depth :: "nat option"
  ei_jump_hosts :: "jump_host_info list option"
  ei_remote_app :: "str option"
  ei_remote_app_dir :: "str option"
  ei_remote_app_args :: "str option"
  ei_enable_recording :: "bool option"
  ei_max_recordings :: "nat option"
  ei_record_typescript :: "bool option"
  ei_login_script :: "str option"
  ei_autofill :: "str option"
  ei_allowed_domains :: "str list option"
  ei_vnc_resize :: "bool option"
  ei_vnc_network :: "str option"
  ei_disable_copy :: "bool option"
  ei_disable_paste :: "bool option"
  ei_banner :: "str option"
  ei_credential_variables :: "str list"
  ei_enable_gfx :: "bool option"
  ei_enable_desktop_composition :: "bool option"
  ei_enable_wallpaper :: "bool option"
  ei_enable_theming :: "bool option"
  ei_enable_full_window_drag :: "bool option"
  ei_force_lossless :: "bool option"
  ei_enable_h264 :: "bool option"
  ei_h264_chroma444 :: "bool option"
  ei_native_resolution :: "bool option"
  ei_container_image :: "str option"
  ei_container_cpu_limit :: "rat option"
  ei_container_memory_limit :: "nat option"
  ei_container_env :: "(str \<times> str) list option"
  ei_container_idle_timeout_mins :: "nat option"
  ei_container_username :: "str option"
  ei_has_container_password :: bool
  ei_allow_sharing :: "bool option"
  ei_auto_open_if_singleton :: "bool option"
  ei_fullscreen_on_connect :: "bool option"
  ei_autohide_side_tabs :: "bool option"
  ei_spice_tls :: "bool option"
  ei_spice_tls_port :: "nat option"
  ei_spice_ca_cert :: "str option"
  ei_spice_cert_subject :: "str option"
  ei_spice_proxy :: "str option"
  ei_proxmox_url :: "str option"
  ei_proxmox_node :: "str option"
  ei_proxmox_vmid :: "nat option"
  ei_proxmox_verify_tls :: "bool option"
  ei_proxmox_token_id :: "str option"
  ei_has_proxmox_token_secret :: bool
  ei_max_monitors :: "nat option"
  ei_ssh_font_size :: "nat option"
  ei_wol_send_packet :: "bool option"
  ei_wol_mac_addr :: "str option"
  ei_wol_broadcast_addr :: "str option"
  ei_wol_udp_port :: "nat option"
  ei_wol_wait_time :: "nat option"
  ei_external_id :: "str option"

definition jump_host_info_of :: "(str \<Rightarrow> str option) \<Rightarrow> jump_host \<Rightarrow> jump_host_info" where
  "jump_host_info_of fingerprint h = \<lparr>ji_hostname = jh_hostname h, ji_port = jh_port h, ji_username = jh_username h,
     ji_host_key_fingerprint = Option.bind (jh_host_key h) fingerprint\<rparr>"

definition entry_info_of :: "(str \<Rightarrow> str option) \<Rightarrow> str \<Rightarrow> address_book_entry \<Rightarrow> entry_info" where
  "entry_info_of fingerprint name e =
     \<lparr>ei_name = name, ei_session_type = ab_session_type e, ei_hostname = ab_hostname e,
       ei_port = ab_port e, ei_username = ab_username e, ei_url = ab_url e,
       ei_display_name = ab_display_name e, ei_domain = ab_domain e, ei_security = ab_security e,
       ei_ignore_cert = ab_ignore_cert e, ei_enable_drive = ab_enable_drive e, ei_auth_pkg = ab_auth_pkg e,
       ei_kdc_url = ab_kdc_url e, ei_prompt_credentials = ab_prompt_credentials e,
       ei_has_credentials = entry_has_own_credentials e, ei_inherited_credentials = False,
       ei_color_depth = ab_color_depth e,
       ei_jump_hosts = map_option (map (jump_host_info_of fingerprint)) (ab_jump_hosts e),
       ei_remote_app = ab_remote_app e, ei_remote_app_dir = ab_remote_app_dir e,
       ei_remote_app_args = ab_remote_app_args e, ei_enable_recording = ab_enable_recording e,
       ei_max_recordings = ab_max_recordings e, ei_record_typescript = ab_record_typescript e,
       ei_login_script = ab_login_script e, ei_autofill = ab_autofill e,
       ei_allowed_domains = ab_allowed_domains e, ei_vnc_resize = ab_vnc_resize e,
       ei_vnc_network = ab_vnc_network e, ei_disable_copy = ab_disable_copy e,
       ei_disable_paste = ab_disable_paste e, ei_banner = ab_banner e,
       ei_credential_variables = entry_credential_variables e, ei_enable_gfx = ab_enable_gfx e,
       ei_enable_desktop_composition = ab_enable_desktop_composition e,
       ei_enable_wallpaper = ab_enable_wallpaper e, ei_enable_theming = ab_enable_theming e,
       ei_enable_full_window_drag = ab_enable_full_window_drag e, ei_force_lossless = ab_force_lossless e,
       ei_enable_h264 = ab_enable_h264 e, ei_h264_chroma444 = ab_h264_chroma444 e,
       ei_native_resolution = ab_native_resolution e, ei_container_image = ab_container_image e,
       ei_container_cpu_limit = ab_container_cpu_limit e,
       ei_container_memory_limit = ab_container_memory_limit e, ei_container_env = ab_container_env e,
       ei_container_idle_timeout_mins = ab_container_idle_timeout_mins e,
       ei_container_username = ab_container_username e,
       ei_has_container_password = nonempty (ab_container_password e), ei_allow_sharing = ab_allow_sharing e,
       ei_auto_open_if_singleton = ab_auto_open_if_singleton e,
       ei_fullscreen_on_connect = ab_fullscreen_on_connect e, ei_autohide_side_tabs = ab_autohide_side_tabs e,
       ei_spice_tls = ab_spice_tls e, ei_spice_tls_port = ab_spice_tls_port e,
       ei_spice_ca_cert = ab_spice_ca_cert e, ei_spice_cert_subject = ab_spice_cert_subject e,
       ei_spice_proxy = ab_spice_proxy e, ei_proxmox_url = ab_proxmox_url e,
       ei_proxmox_node = ab_proxmox_node e, ei_proxmox_vmid = ab_proxmox_vmid e,
       ei_proxmox_verify_tls = ab_proxmox_verify_tls e, ei_proxmox_token_id = ab_proxmox_token_id e,
       ei_has_proxmox_token_secret = nonempty (ab_proxmox_token_secret e), ei_max_monitors = ab_max_monitors e,
       ei_ssh_font_size = ab_ssh_font_size e, ei_wol_send_packet = ab_wol_send_packet e,
       ei_wol_mac_addr = ab_wol_mac_addr e, ei_wol_broadcast_addr = ab_wol_broadcast_addr e,
       ei_wol_udp_port = ab_wol_udp_port e, ei_wol_wait_time = ab_wol_wait_time e,
       ei_external_id = ab_external_id e\<rparr>"

section \<open>Names and paths\<close>

definition name_char :: "char \<Rightarrow> bool" where
  "name_char c \<longleftrightarrow> is_ascii_alphanumeric c \<or> c = CHR ''-'' \<or> c = CHR ''_'' \<or> c = CHR ''.''"

definition validate_name :: "str \<Rightarrow> vault_error + unit" where
  "validate_name name =
     (if name = [] \<or> 64 < length name then Inl (Bad_name ''name must be 1-64 characters'')
      else if name \<in> {''.config'', ''.defaults'', ''.'', ''..''} then Inl (Bad_name ''reserved name'')
      else if CHR ''/'' \<in> set name \<or> CHR 0x5C \<in> set name then Inl (Bad_name ''name cannot contain path separators'')
      else if \<not> list_all name_char name
      then Inl (Bad_name ''name must be alphanumeric, hyphens, underscores, or dots'')
      else Inr ())"

fun validate_segments :: "str list \<Rightarrow> vault_error + unit" where
  "validate_segments [] = Inr ()"
| "validate_segments (s # ss) = (case validate_name s of Inl e \<Rightarrow> Inl e | Inr _ \<Rightarrow> validate_segments ss)"

definition validate_path :: "str \<Rightarrow> vault_error + unit" where
  "validate_path path =
     (if path = [] then Inl (Bad_name ''path cannot be empty'')
      else if 256 < length path then Inl (Bad_name ''path too long (max 256 chars)'')
      else if hd path = CHR ''/'' \<or> last path = CHR ''/'' then Inl (Bad_name ''path cannot start or end with /'')
      else if contains ''//'' path then Inl (Bad_name ''path cannot contain empty segments'')
      else validate_segments (split_on CHR ''/'' path))"

definition sanitize_email_key :: "str \<Rightarrow> str" where
  "sanitize_email_key email = filter name_char (replace_all ''@'' ''_at_'' email)"

record vault_client =
  vt_mount :: str
  vt_base_path :: str
  vt_instance_name :: "str option"

definition resolve_scope_prefix :: "vault_client \<Rightarrow> str \<Rightarrow> vault_error + str" where
  "resolve_scope_prefix cl scope =
     (if scope = ''shared'' then Inr ''shared''
      else if scope = ''instance'' then
        (case vt_instance_name cl of
           Some name \<Rightarrow> Inr (''instance/'' @ name)
         | None \<Rightarrow> Inl (Bad_name ''no instance_name configured''))
      else Inl (Bad_name (''invalid scope: '' @ scope)))"

definition data_path :: "vault_client \<Rightarrow> str \<Rightarrow> str \<Rightarrow> str" where
  "data_path cl scope_prefix rest =
     ''/v1/'' @ vt_mount cl @ ''/data/'' @ vt_base_path cl @ ''/'' @ scope_prefix @ ''/'' @ rest"

definition metadata_path :: "vault_client \<Rightarrow> str \<Rightarrow> str \<Rightarrow> str" where
  "metadata_path cl scope_prefix rest =
     ''/v1/'' @ vt_mount cl @ ''/metadata/'' @ vt_base_path cl @ ''/'' @ scope_prefix @ ''/'' @ rest"

section \<open>Reading folders\<close>

text \<open>A body may be no JSON, or not a value of the type.\<close>

datatype de_error = Not_json str | Bad_value str

type_synonym 'b reply = "vault_error + nat \<times> 'b"

definition read_reply :: "('b \<Rightarrow> de_error + 'a) \<Rightarrow> str \<Rightarrow> 'b reply \<Rightarrow> vault_error + 'a" where
  "read_reply de what r =
     and_then r (\<lambda>(status, body).
       if status = 200 then
         (case de body of
            Inr x \<Rightarrow> Inr x
          | Inl (Not_json m) \<Rightarrow> Inl (Vault_http m)
          | Inl (Bad_value m) \<Rightarrow> Inl (Vault_parse (''invalid '' @ what @ '': '' @ m)))
       else if status = 404 then Inl Vault_not_found
       else if status = 403 then Inl Vault_forbidden
       else Inl (Vault_parse (''unexpected status '' @ show_nat status)))"

record folder_config =
  fc_allowed_groups :: "str list"
  fc_allowed_users :: "str list"
  fc_description :: str
  fc_display_name :: str
  fc_inherit_from_parent :: bool

record default_credentials =
  dc_username :: "str option"
  dc_password :: "str option"
  dc_private_key :: "str option"
  dc_domain :: "str option"

type_synonym folder_defaults = "(str \<times> default_credentials) list"

text \<open>What Vault answers to reads, and serde's readers.\<close>

record vault_answers =
  va_get :: "str \<Rightarrow> str reply"
  va_config :: "str \<Rightarrow> de_error + folder_config"
  va_defaults :: "str \<Rightarrow> de_error + folder_defaults"

definition get_folder_config :: "vault_client \<Rightarrow> vault_answers \<Rightarrow> str \<Rightarrow> str \<Rightarrow> vault_error + folder_config" where
  "get_folder_config cl va scope folder =
     and_then (validate_path folder) (\<lambda>_.
     and_then (resolve_scope_prefix cl scope) (\<lambda>prefix.
       read_reply (va_config va) ''.config'' (va_get va (data_path cl prefix (folder @ ''/.config'')))))"

definition get_folder_defaults :: "vault_client \<Rightarrow> vault_answers \<Rightarrow> str \<Rightarrow> str \<Rightarrow> vault_error + folder_defaults" where
  "get_folder_defaults cl va scope folder =
     and_then (validate_path folder) (\<lambda>_.
     and_then (resolve_scope_prefix cl scope) (\<lambda>prefix.
       read_reply (va_defaults va) ''.defaults'' (va_get va (data_path cl prefix (folder @ ''/.defaults'')))))"

section \<open>Who may open a folder\<close>

record folder_subject =
  fu_email :: "str option"
  fu_groups :: "str list"

fun folder_subject_of :: "auth_identity \<Rightarrow> folder_subject" where
  "folder_subject_of (ApiKey _) = \<lparr>fu_email = None, fu_groups = []\<rparr>"
| "folder_subject_of (User email _ groups) = \<lparr>fu_email = Some email, fu_groups = groups\<rparr>"

definition shares_parent_audience :: "folder_config \<Rightarrow> bool" where
  "shares_parent_audience c \<longleftrightarrow> fc_inherit_from_parent c \<and> fc_allowed_groups c = [] \<and> fc_allowed_users c = []"

definition grants :: "folder_config \<Rightarrow> folder_subject \<Rightarrow> bool" where
  "grants c who \<longleftrightarrow>
     list_ex (\<lambda>g. list_ex (\<lambda>ug. ug = g) (fu_groups who)) (fc_allowed_groups c) \<or>
     (case map_option trim (fu_email who) of
        Some email \<Rightarrow> email \<noteq> [] \<and> list_ex (\<lambda>u. eq_ignore_ascii_case (trim u) email) (fc_allowed_users c)
      | None \<Rightarrow> False)"

text \<open>\<open>str::rsplit_once(c)\<close>.\<close>

definition rsplit_once :: "char \<Rightarrow> str \<Rightarrow> (str \<times> str) option" where
  "rsplit_once c s = map_option (\<lambda>(a, b). (rev b, rev a)) (split_at_char c (rev s))"

lemma rsplit_once_Some: "rsplit_once c s = Some (a, b) \<longleftrightarrow> s = a @ c # b \<and> c \<notin> set b"
proof
  assume "rsplit_once c s = Some (a, b)"
  then have "split_at_char c (rev s) = Some (rev b, rev a)" by (auto simp: rsplit_once_def)
  then have "rev s = rev b @ c # rev a" "c \<notin> set b" by (simp_all add: split_at_char_Some)
  then show "s = a @ c # b \<and> c \<notin> set b" by (metis append.assoc append_Cons append_Nil rev.simps(2) rev_append rev_swap)
next
  assume "s = a @ c # b \<and> c \<notin> set b"
  then show "rsplit_once c s = Some (a, b)" by (simp add: rsplit_once_def)
qed

lemma rsplit_once_shorter: "rsplit_once c s = Some (a, b) \<Longrightarrow> length a < length s"
  by (simp add: rsplit_once_Some)

function resolve_folder_access ::
  "vault_client \<Rightarrow> vault_answers \<Rightarrow> str \<Rightarrow> folder_subject \<Rightarrow> str \<Rightarrow> vault_error + bool" where
  "resolve_folder_access cl va scope who current =
     (case get_folder_config cl va scope current of
        Inl Vault_not_found \<Rightarrow> Inr False
      | Inl e \<Rightarrow> Inl e
      | Inr config \<Rightarrow>
          if grants config who then Inr True
          else if \<not> fc_inherit_from_parent config then Inr False
          else
            (case rsplit_once CHR ''/'' current of
               Some (parent, _) \<Rightarrow> if parent \<noteq> [] then resolve_folder_access cl va scope who parent else Inr False
             | None \<Rightarrow> Inr False))"
  by pat_completeness auto
termination
  by (relation "measure (\<lambda>(cl, va, scope, who, current). length current)") (auto dest: rsplit_once_shorter)

declare resolve_folder_access.simps [simp del]

definition check_folder_access ::
  "vault_client \<Rightarrow> vault_answers \<Rightarrow> str \<Rightarrow> str \<Rightarrow> auth_identity \<Rightarrow> (nat \<times> str) + unit" where
  "check_folder_access cl va scope folder identity =
     (if has_role identity ''admin'' then Inr ()
      else
        (case resolve_folder_access cl va scope (folder_subject_of identity) folder of
           Inr True \<Rightarrow> Inr ()
         | Inr False \<Rightarrow> Inl (403, ''no access to this folder'')
         | Inl Vault_not_found \<Rightarrow> Inl (404, ''folder not found'')
         | Inl e \<Rightarrow> Inl (500, vault_error_text e)))"

section \<open>The credentials a folder lends\<close>

definition has_secret :: "default_credentials \<Rightarrow> bool" where
  "has_secret d \<longleftrightarrow> nonempty (dc_password d) \<or> nonempty (dc_private_key d)"

definition folder_defaults_of :: "vault_client \<Rightarrow> vault_answers \<Rightarrow> str \<Rightarrow> str \<Rightarrow> vault_error + folder_defaults option" where
  "folder_defaults_of cl va scope folder =
     (case get_folder_defaults cl va scope folder of
        Inr d \<Rightarrow> Inr (Some d)
      | Inl Vault_not_found \<Rightarrow> Inr None
      | Inl e \<Rightarrow> Inl e)"

definition takes_parent_defaults :: "vault_client \<Rightarrow> vault_answers \<Rightarrow> str \<Rightarrow> str \<Rightarrow> vault_error + bool" where
  "takes_parent_defaults cl va scope folder =
     (case get_folder_config cl va scope folder of
        Inr c \<Rightarrow> Inr (shares_parent_audience c)
      | Inl Vault_not_found \<Rightarrow> Inr False
      | Inl e \<Rightarrow> Inl e)"

text \<open>\<open>merged.entry(t).or_insert(creds)\<close> for every pair.\<close>

definition or_insert :: "str \<times> 'a \<Rightarrow> (str \<times> 'a) list \<Rightarrow> (str \<times> 'a) list" where
  "or_insert kv m = (case map_of m (fst kv) of None \<Rightarrow> m @ [kv] | Some _ \<Rightarrow> m)"

function defaults_walk ::
  "vault_client \<Rightarrow> vault_answers \<Rightarrow> str \<Rightarrow> str \<Rightarrow> folder_defaults \<Rightarrow> vault_error + folder_defaults" where
  "defaults_walk cl va scope path merged =
     (case folder_defaults_of cl va scope path of
        Inl e \<Rightarrow> Inl e
      | Inr own \<Rightarrow>
          (let merged = (case own of None \<Rightarrow> merged | Some d \<Rightarrow> fold or_insert d merged) in
           case rsplit_once CHR ''/'' path of
             None \<Rightarrow> Inr merged
           | Some (parent, _) \<Rightarrow>
               (case takes_parent_defaults cl va scope path of
                  Inl e \<Rightarrow> Inl e
                | Inr False \<Rightarrow> Inr merged
                | Inr True \<Rightarrow> defaults_walk cl va scope parent merged)))"
  by pat_completeness auto
termination
  by (relation "measure (\<lambda>(cl, va, scope, path, merged). length path)") (auto dest: rsplit_once_shorter)

declare defaults_walk.simps [simp del]

definition resolve_effective_defaults ::
  "vault_client \<Rightarrow> vault_answers \<Rightarrow> str \<Rightarrow> str \<Rightarrow> vault_error + folder_defaults option" where
  "resolve_effective_defaults cl va scope folder =
     and_then (defaults_walk cl va scope folder []) (\<lambda>merged. Inr (if merged = [] then None else Some merged))"

definition effective_folder_defaults ::
  "vault_client \<Rightarrow> vault_answers \<Rightarrow> str \<Rightarrow> str \<Rightarrow> vault_error + folder_defaults option" where
  "effective_folder_defaults cl va scope folder =
     and_then (validate_path folder) (\<lambda>_. resolve_effective_defaults cl va scope folder)"

definition apply_folder_defaults :: "address_book_entry \<Rightarrow> folder_defaults \<Rightarrow> address_book_entry \<times> bool" where
  "apply_folder_defaults e defaults =
     (if \<not> entry_takes_folder_defaults e then (e, False)
      else
        (case map_of defaults (ab_session_type e) of
           None \<Rightarrow> (e, False)
         | Some d \<Rightarrow>
             if \<not> has_secret d then (e, False)
             else
               (let e = (if \<not> nonempty (ab_username e) \<and> dc_username d \<noteq> None then e\<lparr>ab_username := dc_username d\<rparr> else e);
                    e = (if \<not> nonempty (ab_domain e) \<and> dc_domain d \<noteq> None then e\<lparr>ab_domain := dc_domain d\<rparr> else e)
                in (e\<lparr>ab_password := filter_opt (\<lambda>p. p \<noteq> []) (dc_password d),
                      ab_private_key := filter_opt (\<lambda>k. k \<noteq> []) (dc_private_key d)\<rparr>, True))))"

definition apply_inherited :: "address_book_entry \<Rightarrow> folder_defaults option \<Rightarrow> entry_info \<Rightarrow> entry_info" where
  "apply_inherited e defaults i =
     (if ei_has_credentials i \<or> \<not> entry_takes_folder_defaults e then i
      else
        (case Option.bind defaults (\<lambda>d. map_of d (ab_session_type e)) of
           Some d \<Rightarrow> if has_secret d then i\<lparr>ei_has_credentials := True, ei_inherited_credentials := True\<rparr> else i
         | None \<Rightarrow> i))"

text \<open>\<open>lend_folder_defaults\<close> of \<^verbatim>\<open>src/src/api.rs\<close>, behind every connection to a stored entry.\<close>

definition lend_folder_defaults ::
  "vault_client \<Rightarrow> vault_answers \<Rightarrow> str \<Rightarrow> str \<Rightarrow> address_book_entry \<Rightarrow> address_book_entry" where
  "lend_folder_defaults cl va scope folder e =
     (if \<not> entry_takes_folder_defaults e then e
      else
        (case resolve_effective_defaults cl va scope folder of
           Inr (Some d) \<Rightarrow> fst (apply_folder_defaults e d)
         | _ \<Rightarrow> e))"

section \<open>Lent secrets stay with the parent's audience\<close>

lemma map_of_or_insert: "map_of (or_insert kv m) t = (case map_of m t of Some c \<Rightarrow> Some c | None \<Rightarrow> map_of [kv] t)"
  by (cases kv) (auto simp: or_insert_def map_add_def split: option.split)

lemma map_of_fold_or_insert:
  "map_of (fold or_insert d m) t = (case map_of m t of Some c \<Rightarrow> Some c | None \<Rightarrow> map_of d t)"
  by (induction d arbitrary: m) (auto simp: map_of_or_insert split: option.splits)

lemma validate_path_hd: "validate_path path = Inr () \<Longrightarrow> path \<noteq> [] \<and> hd path \<noteq> CHR ''/''"
  by (auto simp: validate_path_def split: if_splits)

lemma get_folder_config_valid: "get_folder_config cl va scope path = Inr c \<Longrightarrow> validate_path path = Inr ()"
  by (auto simp: get_folder_config_def)

lemma parent_nonempty:
  "validate_path path = Inr () \<Longrightarrow> rsplit_once c path = Some (parent, rest) \<Longrightarrow> c = CHR ''/'' \<Longrightarrow> parent \<noteq> []"
  using validate_path_hd [of path] by (auto simp: rsplit_once_Some)

lemma shared_audience:
  assumes "takes_parent_defaults cl va scope path = Inr True" and "rsplit_once CHR ''/'' path = Some (parent, rest)"
  shows "resolve_folder_access cl va scope who path = resolve_folder_access cl va scope who parent"
proof -
  obtain c where c: "get_folder_config cl va scope path = Inr c" "shares_parent_audience c"
    using assms(1) by (auto simp: takes_parent_defaults_def split: sum.splits vault_error.splits)
  have "parent \<noteq> []" using parent_nonempty [OF get_folder_config_valid [OF c(1)] assms(2)] by simp
  moreover have "\<not> grants c who" "fc_inherit_from_parent c"
    using c(2) by (auto simp: shares_parent_audience_def grants_def split: option.split)
  ultimately show ?thesis
    using c(1) assms(2) by (subst resolve_folder_access.simps) simp
qed

definition below :: "str \<Rightarrow> str \<Rightarrow> bool" where
  "below folder source \<longleftrightarrow> folder = source \<or> (\<exists>rest. folder = source @ CHR ''/'' # rest)"

lemma below_parent: "rsplit_once CHR ''/'' path = Some (parent, rest) \<Longrightarrow> below parent source \<Longrightarrow> below path source"
  by (auto simp: below_def rsplit_once_Some)

lemma defaults_walk_source:
  assumes "defaults_walk cl va scope path merged = Inr out" and "map_of out t = Some creds"
  shows "map_of merged t = Some creds \<or>
    (\<exists>source own. below path source \<and> folder_defaults_of cl va scope source = Inr (Some own) \<and> map_of own t = Some creds \<and>
       (\<forall>who. resolve_folder_access cl va scope who path = resolve_folder_access cl va scope who source))"
  using assms
proof (induction cl va scope path merged rule: defaults_walk.induct)
  case (1 cl va scope path merged)
  obtain own where own: "folder_defaults_of cl va scope path = Inr own"
    using 1(2) by (subst (asm) defaults_walk.simps) (auto split: sum.splits)
  define m where "m = (case own of None \<Rightarrow> merged | Some d \<Rightarrow> fold or_insert d merged)"
  have here: "map_of merged t = Some creds \<or> (\<exists>d. own = Some d \<and> map_of d t = Some creds)" if "map_of m t = Some creds"
    using that by (auto simp: m_def map_of_fold_or_insert split: option.splits)
  show ?case
  proof (cases "\<exists>parent rest. rsplit_once CHR ''/'' path = Some (parent, rest) \<and> takes_parent_defaults cl va scope path = Inr True")
    case True
    then obtain parent rest where p: "rsplit_once CHR ''/'' path = Some (parent, rest)"
        "takes_parent_defaults cl va scope path = Inr True" by auto
    have "defaults_walk cl va scope parent m = Inr out"
      using 1(2) own p by (subst (asm) defaults_walk.simps) (simp add: m_def Let_def)
    from 1(1) [OF own m_def p(1) _ p(2) _ this 1(3)] here shared_audience [OF p(2,1)] below_parent [OF p(1)] own
    show ?thesis by (auto simp: below_def)
  next
    case False
    then have "out = m" using 1(2) own
      by (subst (asm) defaults_walk.simps) (auto simp: m_def Let_def split: option.splits sum.splits bool.splits)
    with here 1(3) own show ?thesis by (auto simp: below_def)
  qed
qed

text \<open>
  C10: A lent secret reaches nobody new. Whatever credentials end up applying to the entries of a
  folder were set on that folder or on one above it, and exactly those who may open the folder
  may open the one the credentials come from.
\<close>

theorem lent_secrets_stay_inside:
  assumes "resolve_effective_defaults cl va scope folder = Inr (Some defaults)" and "map_of defaults t = Some creds"
  shows "\<exists>source own. (folder = source \<or> (\<exists>rest. folder = source @ CHR ''/'' # rest)) \<and>
    get_folder_defaults cl va scope source = Inr own \<and> map_of own t = Some creds \<and>
    (\<forall>who. resolve_folder_access cl va scope who folder = resolve_folder_access cl va scope who source)"
proof -
  have "defaults_walk cl va scope folder [] = Inr defaults"
    using assms(1) by (auto simp: resolve_effective_defaults_def split: if_splits)
  from defaults_walk_source [OF this assms(2)] obtain source own where
    s: "below folder source" "folder_defaults_of cl va scope source = Inr (Some own)" "map_of own t = Some creds"
      "\<forall>who. resolve_folder_access cl va scope who folder = resolve_folder_access cl va scope who source"
    by auto
  have "get_folder_defaults cl va scope source = Inr own"
    using s(2) by (auto simp: folder_defaults_of_def split: sum.splits vault_error.splits)
  with s show ?thesis unfolding below_def by blast
qed

section \<open>Access is decided by the nearest folders\<close>

function ancestors :: "str \<Rightarrow> str list" where
  "ancestors path = path #
     (case rsplit_once CHR ''/'' path of
        Some (parent, _) \<Rightarrow> if parent \<noteq> [] then ancestors parent else []
      | None \<Rightarrow> [])"
  by pat_completeness auto
termination by (relation "measure length") (auto dest: rsplit_once_shorter)

declare ancestors.simps [simp del]

lemma ex_chain_Cons:
  "(\<exists>k<length (x # xs). Q ((x # xs) ! k) \<and> (\<forall>j<k. R ((x # xs) ! j))) \<longleftrightarrow>
   Q x \<or> R x \<and> (\<exists>k<length xs. Q (xs ! k) \<and> (\<forall>j<k. R (xs ! j)))"
  by (simp only: length_Cons Ex_less_Suc2 All_less_Suc2 nth_Cons_0 nth_Cons_Suc) auto

lemma access_step:
  "resolve_folder_access cl va scope who folder = Inr True \<longleftrightarrow>
   (\<exists>c. get_folder_config cl va scope folder = Inr c \<and> grants c who) \<or>
   (\<exists>c. get_folder_config cl va scope folder = Inr c \<and> fc_inherit_from_parent c) \<and>
   (\<exists>parent rest. rsplit_once CHR ''/'' folder = Some (parent, rest) \<and> parent \<noteq> [] \<and>
      resolve_folder_access cl va scope who parent = Inr True)"
  by (subst resolve_folder_access.simps) (auto split: sum.splits vault_error.splits option.splits)

text \<open>
  C20: Who may open a folder. Somebody may exactly when a folder on the way up grants it and every
  folder below that one inherits from its parent; a folder whose configuration is missing or
  unreadable, or that does not inherit, cuts off everything above it.
\<close>

theorem folder_access_exact:
  "resolve_folder_access cl va scope who folder = Inr True \<longleftrightarrow>
   (\<exists>k<length (ancestors folder).
      (\<exists>c. get_folder_config cl va scope (ancestors folder ! k) = Inr c \<and> grants c who) \<and>
      (\<forall>j<k. \<exists>c. get_folder_config cl va scope (ancestors folder ! j) = Inr c \<and> fc_inherit_from_parent c))"
proof (induction folder rule: ancestors.induct)
  case (1 folder)
  note chain = ex_chain_Cons [where Q = "\<lambda>path. \<exists>c. get_folder_config cl va scope path = Inr c \<and> grants c who"
      and R = "\<lambda>path. \<exists>c. get_folder_config cl va scope path = Inr c \<and> fc_inherit_from_parent c"]
  show ?case
  proof (cases "\<exists>parent rest. rsplit_once CHR ''/'' folder = Some (parent, rest) \<and> parent \<noteq> []")
    case True
    then obtain parent rest where p: "rsplit_once CHR ''/'' folder = Some (parent, rest)" "parent \<noteq> []" by auto
    then have a: "ancestors folder = folder # ancestors parent" by (subst ancestors.simps) simp
    show ?thesis unfolding a chain 1 [OF p(1) refl p(2), symmetric]
      using p by (subst access_step) simp
  next
    case False
    then have a: "ancestors folder = [folder]" by (subst ancestors.simps) (auto split: option.split)
    show ?thesis unfolding a chain using False by (subst access_step) auto
  qed
qed

section \<open>Names keep entries apart\<close>

lemma validate_name_ok: "validate_name name = Inr () \<Longrightarrow>
  name \<noteq> [] \<and> CHR ''/'' \<notin> set name \<and> name \<noteq> ''.config'' \<and> name \<noteq> ''.defaults'' \<and> list_all name_char name"
  by (auto simp: validate_name_def split: if_splits)

lemma validate_segments_Inr: "validate_segments ss = Inr () \<longleftrightarrow> (\<forall>s\<in>set ss. validate_name s = Inr ())"
  by (induction ss) (auto split: sum.splits)

lemma last_slash_unique:
  assumes "a @ CHR ''/'' # x = b @ CHR ''/'' # y" and "CHR ''/'' \<notin> set x" "CHR ''/'' \<notin> set y"
  shows "a = b \<and> x = y"
  using rsplit_once_Some [of "CHR ''/''" "a @ CHR ''/'' # x" a x] rsplit_once_Some [of "CHR ''/''" "a @ CHR ''/'' # x" b y] assms
  by simp

definition entry_path :: "vault_client \<Rightarrow> str \<Rightarrow> str \<Rightarrow> str \<Rightarrow> vault_error + str" where
  "entry_path cl scope folder entry =
     and_then (validate_path folder) (\<lambda>_.
     and_then (validate_name entry) (\<lambda>_.
     and_then (resolve_scope_prefix cl scope) (\<lambda>prefix. Inr (data_path cl prefix (folder @ ''/'' @ entry)))))"

lemma data_path_inj: "data_path cl p r = data_path cl q r' \<longleftrightarrow> p @ ''/'' @ r = q @ ''/'' @ r'"
  by (simp add: data_path_def)

lemma scope_prefix_inj:
  assumes "resolve_scope_prefix cl scope = Inr p" "resolve_scope_prefix cl scope' = Inr q"
    and "p @ CHR ''/'' # r = q @ CHR ''/'' # r'"
  shows "scope = scope' \<and> p = q \<and> r = r'"
proof -
  have "scope = scope' \<Longrightarrow> p = q" using assms(1,2) by simp
  moreover have "scope = scope'"
    using assms by (auto simp: resolve_scope_prefix_def split: if_splits option.splits)
  ultimately show ?thesis using assms(3) by simp
qed

lemma entry_path_inj:
  assumes "entry_path cl scope folder entry = Inr p" "entry_path cl scope' folder' entry' = Inr p"
  shows "scope = scope' \<and> folder = folder' \<and> entry = entry'"
proof -
  obtain a b where ab: "resolve_scope_prefix cl scope = Inr a" "resolve_scope_prefix cl scope' = Inr b"
      "p = data_path cl a (folder @ ''/'' @ entry)" "p = data_path cl b (folder' @ ''/'' @ entry')"
      "validate_name entry = Inr ()" "validate_name entry' = Inr ()"
    using assms by (auto simp: entry_path_def)
  then have "a @ CHR ''/'' # folder @ ''/'' @ entry = b @ CHR ''/'' # folder' @ ''/'' @ entry'"
    by (simp add: data_path_inj)
  from scope_prefix_inj [OF ab(1,2) this]
  have "scope = scope'" "folder @ CHR ''/'' # entry = folder' @ CHR ''/'' # entry'" by simp_all
  with last_slash_unique validate_name_ok [OF ab(5)] validate_name_ok [OF ab(6)] show ?thesis by blast
qed

text \<open>
  Entries never collide. Two entries are stored under the same path of Vault only if scope,
  folder and name are the same; an entry never takes the path of a folder's \<open>.config\<close> or
  \<open>.defaults\<close>, nor that of a user's credential variables.
\<close>

theorem entry_paths_distinct:
  assumes "entry_path cl scope folder entry = Inr p"
  shows "(entry_path cl scope' folder' entry' = Inr p \<longrightarrow> scope' = scope \<and> folder' = folder \<and> entry' = entry) \<and>
    (\<forall>prefix. resolve_scope_prefix cl scope' = Inr prefix \<longrightarrow>
       p \<noteq> data_path cl prefix (folder' @ ''/.config'') \<and> p \<noteq> data_path cl prefix (folder' @ ''/.defaults'')) \<and>
    p \<noteq> ''/v1/'' @ vt_mount cl @ ''/data/'' @ vt_base_path cl @ ''/users/'' @ key"
proof -
  obtain a where a: "resolve_scope_prefix cl scope = Inr a" "p = data_path cl a (folder @ ''/'' @ entry)"
      "validate_name entry = Inr ()"
    using assms by (auto simp: entry_path_def)
  have sentinel: "p \<noteq> data_path cl prefix (folder' @ ''/'' @ name)"
    if "resolve_scope_prefix cl scope' = Inr prefix" "name \<in> {''.config'', ''.defaults''}" for prefix name
  proof
    assume "p = data_path cl prefix (folder' @ ''/'' @ name)"
    then have "a @ CHR ''/'' # folder @ ''/'' @ entry = prefix @ CHR ''/'' # folder' @ ''/'' @ name"
      by (simp add: a(2) data_path_inj)
    from scope_prefix_inj [OF a(1) that(1) this] have "folder @ CHR ''/'' # entry = folder' @ CHR ''/'' # name" by simp
    moreover have "CHR ''/'' \<notin> set name" using that(2) by auto
    ultimately have "entry = name" using last_slash_unique validate_name_ok [OF a(3)] by blast
    then show False using validate_name_ok [OF a(3)] that(2) by auto
  qed
  have "p \<noteq> ''/v1/'' @ vt_mount cl @ ''/data/'' @ vt_base_path cl @ ''/users/'' @ key"
    using a(1) by (auto simp: a(2) data_path_def resolve_scope_prefix_def split: if_splits option.splits)
  with sentinel [of _ "''.config''"] sentinel [of _ "''.defaults''"] show ?thesis
    using entry_path_inj [OF _ assms] by fastforce
qed

section \<open>Secrets are not shown\<close>

text \<open>The secrets of an entry, and an entry with other ones.\<close>

definition like_secret :: "str option \<Rightarrow> str option \<Rightarrow> bool" where
  "like_secret v w \<longleftrightarrow> nonempty v = nonempty w \<and> Option.bind v variable_name = Option.bind w variable_name"

lemma map_filter_some: "List.map_filter f xs = List.map_filter (\<lambda>v. v) (map f xs)"
  by (simp add: List.map_filter_def filter_map o_def)

lemma jump_host_info_secrets [simp]:
  "jump_host_info_of fingerprint (h\<lparr>jh_password := p, jh_private_key := k\<rparr>) = jump_host_info_of fingerprint h"
  by (simp add: jump_host_info_of_def)

lemma variables_like:
  assumes "like_secret pw (ab_password e)" "like_secret pk (ab_private_key e)" "like_secret cp (ab_container_password e)"
    and "credential_fields e' = [ab_username e, pw, ab_domain e, pk, ab_container_username e, cp]"
  shows "entry_credential_variables e' = entry_credential_variables e"
proof -
  have "map (\<lambda>field. Option.bind field variable_name) (credential_fields e') =
      map (\<lambda>field. Option.bind field variable_name) (credential_fields e)"
    using assms by (simp add: credential_fields_def like_secret_def)
  then show ?thesis unfolding entry_credential_variables_def by (metis map_filter_some)
qed

text \<open>
  What users are shown of an entry does not depend on its secrets. Passwords, private keys, the
  container's password, the Proxmox token secret and the credentials of every jump host can be
  exchanged for others (present where they were present, naming the same variables) without
  changing one field of the listing.
\<close>

theorem entry_info_hides_secrets:
  assumes "like_secret pw (ab_password e)" "like_secret pk (ab_private_key e)" "like_secret cp (ab_container_password e)"
    and "nonempty ts = nonempty (ab_proxmox_token_secret e)"
  shows "entry_info_of fingerprint name (e\<lparr>ab_password := pw, ab_private_key := pk, ab_container_password := cp,
      ab_proxmox_token_secret := ts, ab_jump_password := jp, ab_jump_private_key := jk,
      ab_jump_hosts := map_option (map (\<lambda>h. h\<lparr>jh_password := hop_pw h, jh_private_key := hop_key h\<rparr>)) (ab_jump_hosts e)\<rparr>) =
    entry_info_of fingerprint name e"
    (is "entry_info_of fingerprint name ?e = _")
proof -
  have "entry_credential_variables ?e = entry_credential_variables e"
    by (rule variables_like [OF assms(1-3)]) (simp add: credential_fields_def)
  then show ?thesis
    using assms by (simp add: entry_info_of_def entry_has_own_credentials_def like_secret_def option.map_comp o_def)
qed

section \<open>Variables and defaults at connect time\<close>

definition substituted :: "(str \<rightharpoonup> str) \<Rightarrow> str option \<Rightarrow> str option" where
  "substituted creds field =
     (case Option.bind field variable_name of None \<Rightarrow> field | Some name \<Rightarrow> (case creds name of Some v \<Rightarrow> Some v | None \<Rightarrow> field))"

lemma resolve_field_eq:
  "resolve_field creds field missing = (substituted creds field, missing @
     (case Option.bind field variable_name of None \<Rightarrow> [] | Some name \<Rightarrow> if creds name = None then [name] else []))"
  by (auto simp: resolve_field_def substituted_def split: option.split)

lemma map_filter_missing:
  "filter (\<lambda>n. creds n = None) (List.map_filter f (x # xs)) =
   (case f x of None \<Rightarrow> [] | Some n \<Rightarrow> if creds n = None then [n] else []) @ filter (\<lambda>n. creds n = None) (List.map_filter f xs)"
  by (simp add: List.map_filter_simps split: option.split)

text \<open>
  Variables are resolved exactly. Either every variable the entry names has a value, and the
  entry comes back with those fields replaced by their values (once, a value is not expanded
  again) and everything else as it was; or the answer lists exactly the names without a value,
  in the order of the fields.
\<close>

theorem variables_resolved:
  "resolve_credential_variables e creds =
   (let missing = filter (\<lambda>name. creds name = None) (entry_credential_variables e) in
    if missing = [] then
      Inr (e\<lparr>ab_username := substituted creds (ab_username e), ab_password := substituted creds (ab_password e),
             ab_domain := substituted creds (ab_domain e), ab_private_key := substituted creds (ab_private_key e),
             ab_container_username := substituted creds (ab_container_username e),
             ab_container_password := substituted creds (ab_container_password e)\<rparr>)
    else Inl missing)"
proof -
  have "filter (\<lambda>name. creds name = None) (entry_credential_variables e) =
      concat (map (\<lambda>field. case Option.bind field variable_name of None \<Rightarrow> [] | Some name \<Rightarrow> if creds name = None then [name] else [])
        (credential_fields e))"
    unfolding entry_credential_variables_def credential_fields_def
    by (simp only: map_filter_missing list.map concat.simps) (simp add: List.map_filter_simps)
  then show ?thesis
    by (simp add: resolve_credential_variables_def resolve_field_eq credential_fields_def Let_def)
qed

text \<open>
  The listing tells the truth about inherited credentials. An entry is marked as using the
  folder's credentials exactly when connecting to it will use them, and as connectable exactly
  when it then has a password or a private key; the entry's own user name and domain win.
\<close>

theorem inherited_label_true:
  "let shown = apply_inherited e (Some defaults) (entry_info_of fingerprint name e);
       (used, applied) = apply_folder_defaults e defaults
   in (ei_inherited_credentials shown \<longleftrightarrow> applied) \<and> (ei_has_credentials shown \<longleftrightarrow> entry_has_own_credentials used) \<and>
      (\<not> applied \<longrightarrow> used = e) \<and> (nonempty (ab_username e) \<longrightarrow> ab_username used = ab_username e) \<and>
      (nonempty (ab_domain e) \<longrightarrow> ab_domain used = ab_domain e)"
proof -
  have keep: "nonempty (filter_opt (\<lambda>p. p \<noteq> []) v) = nonempty v" for v
    by (auto simp: nonempty_def filter_opt_def split: option.split)
  show ?thesis
    by (auto simp: Let_def apply_inherited_def apply_folder_defaults_def entry_info_of_def entry_has_own_credentials_def
        has_secret_def keep entry_takes_folder_defaults_def split: option.split)
qed

section \<open>Keys of users\<close>

lemma replace_char: "replace_all [c] to s = concat (map (\<lambda>x. if x = c then to else [x]) s)"
proof (induction s)
  case (Cons x s)
  then show ?case by (subst replace_all.simps) simp
qed (simp add: replace_all.simps)

text \<open>
  Different users can have the same credential variables. The key under which they are stored
  drops every character outside letters, digits, dot, dash and underscore, so \<open>ann+ops@site\<close> and
  \<open>annops@site\<close> read and overwrite each other's variables; and \<open>ann_at_site\<close> has the key of
  \<open>ann@site\<close>.
\<close>

theorem user_keys_collide:
  assumes "\<not> name_char c" "c \<noteq> CHR ''@''"
  shows "sanitize_email_key (before @ c # after) = sanitize_email_key (before @ after) \<and>
    sanitize_email_key (before @ ''@'' @ after) = sanitize_email_key (before @ ''_at_'' @ after)"
  using assms by (simp add: sanitize_email_key_def replace_char)

section \<open>A small book\<close>

definition demo_client :: vault_client where
  "demo_client = \<lparr>vt_mount = ''kv'', vt_base_path = ''rg'', vt_instance_name = None\<rparr>"

definition demo_creds :: default_credentials where
  "demo_creds = \<lparr>dc_username = Some ''root'', dc_password = Some ''pw'', dc_private_key = None, dc_domain = None\<rparr>"

definition demo_answers :: vault_answers where
  "demo_answers = \<lparr>va_get = (\<lambda>p. if p = ''/v1/kv/data/rg/shared/a/b/.config'' \<or> p = ''/v1/kv/data/rg/shared/a/.defaults''
       then Inr (200, []) else Inr (404, [])),
     va_config = (\<lambda>_. Inr \<lparr>fc_allowed_groups = [], fc_allowed_users = [], fc_description = [], fc_display_name = [],
       fc_inherit_from_parent = True\<rparr>), va_defaults = (\<lambda>_. Inr [(''ssh'', demo_creds)])\<rparr>"

lemma demo_paths:
  "validate_path ''a'' = Inr ()" "validate_path ''a/b'' = Inr ()" "validate_name ''e'' = Inr ()"
  "rsplit_once CHR ''/'' ''a/b'' = Some (''a'', ''b'')" "rsplit_once CHR ''/'' ''a'' = None"
  by code_simp+

lemma demo_defaults: "resolve_effective_defaults demo_client demo_answers ''shared'' ''a/b'' = Inr (Some [(''ssh'', demo_creds)])"
proof -
  have "defaults_walk demo_client demo_answers ''shared'' ''a'' [] = Inr [(''ssh'', demo_creds)]"
    by (subst defaults_walk.simps)
      (simp add: folder_defaults_of_def get_folder_defaults_def demo_paths resolve_scope_prefix_def and_then_def read_reply_def
        data_path_def demo_client_def demo_answers_def or_insert_def)
  moreover have "takes_parent_defaults demo_client demo_answers ''shared'' ''a/b'' = Inr True"
    by (simp add: takes_parent_defaults_def get_folder_config_def demo_paths resolve_scope_prefix_def and_then_def read_reply_def
        data_path_def demo_client_def demo_answers_def shares_parent_audience_def)
  moreover have "folder_defaults_of demo_client demo_answers ''shared'' ''a/b'' = Inr None"
    by (simp add: folder_defaults_of_def get_folder_defaults_def demo_paths resolve_scope_prefix_def and_then_def read_reply_def
        data_path_def demo_client_def demo_answers_def)
  ultimately have "defaults_walk demo_client demo_answers ''shared'' ''a/b'' [] = Inr [(''ssh'', demo_creds)]"
    by (subst defaults_walk.simps) (simp add: demo_paths)
  then show ?thesis by (simp add: resolve_effective_defaults_def and_then_def)
qed

theorem lent_secrets_stay_inside_witness:
  "\<exists>source own. (''a/b'' = source \<or> (\<exists>rest. ''a/b'' = source @ CHR ''/'' # rest)) \<and>
     get_folder_defaults demo_client demo_answers ''shared'' source = Inr own \<and> map_of own ''ssh'' = Some demo_creds"
  using lent_secrets_stay_inside [OF demo_defaults, of "''ssh''" demo_creds] by auto

definition ops_answers :: vault_answers where
  "ops_answers = demo_answers\<lparr>va_config := (\<lambda>_. Inr \<lparr>fc_allowed_groups = [''ops''], fc_allowed_users = [], fc_description = [],
     fc_display_name = [], fc_inherit_from_parent = False\<rparr>)\<rparr>"

theorem folder_access_exact_witness:
  "resolve_folder_access demo_client ops_answers ''shared'' \<lparr>fu_email = None, fu_groups = [''ops'']\<rparr> ''a/b'' = Inr True"
proof -
  have "ancestors ''a/b'' ! 0 = ''a/b''" "0 < length (ancestors ''a/b'')" by (subst ancestors.simps, simp split: option.splits)+
  moreover have "\<exists>c. get_folder_config demo_client ops_answers ''shared'' ''a/b'' = Inr c \<and>
      grants c \<lparr>fu_email = None, fu_groups = [''ops'']\<rparr>"
    by (simp add: get_folder_config_def demo_paths resolve_scope_prefix_def and_then_def read_reply_def data_path_def
        demo_client_def demo_answers_def ops_answers_def grants_def)
  ultimately show ?thesis
    using folder_access_exact [of demo_client ops_answers "''shared''" "\<lparr>fu_email = None, fu_groups = [''ops'']\<rparr>" "''a/b''"]
    by fastforce
qed

theorem entry_paths_distinct_witness:
  "''/v1/kv/data/rg/shared/a/e'' \<noteq> ''/v1/kv/data/rg/users/ann''"
proof -
  have "entry_path demo_client ''shared'' ''a'' ''e'' = Inr ''/v1/kv/data/rg/shared/a/e''"
    by (simp add: entry_path_def demo_paths and_then_def resolve_scope_prefix_def data_path_def demo_client_def)
  from entry_paths_distinct [OF this, of "''shared''" "''a''" "''e''" "''ann''"] show ?thesis
    by (simp add: demo_client_def)
qed

theorem user_keys_collide_witness:
  "sanitize_email_key ''ann+ops@x'' = sanitize_email_key ''annops@x'' \<and>
   sanitize_email_key ''ann@x'' = sanitize_email_key ''ann_at_x''"
  using user_keys_collide [of "CHR ''+''" "''ann''" "''ops@x''"] user_keys_collide [of "CHR ''+''" "''ann''" "''x''"]
  by (simp add: name_char_def is_ascii_alphanumeric_def byte_of_def)

definition demo_entry :: address_book_entry where
  "demo_entry = \<lparr>ab_session_type = ''ssh'', ab_hostname = None, ab_port = None, ab_username = None,
     ab_password = Some ''secret'', ab_private_key = None, ab_url = None, ab_domain = None, ab_security = None,
     ab_server_layout = None, ab_ignore_cert = None, ab_display_name = None, ab_enable_drive = None,
     ab_auth_pkg = None, ab_kdc_url = None, ab_prompt_credentials = None, ab_color_depth = None,
     ab_jump_hosts = None, ab_jump_host = None, ab_jump_port = None, ab_jump_username = None,
     ab_jump_password = None, ab_jump_private_key = None, ab_remote_app = None, ab_remote_app_dir = None,
     ab_remote_app_args = None, ab_enable_recording = None, ab_max_recordings = None,
     ab_record_typescript = None, ab_login_script = None, ab_autofill = None, ab_allowed_domains = None,
     ab_vnc_resize = None, ab_vnc_network = None, ab_disable_copy = None, ab_disable_paste = None,
     ab_banner = None, ab_enable_gfx = None, ab_enable_desktop_composition = None, ab_enable_wallpaper = None,
     ab_enable_theming = None, ab_enable_full_window_drag = None, ab_force_lossless = None,
     ab_enable_h264 = None, ab_h264_chroma444 = None, ab_native_resolution = None, ab_container_image = None,
     ab_container_cpu_limit = None, ab_container_memory_limit = None, ab_container_env = None,
     ab_container_idle_timeout_mins = None, ab_container_username = None, ab_container_password = None,
     ab_allow_sharing = None, ab_auto_open_if_singleton = None, ab_fullscreen_on_connect = None,
     ab_autohide_side_tabs = None, ab_spice_tls = None, ab_spice_tls_port = None, ab_spice_ca_cert = None,
     ab_spice_cert_subject = None, ab_spice_proxy = None, ab_proxmox_url = None, ab_proxmox_node = None,
     ab_proxmox_vmid = None, ab_proxmox_token_id = None, ab_proxmox_token_secret = None,
     ab_proxmox_verify_tls = None, ab_max_monitors = None, ab_ssh_font_size = None, ab_wol_send_packet = None,
     ab_wol_mac_addr = None, ab_wol_broadcast_addr = None, ab_wol_udp_port = None, ab_wol_wait_time = None,
     ab_external_id = None\<rparr>"

theorem entry_info_hides_secrets_witness:
  "entry_info_of (\<lambda>_. None) ''e'' (demo_entry\<lparr>ab_password := Some ''other'', ab_private_key := None,
     ab_container_password := None, ab_proxmox_token_secret := None, ab_jump_password := Some ''x'',
     ab_jump_private_key := None, ab_jump_hosts := None\<rparr>) = entry_info_of (\<lambda>_. None) ''e'' demo_entry"
  using entry_info_hides_secrets [where pw = "Some ''other''" and e = demo_entry and pk = None and cp = None and ts = None
      and fingerprint = "\<lambda>_. None" and name = "''e''" and jp = "Some ''x''" and jk = None]
  by (simp add: demo_entry_def like_secret_def nonempty_def variable_name_def is_credential_variable_def)

end
