(* ===== verification/Vault_Store.thy ===== *)
theory Vault_Store
  imports Address_Book "HOL-Library.Multiset"
begin

text \<open>
  The Vault client of \<^verbatim>\<open>src/src/vault.rs\<close> over a Vault that answers requests, and the trait \<open>EntryStore\<close>
  of \<^verbatim>\<open>src/src/api.rs\<close> with its implementation over the backends.

  The state \<open>'v\<close> is that of Vault; every call takes it and returns it. The loops that walk folders
  end whatever Vault answers, because a listed path is at most 256 characters and its subfolders
  are longer.
\<close>

section \<open>Requests\<close>

datatype meth = M_get | M_post | M_delete

text \<open>
  A body that is the JSON of an entry stands for the entry (and says whether it asks for
  check-and-set with version 0); any other body is a text.
\<close>

datatype json_body = J_entry bool address_book_entry | J_text str

fun body_text :: "json_body \<Rightarrow> str" where
  "body_text (J_text t) = t"
| "body_text (J_entry _ _) = []"

text \<open>The network: an answer to a request, to a list request (its keys) and to a login; serde's reader of an entry.\<close>

record 'v vault =
  vv_request :: "meth \<Rightarrow> str \<Rightarrow> json_body option \<Rightarrow> 'v \<Rightarrow> json_body reply \<times> 'v"
  vv_list :: "str \<Rightarrow> 'v \<Rightarrow> str list reply \<times> 'v"
  vv_login :: "'v \<Rightarrow> (vault_error + unit) \<times> 'v"
  vv_entry :: "str \<Rightarrow> de_error + address_book_entry"

definition entry_of_body :: "'v vault \<Rightarrow> json_body \<Rightarrow> de_error + address_book_entry" where
  "entry_of_body vt b = (case b of J_entry _ e \<Rightarrow> Inr e | J_text t \<Rightarrow> vv_entry vt t)"

type_synonym ('e, 'a, 'v) action = "'v \<Rightarrow> ('e + 'a) \<times> 'v"

definition fail_v :: "'e \<Rightarrow> ('e, 'a, 'v) action" where
  "fail_v e v = (Inl e, v)"

definition return_v :: "'a \<Rightarrow> ('e, 'a, 'v) action" where
  "return_v x v = (Inr x, v)"

definition then_v :: "('e, 'a, 'v) action \<Rightarrow> ('a \<Rightarrow> ('e, 'b, 'v) action) \<Rightarrow> ('e, 'b, 'v) action" where
  "then_v m f v = (case m v of (Inl e, v) \<Rightarrow> (Inl e, v) | (Inr x, v) \<Rightarrow> f x v)"

definition map_err_v :: "('d \<Rightarrow> 'e) \<Rightarrow> ('d, 'a, 'v) action \<Rightarrow> ('e, 'a, 'v) action" where
  "map_err_v f m v = (case m v of (r, v) \<Rightarrow> (map_err f r, v))"

definition request :: "'v vault \<Rightarrow> meth \<Rightarrow> str \<Rightarrow> json_body option \<Rightarrow> (vault_error, nat \<times> json_body, 'v) action" where
  "request vt meth path body =
     then_v (vv_request vt meth path body) (\<lambda>resp.
       if fst resp = 403 then then_v (vv_login vt) (\<lambda>_. vv_request vt meth path body)
       else return_v resp)"

definition kv_list :: "'v vault \<Rightarrow> str \<Rightarrow> (vault_error, str list, 'v) action" where
  "kv_list vt path =
     then_v (vv_list vt path) (\<lambda>(status, keys).
       if status = 200 then return_v keys
       else if status = 404 then fail_v Vault_not_found
       else if status = 403 then fail_v Vault_forbidden
       else fail_v (Vault_parse (''list failed ('' @ show_nat status @ '')'')))"

section \<open>Entries\<close>

definition get_entry ::
  "vault_client \<Rightarrow> 'v vault \<Rightarrow> str \<Rightarrow> str \<Rightarrow> str \<Rightarrow> (vault_error, address_book_entry, 'v) action" where
  "get_entry cl vt scope folder entry v =
     (case entry_path cl scope folder entry of
        Inl e \<Rightarrow> (Inl e, v)
      | Inr path \<Rightarrow>
          (case request vt M_get path None v of
             (r, v) \<Rightarrow> (and_then (read_reply (entry_of_body vt) ''entry'' r) (\<lambda>e. Inr (normalize_jump_hosts e)), v)))"

definition write_entry ::
  "vault_client \<Rightarrow> 'v vault \<Rightarrow> str \<Rightarrow> str \<Rightarrow> str \<Rightarrow> address_book_entry \<Rightarrow> bool \<Rightarrow> (vault_error, bool, 'v) action" where
  "write_entry cl vt scope folder entry data only_if_absent v =
     (case entry_path cl scope folder entry of
        Inl e \<Rightarrow> (Inl e, v)
      | Inr path \<Rightarrow>
          then_v (request vt M_post path (Some (J_entry only_if_absent data))) (\<lambda>(status, body).
            if status = 200 \<or> status = 204 then return_v True
            else if status = 403 then fail_v Vault_forbidden
            else if only_if_absent \<and> status = 400 \<and> contains ''check-and-set'' (body_text body) then return_v False
            else fail_v (Vault_parse (''put entry failed ('' @ show_nat status @ ''): '' @ body_text body))) v)"

definition put_entry ::
  "vault_client \<Rightarrow> 'v vault \<Rightarrow> str \<Rightarrow> str \<Rightarrow> str \<Rightarrow> address_book_entry \<Rightarrow> (vault_error, unit, 'v) action" where
  "put_entry cl vt scope folder entry data =
     then_v (write_entry cl vt scope folder entry data False) (\<lambda>_. return_v ())"

definition put_entry_if_absent ::
  "vault_client \<Rightarrow> 'v vault \<Rightarrow> str \<Rightarrow> str \<Rightarrow> str \<Rightarrow> address_book_entry \<Rightarrow> (vault_error, bool, 'v) action" where
  "put_entry_if_absent cl vt scope folder entry data = write_entry cl vt scope folder entry data True"

definition delete_entry :: "vault_client \<Rightarrow> 'v vault \<Rightarrow> str \<Rightarrow> str \<Rightarrow> str \<Rightarrow> (vault_error, unit, 'v) action" where
  "delete_entry cl vt scope folder entry v =
     (case and_then (validate_name entry) (\<lambda>_. resolve_scope_prefix cl scope) of
        Inl e \<Rightarrow> (Inl e, v)
      | Inr sp \<Rightarrow>
          then_v (request vt M_delete (metadata_path cl sp (folder @ ''/'' @ entry)) None) (\<lambda>(status, _).
            if status = 200 \<or> status = 204 then return_v ()
            else if status = 404 then fail_v Vault_not_found
            else if status = 403 then fail_v Vault_forbidden
            else fail_v (Vault_parse (''delete entry failed ('' @ show_nat status @ '')''))) v)"

section \<open>Folders\<close>

text \<open>\<open>k.strip_suffix('/')\<close>.\<close>

definition strip_slash :: "str \<Rightarrow> str option" where
  "strip_slash k = (if k \<noteq> [] \<and> last k = CHR ''/'' then Some (butlast k) else None)"

definition list_children :: "vault_client \<Rightarrow> 'v vault \<Rightarrow> str \<Rightarrow> str \<Rightarrow> (vault_error, str list, 'v) action" where
  "list_children cl vt scope folder v =
     (case and_then (validate_path folder) (\<lambda>_. resolve_scope_prefix cl scope) of
        Inl e \<Rightarrow> (Inl e, v)
      | Inr sp \<Rightarrow> kv_list vt (metadata_path cl sp folder @ ''/'') v)"

definition list_entries :: "vault_client \<Rightarrow> 'v vault \<Rightarrow> str \<Rightarrow> str \<Rightarrow> (vault_error, str list, 'v) action" where
  "list_entries cl vt scope folder =
     then_v (list_children cl vt scope folder) (\<lambda>keys.
       return_v (filter (\<lambda>k. k \<noteq> ''.config'' \<and> k \<noteq> ''.defaults'') keys))"

text \<open>
  A listed folder is visited for its description and for whether it has children. These decorate
  the answer and their errors are ignored; the requests are made all the same.
\<close>

definition visit_folder :: "vault_client \<Rightarrow> 'v vault \<Rightarrow> str \<Rightarrow> str \<Rightarrow> 'v \<Rightarrow> 'v" where
  "visit_folder cl vt scope path v =
     (let v = (case and_then (validate_path path) (\<lambda>_. resolve_scope_prefix cl scope) of
                 Inl _ \<Rightarrow> v
               | Inr sp \<Rightarrow> snd (request vt M_get (data_path cl sp (path @ ''/.config'')) None v))
      in snd (list_children cl vt scope path v))"

definition visit_folders :: "vault_client \<Rightarrow> 'v vault \<Rightarrow> str \<Rightarrow> str list \<Rightarrow> 'v \<Rightarrow> 'v" where
  "visit_folders cl vt scope paths v = fold (visit_folder cl vt scope) paths v"

text \<open>The paths of the subfolders.\<close>

definition subfolder_paths :: "vault_client \<Rightarrow> 'v vault \<Rightarrow> str \<Rightarrow> str \<Rightarrow> (vault_error, str list, 'v) action" where
  "subfolder_paths cl vt scope parent =
     then_v (list_children cl vt scope parent) (\<lambda>keys v.
       let paths = map (\<lambda>name. parent @ ''/'' @ name) (List.map_filter strip_slash keys)
       in (Inr paths, visit_folders cl vt scope paths v))"

lemma subfolder_paths_longer:
  assumes "subfolder_paths cl vt scope parent v = (Inr subs, v')"
  shows "length parent \<le> 256 \<and> (\<forall>p\<in>set subs. length parent < length p)"
proof -
  have "validate_path parent = Inr ()"
    using assms by (auto simp: subfolder_paths_def then_v_def list_children_def and_then_def split: prod.splits sum.splits)
  then have "length parent \<le> 256" by (auto simp: validate_path_def split: if_splits)
  moreover have "\<forall>p\<in>set subs. length parent < length p"
    using assms by (auto simp: subfolder_paths_def then_v_def Let_def split: prod.splits sum.splits)
  ultimately show ?thesis ..
qed

text \<open>
  The weight of a queue of paths: a path that can be listed has a positive weight, and its
  subfolders weigh less.
\<close>

definition queue_weight :: "str list \<Rightarrow> nat multiset" where
  "queue_weight ps = image_mset (\<lambda>p. 257 - length p) (mset ps)"

lemma queue_weight_append [simp]: "queue_weight (ps @ qs) = queue_weight ps + queue_weight qs"
  by (simp add: queue_weight_def)

lemma queue_weight_Cons [simp]: "queue_weight (p # ps) = add_mset (257 - length p) (queue_weight ps)"
  by (simp add: queue_weight_def)

lemma queue_shrinks:
  assumes "\<forall>q\<in>set subs. length p < length q" and "subs = [] \<or> length p \<le> 256"
  shows "(queue_weight ps + queue_weight subs, add_mset (257 - length p) (queue_weight ps)) \<in> mult less_than"
proof -
  have "\<forall>k\<in>#queue_weight subs. \<exists>j\<in>#{#257 - length p#}. (k, j) \<in> less_than"
    using assms by (auto simp: queue_weight_def)
  from one_step_implies_mult [OF _ this, of "queue_weight ps"] show ?thesis by simp
qed

lemma queue_weight_rev [simp]: "queue_weight (rev ps) = queue_weight ps"
  by (simp add: queue_weight_def)

lemma queue_shrinks_front:
  assumes "\<forall>q\<in>set subs. length p < length q" and "subs = [] \<or> length p \<le> 256"
  shows "(queue_weight subs + queue_weight ps, add_mset (257 - length p) (queue_weight ps)) \<in> mult less_than"
  using queue_shrinks [OF assms, of ps] by (simp add: union_commute)

lemma queue_pops: "(queue_weight ps, add_mset (257 - length p) (queue_weight ps)) \<in> mult less_than"
  using queue_shrinks [of "[]" p ps] by (simp add: queue_weight_def)

text \<open>The loop of \<open>delete_folder\<close> that collects the tree: \<open>todo\<close> is the part of the queue from \<open>i\<close> on.\<close>

function collect_tree :: "vault_client \<Rightarrow> 'v vault \<Rightarrow> str \<Rightarrow> str list \<Rightarrow> str list \<Rightarrow> 'v \<Rightarrow> str list \<times> 'v" where
  "collect_tree cl vt scope [] seen v = (seen, v)"
| "collect_tree cl vt scope (current # todo) seen v =
     (case subfolder_paths cl vt scope current v of
        (Inr subs, v) \<Rightarrow> collect_tree cl vt scope (todo @ subs) (seen @ [current]) v
      | (Inl _, v) \<Rightarrow> collect_tree cl vt scope todo (seen @ [current]) v)"
  by pat_completeness auto
termination
proof (relation "inv_image (mult less_than) (\<lambda>(cl, vt, scope, todo, seen, v). queue_weight todo)")
  show "wf (inv_image (mult less_than) (\<lambda>(cl, vt, scope, todo, seen, v). queue_weight todo))"
    by (intro wf_inv_image wf_mult wf_less_than)
qed (auto dest!: subfolder_paths_longer sym [of "(Inr _, _)"] simp: queue_shrinks queue_pops)

fun delete_entries :: "vault_client \<Rightarrow> 'v vault \<Rightarrow> str \<Rightarrow> str \<Rightarrow> str list \<Rightarrow> 'v \<Rightarrow> 'v" where
  "delete_entries cl vt scope path [] v = v"
| "delete_entries cl vt scope path (e # es) v = delete_entries cl vt scope path es (snd (delete_entry cl vt scope path e v))"

definition clear_folder :: "vault_client \<Rightarrow> 'v vault \<Rightarrow> str \<Rightarrow> str \<Rightarrow> str \<Rightarrow> 'v \<Rightarrow> nat \<times> 'v" where
  "clear_folder cl vt scope sp path v =
     (case list_entries cl vt scope path v of
        (r, v) \<Rightarrow>
          (let entries = (case r of Inl _ \<Rightarrow> [] | Inr es \<Rightarrow> es);
               v = delete_entries cl vt scope path entries v;
               v = snd (request vt M_delete (metadata_path cl sp (path @ ''/.config'')) None v);
               v = snd (request vt M_delete (metadata_path cl sp (path @ ''/.defaults'')) None v)
           in (length entries, v)))"

fun clear_folders :: "vault_client \<Rightarrow> 'v vault \<Rightarrow> str \<Rightarrow> str \<Rightarrow> str list \<Rightarrow> nat \<Rightarrow> 'v \<Rightarrow> nat \<times> 'v" where
  "clear_folders cl vt scope sp [] acc v = (acc, v)"
| "clear_folders cl vt scope sp (p # ps) acc v =
     (case clear_folder cl vt scope sp p v of (n, v) \<Rightarrow> clear_folders cl vt scope sp ps (acc + n) v)"

definition delete_folder :: "vault_client \<Rightarrow> 'v vault \<Rightarrow> str \<Rightarrow> str \<Rightarrow> (vault_error, nat \<times> nat, 'v) action" where
  "delete_folder cl vt scope folder v =
     (case validate_path folder of
        Inl e \<Rightarrow> (Inl e, v)
      | Inr _ \<Rightarrow>
          (case collect_tree cl vt scope [folder] [] v of
             (queue, v) \<Rightarrow>
               (case resolve_scope_prefix cl scope of
                  Inl e \<Rightarrow> (Inl e, v)
                | Inr sp \<Rightarrow>
                    (case clear_folders cl vt scope sp queue 0 v of
                       (entry_count, v) \<Rightarrow> (Inr (length queue - 1, entry_count), v)))))"

section \<open>The store behind the address book\<close>

record 'v entry_store =
  es_folder_paths :: "str \<Rightarrow> (vault_error, str list, 'v) action"
  es_entry_names :: "str \<Rightarrow> str \<Rightarrow> (vault_error, str list, 'v) action"
  es_get :: "str \<Rightarrow> str \<Rightarrow> str \<Rightarrow> (vault_error, address_book_entry, 'v) action"
  es_put :: "str \<Rightarrow> str \<Rightarrow> str \<Rightarrow> address_book_entry \<Rightarrow> (vault_error, unit, 'v) action"
  es_put_if_absent :: "str \<Rightarrow> str \<Rightarrow> str \<Rightarrow> address_book_entry \<Rightarrow> (vault_error, bool, 'v) action"
  es_delete :: "str \<Rightarrow> str \<Rightarrow> str \<Rightarrow> (vault_error, unit, 'v) action"

text \<open>The backends: one for the scope \<open>instance\<close>, one for everything else; each may be down.\<close>

record 'v backends =
  be_shared :: "(vault_client \<times> 'v vault) option"
  be_local :: "(vault_client \<times> 'v vault) option"

definition scoped :: "'v backends \<Rightarrow> str \<Rightarrow> (vault_error, vault_client \<times> 'v vault, 'v) action" where
  "scoped be scope v = (ok_or Vault_unavailable (if scope = ''instance'' then be_local be else be_shared be), v)"

definition list_folders_in_scope :: "vault_client \<Rightarrow> 'v vault \<Rightarrow> str \<Rightarrow> (vault_error, str list, 'v) action" where
  "list_folders_in_scope cl vt scope v =
     (case (if scope = ''shared'' then Inr (Some ''shared'')
            else if scope = ''instance'' then Inr (map_option (\<lambda>name. ''instance/'' @ name) (vt_instance_name cl))
            else Inl (Bad_name (''invalid scope: '' @ scope))) of
        Inl e \<Rightarrow> (Inl e, v)
      | Inr None \<Rightarrow> (Inr [], v)
      | Inr (Some sp) \<Rightarrow>
          (case kv_list vt (''/v1/'' @ vt_mount cl @ ''/metadata/'' @ vt_base_path cl @ ''/'' @ sp @ ''/'') v of
             (Inr keys, v) \<Rightarrow>
               (let names = List.map_filter strip_slash keys in (Inr names, visit_folders cl vt scope names v))
           | (Inl Vault_not_found, v) \<Rightarrow> (Inr [], v)
           | (Inl e, v) \<Rightarrow> (Inl e, v)))"

text \<open>\<open>queue.pop()\<close> takes the last path; \<open>todo\<close> is the queue from its end.\<close>

function folder_paths_loop :: "vault_client \<Rightarrow> 'v vault \<Rightarrow> str \<Rightarrow> str list \<Rightarrow> str list \<Rightarrow> (vault_error, str list, 'v) action" where
  "folder_paths_loop cl vt scope [] out v = (Inr out, v)"
| "folder_paths_loop cl vt scope (path # todo) out v =
     (case subfolder_paths cl vt scope path v of
        (Inr subs, v) \<Rightarrow> folder_paths_loop cl vt scope (rev subs @ todo) (out @ [path]) v
      | (Inl Vault_not_found, v) \<Rightarrow> folder_paths_loop cl vt scope todo (out @ [path]) v
      | (Inl e, v) \<Rightarrow> (Inl e, v))"
  by pat_completeness auto
termination
proof (relation "inv_image (mult less_than) (\<lambda>(cl, vt, scope, todo, out, v). queue_weight todo)")
  show "wf (inv_image (mult less_than) (\<lambda>(cl, vt, scope, todo, out, v). queue_weight todo))"
    by (intro wf_inv_image wf_mult wf_less_than)
qed (auto dest!: subfolder_paths_longer sym [of "(Inr _, _)"] simp: queue_pops queue_shrinks_front)

definition folder_paths :: "'v backends \<Rightarrow> str \<Rightarrow> (vault_error, str list, 'v) action" where
  "folder_paths be scope =
     then_v (scoped be scope) (\<lambda>(cl, vt).
     then_v (list_folders_in_scope cl vt scope) (\<lambda>top. folder_paths_loop cl vt scope (rev top) []))"

definition entry_names :: "'v backends \<Rightarrow> str \<Rightarrow> str \<Rightarrow> (vault_error, str list, 'v) action" where
  "entry_names be scope folder v =
     (case then_v (scoped be scope) (\<lambda>(cl, vt). list_entries cl vt scope folder) v of
        (Inr names, v) \<Rightarrow> (Inr (filter (\<lambda>n. \<not> (n \<noteq> [] \<and> last n = CHR ''/'')) names), v)
      | (Inl Vault_not_found, v) \<Rightarrow> (Inr [], v)
      | (Inl e, v) \<Rightarrow> (Inl e, v))"

definition vault_store :: "'v backends \<Rightarrow> 'v entry_store" where
  "vault_store be =
     \<lparr>es_folder_paths = folder_paths be, es_entry_names = entry_names be,
      es_get = (\<lambda>s f n. then_v (scoped be s) (\<lambda>(cl, vt). get_entry cl vt s f n)),
      es_put = (\<lambda>s f n e. then_v (scoped be s) (\<lambda>(cl, vt). put_entry cl vt s f n e)),
      es_put_if_absent = (\<lambda>s f n e. then_v (scoped be s) (\<lambda>(cl, vt). put_entry_if_absent cl vt s f n e)),
      es_delete = (\<lambda>s f n. then_v (scoped be s) (\<lambda>(cl, vt). delete_entry cl vt s f n))\<rparr>"

end
