(* ===== verification/Entry_Ops.thy ===== *)
theory Entry_Ops
  imports Vault_Store
begin

text \<open>
  What \<^verbatim>\<open>src/src/api.rs\<close> does with stored entries: copy, move, bulk actions, and the update that first
  looks an entry up by its external id. All are generic in the store; the locale \<open>entry_store_laws\<close>
  is the contract they rely on, and the store over Vault satisfies it whenever Vault keeps its
  own contract (\<open>kv_vault\<close>).
\<close>

section \<open>Copy and move\<close>

type_synonym status = nat

fun ab_vault_error :: "vault_error \<Rightarrow> status \<times> str" where
  "ab_vault_error Vault_not_found = (404, ''entry not found'')"
| "ab_vault_error (Bad_name msg) = (400, msg)"
| "ab_vault_error e = (502, vault_error_text e)"

definition copy_stored_entry ::
  "'v entry_store \<Rightarrow> str \<Rightarrow> str \<Rightarrow> str \<Rightarrow> str \<Rightarrow> str \<Rightarrow> str \<Rightarrow> (status \<times> str, address_book_entry, 'v) action" where
  "copy_stored_entry st scope folder entry target_scope target_folder target_name =
     then_v (map_err_v ab_vault_error (es_get st scope folder entry)) (\<lambda>full.
     then_v (map_err_v ab_vault_error (es_put_if_absent st target_scope target_folder target_name full)) (\<lambda>written.
       if written then return_v full
       else fail_v (409, ''an entry with that name already exists in the target folder'')))"

datatype move_error = Copy_refused "status \<times> str" | Move_incomplete vault_error

definition move_stored_entry ::
  "'v entry_store \<Rightarrow> str \<Rightarrow> str \<Rightarrow> str \<Rightarrow> str \<Rightarrow> str \<Rightarrow> str \<Rightarrow> (move_error, address_book_entry, 'v) action" where
  "move_stored_entry st scope folder entry target_scope target_folder target_name =
     then_v (map_err_v Copy_refused (copy_stored_entry st scope folder entry target_scope target_folder target_name)) (\<lambda>full.
     then_v (map_err_v Move_incomplete (es_delete st scope folder entry)) (\<lambda>_. return_v full))"

section \<open>Update\<close>

definition or_else :: "'a option \<Rightarrow> 'a option \<Rightarrow> 'a option" where
  "or_else v w = (case v of Some x \<Rightarrow> Some x | None \<Rightarrow> w)"

definition merge_hop :: "jump_host list \<Rightarrow> nat \<Rightarrow> jump_host \<Rightarrow> jump_host" where
  "merge_hop old_hops i hop =
     (let old = (if i < length old_hops then Some (old_hops ! i) else None) in
      hop\<lparr>jh_password := or_else (jh_password hop) (Option.bind old jh_password),
          jh_private_key := or_else (jh_private_key hop) (Option.bind old jh_private_key),
          jh_host_key := or_else (jh_host_key hop) (Option.bind old jh_host_key)\<rparr>)"

definition merge_entry_update :: "address_book_entry \<Rightarrow> address_book_entry \<Rightarrow> address_book_entry" where
  "merge_entry_update data existing =
     data\<lparr>ab_password := or_else (ab_password data) (ab_password existing),
          ab_private_key := or_else (ab_private_key data) (ab_private_key existing),
          ab_container_password := or_else (ab_container_password data) (ab_container_password existing),
          ab_proxmox_token_secret := or_else (ab_proxmox_token_secret data) (ab_proxmox_token_secret existing),
          ab_external_id := or_else (ab_external_id data) (ab_external_id existing),
          ab_jump_hosts := map_option (\<lambda>new_hops.
            map2 (merge_hop (case ab_jump_hosts existing of None \<Rightarrow> [] | Some hs \<Rightarrow> hs)) [0..<length new_hops] new_hops)
            (ab_jump_hosts data),
          ab_jump_password := None, ab_jump_private_key := None\<rparr>"

type_synonym place = "str \<times> str"

datatype upsert_error =
  Rejected status str
| Incomplete_move (incomplete_from: place) vault_error
| Update_failed "place option" vault_error

abbreviation reject :: "vault_error \<Rightarrow> upsert_error" where
  "reject e \<equiv> Rejected (fst (ab_vault_error e)) (snd (ab_vault_error e))"

definition show_places :: "place list \<Rightarrow> str" where
  "show_places ps = join_with '', '' (map (\<lambda>(f, n). f @ ''/'' @ n) ps)"

text \<open>The entries of a folder that carry the id.\<close>

fun scan_names ::
  "'v entry_store \<Rightarrow> str \<Rightarrow> str \<Rightarrow> str \<Rightarrow> str \<Rightarrow> str \<Rightarrow> str list \<Rightarrow> place list \<Rightarrow> (upsert_error, place list, 'v) action" where
  "scan_names st scope folder entry external_id other [] found v = (Inr found, v)"
| "scan_names st scope folder entry external_id other (name # names) found v =
     (if other = folder \<and> name = entry then scan_names st scope folder entry external_id other names found v
      else
        (case es_get st scope other name v of
           (Inl Vault_not_found, v) \<Rightarrow> scan_names st scope folder entry external_id other names found v
         | (Inl e, v) \<Rightarrow> (Inl (reject e), v)
         | (Inr stored, v) \<Rightarrow>
             scan_names st scope folder entry external_id other names
               (if ab_external_id stored = Some external_id then found @ [(other, name)] else found) v))"

fun scan_folders ::
  "'v entry_store \<Rightarrow> str \<Rightarrow> str \<Rightarrow> str \<Rightarrow> str \<Rightarrow> str list \<Rightarrow> place list \<Rightarrow> (upsert_error, place list, 'v) action" where
  "scan_folders st scope folder entry external_id [] found v = (Inr found, v)"
| "scan_folders st scope folder entry external_id (other # others) found v =
     then_v (map_err_v reject (es_entry_names st scope other)) (\<lambda>names.
     then_v (scan_names st scope folder entry external_id other names found)
       (scan_folders st scope folder entry external_id others)) v"

text \<open>What stands at the requested place: another device, this one, or an entry that may adopt the id.\<close>

datatype occupant = Other_device str | Same_device | Without_id | Nobody

definition occupant_of ::
  "'v entry_store \<Rightarrow> str \<Rightarrow> str \<Rightarrow> str \<Rightarrow> str \<Rightarrow> (upsert_error, occupant, 'v) action" where
  "occupant_of st scope folder entry external_id v =
     (case es_get st scope folder entry v of
        (Inr existing, v) \<Rightarrow>
          (Inr (case ab_external_id existing of
                  Some other \<Rightarrow> if other \<noteq> external_id then Other_device other else Same_device
                | None \<Rightarrow> Without_id), v)
      | (Inl Vault_not_found, v) \<Rightarrow> (Inr Nobody, v)
      | (Inl e, v) \<Rightarrow> (Inl (reject e), v))"

definition move_error_of :: "place \<Rightarrow> move_error \<Rightarrow> upsert_error" where
  "move_error_of origin e = (case e of Copy_refused (s, msg) \<Rightarrow> Rejected s msg | Move_incomplete err \<Rightarrow> Incomplete_move origin err)"

text \<open>What the search found decides: nothing, the one entry to move, or a conflict.\<close>

definition move_found ::
  "'v entry_store \<Rightarrow> str \<Rightarrow> str \<Rightarrow> str \<Rightarrow> str \<Rightarrow> bool \<Rightarrow> place list \<Rightarrow> (upsert_error, place option, 'v) action" where
  "move_found st scope folder entry external_id adopting found =
     (if adopting \<and> found \<noteq> [] then
        fail_v (Rejected 409 (folder @ ''/'' @ entry @ '' is an entry without an external_id, and external_id '' @
          external_id @ '' is already stored on '' @ show_places found @ ''; nothing was changed''))
      else
        (case found of
           [] \<Rightarrow> return_v None
         | [(f, n)] \<Rightarrow>
             then_v (map_err_v (move_error_of (f, n)) (move_stored_entry st scope f n scope folder entry))
               (\<lambda>_. return_v (Some (f, n)))
         | _ \<Rightarrow>
             fail_v (Rejected 409 (''external_id '' @ external_id @ '' is stored on '' @ show_nat (length found) @
               '' entries ('' @ show_places found @ ''); nothing was changed''))))"

definition relocate_by_external_id ::
  "'v entry_store \<Rightarrow> str \<Rightarrow> str \<Rightarrow> str \<Rightarrow> str \<Rightarrow> (upsert_error, place option, 'v) action" where
  "relocate_by_external_id st scope folder entry external_id =
     then_v (occupant_of st scope folder entry external_id) (\<lambda>who.
       case who of
         Other_device other \<Rightarrow>
           fail_v (Rejected 409 (folder @ ''/'' @ entry @ '' belongs to another device (external_id '' @ other @ '')''))
       | Same_device \<Rightarrow> return_v None
       | _ \<Rightarrow>
           then_v (map_err_v reject (es_folder_paths st scope)) (\<lambda>folders.
           then_v (scan_folders st scope folder entry external_id folders [])
             (move_found st scope folder entry external_id (who = Without_id))))"

text \<open>The read, the merge and the write.\<close>

definition update_entry ::
  "'v entry_store \<Rightarrow> str \<Rightarrow> str \<Rightarrow> str \<Rightarrow> address_book_entry \<Rightarrow> place option \<Rightarrow>
   (upsert_error, place option \<times> address_book_entry, 'v) action" where
  "update_entry st scope folder entry data moved_from v =
     (case es_get st scope folder entry v of
        (Inl e, v) \<Rightarrow>
          if e = Vault_not_found
          then then_v (map_err_v (Update_failed moved_from) (es_put st scope folder entry data)) (\<lambda>_. return_v (moved_from, data)) v
          else (Inl (Update_failed moved_from e), v)
      | (Inr existing, v) \<Rightarrow>
          (let merged = merge_entry_update data existing in
           then_v (map_err_v (Update_failed moved_from) (es_put st scope folder entry merged)) (\<lambda>_. return_v (moved_from, merged)) v))"

definition upsert_entry ::
  "'v entry_store \<Rightarrow> str \<Rightarrow> str \<Rightarrow> str \<Rightarrow> address_book_entry \<Rightarrow> bool \<Rightarrow>
   (upsert_error, place option \<times> address_book_entry, 'v) action" where
  "upsert_entry st scope folder entry data relocate =
     (if relocate then
        (case filter_opt (\<lambda>i. i \<noteq> []) (ab_external_id data) of
           None \<Rightarrow> fail_v (Rejected 400 ''move=true needs external_id in the body: the entry is matched on it, not on its name'')
         | Some external_id \<Rightarrow>
             then_v (relocate_by_external_id st scope folder entry external_id) (update_entry st scope folder entry data))
      else update_entry st scope folder entry data None)"

section \<open>Bulk actions\<close>

definition BULK_MAX_RENAME :: nat where "BULK_MAX_RENAME = 99"

definition rename_candidates :: "str \<Rightarrow> bool \<Rightarrow> str list" where
  "rename_candidates name rename =
     name # (if rename then
       map (\<lambda>n. let suffix = ''-'' @ show_nat n in take (min (64 - length suffix) (length name)) name @ suffix)
         [2..<BULK_MAX_RENAME + 1] else [])"

datatype on_conflict = Skip_taken | Rename_copy

fun try_names ::
  "'v entry_store \<Rightarrow> str \<Rightarrow> str \<Rightarrow> address_book_entry \<Rightarrow> str list \<Rightarrow> (status \<times> str, str option, 'v) action" where
  "try_names st scope folder full [] v = (Inr None, v)"
| "try_names st scope folder full (candidate # candidates) v =
     (case es_put_if_absent st scope folder candidate full v of
        (Inr True, v) \<Rightarrow> (Inr (Some candidate), v)
      | (Inr False, v) \<Rightarrow> try_names st scope folder full candidates v
      | (Inl e, v) \<Rightarrow> (Inl (ab_vault_error e), v))"

definition copy_entry_into ::
  "'v entry_store \<Rightarrow> str \<times> str \<times> str \<Rightarrow> str \<times> str \<Rightarrow> on_conflict \<Rightarrow> (status \<times> str, str option, 'v) action" where
  "copy_entry_into st item target oc =
     (case (item, target) of ((scope, folder, name), (tscope, tfolder)) \<Rightarrow>
       then_v (map_err_v ab_vault_error (es_get st scope folder name)) (\<lambda>full.
       then_v (try_names st tscope tfolder full (rename_candidates name (oc = Rename_copy))) (\<lambda>used.
         if used = None \<and> oc = Rename_copy then fail_v (409, ''no free name found for the copy'') else return_v used)))"

datatype bulk_action = Bulk_move | Bulk_copy | Bulk_delete

text \<open>
  What happened to an item; the audit rows follow the outcome. A move or copy without a target is
  a panic (\<open>expect\<close>), which the handler rules out before.
\<close>

datatype bulk_result =
  Bulk_deleted | Bulk_failed str | Bulk_skipped str | Bulk_copied str | Bulk_moved str | Copied_not_removed str str

definition bulk_one ::
  "'v entry_store \<Rightarrow> bulk_action \<Rightarrow> (str \<times> str) option \<Rightarrow> on_conflict \<Rightarrow> str \<times> str \<times> str \<Rightarrow> 'v \<Rightarrow> bulk_result \<times> 'v" where
  "bulk_one st action target oc item v =
     (case item of (scope, folder, name) \<Rightarrow>
       if action = Bulk_delete then
         (case then_v (es_get st scope folder name) (\<lambda>_. es_delete st scope folder name) v of
            (Inr _, v) \<Rightarrow> (Bulk_deleted, v)
          | (Inl e, v) \<Rightarrow> (Bulk_failed (snd (ab_vault_error e)), v))
       else
         (case target of
            None \<Rightarrow> (Bulk_failed ''target checked'', v)
          | Some (tscope, tfolder) \<Rightarrow>
              if action = Bulk_move \<and> scope = tscope \<and> folder = tfolder then (Bulk_skipped ''already in that folder'', v)
              else
                (case copy_entry_into st item (tscope, tfolder) oc v of
                   (Inl e, v) \<Rightarrow> (Bulk_failed (snd e), v)
                 | (Inr None, v) \<Rightarrow> (Bulk_skipped ''an entry with that name already exists in the target folder'', v)
                 | (Inr (Some used), v) \<Rightarrow>
                     if action = Bulk_copy then (Bulk_copied used, v)
                     else
                       (case es_delete st scope folder name v of
                          (Inr _, v) \<Rightarrow> (Bulk_moved used, v)
                        | (Inl e, v) \<Rightarrow>
                            (Copied_not_removed used
                               (''copied, but the original could not be removed: '' @ snd (ab_vault_error e)), v)))))"


section \<open>The contract of a store\<close>

text \<open>The entries a store holds, by scope, folder and name.\<close>

type_synonym shelf = "str \<times> str \<times> str \<Rightarrow> address_book_entry option"

definition carries :: "shelf \<Rightarrow> str \<Rightarrow> str \<Rightarrow> place \<Rightarrow> bool" where
  "carries m scope i p \<longleftrightarrow> (case m (scope, p) of None \<Rightarrow> False | Some e \<Rightarrow> ab_external_id e = Some i)"

lemma carries_upd:
  "carries (m((s, p) := x)) s i q \<longleftrightarrow>
     (if q = p then (case x of None \<Rightarrow> False | Some e \<Rightarrow> ab_external_id e = Some i) else carries m s i q)"
  by (auto simp: carries_def split: option.splits)

text \<open>What an update stores at a place, by what it finds there.\<close>

definition merged_at :: "shelf \<Rightarrow> str \<times> str \<times> str \<Rightarrow> address_book_entry \<Rightarrow> address_book_entry" where
  "merged_at m p data = (case m p of None \<Rightarrow> data | Some old \<Rightarrow> merge_entry_update data old)"

lemma normalize_external_id [simp]: "ab_external_id (normalize_jump_hosts e) = ab_external_id e"
  by (simp add: normalize_jump_hosts_def Let_def filter_opt_def split: option.splits)

lemma merged_external_id [simp]: "ab_external_id data = Some i \<Longrightarrow> ab_external_id (merged_at m p data) = Some i"
  by (simp add: merged_at_def merge_entry_update_def or_else_def split: option.splits)

text \<open>
  What the operations rely on. A call that fails may have taken effect or not (a lost answer); a
  conditional write that answers \<open>false\<close> has not.
\<close>

locale entry_store_laws =
  fixes st :: "'v entry_store" and held :: "'v \<Rightarrow> shelf"
  assumes get_frame: "es_get st s f n v = (r, v') \<Longrightarrow> held v' = held v"
    and get_found: "es_get st s f n v = (Inr e, v') \<Longrightarrow> held v (s, f, n) = Some e"
    and get_absent: "es_get st s f n v = (Inl Vault_not_found, v') \<Longrightarrow> held v (s, f, n) = None"
    and names_frame: "es_entry_names st s f v = (rs, v') \<Longrightarrow> held v' = held v"
    and names_all: "es_entry_names st s f v = (Inr ns, v') \<Longrightarrow> held v (s, f, n) \<noteq> None \<Longrightarrow> n \<in> set ns"
    and folders_frame: "es_folder_paths st s v = (rs, v') \<Longrightarrow> held v' = held v"
    and folders_all: "es_folder_paths st s v = (Inr fs, v') \<Longrightarrow> held v (s, f, n) \<noteq> None \<Longrightarrow> f \<in> set fs"
    and put_done: "es_put st s f n e v = (Inr x, v') \<Longrightarrow> held v' = (held v)((s, f, n) \<mapsto> normalize_jump_hosts e)"
    and put_failed: "es_put st s f n e v = (Inl err, v') \<Longrightarrow>
      held v' = held v \<or> held v' = (held v)((s, f, n) \<mapsto> normalize_jump_hosts e)"
    and add_done: "es_put_if_absent st s f n e v = (Inr True, v') \<Longrightarrow>
      held v (s, f, n) = None \<and> held v' = (held v)((s, f, n) \<mapsto> normalize_jump_hosts e)"
    and add_taken: "es_put_if_absent st s f n e v = (Inr False, v') \<Longrightarrow> held v' = held v"
    and add_failed: "es_put_if_absent st s f n e v = (Inl err, v') \<Longrightarrow>
      held v' = held v \<or> held v (s, f, n) = None \<and> held v' = (held v)((s, f, n) \<mapsto> normalize_jump_hosts e)"
    and delete_done: "es_delete st s f n v = (Inr x, v') \<Longrightarrow> held v' = (held v)((s, f, n) := None)"
    and delete_failed: "es_delete st s f n v = (Inl err, v') \<Longrightarrow>
      held v' = held v \<or> held v' = (held v)((s, f, n) := None)"
    and held_normal: "held v p = Some e \<Longrightarrow> normalize_jump_hosts e = e"
begin

lemma delete_effect:
  assumes "es_delete st s f n v = (d, v')"
  shows "held v' = held v \<or> held v' = (held v)((s, f, n) := None)" "\<forall>x. d = Inr x \<longrightarrow> held v' = (held v)((s, f, n) := None)"
  using delete_done delete_failed assms by (cases d; blast)+

lemma copy_ok:
  assumes "copy_stored_entry st s f n s' f' n' v = (Inr e, v')"
  shows "held v (s, f, n) = Some e" "held v (s', f', n') = None" "held v' = (held v)((s', f', n') \<mapsto> e)"
proof -
  obtain v1 where g: "es_get st s f n v = (Inr e, v1)" and a: "es_put_if_absent st s' f' n' e v1 = (Inr True, v')"
    using assms
    by (auto simp: copy_stored_entry_def then_v_def map_err_v_def map_err_def return_v_def fail_v_def
        split: prod.splits sum.splits if_splits)
  show "held v (s, f, n) = Some e" using get_found [OF g] .
  then show "held v (s', f', n') = None" "held v' = (held v)((s', f', n') \<mapsto> e)"
    using add_done [OF a] get_frame [OF g] held_normal by auto
qed

lemma copy_fails:
  assumes "copy_stored_entry st s f n s' f' n' v = (Inl err, v')"
  shows "held v' = held v \<or>
    fst err \<noteq> 409 \<and> (\<exists>e. held v (s, f, n) = Some e \<and> held v (s', f', n') = None \<and> held v' = (held v)((s', f', n') \<mapsto> e))"
proof (cases "es_get st s f n v")
  case (Pair r v1)
  have h1: "held v1 = held v" using get_frame [OF Pair] .
  show ?thesis
  proof (cases r)
    case (Inl a)
    then show ?thesis using assms Pair h1 by (simp add: copy_stored_entry_def then_v_def map_err_v_def map_err_def)
  next
    case (Inr e)
    with Pair have e: "held v (s, f, n) = Some e" using get_found by simp
    obtain r2 where a: "es_put_if_absent st s' f' n' e v1 = (r2, v')"
      using assms Pair Inr
      by (auto simp: copy_stored_entry_def then_v_def map_err_v_def map_err_def return_v_def fail_v_def
          split: prod.splits sum.splits if_splits)
    then show ?thesis
    proof (cases r2)
      case (Inl er)
      have "fst (ab_vault_error er) \<noteq> 409" by (cases er) auto
      then show ?thesis using add_failed [OF a [unfolded Inl]] assms Pair Inr Inl a h1 e held_normal [OF e]
        by (auto simp: copy_stored_entry_def then_v_def map_err_v_def map_err_def)
    next
      case (Inr b)
      then have "b = False" using assms Pair \<open>r = Inr e\<close> a
        by (auto simp: copy_stored_entry_def then_v_def map_err_v_def map_err_def return_v_def split: if_splits)
      then show ?thesis using add_taken a Inr h1 by simp
    qed
  qed
qed

text \<open>The outcomes of a move.\<close>

lemma move_outcome:
  assumes "move_stored_entry st s f n s' f' n' v = (r, v')"
  shows "case r of
      Inr e \<Rightarrow> held v (s, f, n) = Some e \<and> held v (s', f', n') = None \<and>
        held v' = (held v)((s, f, n) := None, (s', f', n') \<mapsto> e)
    | Inl (Copy_refused (code, _)) \<Rightarrow> held v' = held v \<or>
        code \<noteq> 409 \<and> (\<exists>e. held v (s, f, n) = Some e \<and> held v (s', f', n') = None \<and> held v' = (held v)((s', f', n') \<mapsto> e))
    | Inl (Move_incomplete _) \<Rightarrow> \<exists>e. held v (s, f, n) = Some e \<and> held v (s', f', n') = None \<and>
        (held v' = (held v)((s', f', n') \<mapsto> e) \<or> held v' = (held v)((s, f, n) := None, (s', f', n') \<mapsto> e))"
proof (cases "copy_stored_entry st s f n s' f' n' v")
  case (Pair c v1)
  show ?thesis
  proof (cases c)
    case (Inl err)
    then have "r = Inl (Copy_refused err)" "v1 = v'"
      using assms Pair by (auto simp: move_stored_entry_def then_v_def map_err_v_def map_err_def)
    with copy_fails [OF Pair [unfolded Inl]] show ?thesis by (auto split: prod.splits)
  next
    case (Inr e)
    note c = copy_ok [OF Pair [unfolded Inr]]
    from c have ne: "(s', f', n') \<noteq> (s, f, n)" by auto
    obtain d where d: "es_delete st s f n v1 = (d, v')"
        "r = (case d of Inl err \<Rightarrow> Inl (Move_incomplete err) | Inr _ \<Rightarrow> Inr e)"
      using assms Pair Inr
      by (auto simp: move_stored_entry_def then_v_def map_err_v_def map_err_def return_v_def split: prod.splits sum.splits)
    have "(held v)((s', f', n') \<mapsto> e, (s, f, n) := None) = (held v)((s, f, n) := None, (s', f', n') \<mapsto> e)"
      using ne by (rule fun_upd_twist)
    with delete_effect [OF d(1)] show ?thesis using c d(2) by (cases d) auto
  qed
qed

text \<open>The search for the id changes nothing and finds every other entry that carries it.\<close>

lemma scan_names_spec:
  assumes "scan_names st s f n i other names found v = (r, v')"
  shows "held v' = held v \<and> (\<forall>out. r = Inr out \<longrightarrow>
    set out = set found \<union> {(other, x) | x. x \<in> set names \<and> (other, x) \<noteq> (f, n) \<and> carries (held v) s i (other, x)})"
  using assms
proof (induction names arbitrary: found v)
  case Nil
  then show ?case by auto
next
  case (Cons name names)
  show ?case
  proof (cases "other = f \<and> name = n")
    case True
    then have "scan_names st s f n i other names found v = (r, v')" using Cons.prems by simp
    from Cons.IH [OF this] True show ?thesis by auto
  next
    case False
    obtain g v1 where g: "es_get st s other name v = (g, v1)" by (cases "es_get st s other name v")
    note h1 = get_frame [OF g]
    show ?thesis
    proof (cases g)
      case (Inr e)
      then have c: "carries (held v) s i (other, name) \<longleftrightarrow> ab_external_id e = Some i"
        using get_found g by (simp add: carries_def)
      have "scan_names st s f n i other names (if ab_external_id e = Some i then found @ [(other, name)] else found) v1 = (r, v')"
        using Cons.prems False g Inr by simp
      from Cons.IH [OF this] c False show ?thesis by (auto simp: h1)
    next
      case (Inl err)
      show ?thesis
      proof (cases "err = Vault_not_found")
        case True
        then have c: "\<not> carries (held v) s i (other, name)" using get_absent g Inl by (simp add: carries_def)
        have "scan_names st s f n i other names found v1 = (r, v')" using Cons.prems False g Inl True by simp
        from Cons.IH [OF this] c show ?thesis by (auto simp: h1)
      next
        case no: False
        then show ?thesis using Cons.prems False g Inl h1 by (cases err) auto
      qed
    qed
  qed
qed

lemma scan_folders_spec:
  assumes "scan_folders st s f n i others found v = (r, v')"
  shows "held v' = held v \<and> (\<forall>out. r = Inr out \<longrightarrow>
    set out = set found \<union> {p. fst p \<in> set others \<and> p \<noteq> (f, n) \<and> carries (held v) s i p})"
  using assms
proof (induction others arbitrary: found v)
  case Nil
  then show ?case by auto
next
  case (Cons other others)
  obtain a v1 where a: "es_entry_names st s other v = (a, v1)" by (cases "es_entry_names st s other v")
  note h1 = names_frame [OF a]
  show ?case
  proof (cases a)
    case (Inl err)
    then show ?thesis using Cons.prems a h1 by (auto simp: then_v_def map_err_v_def map_err_def)
  next
    case (Inr names)
    obtain b v2 where b: "scan_names st s f n i other names found v1 = (b, v2)"
      by (cases "scan_names st s f n i other names found v1")
    note sn = scan_names_spec [OF b]
    show ?thesis
    proof (cases b)
      case (Inl err)
      then show ?thesis using Cons.prems a \<open>a = Inr names\<close> b sn h1 by (auto simp: then_v_def map_err_v_def map_err_def)
    next
      case (Inr found')
      have listed: "x \<in> set names" if "carries (held v) s i (other, x)" for x
        using names_all [OF a [unfolded \<open>a = Inr names\<close>]] that by (auto simp: carries_def split: option.splits)
      have "scan_folders st s f n i others found' v2 = (r, v')"
        using Cons.prems a \<open>a = Inr names\<close> b Inr by (simp add: then_v_def map_err_v_def map_err_def)
      from Cons.IH [OF this] sn Inr listed show ?thesis by (fastforce simp: h1)
    qed
  qed
qed

lemma occupant_spec:
  assumes "occupant_of st s f n i v = (r, v')"
  shows "held v' = held v \<and> (\<forall>who. r = Inr who \<longrightarrow>
    (who = Same_device \<longleftrightarrow> carries (held v) s i (f, n)) \<and> (who = Nobody \<longleftrightarrow> held v (s, f, n) = None))"
proof (cases "es_get st s f n v")
  case (Pair g v1)
  show ?thesis
  proof (cases g)
    case (Inr e)
    with Pair have "held v (s, f, n) = Some e" using get_found by simp
    then show ?thesis using assms Pair Inr get_frame [OF Pair]
      by (auto simp: occupant_of_def carries_def split: option.splits if_splits)
  next
    case (Inl err)
    then show ?thesis using assms Pair get_frame [OF Pair] get_absent
      by (cases err) (auto simp: occupant_of_def carries_def)
  qed
qed

text \<open>
  Relocation either leaves the shelf alone, or nothing stands at the place and it moves there the
  one entry of the scope that carries the id.
\<close>

lemma relocate_cases:
  assumes "relocate_by_external_id st s f n i v = (r, v')"
  shows "held v' = held v \<and> (\<forall>p. r \<noteq> Inr (Some p)) \<and>
      (r = Inr None \<longrightarrow> carries (held v) s i (f, n) \<or> (\<forall>p. \<not> carries (held v) s i p)) \<or>
    (\<exists>f0 n0 v1 m. held v1 = held v \<and> held v (s, f, n) = None \<and> {p. carries (held v) s i p} = {(f0, n0)} \<and>
       move_stored_entry st s f0 n0 s f n v1 = (m, v') \<and>
       r = (case m of Inl e \<Rightarrow> Inl (move_error_of (f0, n0) e) | Inr _ \<Rightarrow> Inr (Some (f0, n0))))"
proof -
  obtain a v1 where a: "occupant_of st s f n i v = (a, v1)" by (cases "occupant_of st s f n i v")
  note who = occupant_spec [OF a]
  consider (stop) "\<forall>w. a = Inr w \<longrightarrow> w \<noteq> Without_id \<and> w \<noteq> Nobody" | (go) w where "a = Inr w" "w = Without_id \<or> w = Nobody"
    by blast
  then show ?thesis
  proof cases
    case stop
    then show ?thesis using assms a who
      by (cases a) (auto simp: relocate_by_external_id_def then_v_def fail_v_def return_v_def split: occupant.splits)
  next
    case go
    obtain b v2 where b: "es_folder_paths st s v1 = (b, v2)" by (cases "es_folder_paths st s v1")
    have h2: "held v2 = held v" using folders_frame [OF b] who by simp
    show ?thesis
    proof (cases b)
      case (Inl err)
      then show ?thesis using assms a b go h2
        by (auto simp: relocate_by_external_id_def then_v_def map_err_v_def map_err_def)
    next
      case (Inr fs)
      obtain c v3 where c: "scan_folders st s f n i fs [] v2 = (c, v3)" by (cases "scan_folders st s f n i fs [] v2")
      have h3: "held v3 = held v" using scan_folders_spec [OF c] h2 by simp
      have rel: "(r, v') = (case c of Inl e \<Rightarrow> (Inl e, v3) | Inr found \<Rightarrow> move_found st s f n i (w = Without_id) found v3)"
        using assms a b c go Inr by (auto simp: relocate_by_external_id_def then_v_def map_err_v_def map_err_def split: sum.splits)
      have all: "set found = {p. carries (held v) s i p}" if "c = Inr found" for found
      proof -
        have "fst p \<in> set fs" if "carries (held v) s i p" for p
          using folders_all [OF b [unfolded Inr], of "fst p" "snd p"] that who
          by (auto simp: carries_def split: option.splits)
        moreover have "\<not> carries (held v) s i (f, n)" using who go by auto
        ultimately show ?thesis using scan_folders_spec [OF c] h2 that by auto
      qed
      show ?thesis
      proof (cases "\<exists>p. c = Inr [p] \<and> w = Nobody")
        case True
        then obtain f0 n0 where p: "c = Inr [(f0, n0)]" "w = Nobody" by auto
        obtain m v4 where m: "move_stored_entry st s f0 n0 s f n v3 = (m, v4)" by (cases "move_stored_entry st s f0 n0 s f n v3")
        then have "(r, v') = ((case m of Inl e \<Rightarrow> Inl (move_error_of (f0, n0) e) | Inr _ \<Rightarrow> Inr (Some (f0, n0))), v4)"
          using rel p by (auto simp: move_found_def then_v_def map_err_v_def map_err_def return_v_def split: sum.splits)
        moreover have "{p. carries (held v) s i p} = {(f0, n0)}" using all [OF p(1)] by simp
        moreover have "held v (s, f, n) = None" using who go p by auto
        ultimately show ?thesis using m h3 by (intro disjI2 exI [of _ f0] exI [of _ n0] exI [of _ v3] exI [of _ m]) simp
      next
        case False
        then have "v' = v3 \<and> (\<forall>p. r \<noteq> Inr (Some p)) \<and> (r = Inr None \<longrightarrow> c = Inr [])"
          using rel go by (auto simp: move_found_def fail_v_def return_v_def split: sum.splits list.splits if_splits)
        then show ?thesis using h3 all by auto
      qed
    qed
  qed
qed

lemma update_outcome:
  assumes "update_entry st s f n data moved v = (r, v')"
  shows "case r of
      Inr (m, e) \<Rightarrow> m = moved \<and> e = merged_at (held v) (s, f, n) data \<and>
        held v' = (held v)((s, f, n) \<mapsto> normalize_jump_hosts e)
    | Inl err \<Rightarrow> (\<exists>x. err = Update_failed moved x) \<and> (held v' = held v \<or>
        held v' = (held v)((s, f, n) \<mapsto> normalize_jump_hosts (merged_at (held v) (s, f, n) data)))"
proof -
  obtain g v1 where g: "es_get st s f n v = (g, v1)" by (cases "es_get st s f n v")
  note h1 = get_frame [OF g]
  define e where "e = merged_at (held v) (s, f, n) data"
  obtain b v2 where b: "es_put st s f n e v1 = (b, v2)" by (cases "es_put st s f n e v1")
  have b': "case b of Inl _ \<Rightarrow> held v2 = held v \<or> held v2 = (held v)((s, f, n) \<mapsto> normalize_jump_hosts e)
      | Inr _ \<Rightarrow> held v2 = (held v)((s, f, n) \<mapsto> normalize_jump_hosts e)"
    using put_done put_failed b h1 by (cases b; fastforce)
  consider (read) x where "g = Inl x" "x \<noteq> Vault_not_found"
    | (wrote) "(r, v') = (map_err (Update_failed moved) (case b of Inl x \<Rightarrow> Inl x | Inr _ \<Rightarrow> Inr (moved, e)), v2)"
  proof (cases g)
    case (Inl x)
    then show ?thesis using that assms g b get_absent
      by (cases "x = Vault_not_found"; cases b)
        (auto simp: update_entry_def then_v_def map_err_v_def map_err_def return_v_def e_def merged_at_def)
  next
    case (Inr x)
    then show ?thesis using that(2) assms g b get_found
      by (cases b) (auto simp: update_entry_def then_v_def map_err_v_def map_err_def return_v_def e_def merged_at_def)
  qed
  then show ?thesis
  proof cases
    case read
    then show ?thesis using assms g h1 by (auto simp: update_entry_def)
  next
    case wrote
    then show ?thesis using b' by (cases b) (auto simp: map_err_def e_def)
  qed
qed

lemma upsert_moves:
  assumes up: "upsert_entry st s f n data True v = (Inr (moved, e), v')" and i: "ab_external_id data = Some i"
  shows "(\<forall>p. moved = Some p \<longrightarrow> carries (held v) s i p \<and> held v (s, f, n) = None) \<and>
    (let m = (case moved of None \<Rightarrow> held v | Some p \<Rightarrow> (held v)((s, p) := None, (s, f, n) := held v (s, p))) in
       e = merged_at m (s, f, n) data \<and> held v' = m((s, f, n) \<mapsto> normalize_jump_hosts e)) \<and>
    carries (held v') s i (f, n) \<and>
    (carries (held v) s i (f, n) \<or> (\<forall>q. carries (held v') s i q \<longrightarrow> q = (f, n)))"
proof -
  obtain a v1 where a: "relocate_by_external_id st s f n i v = (Inr a, v1)" and u: "update_entry st s f n data a v1 = (Inr (moved, e), v')"
    using up i by (auto simp: upsert_entry_def filter_opt_def then_v_def fail_v_def split: prod.splits sum.splits if_splits)
  note u' = update_outcome [OF u, simplified]
  from u' i have ei: "ab_external_id e = Some i" by simp
  from relocate_cases [OF a] show ?thesis
  proof (elim disjE exE conjE)
    assume "held v1 = held v" "\<forall>p. Inr a \<noteq> Inr (Some p)"
      "Inr a = Inr None \<longrightarrow> carries (held v) s i (f, n) \<or> (\<forall>p. \<not> carries (held v) s i p)"
    moreover from this have "a = None" by (cases a) auto
    ultimately show ?thesis using u' ei by (auto simp: carries_upd)
  next
    fix f0 n0 w m
    assume w: "held w = held v" "held v (s, f, n) = None" "{p. carries (held v) s i p} = {(f0, n0)}"
      "move_stored_entry st s f0 n0 s f n w = (m, v1)"
      "Inr a = (case m of Inl e \<Rightarrow> Inl (move_error_of (f0, n0) e) | Inr _ \<Rightarrow> Inr (Some (f0, n0)))"
    then obtain x where x: "m = Inr x" "a = Some (f0, n0)" by (auto split: sum.splits)
    with move_outcome [OF w(4)] w(1) have mv: "held v (s, f0, n0) = Some x"
        "held v1 = (held v)((s, f0, n0) := None, (s, f, n) \<mapsto> x)" by auto
    have src: "carries (held v) s i q \<longleftrightarrow> q = (f0, n0)" for q using w(3) by blast
    have "q = (f, n)" if "carries (held v') s i q" for q
      using that by (auto simp: u' mv(2) carries_upd src split: if_splits)
    moreover have "carries (held v') s i (f, n)" using ei by (simp add: u' carries_upd)
    ultimately show ?thesis using u' mv x w(2) by (simp add: src)
  qed
qed

text \<open>Whatever the outcome, no other entry is lost, and a conflict changes nothing.\<close>

lemma upsert_keeps:
  assumes up: "upsert_entry st s f n data True v = (r, v')" and x: "held v p = Some x" "p \<noteq> (s, f, n)"
  shows "held v' p = Some x \<or> ab_external_id x = ab_external_id data \<and>
    (\<exists>y \<in> {x, normalize_jump_hosts (merge_entry_update data x)}. held v' (s, f, n) = Some y)"
proof (cases "filter_opt (\<lambda>i. i \<noteq> []) (ab_external_id data)")
  case None
  then show ?thesis using up x by (auto simp: upsert_entry_def fail_v_def)
next
  case (Some i)
  then have i: "ab_external_id data = Some i" by (auto simp: filter_opt_def split: option.splits if_splits)
  obtain a v1 where a: "relocate_by_external_id st s f n i v = (a, v1)" by (cases "relocate_by_external_id st s f n i v")
  have v1: "held v1 p = Some x \<or> ab_external_id x = Some i \<and> held v1 (s, f, n) = Some x"
    using relocate_cases [OF a]
  proof (elim disjE exE conjE)
    fix f0 n0 w m
    assume w: "held w = held v" "held v (s, f, n) = None" "{p. carries (held v) s i p} = {(f0, n0)}"
      "move_stored_entry st s f0 n0 s f n w = (m, v1)"
    have "carries (held v) s i (f0, n0)" using w(3) by blast
    then have "ab_external_id x = Some i" if "p = (s, f0, n0)" using x(1) that by (simp add: carries_def)
    then show ?thesis using move_outcome [OF w(4)] w(1) x by (auto split: sum.splits move_error.splits if_splits)
  qed (use x in auto)
  show ?thesis
  proof (cases a)
    case (Inl err)
    then show ?thesis using up a Some v1 i by (auto simp: upsert_entry_def then_v_def)
  next
    case (Inr moved)
    then have "update_entry st s f n data moved v1 = (r, v')" using up a Some by (simp add: upsert_entry_def then_v_def)
    from update_outcome [OF this] have "held v' = held v1 \<or>
        held v' = (held v1)((s, f, n) \<mapsto> normalize_jump_hosts (merged_at (held v1) (s, f, n) data))"
      by (auto split: sum.splits)
    then show ?thesis using v1 x(2) i by (auto simp: merged_at_def)
  qed
qed

lemma upsert_conflict:
  assumes up: "upsert_entry st s f n data move v = (Inl (Rejected 409 msg), v')"
  shows "held v' = held v"
proof (cases move)
  case False
  then show ?thesis using up update_outcome by (fastforce simp: upsert_entry_def)
next
  case True
  show ?thesis
  proof (cases "filter_opt (\<lambda>i. i \<noteq> []) (ab_external_id data)")
    case None
    then show ?thesis using up True by (auto simp: upsert_entry_def fail_v_def)
  next
    case (Some i)
    obtain a v1 where a: "relocate_by_external_id st s f n i v = (a, v1)" by (cases "relocate_by_external_id st s f n i v")
    have "a = Inl (Rejected 409 msg) \<and> v1 = v'"
      using up a Some True update_outcome by (cases a) (fastforce simp: upsert_entry_def then_v_def)+
    then show ?thesis using relocate_cases [OF a] move_outcome
      by (fastforce simp: move_error_of_def split: sum.splits move_error.splits prod.splits)
  qed
qed

section \<open>Bulk actions lose nothing\<close>

lemma try_names_outcome:
  assumes "try_names st s f e cs v = (r, v')" and e: "normalize_jump_hosts e = e"
  shows "case r of
      Inr None \<Rightarrow> held v' = held v
    | Inr (Some c) \<Rightarrow> c \<in> set cs \<and> held v (s, f, c) = None \<and> held v' = (held v)((s, f, c) \<mapsto> e)
    | Inl _ \<Rightarrow> held v' = held v \<or> (\<exists>c\<in>set cs. held v (s, f, c) = None \<and> held v' = (held v)((s, f, c) \<mapsto> e))"
  using assms(1)
proof (induction cs arbitrary: v)
  case (Cons c cs)
  obtain a v1 where a: "es_put_if_absent st s f c e v = (a, v1)" by (cases "es_put_if_absent st s f c e v")
  consider (err) x where "a = Inl x" | (new) "a = Inr True" | (taken) "a = Inr False" by (cases a) auto
  then show ?case
  proof cases
    case err
    then show ?thesis using Cons.prems a add_failed e by fastforce
  next
    case new
    then show ?thesis using Cons.prems a add_done e by auto
  next
    case taken
    then have "held v1 = held v" "try_names st s f e cs v1 = (r, v')" using Cons.prems a add_taken by auto
    with Cons.IH [of v1] show ?thesis by (cases r) (force split: option.splits simp del: fun_upd_apply)+
  qed
qed auto

lemma copy_into_outcome:
  assumes "copy_entry_into st (s, f, n) (s', f') oc v = (r, v')"
  shows "(\<forall>c. r = Inr (Some c) \<longrightarrow> c \<in> set (rename_candidates n (oc = Rename_copy)) \<and>
       (\<exists>e. held v (s, f, n) = Some e \<and> held v (s', f', c) = None \<and> held v' = (held v)((s', f', c) \<mapsto> e))) \<and>
    (r = Inr None \<longrightarrow> held v' = held v) \<and>
    (\<forall>p e. held v p = Some e \<longrightarrow> held v' p = Some e)"
proof -
  obtain g v1 where g: "es_get st s f n v = (g, v1)" by (cases "es_get st s f n v")
  show ?thesis
  proof (cases g)
    case (Inl x)
    then show ?thesis using assms g get_frame [OF g] by (auto simp: copy_entry_into_def then_v_def map_err_v_def map_err_def)
  next
    case (Inr e)
    note e = get_found [OF g [unfolded Inr]]
    obtain t v2 where t: "try_names st s' f' e (rename_candidates n (oc = Rename_copy)) v1 = (t, v2)"
      by (cases "try_names st s' f' e (rename_candidates n (oc = Rename_copy)) v1")
    have "v' = v2" "\<forall>c. r = Inr c \<longrightarrow> t = Inr c"
      using assms g Inr t
      by (auto simp: copy_entry_into_def then_v_def map_err_v_def map_err_def fail_v_def return_v_def
          split: sum.splits prod.splits if_splits)
    moreover note try_names_outcome [OF t held_normal [OF e]]
    ultimately show ?thesis using e get_frame [OF g] by (auto split: sum.splits option.splits)
  qed
qed

lemma bulk_delete_outcome:
  assumes "bulk_one st Bulk_delete target oc (s, f, n) v = (res, v')"
  shows "res = Bulk_deleted \<and> held v (s, f, n) \<noteq> None \<and> held v' = (held v)((s, f, n) := None) \<or>
    (\<exists>msg. res = Bulk_failed msg) \<and> (held v' = held v \<or> held v' = (held v)((s, f, n) := None))"
proof -
  obtain g v1 where g: "es_get st s f n v = (g, v1)" by (cases "es_get st s f n v")
  show ?thesis
  proof (cases g)
    case (Inl x)
    then show ?thesis using assms g get_frame [OF g] by (auto simp: bulk_one_def then_v_def)
  next
    case (Inr e)
    obtain d v2 where d: "es_delete st s f n v1 = (d, v2)" by (cases "es_delete st s f n v1")
    show ?thesis using assms g Inr d delete_effect [OF d] get_frame [OF g] get_found [OF g [unfolded Inr]]
      by (auto simp: bulk_one_def then_v_def split: sum.splits)
  qed
qed

lemma bulk_outcome:
  assumes "bulk_one st action target oc (s, f, n) v = (res, v')"
  shows "case res of
      Bulk_moved c \<Rightarrow> \<exists>s' f' e. target = Some (s', f') \<and> held v (s, f, n) = Some e \<and> held v (s', f', c) = None \<and>
        held v' = (held v)((s, f, n) := None, (s', f', c) \<mapsto> e)
    | Bulk_copied c \<Rightarrow> \<exists>s' f' e. target = Some (s', f') \<and> held v (s, f, n) = Some e \<and> held v (s', f', c) = None \<and>
        held v' = (held v)((s', f', c) \<mapsto> e)
    | Bulk_skipped _ \<Rightarrow> held v' = held v
    | Bulk_deleted \<Rightarrow> action = Bulk_delete \<and> held v (s, f, n) \<noteq> None \<and> held v' = (held v)((s, f, n) := None)
    | Copied_not_removed c _ \<Rightarrow> \<exists>s' f' e. target = Some (s', f') \<and> held v (s, f, n) = Some e \<and> held v (s', f', c) = None \<and>
        (held v' = (held v)((s', f', c) \<mapsto> e) \<or> held v' = (held v)((s, f, n) := None, (s', f', c) \<mapsto> e))
    | Bulk_failed _ \<Rightarrow> action = Bulk_delete \<and> held v' = (held v)((s, f, n) := None) \<or>
        (\<forall>p e. held v p = Some e \<longrightarrow> held v' p = Some e)"
proof (cases "action = Bulk_delete")
  case True
  then show ?thesis using bulk_delete_outcome [OF assms [unfolded True]] by (auto split: bulk_result.splits)
next
  case False
  show ?thesis
  proof (cases "\<exists>s' f'. target = Some (s', f') \<and> \<not> (action = Bulk_move \<and> s = s' \<and> f = f')")
    case False
    then show ?thesis using assms \<open>action \<noteq> Bulk_delete\<close> by (auto simp: bulk_one_def split: option.splits)
  next
    case True
    then obtain s' f' where t: "target = Some (s', f')" "\<not> (action = Bulk_move \<and> s = s' \<and> f = f')" by blast
    obtain c v1 where c: "copy_entry_into st (s, f, n) (s', f') oc v = (c, v1)" by (cases "copy_entry_into st (s, f, n) (s', f') oc v")
    note out = copy_into_outcome [OF c]
    show ?thesis
    proof (cases "\<exists>u. c = Inr (Some u) \<and> action = Bulk_move")
      case False
      then show ?thesis using assms \<open>action \<noteq> Bulk_delete\<close> t c out
        by (cases action) (auto simp: bulk_one_def split: sum.splits option.splits)
    next
      case True
      then obtain u where u: "c = Inr (Some u)" "action = Bulk_move" by blast
      with out obtain e where e: "held v (s, f, n) = Some e" "held v (s', f', u) = None" "held v1 = (held v)((s', f', u) \<mapsto> e)"
        by blast
      then have twist: "(held v)((s', f', u) \<mapsto> e, (s, f, n) := None) = (held v)((s, f, n) := None, (s', f', u) \<mapsto> e)"
        by (intro fun_upd_twist) auto
      obtain d where d: "es_delete st s f n v1 = (d, v')"
        using assms t u c by (auto simp: bulk_one_def split: prod.splits sum.splits)
      show ?thesis using assms t u c d e twist delete_effect [OF d] by (cases d) (auto simp: bulk_one_def simp del: fun_upd_apply)
    qed
  qed
qed

end

end
