(* ===== verification/Vault_Contract.thy ===== *)
theory Vault_Contract
  imports Entry_Ops
begin

text \<open>
  The store of \<^verbatim>\<open>src/src/api.rs\<close> over Vault keeps the contract of \<open>Entry_Ops\<close>. The locale \<open>kv_vault\<close>
  states the documented behaviour of Vault's KV version 2 engine that this needs; the sublocale
  derives the laws of the store from it, and an executable Vault in memory satisfies it. The
  properties of move, update and bulk are then stated for the store over Vault. Both scopes are in
  one Vault, and an operation is one sequence of requests with no other writer between them: what a
  bulk action does with an item is stated for that item alone, although \<open>ab_bulk\<close> runs several items at a time.
\<close>

section \<open>KV version 2\<close>

text \<open>A key of the engine, as it stands after \<open>data/\<close> or \<open>metadata/\<close> in a request.\<close>

definition kv_data :: "vault_client \<Rightarrow> str \<Rightarrow> str" where
  "kv_data cl k = ''/v1/'' @ vt_mount cl @ ''/data/'' @ k"

definition kv_meta :: "vault_client \<Rightarrow> str \<Rightarrow> str" where
  "kv_meta cl k = ''/v1/'' @ vt_mount cl @ ''/metadata/'' @ k"

definition status_in :: "nat set \<Rightarrow> 'b reply \<Rightarrow> bool" where
  "status_in ks r \<longleftrightarrow> (case r of Inl _ \<Rightarrow> False | Inr (k, _) \<Rightarrow> k \<in> ks)"

text \<open>
  The behaviour of Vault and of the network that carries the requests, with \<open>kv v k\<close> the current
  value under a key. A refused request (403) and a write answered with 400 have no effect, and an
  answered success has the effect asked for; after any other answer, or none, a write or a delete
  may have happened or not. A check-and-set write with version 0 happens only on a free key.
  Listing a folder answers with every name below it, a subfolder with a slash at its end.
\<close>

locale kv_vault =
  fixes cl :: vault_client and vt :: "'v vault" and kv :: "'v \<Rightarrow> str \<Rightarrow> json_body option"
  assumes refused: "vv_request vt m p b v = (Inr (403, x), v') \<Longrightarrow> kv v' = kv v"
    and transport: "vv_request vt m p b v = (Inl err, v') \<Longrightarrow> err \<noteq> Vault_not_found"
    and login: "vv_login vt v = (l, v') \<Longrightarrow> kv v' = kv v \<and> l \<noteq> Inl Vault_not_found"
    and get_frame: "vv_request vt M_get (kv_data cl k) None v = (r, v') \<Longrightarrow> kv v' = kv v"
    and get_some: "vv_request vt M_get (kv_data cl k) None v = (Inr (200, x), v') \<Longrightarrow> kv v k = Some x"
    and get_none: "vv_request vt M_get (kv_data cl k) None v = (Inr (404, x), v') \<Longrightarrow> kv v k = None"
    and post: "vv_request vt M_post (kv_data cl k) (Some (J_entry cas e)) v = (r, v') \<Longrightarrow>
      kv v' = kv v \<and> \<not> status_in {200, 204} r \<or>
      (\<exists>y. entry_of_body vt y = Inr e \<and> kv v' = (kv v)(k \<mapsto> y) \<and> (cas \<longrightarrow> kv v k = None) \<and> \<not> status_in {400, 403} r)"
    and delete: "vv_request vt M_delete (kv_meta cl k) None v = (r, v') \<Longrightarrow>
      kv v' = kv v \<and> \<not> status_in {200, 204} r \<or> kv v' = (kv v)(k := None)"
    and list_frame: "vv_list vt p v = (ls, v') \<Longrightarrow> kv v' = kv v \<and> ls \<noteq> Inl Vault_not_found"
    and list_some: "vv_list vt (kv_meta cl d @ ''/'') v = (Inr (200, ks), v') \<Longrightarrow> kv v (d @ ''/'' @ k) \<noteq> None \<Longrightarrow>
      (if CHR ''/'' \<in> set k then takeWhile (\<lambda>c. c \<noteq> CHR ''/'') k @ ''/'' else k) \<in> set ks"
    and list_none: "vv_list vt (kv_meta cl d @ ''/'') v = (Inr (404, ks), v') \<Longrightarrow> kv v (d @ ''/'' @ k) = None"

text \<open>The key of an entry, and the entry a key holds once read.\<close>

definition entry_key :: "vault_client \<Rightarrow> str \<Rightarrow> str \<Rightarrow> str \<Rightarrow> vault_error + str" where
  "entry_key cl scope folder entry =
     and_then (validate_path folder) (\<lambda>_. and_then (validate_name entry) (\<lambda>_.
     and_then (resolve_scope_prefix cl scope) (\<lambda>sp. Inr (vt_base_path cl @ ''/'' @ sp @ ''/'' @ folder @ ''/'' @ entry))))"

definition entry_held :: "vault_client \<Rightarrow> 'v vault \<Rightarrow> (str \<Rightarrow> json_body option) \<Rightarrow> shelf" where
  "entry_held cl vt store p =
     (case p of (s, f, n) \<Rightarrow>
       (case entry_key cl s f n of
          Inl _ \<Rightarrow> None
        | Inr k \<Rightarrow>
            (case store k of
               None \<Rightarrow> None
             | Some b \<Rightarrow> (case entry_of_body vt b of Inl _ \<Rightarrow> None | Inr e \<Rightarrow> Some (normalize_jump_hosts e)))))"

lemma entry_path_key: "entry_path cl s f n = (case entry_key cl s f n of Inl e \<Rightarrow> Inl e | Inr k \<Rightarrow> Inr (kv_data cl k))"
  by (auto simp: entry_path_def entry_key_def and_then_def data_path_def kv_data_def split: sum.splits)

lemma entry_key_raw:
  assumes sp: "resolve_scope_prefix cl s = Inr sp" and n: "CHR ''/'' \<notin> set n"
    and k: "entry_key cl s' f' n' = Inr (vt_base_path cl @ ''/'' @ sp @ ''/'' @ f @ ''/'' @ n)"
  shows "s' = s \<and> f' = f \<and> n' = n"
proof -
  from k obtain sp' where sp': "resolve_scope_prefix cl s' = Inr sp'" "validate_name n' = Inr ()"
      "sp' @ CHR ''/'' # f' @ ''/'' @ n' = sp @ CHR ''/'' # f @ ''/'' @ n"
    by (auto simp: entry_key_def and_then_def split: sum.splits)
  from scope_prefix_inj [OF sp'(1) sp sp'(3)] have "s' = s" "f' @ CHR ''/'' # n' = f @ CHR ''/'' # n" by simp_all
  with last_slash_unique validate_name_ok [OF sp'(2)] n show ?thesis by blast
qed

lemma normalize_idem [simp]: "normalize_jump_hosts (normalize_jump_hosts e) = normalize_jump_hosts e"
  by (simp add: normalize_jump_hosts_def Let_def filter_opt_def split: option.splits)

lemma entry_keyE:
  assumes "entry_key cl s f n = Inr k"
  obtains sp where "resolve_scope_prefix cl s = Inr sp" "k = vt_base_path cl @ ''/'' @ sp @ ''/'' @ f @ ''/'' @ n"
    "validate_path f = Inr ()" "validate_name n = Inr ()" "CHR ''/'' \<notin> set n"
  using assms validate_name_ok that by (auto simp: entry_key_def and_then_def split: sum.splits)

lemma names_not_found [simp]:
  "validate_name n \<noteq> Inl Vault_not_found" "validate_path f \<noteq> Inl Vault_not_found"
  "resolve_scope_prefix cl s \<noteq> Inl Vault_not_found"
proof -
  show name: "validate_name n \<noteq> Inl Vault_not_found" for n by (simp add: validate_name_def)
  have "validate_segments ss \<noteq> Inl Vault_not_found" for ss
    by (induction ss) (use name in \<open>auto split: sum.splits\<close>)
  then show "validate_path f \<noteq> Inl Vault_not_found" by (simp add: validate_path_def)
  show "resolve_scope_prefix cl s \<noteq> Inl Vault_not_found" by (simp add: resolve_scope_prefix_def split: option.splits)
qed

lemma entry_held_cong: "(\<And>k. entry_key cl s f n = Inr k \<Longrightarrow> m k = m' k) \<Longrightarrow> entry_held cl vt m (s, f, n) = entry_held cl vt m' (s, f, n)"
  by (auto simp: entry_held_def split: sum.splits)

lemma entry_held_put:
  assumes "entry_key cl s f n = Inr k" "entry_of_body vt b = Inr e"
  shows "entry_held cl vt (m(k \<mapsto> b)) = (entry_held cl vt m)((s, f, n) \<mapsto> normalize_jump_hosts e)"
proof
  fix p :: "str \<times> str \<times> str"
  obtain s' f' n' where p: "p = (s', f', n')" by (cases p)
  obtain sp where sp: "resolve_scope_prefix cl s = Inr sp" "CHR ''/'' \<notin> set n"
      "k = vt_base_path cl @ ''/'' @ sp @ ''/'' @ f @ ''/'' @ n" using assms(1) by (rule entry_keyE)
  show "entry_held cl vt (m(k \<mapsto> b)) p = ((entry_held cl vt m)((s, f, n) \<mapsto> normalize_jump_hosts e)) p"
  proof (cases "p = (s, f, n)")
    case True
    then show ?thesis using assms by (simp add: entry_held_def)
  next
    case False
    then have "entry_key cl s' f' n' \<noteq> Inr k" using entry_key_raw [OF sp(1,2)] sp(3) p by auto
    then show ?thesis using False p by (auto intro: entry_held_cong)
  qed
qed

lemma entry_held_delete:
  assumes "resolve_scope_prefix cl s = Inr sp" "validate_name n = Inr ()"
  shows "entry_held cl vt (m(vt_base_path cl @ ''/'' @ sp @ ''/'' @ f @ ''/'' @ n := None)) = (entry_held cl vt m)((s, f, n) := None)"
    (is "entry_held cl vt (m(?k := None)) = _")
proof
  fix p :: "str \<times> str \<times> str"
  obtain s' f' n' where p: "p = (s', f', n')" by (cases p)
  have n: "CHR ''/'' \<notin> set n" using validate_name_ok [OF assms(2)] by blast
  show "entry_held cl vt (m(?k := None)) p = ((entry_held cl vt m)((s, f, n) := None)) p"
  proof (cases "p = (s, f, n)")
    case True
    then show ?thesis using assms by (auto simp: entry_held_def entry_key_def and_then_def split: sum.splits)
  next
    case False
    then have "entry_key cl s' f' n' \<noteq> Inr ?k" using entry_key_raw [OF assms(1) n] p by auto
    then show ?thesis using False p by (auto intro: entry_held_cong)
  qed
qed

section \<open>The requests of the client\<close>

context kv_vault begin

abbreviation held :: "'v \<Rightarrow> shelf" where
  "held v \<equiv> entry_held cl vt (kv v)"

text \<open>A request is one request to Vault, after refused attempts that changed nothing, or fails to log in.\<close>

lemma request_once:
  assumes "request vt m p b v = (r, v')"
  obtains (sent) w where "kv w = kv v" "vv_request vt m p b w = (r, v')"
    | (no_login) err where "r = Inl err" "err \<noteq> Vault_not_found" "kv v' = kv v"
proof -
  obtain a v1 where a: "vv_request vt m p b v = (a, v1)" by (cases "vv_request vt m p b v")
  obtain l v2 where l: "vv_login vt v1 = (l, v2)" by (cases "vv_login vt v1")
  show ?thesis
  proof (cases "\<exists>x. a = Inr (403, x)")
    case True
    then have "kv v2 = kv v" using refused a login [OF l] by auto
    then show ?thesis using that assms True a l login [OF l]
      by (cases l) (auto simp: request_def then_v_def)
  next
    case False
    then show ?thesis using that(1) [of v] assms a
      by (cases a) (auto simp: request_def then_v_def return_v_def split: if_splits)
  qed
qed

lemma get_entry_outcome:
  assumes "get_entry cl vt s f n v = (r, v')"
  shows "kv v' = kv v \<and> (\<forall>e. r = Inr e \<longrightarrow> held v (s, f, n) = Some e) \<and>
    (r = Inl Vault_not_found \<longrightarrow> held v (s, f, n) = None)"
proof (cases "entry_key cl s f n")
  case (Inl x)
  then show ?thesis using assms by (auto simp: get_entry_def entry_path_key entry_held_def)
next
  case (Inr k)
  obtain a where a: "request vt M_get (kv_data cl k) None v = (a, v')"
      "r = and_then (read_reply (entry_of_body vt) ''entry'' a) (\<lambda>e. Inr (normalize_jump_hosts e))"
    using assms Inr by (auto simp: get_entry_def entry_path_key split: prod.splits)
  from a(1) show ?thesis
  proof (cases rule: request_once)
    case (sent w)
    have "\<forall>x. a = Inr (200, x) \<longrightarrow> kv v k = Some x" "\<forall>x. a = Inr (404, x) \<longrightarrow> kv v k = None" "a \<noteq> Inl Vault_not_found" "kv v' = kv v"
      using get_some [of k w _ v'] get_none [of k w _ v'] get_frame [of k w a v'] transport [of M_get _ None w _ v'] sent by auto
    then show ?thesis using a(2) Inr
      by (cases a) (auto simp: read_reply_def and_then_def entry_held_def split: if_splits sum.splits de_error.splits)
  next
    case no_login
    then show ?thesis using a(2) by (auto simp: read_reply_def and_then_def)
  qed
qed

lemma write_entry_outcome:
  assumes "write_entry cl vt s f n e only v = (r, v')"
  shows "held v' = held v \<and> r \<noteq> Inr True \<and> (r = Inr False \<longrightarrow> only) \<or>
    held v' = (held v)((s, f, n) \<mapsto> normalize_jump_hosts e) \<and> r \<noteq> Inr False \<and> (only \<longrightarrow> held v (s, f, n) = None)"
proof (cases "entry_key cl s f n")
  case (Inl x)
  then show ?thesis using assms by (auto simp: write_entry_def entry_path_key)
next
  case (Inr k)
  obtain a where a: "request vt M_post (kv_data cl k) (Some (J_entry only e)) v = (a, v')"
      "r = Inr True \<longleftrightarrow> status_in {200, 204} a" "r = Inr False \<longrightarrow> status_in {400} a \<and> only"
    using assms Inr
    by (auto simp: write_entry_def entry_path_key then_v_def return_v_def fail_v_def status_in_def
        split: prod.splits sum.splits if_splits)
  from a(1) show ?thesis
  proof (cases rule: request_once)
    case (sent w)
    from post [OF sent(2)] show ?thesis
    proof (elim disjE exE conjE)
      fix y
      assume y: "entry_of_body vt y = Inr e" "kv v' = (kv w)(k \<mapsto> y)" "only \<longrightarrow> kv w k = None" "\<not> status_in {400, 403} a"
      have "only \<longrightarrow> held v (s, f, n) = None" using y(3) Inr sent(1) by (simp add: entry_held_def)
      moreover have "r \<noteq> Inr False" using y(4) a(3) by (auto simp: status_in_def split: sum.splits)
      ultimately show ?thesis using y sent(1) entry_held_put [OF Inr y(1)] by simp
    qed (use a sent in simp)
  next
    case no_login
    then show ?thesis using a(2,3) by (auto simp: status_in_def)
  qed
qed

lemma delete_entry_outcome:
  assumes "delete_entry cl vt s f n v = (r, v')"
  shows "held v' = held v \<and> r \<noteq> Inr () \<or> held v' = (held v)((s, f, n) := None)"
proof (cases "and_then (validate_name n) (\<lambda>_. resolve_scope_prefix cl s)")
  case (Inl x)
  then show ?thesis using assms by (auto simp: delete_entry_def)
next
  case (Inr sp)
  then have ok: "resolve_scope_prefix cl s = Inr sp" "validate_name n = Inr ()" by (auto simp: and_then_def split: sum.splits)
  obtain a where a: "request vt M_delete (kv_meta cl (vt_base_path cl @ ''/'' @ sp @ ''/'' @ f @ ''/'' @ n)) None v = (a, v')"
      "r = Inr () \<longleftrightarrow> status_in {200, 204} a"
    using assms Inr
    by (auto simp: delete_entry_def metadata_path_def kv_meta_def then_v_def return_v_def fail_v_def status_in_def
        split: prod.splits sum.splits if_splits)
  from a(1) show ?thesis
  proof (cases rule: request_once)
    case (sent w)
    from delete [OF sent(2)] show ?thesis using sent(1) a(2) entry_held_delete [OF ok, of vt "kv v" f] by auto
  next
    case no_login
    then show ?thesis using a(2) by (simp add: status_in_def)
  qed
qed

text \<open>Listing.\<close>

lemma kv_list_outcome:
  assumes "kv_list vt (kv_meta cl d @ ''/'') v = (r, v')"
  shows "kv v' = kv v" "r = Inr ks \<Longrightarrow> kv v (d @ ''/'' @ k) \<noteq> None \<Longrightarrow>
      (if CHR ''/'' \<in> set k then takeWhile (\<lambda>c. c \<noteq> CHR ''/'') k @ ''/'' else k) \<in> set ks"
    "r = Inl Vault_not_found \<Longrightarrow> kv v (d @ ''/'' @ k) = None"
proof -
  obtain a v1 where a: "vv_list vt (kv_meta cl d @ ''/'') v = (a, v1)" by (cases "vv_list vt (kv_meta cl d @ ''/'') v")
  have v1: "v1 = v'" and ok: "r = Inr ks \<Longrightarrow> a = Inr (200, ks)"
    and nf: "r = Inl Vault_not_found \<Longrightarrow> a = Inl Vault_not_found \<or> (\<exists>xs. a = Inr (404, xs))"
    using assms a by (auto simp: kv_list_def then_v_def fail_v_def return_v_def split: sum.splits if_splits)
  show "kv v' = kv v" using list_frame [OF a] v1 by simp
  show "r = Inr ks \<Longrightarrow> kv v (d @ ''/'' @ k) \<noteq> None \<Longrightarrow>
      (if CHR ''/'' \<in> set k then takeWhile (\<lambda>c. c \<noteq> CHR ''/'') k @ ''/'' else k) \<in> set ks"
    using list_some [of d v ks v1 k] a ok by simp
  show "r = Inl Vault_not_found \<Longrightarrow> kv v (d @ ''/'' @ k) = None"
    using list_none [of d v _ v1 k] a nf list_frame [OF a] by auto
qed

abbreviation root_key :: "str \<Rightarrow> str" where
  "root_key sp \<equiv> vt_base_path cl @ ''/'' @ sp"

lemma list_children_outcome:
  assumes "list_children cl vt s f v = (r, v')"
  shows "kv v' = kv v"
    "resolve_scope_prefix cl s = Inr sp \<Longrightarrow> kv v (root_key sp @ ''/'' @ f @ ''/'' @ k) \<noteq> None \<Longrightarrow> r \<noteq> Inl Vault_not_found \<and>
      (\<forall>ks. r = Inr ks \<longrightarrow> (if CHR ''/'' \<in> set k then takeWhile (\<lambda>c. c \<noteq> CHR ''/'') k @ ''/'' else k) \<in> set ks)"
proof -
  have "(\<exists>e. r = Inl e \<and> e \<noteq> Vault_not_found \<and> v' = v) \<or>
      (\<exists>sp. resolve_scope_prefix cl s = Inr sp \<and> kv_list vt (kv_meta cl (root_key sp @ ''/'' @ f) @ ''/'') v = (r, v'))"
  proof (cases "and_then (validate_path f) (\<lambda>_. resolve_scope_prefix cl s)")
    case (Inl e)
    moreover from this have "e \<noteq> Vault_not_found" using names_not_found by (auto simp: and_then_def split: sum.splits)
    ultimately show ?thesis using assms by (auto simp: list_children_def)
  next
    case (Inr p)
    then have "resolve_scope_prefix cl s = Inr p" by (auto simp: and_then_def split: sum.splits)
    then show ?thesis using assms Inr by (auto simp: list_children_def metadata_path_def kv_meta_def and_then_def)
  qed
  then show "kv v' = kv v"
    "resolve_scope_prefix cl s = Inr sp \<Longrightarrow> kv v (root_key sp @ ''/'' @ f @ ''/'' @ k) \<noteq> None \<Longrightarrow> r \<noteq> Inl Vault_not_found \<and>
      (\<forall>ks. r = Inr ks \<longrightarrow> (if CHR ''/'' \<in> set k then takeWhile (\<lambda>c. c \<noteq> CHR ''/'') k @ ''/'' else k) \<in> set ks)"
    using kv_list_outcome(2) [of "root_key sp @ ''/'' @ f" v r v' _ k] kv_list_outcome(3) [of "root_key sp @ ''/'' @ f" v r v' k]
      kv_list_outcome(1) by (force simp del: if_split_mem1 if_split_mem2)+
qed

lemma first_segment:
  obtains seg where "takeWhile (\<lambda>c. c \<noteq> CHR ''/'') (q @ CHR ''/'' # n) = seg" "q = seg \<or> (\<exists>q'. q = seg @ CHR ''/'' # q')"
proof (cases "CHR ''/'' \<in> set q")
  case True
  then obtain seg q' where "q = seg @ CHR ''/'' # q'" "CHR ''/'' \<notin> set seg" by (meson split_list_first)
  moreover from this have "takeWhile (\<lambda>c. c \<noteq> CHR ''/'') (q @ CHR ''/'' # n) = seg"
    by (subst takeWhile_eq_take_P_nth [of "length seg"]) (auto simp: nth_append in_set_conv_nth)
  ultimately show ?thesis using that by blast
next
  case False
  then have "takeWhile (\<lambda>c. c \<noteq> CHR ''/'') (q @ CHR ''/'' # n) = q" by (induction q) auto
  then show ?thesis using that by blast
qed

lemma map_filter_strip: "seg @ ''/'' \<in> set keys \<Longrightarrow> seg \<in> set (List.map_filter strip_slash keys)"
  by (force simp: List.map_filter_def strip_slash_def image_iff)

lemma visit_frame: "kv (visit_folders cl vt s ps v) = kv v"
proof (induction ps arbitrary: v)
  case (Cons p ps)
  have "kv (visit_folder cl vt s p v) = kv v"
  proof -
    define w where "w = (case and_then (validate_path p) (\<lambda>_. resolve_scope_prefix cl s) of
        Inl _ \<Rightarrow> v | Inr sp \<Rightarrow> snd (request vt M_get (data_path cl sp (p @ ''/.config'')) None v))"
    have "kv w = kv v"
    proof (cases "and_then (validate_path p) (\<lambda>_. resolve_scope_prefix cl s)")
      case (Inr sp)
      define k where "k = root_key sp @ ''/'' @ p @ ''/.config''"
      obtain r v1 where r: "request vt M_get (kv_data cl k) None v = (r, v1)" by (cases "request vt M_get (kv_data cl k) None v")
      then have "kv v1 = kv v" by (cases rule: request_once) (use get_frame in auto)
      moreover have "data_path cl sp (p @ ''/.config'') = kv_data cl k" by (simp add: data_path_def kv_data_def k_def)
      ultimately show ?thesis by (simp add: w_def Inr r)
    qed (simp add: w_def)
    moreover have "kv (snd (list_children cl vt s p w)) = kv w"
      using list_children_outcome(1) [of s p w] by (metis prod.collapse)
    ultimately show ?thesis by (simp add: visit_folder_def w_def [symmetric])
  qed
  then show ?case using Cons.IH by (simp add: visit_folders_def)
qed (simp add: visit_folders_def)

lemma subfolder_outcome:
  assumes "subfolder_paths cl vt s p v = (r, v')"
  shows "kv v' = kv v"
    "resolve_scope_prefix cl s = Inr sp \<Longrightarrow> kv v (root_key sp @ ''/'' @ p @ ''/'' @ q @ ''/'' @ n) \<noteq> None \<Longrightarrow>
      r \<noteq> Inl Vault_not_found \<and>
      (\<forall>subs. r = Inr subs \<longrightarrow> (\<exists>seg. p @ ''/'' @ seg \<in> set subs \<and> (q = seg \<or> (\<exists>q'. q = seg @ CHR ''/'' # q'))))"
proof -
  obtain a v1 where a: "list_children cl vt s p v = (a, v1)" by (cases "list_children cl vt s p v")
  then have r: "kv v' = kv v1" "r = (case a of Inl e \<Rightarrow> Inl e | Inr ks \<Rightarrow> Inr (map (\<lambda>name. p @ ''/'' @ name) (List.map_filter strip_slash ks)))"
    using assms visit_frame by (auto simp: subfolder_paths_def then_v_def Let_def split: sum.splits)
  show "kv v' = kv v" using list_children_outcome(1) [OF a] r by simp
  assume key: "resolve_scope_prefix cl s = Inr sp" "kv v (root_key sp @ ''/'' @ p @ ''/'' @ q @ ''/'' @ n) \<noteq> None"
  obtain seg where seg: "takeWhile (\<lambda>c. c \<noteq> CHR ''/'') (q @ CHR ''/'' # n) = seg" "q = seg \<or> (\<exists>q'. q = seg @ CHR ''/'' # q')"
    by (rule first_segment)
  have "a \<noteq> Inl Vault_not_found \<and> (\<forall>ks. a = Inr ks \<longrightarrow> seg @ ''/'' \<in> set ks)"
    using list_children_outcome(2) [OF a key(1), of "q @ ''/'' @ n"] key(2) seg(1) by auto
  then show "r \<noteq> Inl Vault_not_found \<and>
      (\<forall>subs. r = Inr subs \<longrightarrow> (\<exists>seg. p @ ''/'' @ seg \<in> set subs \<and> (q = seg \<or> (\<exists>q'. q = seg @ CHR ''/'' # q'))))"
    using r(2) seg(2) map_filter_strip by (auto split: sum.splits)
qed

lemma folder_loop:
  assumes "folder_paths_loop cl' vt' s todo out v = (r, v')" "cl' = cl" "vt' = vt"
  shows "kv v' = kv v \<and> (\<forall>res sp. r = Inr res \<longrightarrow> resolve_scope_prefix cl s = Inr sp \<longrightarrow> set out \<union> set todo \<subseteq> set res \<and>
    (\<forall>p\<in>set todo. \<forall>q n. kv v (root_key sp @ ''/'' @ p @ ''/'' @ q @ ''/'' @ n) \<noteq> None \<longrightarrow> p @ ''/'' @ q \<in> set res))"
  using assms
proof (induction cl' vt' s todo out v rule: folder_paths_loop.induct)
  case (1 cl' vt' scope out v)
  then show ?case by auto
next
  case (2 cl' vt' scope path todo out v)
  note eq = \<open>cl' = cl\<close> \<open>vt' = vt\<close>
  obtain a v1 where a: "subfolder_paths cl vt scope path v = (a, v1)" by (cases "subfolder_paths cl vt scope path v")
  note sub = subfolder_outcome [OF a]
  show ?case
  proof (cases a)
    case (Inl e)
    show ?thesis
    proof (cases "e = Vault_not_found")
      case True
      then have "folder_paths_loop cl vt scope todo (out @ [path]) v1 = (r, v')" using 2 a Inl by simp
      with "2.IH"(1) [of a v1] a Inl True eq sub show ?thesis by auto
    next
      case False
      then show ?thesis using 2 a Inl sub(1) by (cases e) auto
    qed
  next
    case (Inr subs)
    then have "folder_paths_loop cl vt scope (rev subs @ todo) (out @ [path]) v1 = (r, v')" using 2 a by simp
    with "2.IH"(2) [of a v1 subs] a Inr eq
    have ih: "kv v' = kv v1 \<and> (\<forall>res sp. r = Inr res \<longrightarrow> resolve_scope_prefix cl scope = Inr sp \<longrightarrow>
        set (out @ [path]) \<union> set (rev subs @ todo) \<subseteq> set res \<and>
        (\<forall>p\<in>set (rev subs @ todo). \<forall>q n. kv v1 (root_key sp @ ''/'' @ p @ ''/'' @ q @ ''/'' @ n) \<noteq> None \<longrightarrow> p @ ''/'' @ q \<in> set res))"
      by simp
    have below: "p @ ''/'' @ q \<in> set res" if "r = Inr res" "resolve_scope_prefix cl scope = Inr sp" "p \<in> set (rev subs @ todo)"
        "kv v (root_key sp @ ''/'' @ p @ ''/'' @ q @ ''/'' @ n) \<noteq> None" for res sp p q n
      using ih that unfolding sub(1) by blast
    have here: "path @ ''/'' @ q \<in> set res"
      if res: "r = Inr res" "resolve_scope_prefix cl scope = Inr sp"
        and key: "kv v (root_key sp @ ''/'' @ path @ ''/'' @ q @ ''/'' @ n) \<noteq> None" for res sp q n
    proof -
      obtain seg where seg: "path @ ''/'' @ seg \<in> set subs" "q = seg \<or> (\<exists>q'. q = seg @ CHR ''/'' # q')"
        using sub(2) [OF res(2) key] Inr by auto
      show ?thesis
      proof (cases "q = seg")
        case True
        then show ?thesis using ih res seg(1) by auto
      next
        case False
        then obtain q' where q': "q = seg @ CHR ''/'' # q'" using seg(2) by blast
        show ?thesis using below [OF res, of "path @ ''/'' @ seg" q' n] seg(1) key by (simp add: q')
      qed
    qed
    show ?thesis
    proof (intro conjI allI impI ballI)
      show "kv v' = kv v" using ih sub(1) by simp
      fix res sp
      assume res: "r = Inr res" "resolve_scope_prefix cl scope = Inr sp"
      then show "set out \<union> set (path # todo) \<subseteq> set res" using ih by auto
      fix p q n
      assume p: "p \<in> set (path # todo)" "kv v (root_key sp @ ''/'' @ p @ ''/'' @ q @ ''/'' @ n) \<noteq> None"
      show "p @ ''/'' @ q \<in> set res"
      proof (cases "p = path")
        case True
        then show ?thesis using here [OF res] p(2) by simp
      next
        case False
        then show ?thesis using below [OF res _ p(2)] p(1) by simp
      qed
    qed
  qed
qed

lemma top_folders_outcome:
  assumes "list_folders_in_scope cl vt s v = (r, v')"
  shows "kv v' = kv v"
    "resolve_scope_prefix cl s = Inr sp \<Longrightarrow> kv v (root_key sp @ ''/'' @ q @ ''/'' @ n) \<noteq> None \<Longrightarrow> r = Inr tops \<Longrightarrow>
      \<exists>seg. seg \<in> set tops \<and> (q = seg \<or> (\<exists>q'. q = seg @ CHR ''/'' # q'))"
proof -
  obtain seg where seg: "takeWhile (\<lambda>c. c \<noteq> CHR ''/'') (q @ CHR ''/'' # n) = seg" "q = seg \<or> (\<exists>q'. q = seg @ CHR ''/'' # q')"
    by (rule first_segment)
  have r: "(\<forall>sp. resolve_scope_prefix cl s \<noteq> Inr sp) \<and> v' = v \<or> (\<exists>sp a v1. resolve_scope_prefix cl s = Inr sp \<and>
      kv_list vt (kv_meta cl (root_key sp) @ ''/'') v = (a, v1) \<and> kv v' = kv v1 \<and> (a = Inl Vault_not_found \<and> r = Inr [] \<or>
        (\<exists>e. r = Inl e) \<or> (\<exists>ks. a = Inr ks \<and> r = Inr (List.map_filter strip_slash ks))))"
    using assms visit_frame
    by (auto simp: list_folders_in_scope_def resolve_scope_prefix_def kv_meta_def Let_def split: if_splits option.splits
        prod.splits sum.splits vault_error.splits)
  then show "kv v' = kv v" using kv_list_outcome(1) by metis
  assume key: "resolve_scope_prefix cl s = Inr sp" "kv v (root_key sp @ ''/'' @ q @ ''/'' @ n) \<noteq> None" "r = Inr tops"
  with r obtain a v1 where a: "kv_list vt (kv_meta cl (root_key sp) @ ''/'') v = (a, v1)"
      "a = Inl Vault_not_found \<and> tops = [] \<or> (\<exists>ks. a = Inr ks \<and> tops = List.map_filter strip_slash ks)" by auto
  have "a \<noteq> Inl Vault_not_found" using kv_list_outcome(3) [OF a(1)] key(2) by auto
  with a(2) obtain ks where ks: "a = Inr ks" "tops = List.map_filter strip_slash ks" by blast
  have "seg @ ''/'' \<in> set ks" using kv_list_outcome(2) [OF a(1) ks(1), of "q @ ''/'' @ n"] key(2) seg(1) by simp
  then show "\<exists>seg. seg \<in> set tops \<and> (q = seg \<or> (\<exists>q'. q = seg @ CHR ''/'' # q'))"
    using map_filter_strip ks(2) seg(2) by blast
qed

lemma list_entries_outcome:
  assumes "list_entries cl vt s f v = (r, v')"
  shows "kv v' = kv v" "held v (s, f, n) \<noteq> None \<Longrightarrow> r \<noteq> Inl Vault_not_found \<and> (\<forall>ns. r = Inr ns \<longrightarrow> n \<in> set ns)"
proof -
  obtain a v1 where a: "list_children cl vt s f v = (a, v1)" by (cases "list_children cl vt s f v")
  then have r: "v' = v1" "r = (case a of Inl e \<Rightarrow> Inl e | Inr ks \<Rightarrow> Inr (filter (\<lambda>k. k \<noteq> ''.config'' \<and> k \<noteq> ''.defaults'') ks))"
    using assms by (auto simp: list_entries_def then_v_def return_v_def split: sum.splits)
  show "kv v' = kv v" using list_children_outcome(1) [OF a] r by simp
  assume "held v (s, f, n) \<noteq> None"
  then obtain k where k: "entry_key cl s f n = Inr k" "kv v k \<noteq> None" by (auto simp: entry_held_def split: sum.splits option.splits)
  from k(1) obtain sp where sp: "resolve_scope_prefix cl s = Inr sp" "k = vt_base_path cl @ ''/'' @ sp @ ''/'' @ f @ ''/'' @ n"
      "validate_name n = Inr ()" "CHR ''/'' \<notin> set n" by (rule entry_keyE)
  have "a \<noteq> Inl Vault_not_found \<and> (\<forall>ks. a = Inr ks \<longrightarrow> n \<in> set ks)"
    using list_children_outcome(2) [OF a sp(1), of n] k(2) sp by auto
  then show "r \<noteq> Inl Vault_not_found \<and> (\<forall>ns. r = Inr ns \<longrightarrow> n \<in> set ns)"
    using r(2) validate_name_ok [OF sp(3)] by (auto split: sum.splits)
qed

end

section \<open>The store keeps its contract\<close>

text \<open>A deployment with one Vault: both scopes are served by the same client, or are down.\<close>

locale kv_backends = kv_vault cl vt kv for cl :: vault_client and vt :: "'v vault" and kv :: "'v \<Rightarrow> str \<Rightarrow> json_body option" +
  fixes be :: "'v backends"
  assumes one_vault: "be_shared be \<in> {None, Some (cl, vt)}" "be_local be \<in> {None, Some (cl, vt)}"
begin

lemma on_backend:
  assumes "then_v (scoped be s) (\<lambda>(cl, vt). g cl vt) v = (r, v')"
  shows "g cl vt v = (r, v') \<or> r = Inl Vault_unavailable \<and> v' = v"
  using assms one_vault by (auto simp: then_v_def scoped_def ok_or_def split: if_splits option.splits)

lemma folder_paths_outcome:
  assumes "folder_paths be s v = (r, v')"
  shows "kv v' = kv v" "r = Inr fs \<Longrightarrow> held v (s, f, n) \<noteq> None \<Longrightarrow> f \<in> set fs"
proof -
  consider (down) "r = Inl Vault_unavailable" "v' = v"
    | (up) "then_v (list_folders_in_scope cl vt s) (\<lambda>tops. folder_paths_loop cl vt s (rev tops) []) v = (r, v')"
    using on_backend [of s "\<lambda>cl vt. then_v (list_folders_in_scope cl vt s) (\<lambda>tops. folder_paths_loop cl vt s (rev tops) [])" v r v']
      assms unfolding folder_paths_def by blast
  then have "kv v' = kv v \<and> (r = Inr fs \<longrightarrow> held v (s, f, n) \<noteq> None \<longrightarrow> f \<in> set fs)"
  proof cases
    case up
    obtain a v1 where a: "list_folders_in_scope cl vt s v = (a, v1)" by (cases "list_folders_in_scope cl vt s v")
    note tops = top_folders_outcome [OF a]
    show ?thesis
    proof (cases a)
      case (Inr ts)
      then have "folder_paths_loop cl vt s (rev ts) [] v1 = (r, v')" using up a by (simp add: then_v_def)
      note loop = folder_loop [OF this refl refl]
      have "f \<in> set fs" if "r = Inr fs" and h: "held v (s, f, n) \<noteq> None"
      proof -
        obtain k where k: "entry_key cl s f n = Inr k" "kv v k \<noteq> None"
          using h by (auto simp: entry_held_def split: sum.splits option.splits)
        from k(1) obtain sp where sp: "resolve_scope_prefix cl s = Inr sp" "k = root_key sp @ ''/'' @ f @ ''/'' @ n"
          by (rule entry_keyE) simp
        with k tops(2) [OF sp(1), of f n] Inr obtain seg where seg: "seg \<in> set ts" "f = seg \<or> (\<exists>q'. f = seg @ CHR ''/'' # q')"
          by auto
        have "set ts \<subseteq> set fs" using loop that(1) sp(1) by auto
        moreover have "seg @ ''/'' @ q \<in> set fs" if "f = seg @ CHR ''/'' # q" for q
        proof -
          have "kv v1 (root_key sp @ ''/'' @ seg @ ''/'' @ q @ ''/'' @ n) \<noteq> None" using k(2) sp(2) that tops(1) by simp
          then show ?thesis using loop \<open>r = Inr fs\<close> sp(1) seg(1) by (metis set_rev)
        qed
        ultimately show ?thesis using seg by auto
      qed
      then show ?thesis using loop tops(1) by simp
    next
      case Inl
      then show ?thesis using up a tops(1) by (auto simp: then_v_def)
    qed
  qed auto
  then show "kv v' = kv v" "r = Inr fs \<Longrightarrow> held v (s, f, n) \<noteq> None \<Longrightarrow> f \<in> set fs" by blast+
qed

lemma entry_names_outcome:
  assumes "entry_names be s f v = (r, v')"
  shows "kv v' = kv v" "r = Inr ns \<Longrightarrow> held v (s, f, n) \<noteq> None \<Longrightarrow> n \<in> set ns"
proof -
  obtain a where a: "then_v (scoped be s) (\<lambda>(cl, vt). list_entries cl vt s f) v = (a, v')"
      "r = Inr ns \<longrightarrow> a = Inl Vault_not_found \<or> (\<exists>ks. a = Inr ks \<and> ns = filter (\<lambda>n. \<not> (n \<noteq> [] \<and> last n = CHR ''/'')) ks)"
    using assms by (auto simp: entry_names_def split: prod.splits sum.splits vault_error.splits)
  have slash: "CHR ''/'' \<notin> set n" if h: "held v (s, f, n) \<noteq> None"
  proof -
    obtain k where "entry_key cl s f n = Inr k" using h by (auto simp: entry_held_def split: sum.splits)
    then show ?thesis by (rule entry_keyE)
  qed
  from on_backend [OF a(1)] have "kv v' = kv v \<and> (r = Inr ns \<longrightarrow> held v (s, f, n) \<noteq> None \<longrightarrow> n \<in> set ns)"
  proof (elim disjE conjE)
    assume l: "list_entries cl vt s f v = (a, v')"
    show ?thesis
    proof (intro conjI impI)
      assume "r = Inr ns" and h: "held v (s, f, n) \<noteq> None"
      with a(2) list_entries_outcome(2) [OF l h] obtain ks where
        "ns = filter (\<lambda>n. \<not> (n \<noteq> [] \<and> last n = CHR ''/'')) ks" "n \<in> set ks" by blast
      moreover have "n \<noteq> [] \<Longrightarrow> last n \<noteq> CHR ''/''" using slash [OF h] last_in_set [of n] by metis
      ultimately show "n \<in> set ns" by auto
    qed (rule list_entries_outcome(1) [OF l])
  qed (use a in auto)
  then show "kv v' = kv v" "r = Inr ns \<Longrightarrow> held v (s, f, n) \<noteq> None \<Longrightarrow> n \<in> set ns" by blast+
qed

lemma store_get:
  assumes "es_get (vault_store be) s f n v = (r, v')"
  shows "kv v' = kv v \<and> (\<forall>e. r = Inr e \<longrightarrow> held v (s, f, n) = Some e) \<and>
    (r = Inl Vault_not_found \<longrightarrow> held v (s, f, n) = None)"
  using assms on_backend [of s "\<lambda>cl vt. get_entry cl vt s f n" v r v'] get_entry_outcome by (auto simp: vault_store_def)

lemma store_put:
  assumes "es_put (vault_store be) s f n e v = (r, v')"
  shows "held v' = held v \<and> r \<noteq> Inr () \<or> held v' = (held v)((s, f, n) \<mapsto> normalize_jump_hosts e)"
proof -
  have "put_entry cl vt s f n e v = (r, v') \<or> r = Inl Vault_unavailable \<and> v' = v"
    using assms on_backend [of s "\<lambda>cl vt. put_entry cl vt s f n e" v r v'] by (simp add: vault_store_def)
  moreover have "\<exists>b. write_entry cl vt s f n e False v = (b, v') \<and> (r = Inr () \<longrightarrow> (\<exists>y. b = Inr y))"
    if "put_entry cl vt s f n e v = (r, v')"
    using that by (auto simp: put_entry_def then_v_def return_v_def split: prod.splits sum.splits)
  ultimately show ?thesis using write_entry_outcome [of s f n e False v _ v'] by (metis (full_types) Inl_Inr_False)
qed

lemma store_add:
  assumes "es_put_if_absent (vault_store be) s f n e v = (r, v')"
  shows "held v' = held v \<and> r \<noteq> Inr True \<or>
    held v' = (held v)((s, f, n) \<mapsto> normalize_jump_hosts e) \<and> r \<noteq> Inr False \<and> held v (s, f, n) = None"
  using assms on_backend [of s "\<lambda>cl vt. put_entry_if_absent cl vt s f n e" v r v'] write_entry_outcome [of s f n e True v r v']
  by (auto simp: vault_store_def put_entry_if_absent_def)

lemma store_delete:
  assumes "es_delete (vault_store be) s f n v = (r, v')"
  shows "held v' = held v \<and> r \<noteq> Inr () \<or> held v' = (held v)((s, f, n) := None)"
  using assms on_backend [of s "\<lambda>cl vt. delete_entry cl vt s f n" v r v'] delete_entry_outcome [of s f n v r v']
  by (auto simp: vault_store_def)

end

sublocale kv_backends \<subseteq> store: entry_store_laws "vault_store be" "\<lambda>v. entry_held cl vt (kv v)"
proof
  fix s f n v and e :: address_book_entry and v' :: 'v and r :: "vault_error + address_book_entry" and rs :: "vault_error + str list"
    and err :: vault_error and ns fs :: "str list" and x :: unit and p :: "str \<times> str \<times> str"
  show "es_get (vault_store be) s f n v = (r, v') \<Longrightarrow> held v' = held v" using store_get by fastforce
  show "es_get (vault_store be) s f n v = (Inr e, v') \<Longrightarrow> held v (s, f, n) = Some e" using store_get by blast
  show "es_get (vault_store be) s f n v = (Inl Vault_not_found, v') \<Longrightarrow> held v (s, f, n) = None"
    using store_get by blast
  show "es_entry_names (vault_store be) s f v = (rs, v') \<Longrightarrow> held v' = held v"
    using entry_names_outcome(1) by (simp add: vault_store_def)
  show "es_entry_names (vault_store be) s f v = (Inr ns, v') \<Longrightarrow> held v (s, f, n) \<noteq> None \<Longrightarrow> n \<in> set ns"
    using entry_names_outcome(2) by (simp add: vault_store_def)
  show "es_folder_paths (vault_store be) s v = (rs, v') \<Longrightarrow> held v' = held v"
    using folder_paths_outcome(1) by (simp add: vault_store_def)
  show "es_folder_paths (vault_store be) s v = (Inr fs, v') \<Longrightarrow> held v (s, f, n) \<noteq> None \<Longrightarrow> f \<in> set fs"
    using folder_paths_outcome(2) by (simp add: vault_store_def)
  show "es_put (vault_store be) s f n e v = (Inr x, v') \<Longrightarrow> held v' = (held v)((s, f, n) \<mapsto> normalize_jump_hosts e)"
    using store_put by fastforce
  show "es_put (vault_store be) s f n e v = (Inl err, v') \<Longrightarrow>
      held v' = held v \<or> held v' = (held v)((s, f, n) \<mapsto> normalize_jump_hosts e)"
    using store_put by blast
  show "es_put_if_absent (vault_store be) s f n e v = (Inr True, v') \<Longrightarrow>
      held v (s, f, n) = None \<and> held v' = (held v)((s, f, n) \<mapsto> normalize_jump_hosts e)"
    using store_add by blast
  show "es_put_if_absent (vault_store be) s f n e v = (Inr False, v') \<Longrightarrow> held v' = held v"
    using store_add by blast
  show "es_put_if_absent (vault_store be) s f n e v = (Inl err, v') \<Longrightarrow>
      held v' = held v \<or> held v (s, f, n) = None \<and> held v' = (held v)((s, f, n) \<mapsto> normalize_jump_hosts e)"
    using store_add by blast
  show "es_delete (vault_store be) s f n v = (Inr x, v') \<Longrightarrow> held v' = (held v)((s, f, n) := None)"
    using store_delete by fastforce
  show "es_delete (vault_store be) s f n v = (Inl err, v') \<Longrightarrow> held v' = held v \<or> held v' = (held v)((s, f, n) := None)"
    using store_delete by blast
  show "held v p = Some e \<Longrightarrow> normalize_jump_hosts e = e"
    by (auto simp: entry_held_def split: prod.splits sum.splits option.splits)
qed

context kv_backends begin

lemmas vault_move = store.move_outcome
lemmas vault_upsert = store.upsert_moves
lemmas vault_upsert_keeps = store.upsert_keeps
lemmas vault_upsert_conflict = store.upsert_conflict
lemmas vault_bulk = store.bulk_outcome

end

section \<open>A Vault in memory\<close>

definition dir_entry :: "str \<Rightarrow> str" where
  "dir_entry k = (if CHR ''/'' \<in> set k then takeWhile (\<lambda>c. c \<noteq> CHR ''/'') k @ ''/'' else k)"

type_synonym mem = "(str \<times> json_body) list"

fun mem_data :: "meth \<Rightarrow> str \<Rightarrow> json_body option \<Rightarrow> mem \<Rightarrow> json_body reply \<times> mem" where
  "mem_data M_get k _ v = (case map_of v k of None \<Rightarrow> (Inr (404, J_text []), v) | Some b \<Rightarrow> (Inr (200, b), v))"
| "mem_data M_post k (Some (J_entry cas e)) v =
     (if cas \<and> map_of v k \<noteq> None
      then (Inr (400, J_text ''check-and-set parameter did not match the current version''), v)
      else (Inr (200, J_text []), (k, J_entry False e) # v))"
| "mem_data _ k _ v = (Inr (405, J_text []), v)"

definition mem_request :: "vault_client \<Rightarrow> meth \<Rightarrow> str \<Rightarrow> json_body option \<Rightarrow> mem \<Rightarrow> json_body reply \<times> mem" where
  "mem_request cl m p b v =
     (case strip_prefix (kv_data cl []) p of
        Some k \<Rightarrow> mem_data m k b v
      | None \<Rightarrow>
          (case strip_prefix (kv_meta cl []) p of
             Some k \<Rightarrow> if m = M_delete then (Inr (204, J_text []), filter (\<lambda>(k', _). k' \<noteq> k) v) else (Inr (405, J_text []), v)
           | None \<Rightarrow> (Inr (404, J_text []), v)))"

definition mem_list :: "vault_client \<Rightarrow> str \<Rightarrow> mem \<Rightarrow> str list reply \<times> mem" where
  "mem_list cl p v =
     (case strip_prefix (kv_meta cl []) p of
        None \<Rightarrow> (Inr (404, []), v)
      | Some d \<Rightarrow>
          (case remdups (map dir_entry (List.map_filter (strip_prefix d) (map fst v))) of
             [] \<Rightarrow> (Inr (404, []), v)
           | ks \<Rightarrow> (Inr (200, ks), v)))"

definition mem_vault :: "vault_client \<Rightarrow> mem vault" where
  "mem_vault cl = \<lparr>vv_request = mem_request cl, vv_list = mem_list cl, vv_login = (\<lambda>v. (Inr (), v)),
     vv_entry = (\<lambda>_. Inl (Bad_value ''unknown''))\<rparr>"

definition mem_backends :: "vault_client \<Rightarrow> mem backends" where
  "mem_backends cl = \<lparr>be_shared = Some (cl, mem_vault cl), be_local = None\<rparr>"

lemma strip_prefix_None: "strip_prefix p s = None \<longleftrightarrow> (\<forall>r. s \<noteq> p @ r)"
  using strip_prefix_Some [of p s] by (cases "strip_prefix p s") auto

lemma mem_paths [simp]:
  "strip_prefix (kv_data cl []) (kv_data cl k) = Some k" "strip_prefix (kv_meta cl []) (kv_meta cl k @ d) = Some (k @ d)"
  "strip_prefix (kv_data cl []) (kv_meta cl k @ d) = None"
  by (simp_all add: kv_data_def kv_meta_def strip_prefix_None)

lemma mem_meta [simp]: "strip_prefix (kv_meta cl []) (kv_meta cl k) = Some k" "strip_prefix (kv_data cl []) (kv_meta cl k) = None"
  using mem_paths(2,3) [of cl k "[]"] by simp_all

lemma mem_request_paths [simp]:
  "mem_request cl m (kv_data cl k) b v = mem_data m k b v"
  "mem_request cl M_delete (kv_meta cl k) b v = (Inr (204, J_text []), filter (\<lambda>(k', _). k' \<noteq> k) v)"
  by (simp_all add: mem_request_def)

lemma mem_data_answers: "\<exists>c x. fst (mem_data m k b v) = Inr (c, x) \<and> c \<noteq> 403"
  by (cases "(m, k, b, v)" rule: mem_data.cases) (auto split: option.splits)

lemma mem_answers: "mem_request cl m p b v = (r, v') \<Longrightarrow> \<exists>c x. r = Inr (c, x) \<and> c \<noteq> 403"
  using mem_data_answers [of m _ b v]
  by (cases "strip_prefix (kv_data cl []) p"; cases "strip_prefix (kv_meta cl []) p")
    (auto simp: mem_request_def simp del: strip_prefix_Some split: if_splits, (metis fst_conv)+)

lemma mem_delete [simp]: "map_of (filter (\<lambda>(k', _). k' \<noteq> k) v) = (map_of v)(k := None)"
  by (induction v) auto

lemma mem_post:
  assumes "mem_data M_post k (Some (J_entry cas e)) v = (r, v')"
  shows "v' = v \<and> \<not> status_in {200, 204} r \<or> v' = (k, J_entry False e) # v \<and> (cas \<longrightarrow> map_of v k = None) \<and> \<not> status_in {400, 403} r"
  using assms by (auto simp: status_in_def split: if_splits)

lemma map_filterI: "x \<in> set xs \<Longrightarrow> f x = Some y \<Longrightarrow> y \<in> set (List.map_filter f xs)"
  by (induction xs) (auto simp: List.map_filter_simps split: option.splits)

lemma mem_list_answers:
  assumes "mem_list cl p v = (r, v')"
  shows "v' = v" "\<exists>ks. r = Inr ks"
    "p = kv_meta cl d @ ''/'' \<Longrightarrow> map_of v (d @ ''/'' @ k) \<noteq> None \<Longrightarrow> \<exists>ks. r = Inr (200, ks) \<and> dir_entry k \<in> set ks"
proof -
  show "v' = v" "\<exists>ks. r = Inr ks" using assms by (auto simp: mem_list_def split: option.splits list.splits)
  assume p: "p = kv_meta cl d @ ''/''" and "map_of v (d @ ''/'' @ k) \<noteq> None"
  then have "d @ ''/'' @ k \<in> set (map fst v)" by (force dest: map_of_SomeD simp: image_iff)
  then have "k \<in> set (List.map_filter (strip_prefix (d @ ''/'')) (map fst v))"
    by (rule map_filterI) simp
  then obtain ks where ks: "remdups (map dir_entry (List.map_filter (strip_prefix (d @ ''/'')) (map fst v))) = ks" "dir_entry k \<in> set ks"
    by auto
  then show "\<exists>ks. r = Inr (200, ks) \<and> dir_entry k \<in> set ks"
    using assms p by (cases ks) (auto simp: mem_list_def simp del: set_remdups)
qed

lemma mem_contract: "kv_backends cl (mem_vault cl) map_of (mem_backends cl)"
proof (unfold_locales, goal_cases)
  case (1 m p b v x v')
  then show ?case using mem_answers by (fastforce simp: mem_vault_def)
next
  case (2 m p b v err v')
  then show ?case using mem_answers by (fastforce simp: mem_vault_def)
next
  case (7 k cas e v r v')
  then have "mem_data M_post k (Some (J_entry cas e)) v = (r, v')" by (simp add: mem_vault_def)
  from mem_post [OF this] show ?case
    by (elim disjE) (simp, intro disjI2 exI [of _ "J_entry False e"], simp add: entry_of_body_def)
next
  case (9 p v ls v')
  then show ?case using mem_list_answers(1,2) [of cl p v ls v'] by (auto simp: mem_vault_def)
next
  case (10 d v ks v' k)
  then show ?case using mem_list_answers(3) [of cl "kv_meta cl d @ ''/''" v "Inr (200, ks)" v' d k] by (simp add: mem_vault_def dir_entry_def)
next
  case (11 d v ks v' k)
  then show ?case using mem_list_answers(3) [of cl "kv_meta cl d @ ''/''" v "Inr (404, ks)" v' d k]
    by (cases "map_of v (d @ ''/'' @ k)") (auto simp: mem_vault_def)
qed (auto simp: mem_vault_def mem_backends_def split: option.splits)

interpretation mem: kv_backends cl "mem_vault cl" map_of "mem_backends cl" for cl
  by (rule mem_contract)

text \<open>
  What becomes of the secrets when \<open>data\<close> is stored over \<open>old\<close> as \<open>e\<close>: the four of the entry are kept
  where the request omits them; those of the hops are kept by position if the request names
  hops, and are gone with the hops if it names none.
\<close>

definition secrets_kept :: "address_book_entry \<Rightarrow> address_book_entry \<Rightarrow> address_book_entry \<Rightarrow> bool" where
  "secrets_kept data old e \<longleftrightarrow>
     (\<forall>secret\<in>{ab_password, ab_private_key, ab_container_password, ab_proxmox_token_secret}.
        secret e = (if secret data = None then secret old else secret data)) \<and>
     (case ab_jump_hosts data of
        None \<Rightarrow> ab_jump_hosts e = None
      | Some hops \<Rightarrow>
          (\<exists>stored. ab_jump_hosts e = Some stored \<and> length stored = length hops \<and>
             (\<forall>k<length hops. jh_hostname (stored ! k) = jh_hostname (hops ! k) \<and>
               (\<forall>secret\<in>{jh_password, jh_private_key, jh_host_key}.
                  secret (stored ! k) =
                    (if secret (hops ! k) \<noteq> None then secret (hops ! k)
                     else case ab_jump_hosts old of
                       Some old_hops \<Rightarrow> if k < length old_hops then secret (old_hops ! k) else None
                     | None \<Rightarrow> None)))))"

lemma merge_secrets: "secrets_kept data old (merge_entry_update data old)"
proof -
  let ?old = "case ab_jump_hosts old of None \<Rightarrow> [] | Some hs \<Rightarrow> hs"
  have "jh_hostname (map2 (merge_hop ?old) [0..<length hops] hops ! k) = jh_hostname (hops ! k) \<and>
      (\<forall>secret\<in>{jh_password, jh_private_key, jh_host_key}.
         secret (map2 (merge_hop ?old) [0..<length hops] hops ! k) =
           (if secret (hops ! k) \<noteq> None then secret (hops ! k)
            else case ab_jump_hosts old of
              Some old_hops \<Rightarrow> if k < length old_hops then secret (old_hops ! k) else None
            | None \<Rightarrow> None))" if "k < length hops" for k hops
    using that by (auto simp: merge_hop_def Let_def or_else_def split: option.split)
  then show ?thesis
    by (auto simp: secrets_kept_def merge_entry_update_def or_else_def split: option.split)
qed

lemma merged_at_secrets:
  "case m p of
     None \<Rightarrow> merged_at m p data = data
   | Some old \<Rightarrow> merged_at m p data = merge_entry_update data old \<and> secrets_kept data old (merged_at m p data)"
  using merge_secrets by (auto simp: merged_at_def split: option.splits)

lemma show_nat_two_digits: "n < 100 \<Longrightarrow> length (show_nat n) \<le> 2"
  by (simp add: show_nat.simps [of n] show_nat.simps [of "n div 10"] less_mult_imp_div_less)

lemma name_char_slash: "\<not> name_char (CHR ''/'')" "\<not> name_char (CHR 0x5C)"
  by code_simp+

lemma suffixed_name_valid:
  assumes "list_all name_char a" "n < 100" "length a + length (show_nat n) \<le> 63"
  shows "validate_name (a @ ''-'' @ show_nat n) = Inr ()"
proof -
  have "list_all name_char (show_nat n)"
    using show_nat_digits [of n] by (auto simp: list_all_iff name_char_def is_ascii_alphanumeric_def is_ascii_digit_def Let_def)
  then have ok: "list_all name_char (a @ ''-'' @ show_nat n)" using assms(1) by (simp add: name_char_def)
  then have "CHR ''/'' \<notin> set (a @ ''-'' @ show_nat n) \<and> CHR 0x5C \<notin> set (a @ ''-'' @ show_nat n)"
    unfolding list_all_iff by (metis name_char_slash)
  moreover have "a @ ''-'' @ show_nat n \<noteq> x" if "CHR ''-'' \<notin> set x" for x using that by force
  ultimately show ?thesis using ok assms(3) by (simp add: validate_name_def)
qed

section \<open>Moving, updating and bulk actions never lose an entry\<close>

text \<open>
  C11: A move never loses and never overwrites. If it succeeds, the entry stands at the target, with
  everything stored in it, and no longer at the source. If it is refused, either nothing has
  changed or a copy has been added at a free target; after a conflict nothing has changed. If the
  source could not be removed, the entry stands at the target. Every other entry is untouched.
\<close>

theorem move_never_loses:
  assumes "kv_backends cl vt kv be" and "move_stored_entry (vault_store be) s f n s' f' n' v = (r, v')"
  shows "let m = entry_held cl vt (kv v); m' = entry_held cl vt (kv v') in
    case r of
      Inr e \<Rightarrow> m (s, f, n) = Some e \<and> m (s', f', n') = None \<and> m' = m((s, f, n) := None, (s', f', n') \<mapsto> e)
    | Inl (Copy_refused (code, _)) \<Rightarrow>
        m' = m \<or> code \<noteq> 409 \<and> (\<exists>e. m (s, f, n) = Some e \<and> m (s', f', n') = None \<and> m' = m((s', f', n') \<mapsto> e))
    | Inl (Move_incomplete _) \<Rightarrow>
        \<exists>e. m (s, f, n) = Some e \<and> m (s', f', n') = None \<and>
          (m' = m((s', f', n') \<mapsto> e) \<or> m' = m((s, f, n) := None, (s', f', n') \<mapsto> e))"
  using kv_backends.vault_move [OF assms] by (simp add: Let_def)

text \<open>
  C12: An update with \<open>move=true\<close> moves the device. When it succeeds, the requested place holds the
  data merged onto what was stored for the device, wherever in the scope it was found; the old
  place is empty, every other entry is untouched, and unless the place already carried the id
  (the scope is then not searched), no other entry of the scope carries it. Of the secrets the
  request omits, the entry's own four are kept as stored, and those of the hops are kept by
  position; a request without hops drops the stored hops and their secrets.
\<close>

theorem upsert_moves_device:
  assumes "kv_backends cl vt kv be" and "upsert_entry (vault_store be) s f n data True v = (Inr (moved, e), v')"
    and "ab_external_id data = Some i"
  shows "let m = entry_held cl vt (kv v); m' = entry_held cl vt (kv v');
             m1 = (case moved of None \<Rightarrow> m | Some p \<Rightarrow> m((s, p) := None, (s, f, n) := m (s, p))) in
    (\<forall>p. moved = Some p \<longrightarrow> carries m s i p \<and> m (s, f, n) = None) \<and>
    m' = m1((s, f, n) \<mapsto> normalize_jump_hosts e) \<and>
    (case m1 (s, f, n) of
       None \<Rightarrow> e = data
     | Some old \<Rightarrow> e = merge_entry_update data old \<and> secrets_kept data old e) \<and>
    carries m' s i (f, n) \<and> (carries m s i (f, n) \<or> (\<forall>q. carries m' s i q \<longrightarrow> q = (f, n)))"
proof -
  let ?m = "entry_held cl vt (kv v)"
  define m1 where "m1 = (case moved of None \<Rightarrow> ?m | Some p \<Rightarrow> ?m((s, p) := None, (s, f, n) := ?m (s, p)))"
  note up = kv_backends.vault_upsert [OF assms, folded m1_def, unfolded Let_def]
  then have "e = merged_at m1 (s, f, n) data" by blast
  with up merged_at_secrets [of m1 "(s, f, n)" data] show ?thesis unfolding Let_def m1_def [symmetric] by (auto split: option.splits)
qed

text \<open>
  C13: An update with \<open>move=true\<close> loses nothing, whatever its outcome and wherever it stops: every
  entry other than the one at the requested place is still where it was, or is the device with
  the id and stands at the requested place, merged with the data or not. After a conflict
  nothing has changed.
\<close>

theorem upsert_never_loses:
  assumes "kv_backends cl vt kv be" and "upsert_entry (vault_store be) s f n data True v = (r, v')"
  shows "let m = entry_held cl vt (kv v); m' = entry_held cl vt (kv v') in
    (\<forall>p x. m p = Some x \<longrightarrow> p \<noteq> (s, f, n) \<longrightarrow>
       m' p = Some x \<or> ab_external_id x = ab_external_id data \<and>
         (\<exists>y\<in>{x, normalize_jump_hosts (merge_entry_update data x)}. m' (s, f, n) = Some y)) \<and>
    (\<forall>msg. r = Inl (Rejected 409 msg) \<longrightarrow> m' = m)"
  using kv_backends.vault_upsert_keeps [OF assms] kv_backends.vault_upsert_conflict [OF assms(1)] assms(2)
  unfolding Let_def by blast

text \<open>
  C14: A bulk move or copy loses nothing. What the answer reports is what happened: moved, copied
  under the name it gives, skipped with nothing changed, deleted; and an item that failed has
  not made any entry disappear, except the item itself in a bulk delete.
\<close>

theorem bulk_never_loses:
  assumes "kv_backends cl vt kv be" and "bulk_one (vault_store be) action target oc (s, f, n) v = (res, v')"
  shows "let m = entry_held cl vt (kv v); m' = entry_held cl vt (kv v') in
    case res of
      Bulk_moved c \<Rightarrow> \<exists>s' f' e. target = Some (s', f') \<and> m (s, f, n) = Some e \<and> m (s', f', c) = None \<and>
        m' = m((s, f, n) := None, (s', f', c) \<mapsto> e)
    | Bulk_copied c \<Rightarrow> \<exists>s' f' e. target = Some (s', f') \<and> m (s, f, n) = Some e \<and> m (s', f', c) = None \<and>
        m' = m((s', f', c) \<mapsto> e)
    | Bulk_skipped _ \<Rightarrow> m' = m
    | Bulk_deleted \<Rightarrow> action = Bulk_delete \<and> m (s, f, n) \<noteq> None \<and> m' = m((s, f, n) := None)
    | Copied_not_removed c _ \<Rightarrow> \<exists>s' f' e. target = Some (s', f') \<and> m (s, f, n) = Some e \<and> m (s', f', c) = None \<and>
        (m' = m((s', f', c) \<mapsto> e) \<or> m' = m((s, f, n) := None, (s', f', c) \<mapsto> e))
    | Bulk_failed _ \<Rightarrow> action = Bulk_delete \<and> m' = m((s, f, n) := None) \<or> (\<forall>p e. m p = Some e \<longrightarrow> m' p = Some e)"
  using kv_backends.vault_bulk [OF assms] by (simp add: Let_def)

text \<open>
  The names a bulk copy tries are names the address book accepts: a valid name with its
  suffix, cut to 64 characters, is valid again.
\<close>

theorem rename_candidates_valid:
  assumes "validate_name name = Inr ()" and "c \<in> set (rename_candidates name rename)"
  shows "validate_name c = Inr () \<and> length c \<le> 64"
proof -
  have "validate_name c = Inr ()"
  proof (cases "c = name")
    case False
    then have "c \<in> (\<lambda>n. take (min (63 - length (show_nat n)) (length name)) name @ ''-'' @ show_nat n) ` set [2..<BULK_MAX_RENAME + 1]"
      using assms(2) by (simp add: rename_candidates_def Let_def split: if_splits)
    then obtain n where n: "n < BULK_MAX_RENAME + 1" "c = take (min (63 - length (show_nat n)) (length name)) name @ ''-'' @ show_nat n"
      by (metis (no_types, lifting) imageE atLeastLessThan_iff set_upt)
    then have n100: "n < 100" by (simp add: BULK_MAX_RENAME_def)
    have "list_all name_char (take k name)" for k
      using validate_name_ok [OF assms(1)] by (auto simp: list_all_iff dest: in_set_takeD)
    then show ?thesis using suffixed_name_valid [of _ n] show_nat_two_digits [OF n100] n100 by (simp add: n(2))
  qed (use assms in simp)
  then show ?thesis by (auto simp: validate_name_def split: if_splits)
qed

text \<open>
  Removing the first hop of a jump chain in an edit gives its credentials to the next one: the
  merge keeps secrets by position, so the host that moves up is stored with the password and
  the key of the host that was removed.
\<close>

theorem removed_hop_leaks_password:
  assumes "ab_jump_hosts old = Some (h1 # h2 # hs)"
    and "ab_jump_hosts data = Some [h2\<lparr>jh_password := None, jh_private_key := None\<rparr>]"
  shows "\<exists>h. ab_jump_hosts (merge_entry_update data old) = Some [h] \<and> jh_hostname h = jh_hostname h2 \<and>
    jh_password h = jh_password h1 \<and> jh_private_key h = jh_private_key h1"
  using assms by (simp add: merge_entry_update_def merge_hop_def or_else_def Let_def)

text \<open>
  Deleting a folder reports success whatever Vault answers: every failed listing and every failed
  delete is ignored, so once the path and the scope are valid the answer is a count.
\<close>

theorem delete_folder_reports_success:
  assumes "validate_path folder = Inr ()" and "resolve_scope_prefix cl scope = Inr sp"
  shows "\<exists>subfolders entries v'. delete_folder cl vt scope folder v = (Inr (subfolders, entries), v')"
  using assms by (auto simp: delete_folder_def split: prod.splits)

section \<open>Witnesses\<close>

text \<open>A Vault with one entry, and the same with a synced device.\<close>

definition mem_one :: mem where
  "mem_one = [(''rg/shared/a/e'', J_entry False demo_entry)]"

definition device :: address_book_entry where
  "device = demo_entry\<lparr>ab_external_id := Some ''42''\<rparr>"

definition device_update :: address_book_entry where
  "device_update = device\<lparr>ab_password := None, ab_hostname := Some ''10.0.0.7''\<rparr>"

definition mem_device :: mem where
  "mem_device = [(''rg/shared/a/e'', J_entry False device)]"

abbreviation demo_store :: "mem entry_store" where
  "demo_store \<equiv> vault_store (mem_backends demo_client)"

lemma demo_move:
  "move_stored_entry demo_store ''shared'' ''a'' ''e'' ''shared'' ''b'' ''x'' mem_one =
     (Inr demo_entry, [(''rg/shared/b/x'', J_entry False demo_entry)])"
  by code_simp

lemma demo_upsert:
  "upsert_entry demo_store ''shared'' ''b'' ''x'' device_update True mem_device =
     (Inr (Some (''a'', ''e''), merge_entry_update device_update device),
      [(''rg/shared/b/x'', J_entry False (merge_entry_update device_update device)), (''rg/shared/b/x'', J_entry False device)])"
  by code_simp

lemma demo_bulk:
  "bulk_one demo_store Bulk_copy (Some (''shared'', ''a'')) Rename_copy (''shared'', ''a'', ''e'') mem_one =
     (Bulk_copied ''e-2'', [(''rg/shared/a/e-2'', J_entry False demo_entry), (''rg/shared/a/e'', J_entry False demo_entry)])"
  by code_simp

theorem move_never_loses_witness:
  "let m' = entry_held demo_client (mem_vault demo_client) (map_of [(''rg/shared/b/x'', J_entry False demo_entry)]) in
     m' (''shared'', ''b'', ''x'') = Some demo_entry \<and> m' (''shared'', ''a'', ''e'') = None"
  using move_never_loses [OF mem_contract demo_move] by (auto simp: Let_def)

theorem upsert_moves_device_witness:
  "let m = entry_held demo_client (mem_vault demo_client) (map_of mem_device) in
     carries m ''shared'' ''42'' (''a'', ''e'') \<and> m (''shared'', ''b'', ''x'') = None \<and>
     ab_password (merge_entry_update device_update device) = Some ''secret''"
proof -
  let ?m = "entry_held demo_client (mem_vault demo_client) (map_of mem_device)"
  have i: "ab_external_id device_update = Some ''42''" by (simp add: device_update_def device_def)
  note moved = upsert_moves_device [OF mem_contract demo_upsert i, unfolded Let_def]
  have d: "?m (''shared'', ''a'', ''e'') = Some device" by code_simp
  have "secrets_kept device_update device (merge_entry_update device_update device)"
    using moved unfolding option.case d fun_upd_same by (elim conjE)
  then have "ab_password (merge_entry_update device_update device) = Some ''secret''"
    by (simp add: secrets_kept_def device_update_def device_def demo_entry_def)
  moreover have "carries ?m ''shared'' ''42'' (''a'', ''e'') \<and> ?m (''shared'', ''b'', ''x'') = None"
    using moved by (elim conjE) (rule allE, assumption, erule mp, rule refl)
  ultimately show ?thesis unfolding Let_def by (elim conjE) (intro conjI)
qed

theorem upsert_never_loses_witness:
  "entry_held demo_client (mem_vault demo_client) (map_of (snd (upsert_entry demo_store ''shared'' ''b'' ''x'' device_update True mem_device)))
     (''shared'', ''b'', ''x'') \<noteq> None"
proof -
  have "entry_held demo_client (mem_vault demo_client) (map_of mem_device) (''shared'', ''a'', ''e'') = Some device" by code_simp
  moreover have "entry_held demo_client (mem_vault demo_client) (map_of (snd (upsert_entry demo_store ''shared'' ''b'' ''x'' device_update True mem_device)))
     (''shared'', ''a'', ''e'') = None" unfolding demo_upsert by code_simp
  ultimately show ?thesis
    using upsert_never_loses [OF mem_contract surjective_pairing, where s = "''shared''" and f = "''b''" and n = "''x''"
        and data = device_update and v = mem_device and cl = demo_client]
    by (auto simp: Let_def)
qed

theorem bulk_never_loses_witness:
  "entry_held demo_client (mem_vault demo_client) (map_of mem_one) (''shared'', ''a'', ''e-2'') = None"
  using bulk_never_loses [OF mem_contract demo_bulk] by (auto simp: Let_def)

theorem rename_candidates_valid_witness: "validate_name ''x-2'' = Inr () \<and> length ''x-2'' \<le> 64"
  by (rule rename_candidates_valid [of "''x''" _ True]) code_simp+

definition two_hops :: address_book_entry where
  "two_hops = demo_entry\<lparr>ab_jump_hosts := Some
     [\<lparr>jh_hostname = ''inner'', jh_port = 22, jh_username = ''a'', jh_password = Some ''p1'', jh_private_key = None, jh_host_key = None\<rparr>,
      \<lparr>jh_hostname = ''outer'', jh_port = 22, jh_username = ''b'', jh_password = Some ''p2'', jh_private_key = None, jh_host_key = None\<rparr>]\<rparr>"

definition one_hop :: address_book_entry where
  "one_hop = demo_entry\<lparr>ab_jump_hosts := Some
     [\<lparr>jh_hostname = ''outer'', jh_port = 22, jh_username = ''b'', jh_password = None, jh_private_key = None, jh_host_key = None\<rparr>]\<rparr>"

theorem removed_hop_leaks_password_witness:
  "\<exists>h. ab_jump_hosts (merge_entry_update one_hop two_hops) = Some [h] \<and> jh_hostname h = ''outer'' \<and> jh_password h = Some ''p1''"
  using removed_hop_leaks_password [of two_hops _ _ _ one_hop] by (auto simp: two_hops_def one_hop_def)

theorem delete_folder_reports_success_witness:
  "\<exists>subfolders entries v'. delete_folder demo_client (mem_vault demo_client) ''shared'' ''a'' [] = (Inr (subfolders, entries), v')"
  by (rule delete_folder_reports_success [where sp = "''shared''"]) code_simp+

text \<open>
  The count of deleted entries includes the subfolders: a folder with one subfolder that holds the
  only entry is reported with two entries.
\<close>

theorem delete_folder_overcounts:
  "delete_folder demo_client (mem_vault demo_client) ''shared'' ''a'' [(''rg/shared/a/b/e'', J_entry False demo_entry)] = (Inr (1, 2), [])"
  by code_simp

end
