(* ===== verification/Change_Log.thy ===== *)
theory Change_Log
  imports Address_Book
begin

text \<open>
  The change log of the address book in \<^verbatim>\<open>src/src/api.rs\<close>: which changes a request makes, the bounded
  log behind the version counter, and the poll \<open>ab_version\<close> that answers from it. Shown: an
  answer with changes misses none, a bounded log still answers as long as it can, and a caller
  is never told the name of a folder they cannot open.
\<close>

section \<open>Changes\<close>

datatype ab_change_kind = Change_entries | Change_tree | Change_all

record ab_change =
  ac_scope :: str
  ac_folder :: str
  ac_kind :: ab_change_kind

definition change_entries :: "str \<Rightarrow> str \<Rightarrow> ab_change" where
  "change_entries scope folder = \<lparr>ac_scope = scope, ac_folder = folder, ac_kind = Change_entries\<rparr>"

definition change_tree :: "str \<Rightarrow> str \<Rightarrow> ab_change" where
  "change_tree scope folder = \<lparr>ac_scope = scope, ac_folder = folder, ac_kind = Change_tree\<rparr>"

definition change_all :: ab_change where
  "change_all = \<lparr>ac_scope = ''*'', ac_folder = [], ac_kind = Change_all\<rparr>"

definition tree_anywhere :: ab_change where
  "tree_anywhere = \<lparr>ac_scope = ''*'', ac_folder = [], ac_kind = Change_tree\<rparr>"

section \<open>The log\<close>

definition AB_CHANGE_LOG_LEN :: nat where "AB_CHANGE_LOG_LEN = 512"

record ab_change_log =
  al_version :: nat
  al_changed_at_ms :: nat
  al_recent :: "(nat \<times> ab_change) list"
  al_oldest_complete :: nat

definition empty_log :: ab_change_log where
  "empty_log = \<lparr>al_version = 0, al_changed_at_ms = 0, al_recent = [], al_oldest_complete = 0\<rparr>"

definition push_change :: "nat \<Rightarrow> ab_change_log \<Rightarrow> ab_change \<Rightarrow> ab_change_log" where
  "push_change version lg change =
     (let lg = (if AB_CHANGE_LOG_LEN \<le> length (al_recent lg) then
                   (case al_recent lg of
                      [] \<Rightarrow> lg
                    | (evicted, _) # rest \<Rightarrow>
                        lg\<lparr>al_recent := rest, al_oldest_complete := max (al_oldest_complete lg) (evicted + 1)\<rparr>)
                 else lg)
      in lg\<lparr>al_recent := al_recent lg @ [(version, change)]\<rparr>)"

definition record_changes :: "nat \<Rightarrow> ab_change list \<Rightarrow> ab_change_log \<Rightarrow> ab_change_log" where
  "record_changes now_ms changes lg =
     (let lg = lg\<lparr>al_version := al_version lg + 1, al_changed_at_ms := now_ms\<rparr>;
          version = al_version lg;
          lg = (if al_recent lg = [] then lg\<lparr>al_oldest_complete := version\<rparr> else lg)
      in foldl (push_change version) lg changes)"

record ab_changes_since =
  cs_version :: nat
  cs_changed_at_ms :: nat
  cs_changes :: "ab_change list option"

text \<open>The rows after \<open>n\<close>, each once; \<open>All\<close> swallows the rest.\<close>

fun collect_rows :: "nat \<Rightarrow> (nat \<times> ab_change) list \<Rightarrow> ab_change list \<Rightarrow> ab_change list" where
  "collect_rows n [] out = out"
| "collect_rows n ((v, change) # rows) out =
     (if v \<le> n then collect_rows n rows out
      else if ac_kind change = Change_all then [change_all]
      else collect_rows n rows (if change \<in> set out then out else out @ [change]))"

definition since :: "nat \<Rightarrow> ab_change_log \<Rightarrow> ab_changes_since" where
  "since n lg =
     \<lparr>cs_version = al_version lg, cs_changed_at_ms = al_changed_at_ms lg,
      cs_changes =
        (if n = al_version lg then Some []
         else if al_version lg < n \<or> al_recent lg = [] \<or> n + 1 < al_oldest_complete lg then None
         else Some (collect_rows n (al_recent lg) []))\<rparr>"

section \<open>Which changes a request makes\<close>

datatype http_method = HTTP_get | HTTP_head | HTTP_options | HTTP_other str

text \<open>\<open>decode\<close> is the decoder of the crate \<^verbatim>\<open>urlencoding\<close>.\<close>

definition ab_changes_for_request ::
  "(str \<Rightarrow> str option) \<Rightarrow> http_method \<Rightarrow> str \<Rightarrow> (ab_change list \<times> bool) option" where
  "ab_changes_for_request decode meth path =
     (if meth \<in> {HTTP_get, HTTP_head, HTTP_options} then None
      else Option.bind (strip_prefix ''/api/addressbook'' path) (\<lambda>rest.
        let segs = map (\<lambda>s. case decode s of Some c \<Rightarrow> c | None \<Rightarrow> s) (filter (\<lambda>s. s \<noteq> []) (split_on CHR ''/'' rest));
            seg = (\<lambda>i. if i < length segs then Some (segs ! i) else None) in
        case (seg 0, seg 1, seg 2, seg 3, seg 4, seg 5) of
          (s0, None, _, _, _, _) \<Rightarrow> Some ([], False)
        | (Some s0, Some scope, s2, s3, s4, s5) \<Rightarrow>
            if s0 = ''folders'' then
              (case s2 of
                 None \<Rightarrow> Some ([], False)
               | Some folder \<Rightarrow>
                   (case s3 of
                      None \<Rightarrow> Some ([change_tree scope folder], True)
                    | Some s3 \<Rightarrow>
                        if s3 = ''entries'' then
                          (case s4 of
                             None \<Rightarrow> Some ([change_entries scope folder], True)
                           | Some _ \<Rightarrow>
                               (case s5 of
                                  None \<Rightarrow> Some ([change_entries scope folder], True)
                                | Some s5 \<Rightarrow>
                                    if s5 = ''connect'' then None else Some ([change_entries scope folder], False)))
                        else Some ([], False)))
            else if s0 = ''adhoc'' \<and> scope = ''connect'' \<and> s2 = None then None
            else Some ([], False)))"

text \<open>The middleware: the status of the response and what the handler reported.\<close>

definition ab_change_track ::
  "(ab_change list \<times> bool) option \<Rightarrow> bool \<Rightarrow> ab_change list option \<Rightarrow> nat \<Rightarrow> ab_change_log option \<Rightarrow> ab_change_log option" where
  "ab_change_track implied is_success reported now_ms lg =
     (case implied of
        None \<Rightarrow> lg
      | Some (found, whole) \<Rightarrow>
          if is_success then
            (let (found, whole) = (case reported of Some r \<Rightarrow> (found @ r, True) | None \<Rightarrow> (found, whole));
                 found = (if \<not> whole then found @ [change_all] else found)
             in map_option (record_changes now_ms found) lg)
          else
            (case (reported, lg) of
               (Some r, Some l) \<Rightarrow> Some (if r \<noteq> [] then record_changes now_ms r l else l)
             | _ \<Rightarrow> lg))"

section \<open>The poll\<close>

definition AB_VERSION_MAX_CHECKED_ROWS :: nat where "AB_VERSION_MAX_CHECKED_ROWS = 32"

fun visible_rows :: "(str \<Rightarrow> str \<Rightarrow> vault_error + bool) \<Rightarrow> ab_change list \<Rightarrow> ab_change list \<Rightarrow> bool \<Rightarrow> ab_change list" where
  "visible_rows can_access [] out tree = (if tree then out @ [tree_anywhere] else out)"
| "visible_rows can_access (c # cs) out tree =
     (case ac_kind c of
        Change_entries \<Rightarrow>
          (case can_access (ac_scope c) (ac_folder c) of
             Inr True \<Rightarrow> visible_rows can_access cs (out @ [c]) tree
           | Inr False \<Rightarrow> visible_rows can_access cs out tree
           | Inl Vault_not_found \<Rightarrow> visible_rows can_access cs out tree
           | Inl _ \<Rightarrow> visible_rows can_access cs out True)
      | _ \<Rightarrow> visible_rows can_access cs out True)"

definition ab_changes_visible_to :: "(str \<Rightarrow> str \<Rightarrow> vault_error + bool) \<Rightarrow> ab_change list \<Rightarrow> ab_change list" where
  "ab_changes_visible_to can_access changes =
     (if list_ex (\<lambda>c. ac_kind c = Change_all) changes then [change_all]
      else if AB_VERSION_MAX_CHECKED_ROWS < length changes then [tree_anywhere]
      else visible_rows can_access changes [] False)"

text \<open>The backends as reads see them: a connected client for a scope, or none.\<close>

type_synonym reading_backends = "str \<Rightarrow> (vault_client \<times> vault_answers) option"

definition backends_folder_access :: "reading_backends \<Rightarrow> folder_subject \<Rightarrow> str \<Rightarrow> str \<Rightarrow> vault_error + bool" where
  "backends_folder_access be who scope folder =
     (case be scope of
        None \<Rightarrow> Inl Vault_unavailable
      | Some (cl, va) \<Rightarrow> resolve_folder_access cl va scope who folder)"

record version_answer =
  va_version :: nat
  va_changed_at :: nat
  va_epoch :: nat
  va_changes :: "ab_change list option"

definition ab_version ::
  "auth_identity option \<Rightarrow> (ab_change_log \<times> nat) option \<Rightarrow> reading_backends option \<Rightarrow> nat option \<Rightarrow> (nat \<times> str) + version_answer" where
  "ab_version identity changes vault q_since =
     (case filter_opt (\<lambda>i. has_role i ''operator'') identity of
        None \<Rightarrow> Inl (403, ''operator role required'')
      | Some who \<Rightarrow>
          (case changes of
             None \<Rightarrow> Inr \<lparr>va_version = 0, va_changed_at = 0, va_epoch = 0, va_changes = None\<rparr>
           | Some (lg, epoch) \<Rightarrow>
               (let answer = (case q_since of
                      Some n \<Rightarrow> since n lg
                    | None \<Rightarrow> \<lparr>cs_version = al_version lg, cs_changed_at_ms = al_changed_at_ms lg, cs_changes = None\<rparr>);
                    changes = (case cs_changes answer of
                      Some rows \<Rightarrow>
                        if rows \<noteq> [] \<and> \<not> has_role who ''admin'' then
                          Some (case vault of
                                  Some be \<Rightarrow> ab_changes_visible_to (backends_folder_access be (folder_subject_of who)) rows
                                | None \<Rightarrow> [tree_anywhere])
                        else Some rows
                    | None \<Rightarrow> None)
                in Inr \<lparr>va_version = cs_version answer, va_changed_at = cs_changed_at_ms answer, va_epoch = epoch,
                        va_changes = changes\<rparr>)))"

section \<open>A poll misses nothing\<close>

text \<open>The log after a history of recordings, and all its rows with their versions.\<close>

definition logged :: "(nat \<times> ab_change list) list \<Rightarrow> ab_change_log" where
  "logged hist = foldl (\<lambda>lg (now, changes). record_changes now changes lg) empty_log hist"

fun rows_from :: "nat \<Rightarrow> (nat \<times> ab_change list) list \<Rightarrow> (nat \<times> ab_change) list" where
  "rows_from v [] = []"
| "rows_from v ((_, changes) # hist) = map (Pair v) changes @ rows_from (Suc v) hist"

definition rows_of :: "(nat \<times> ab_change list) list \<Rightarrow> (nat \<times> ab_change) list" where
  "rows_of hist = rows_from 1 hist"

lemma rows_from_snoc: "rows_from v (hist @ [(now, changes)]) = rows_from v hist @ map (Pair (v + length hist)) changes"
  by (induction v hist rule: rows_from.induct) auto

lemma rows_of_snoc [simp]: "rows_of (hist @ [(now, changes)]) = rows_of hist @ map (Pair (Suc (length hist))) changes"
  by (simp add: rows_of_def rows_from_snoc)

lemma rows_of_Nil [simp]: "rows_of [] = []"
  by (simp add: rows_of_def)

lemma sorted_same [simp]: "sorted (map (fst \<circ> Pair v) cs)"
  by (induction cs) auto

text \<open>
  What holds of the log while rows are pushed: it is the end of all rows; what it has dropped is
  older than its oldest complete version, and it drops only when it is full.
\<close>

definition tail_of :: "(nat \<times> ab_change) list \<Rightarrow> ab_change_log \<Rightarrow> bool" where
  "tail_of rows lg \<longleftrightarrow> (\<exists>gone. rows = gone @ al_recent lg \<and>
     (\<forall>p\<in>set gone. fst p < al_oldest_complete lg) \<and> length (al_recent lg) = min AB_CHANGE_LOG_LEN (length rows) \<and>
     (gone \<noteq> [] \<longrightarrow> al_oldest_complete lg \<le> Suc (fst (last gone))) \<and>
     (gone = [] \<and> rows \<noteq> [] \<longrightarrow> al_oldest_complete lg \<le> fst (hd rows)))"

lemma tail_of_push:
  assumes t: "tail_of rows lg" and s: "sorted (map fst rows)" and "rows = [] \<longrightarrow> al_oldest_complete lg \<le> v"
  shows "tail_of (rows @ [(v, c)]) (push_change v lg c)"
proof -
  obtain gone where g: "rows = gone @ al_recent lg" "\<forall>p\<in>set gone. fst p < al_oldest_complete lg"
      "length (al_recent lg) = min AB_CHANGE_LOG_LEN (length rows)"
      "gone \<noteq> [] \<longrightarrow> al_oldest_complete lg \<le> Suc (fst (last gone))"
      "gone = [] \<and> rows \<noteq> [] \<longrightarrow> al_oldest_complete lg \<le> fst (hd rows)"
    using t unfolding tail_of_def by blast
  show ?thesis
  proof (cases "AB_CHANGE_LOG_LEN \<le> length (al_recent lg)")
    case False
    moreover have "length rows = length gone + length (al_recent lg)" using arg_cong [OF g(1), of length] by simp
    ultimately have "length gone = 0" using g(3) by linarith
    then have "gone = []" "rows = al_recent lg" using g(1) by simp_all
    moreover have "push_change v lg c = lg\<lparr>al_recent := al_recent lg @ [(v, c)]\<rparr>" using False by (simp add: push_change_def)
    ultimately show ?thesis using False g(5) assms(3) unfolding tail_of_def
      by (intro exI [of _ "[]"]) (cases "al_recent lg", auto)
  next
    case True
    then obtain e x rest where r: "al_recent lg = (e, x) # rest" by (cases "al_recent lg") (auto simp: AB_CHANGE_LOG_LEN_def)
    have "al_oldest_complete lg \<le> Suc e"
    proof (cases gone rule: rev_cases)
      case (snoc gs p)
      then have "fst p \<le> e" using s g(1) r by (auto simp: sorted_append)
      then show ?thesis using g(4) snoc by auto
    qed (use g(1,5) r in auto)
    then show ?thesis using True g r
      by (auto simp: tail_of_def push_change_def Let_def max_def intro!: exI [of _ "gone @ [(e, x)]"])
  qed
qed

lemma tail_of_pushes:
  assumes "tail_of rows lg" "sorted (map fst rows)" "\<forall>p\<in>set rows. fst p \<le> v" "rows = [] \<longrightarrow> al_oldest_complete lg \<le> v"
  shows "tail_of (rows @ map (Pair v) cs) (foldl (push_change v) lg cs) \<and> al_version (foldl (push_change v) lg cs) = al_version lg"
  using assms
proof (induction cs arbitrary: rows lg)
  case (Cons c cs)
  have "tail_of (rows @ [(v, c)]) (push_change v lg c)" using Cons.prems tail_of_push by blast
  moreover have "al_version (push_change v lg c) = al_version lg"
    by (auto simp: push_change_def Let_def split: list.splits)
  moreover have "sorted (map fst (rows @ [(v, c)]))" using Cons.prems by (auto simp: sorted_append)
  ultimately show ?case using Cons.IH [of "rows @ [(v, c)]" "push_change v lg c"] Cons.prems(3) by auto
qed simp

lemma logged_tail:
  "al_version (logged hist) = length hist \<and> tail_of (rows_of hist) (logged hist) \<and> sorted (map fst (rows_of hist)) \<and>
   (\<forall>p\<in>set (rows_of hist). fst p \<le> length hist)"
proof (induction hist rule: rev_induct)
  case Nil
  then show ?case by (simp add: logged_def empty_log_def tail_of_def)
next
  case (snoc h hist)
  obtain now cs where h: "h = (now, cs)" by (cases h)
  define lg where "lg = (let lg = (logged hist)\<lparr>al_version := al_version (logged hist) + 1, al_changed_at_ms := now\<rparr> in
    if al_recent lg = [] then lg\<lparr>al_oldest_complete := al_version lg\<rparr> else lg)"
  have lg: "al_version lg = Suc (length hist)" "logged (hist @ [h]) = foldl (push_change (Suc (length hist))) lg cs"
    using snoc.IH by (simp_all add: lg_def Let_def logged_def record_changes_def h)
  have "tail_of (rows_of hist) lg"
    using snoc.IH by (auto simp: lg_def Let_def tail_of_def AB_CHANGE_LOG_LEN_def min_def split: if_splits)
  moreover have "rows_of hist = [] \<longrightarrow> al_oldest_complete lg \<le> Suc (length hist)"
    using snoc.IH by (auto simp: lg_def Let_def tail_of_def)
  ultimately show ?case
    using tail_of_pushes [of "rows_of hist" lg "Suc (length hist)" cs] snoc.IH lg
    by (auto simp: h sorted_append le_SucI)
qed

lemma collect_rows_all:
  "\<exists>p\<in>set rows. n < fst p \<and> ac_kind (snd p) = Change_all \<Longrightarrow> collect_rows n rows out = [change_all]"
  by (induction n rows out rule: collect_rows.induct) force+

lemma collect_rows_set:
  assumes "\<forall>p\<in>set rows. n < fst p \<longrightarrow> ac_kind (snd p) \<noteq> Change_all" and "distinct out"
  shows "distinct (collect_rows n rows out) \<and> set (collect_rows n rows out) = set out \<union> {c. \<exists>v. (v, c) \<in> set rows \<and> n < v}"
  using assms
proof (induction n rows out rule: collect_rows.induct)
  case (2 n v change rows out)
  show ?case
  proof (cases "v \<le> n")
    case True
    then show ?thesis using 2 by auto
  next
    case False
    then have "ac_kind change \<noteq> Change_all" using "2.prems" by simp
    with 2 False show ?thesis by auto
  qed
qed auto

lemma rows_of_nonempty:
  assumes "k < length hist" "snd (hist ! k) \<noteq> []"
  shows "\<exists>c. (Suc k, c) \<in> set (rows_of hist)"
proof -
  have "\<exists>c. (v + k, c) \<in> set (rows_from v hist)" for v
    using assms
  proof (induction v hist arbitrary: k rule: rows_from.induct)
    case (2 v now changes hist)
    show ?case
    proof (cases k)
      case (Suc j)
      then show ?thesis using "2.IH" [of j] "2.prems" by auto
    qed (use "2.prems" in \<open>auto simp: neq_Nil_conv\<close>)
  qed auto
  from this [of 1] show ?thesis by (simp add: rows_of_def)
qed

lemma poll_complete:
  assumes cs: "cs_changes (since n (logged hist)) = Some cs"
  shows "n \<le> length hist \<and> distinct cs \<and>
      (if \<exists>c\<in>{c. \<exists>v. (v, c) \<in> set (rows_of hist) \<and> n < v}. ac_kind c = Change_all then cs = [change_all]
       else set cs = {c. \<exists>v. (v, c) \<in> set (rows_of hist) \<and> n < v})"
proof -
  let ?lg = "logged hist" and ?rows = "rows_of hist"
  note t = logged_tail [of hist]
  then obtain gone where g: "?rows = gone @ al_recent ?lg" "\<forall>p\<in>set gone. fst p < al_oldest_complete ?lg"
    unfolding tail_of_def by blast
  show ?thesis
  proof (cases "n = length hist")
    case True
    then have "{c. \<exists>v. (v, c) \<in> set ?rows \<and> n < v} = {}" using t by fastforce
    then show ?thesis using cs t True by (simp add: since_def)
  next
    case False
    then have c: "n < length hist" "al_oldest_complete ?lg \<le> n + 1" "cs = collect_rows n (al_recent ?lg) []"
      using cs t by (auto simp: since_def split: if_splits)
    have "\<not> n < fst p" if "p \<in> set gone" for p using g(2) that c(2) by fastforce
    then have same: "(\<exists>v. (v, c) \<in> set ?rows \<and> n < v) \<longleftrightarrow> (\<exists>v. (v, c) \<in> set (al_recent ?lg) \<and> n < v)" for c
      unfolding g(1) by fastforce
    show ?thesis
      using c collect_rows_all [of "al_recent ?lg" n "[]"] collect_rows_set [of "al_recent ?lg" n "[]"] by (force simp: same)
  qed
qed

lemma poll_answered:
  assumes n: "n \<le> length hist" "\<forall>h\<in>set hist. snd h \<noteq> []" "length (filter (\<lambda>p. n < fst p) (rows_of hist)) \<le> AB_CHANGE_LOG_LEN"
  shows "cs_changes (since n (logged hist)) \<noteq> None"
proof -
  let ?lg = "logged hist" and ?rows = "rows_of hist"
  note t = logged_tail [of hist]
  then obtain gone where g: "?rows = gone @ al_recent ?lg" "\<forall>p\<in>set gone. fst p < al_oldest_complete ?lg"
      "length (al_recent ?lg) = min AB_CHANGE_LOG_LEN (length ?rows)"
      "gone \<noteq> [] \<longrightarrow> al_oldest_complete ?lg \<le> Suc (fst (last gone))"
      "gone = [] \<and> ?rows \<noteq> [] \<longrightarrow> al_oldest_complete ?lg \<le> fst (hd ?rows)"
    unfolding tail_of_def by blast
  show ?thesis
  proof (cases "n = length hist")
    case False
    then have "n < length hist" using n(1) by simp
    then obtain c where c: "(Suc n, c) \<in> set ?rows" using rows_of_nonempty [of n hist] n(2) by auto
    have "al_oldest_complete ?lg \<le> Suc n"
    proof (cases gone rule: rev_cases)
      case Nil
      then have "fst (hd ?rows) \<le> Suc n" using t c by (cases ?rows) auto
      then show ?thesis using Nil g(5) c by fastforce
    next
      case (snoc gs p)
      have "fst p \<le> n"
      proof (rule ccontr)
        assume "\<not> fst p \<le> n"
        moreover have "fst p \<le> fst q" if "q \<in> set (al_recent ?lg)" for q
          using t that unfolding g(1) snoc by (auto simp: sorted_append)
        ultimately have "filter (\<lambda>p. n < fst p) (p # al_recent ?lg) = p # al_recent ?lg"
          by (fastforce simp: filter_id_conv)
        then have "length (al_recent ?lg) < length (filter (\<lambda>p. n < fst p) ?rows)" unfolding g(1) snoc by simp
        moreover have "length (al_recent ?lg) < length ?rows" using arg_cong [OF g(1), of length] snoc by simp
        ultimately show False using n(3) g(3) by simp
      qed
      then show ?thesis using g(4) snoc by simp
    qed
    moreover have "al_recent ?lg \<noteq> []" using g(3) length_pos_if_in_set [OF c] by (auto simp: AB_CHANGE_LOG_LEN_def min_def split: if_splits)
    ultimately show ?thesis using t n(1) by (simp add: since_def)
  qed (use t in \<open>simp add: since_def\<close>)
qed

text \<open>
  C21: A poll misses nothing. Whatever was recorded, an answer with changes names exactly the changes
  recorded after the version the page has seen, each once (or just \<open>All\<close> if one of them was that);
  and as long as no more than 512 were recorded since and every recording had one, the poll
  is answered with them.
\<close>

theorem poll_misses_nothing:
  "let later = {c. \<exists>v. (v, c) \<in> set (rows_of hist) \<and> n < v}; answer = cs_changes (since n (logged hist)) in
   (\<forall>cs. answer = Some cs \<longrightarrow> n \<le> length hist \<and> distinct cs \<and>
      (if \<exists>c\<in>later. ac_kind c = Change_all then cs = [change_all] else set cs = later)) \<and>
   (n \<le> length hist \<and> (\<forall>h\<in>set hist. snd h \<noteq> []) \<and> length (filter (\<lambda>p. n < fst p) (rows_of hist)) \<le> AB_CHANGE_LOG_LEN \<longrightarrow>
      answer \<noteq> None)"
  using poll_complete [of n hist] poll_answered [of n hist] unfolding Let_def by blast

section \<open>A poll names no hidden folder\<close>

definition shown :: "(str \<Rightarrow> str \<Rightarrow> vault_error + bool) \<Rightarrow> ab_change \<Rightarrow> bool" where
  "shown acc c \<longleftrightarrow> ac_kind c = Change_entries \<and> acc (ac_scope c) (ac_folder c) = Inr True"

definition unsure :: "(str \<Rightarrow> str \<Rightarrow> vault_error + bool) \<Rightarrow> ab_change \<Rightarrow> bool" where
  "unsure acc c \<longleftrightarrow> ac_kind c \<noteq> Change_entries \<or> (\<exists>e. acc (ac_scope c) (ac_folder c) = Inl e \<and> e \<noteq> Vault_not_found)"

lemma visible_rows_step:
  "visible_rows acc (c # cs) out tree = visible_rows acc cs (if shown acc c then out @ [c] else out) (tree \<or> unsure acc c)"
  by (simp add: shown_def unsure_def split: ab_change_kind.split sum.split bool.split vault_error.split)

lemma visible_rows_set:
  "set (visible_rows acc cs out tree) = set out \<union> {c \<in> set cs. shown acc c} \<union>
     (if tree \<or> (\<exists>c\<in>set cs. unsure acc c) then {tree_anywhere} else {})"
proof (induction cs arbitrary: out tree)
  case (Cons c cs)
  show ?case unfolding visible_rows_step Cons.IH by auto
qed simp

lemma visible_to_sound:
  assumes "c \<in> set (ab_changes_visible_to acc rows)"
  shows "c = change_all \<or> c = tree_anywhere \<or> c \<in> set rows \<and> ac_kind c = Change_entries \<and> acc (ac_scope c) (ac_folder c) = Inr True"
  using assms by (auto simp: ab_changes_visible_to_def visible_rows_set shown_def split: if_splits)

lemma visible_to_covers:
  assumes "c \<in> set rows" "acc (ac_scope c) (ac_folder c) = Inr True"
  shows "{c, change_all, tree_anywhere} \<inter> set (ab_changes_visible_to acc rows) \<noteq> {}"
  using assms by (auto simp: ab_changes_visible_to_def visible_rows_set shown_def unsure_def)

text \<open>
  C22: What a poll tells somebody who is not an administrator. Every row it names is a change of entries
  in a folder the caller can open now; and every change since the version asked for, in a folder
  the caller can open, is named or covered by a row that makes the page refresh.
\<close>

theorem poll_names_no_hidden_folder:
  assumes "ab_version (Some who) (Some (lg, epoch)) (Some be) (Some n) = Inr a" and "\<not> has_role who ''admin''"
  shows "case va_changes a of
      None \<Rightarrow> cs_changes (since n lg) = None
    | Some named \<Rightarrow> \<exists>rows. cs_changes (since n lg) = Some rows \<and>
        (\<forall>c\<in>set named. c = change_all \<or> c = tree_anywhere \<or>
           c \<in> set rows \<and> ac_kind c = Change_entries \<and>
           backends_folder_access be (folder_subject_of who) (ac_scope c) (ac_folder c) = Inr True) \<and>
        (\<forall>c\<in>set rows. backends_folder_access be (folder_subject_of who) (ac_scope c) (ac_folder c) = Inr True \<longrightarrow>
           c \<in> set named \<or> change_all \<in> set named \<or> tree_anywhere \<in> set named)"
proof (cases "cs_changes (since n lg)")
  case None
  then show ?thesis using assms by (auto simp: ab_version_def filter_opt_def Let_def split: if_splits)
next
  case (Some rows)
  let ?acc = "backends_folder_access be (folder_subject_of who)"
  have "va_changes a = Some (if rows = [] then [] else ab_changes_visible_to ?acc rows)"
    using assms Some by (auto simp: ab_version_def filter_opt_def Let_def split: if_splits)
  then show ?thesis using Some visible_to_sound [of _ ?acc rows] visible_to_covers [of _ rows ?acc] by fastforce
qed

section \<open>Witnesses\<close>

theorem poll_misses_nothing_witness:
  "cs_changes (since 1 (logged [(5, [change_tree ''shared'' ''a'']), (7, [change_entries ''shared'' ''b''])])) \<noteq> None"
proof -
  have "length (filter (\<lambda>p. (1::nat) < fst p) (rows_of [(5, [change_tree ''shared'' ''a'']), (7, [change_entries ''shared'' ''b''])])) \<le> AB_CHANGE_LOG_LEN"
    by (simp add: rows_of_def AB_CHANGE_LOG_LEN_def)
  then show ?thesis
    using poll_misses_nothing [of "[(5, [change_tree ''shared'' ''a'']), (7, [change_entries ''shared'' ''b''])]" 1]
    by (simp add: Let_def)
qed

definition ops_backends :: reading_backends where
  "ops_backends scope = Some (demo_client, ops_answers)"

lemma demo_poll:
  "ab_version (Some (User ''ann@x'' ''operator'' [''dev''])) (Some (logged [(5, [change_entries ''shared'' ''a/b''])], 9))
     (Some ops_backends) (Some 0) = Inr \<lparr>va_version = 1, va_changed_at = 5, va_epoch = 9, va_changes = Some []\<rparr>"
  by code_simp

theorem poll_names_no_hidden_folder_witness:
  "\<not> (\<exists>c\<in>set [change_entries ''shared'' ''a/b'']. backends_folder_access ops_backends
     (folder_subject_of (User ''ann@x'' ''operator'' [''dev''])) (ac_scope c) (ac_folder c) = Inr True)"
proof -
  have "\<not> has_role (User ''ann@x'' ''operator'' [''dev'']) ''admin''" by code_simp
  from poll_names_no_hidden_folder [OF demo_poll this]
  have "\<forall>rows. cs_changes (since 0 (logged [(5, [change_entries ''shared'' ''a/b''])])) = Some rows \<longrightarrow>
      (\<forall>c\<in>set rows. backends_folder_access ops_backends (folder_subject_of (User ''ann@x'' ''operator'' [''dev'']))
         (ac_scope c) (ac_folder c) \<noteq> Inr True)" by auto
  moreover have "cs_changes (since 0 (logged [(5, [change_entries ''shared'' ''a/b''])])) = Some [change_entries ''shared'' ''a/b'']"
    by code_simp
  ultimately show ?thesis by auto
qed

end
