(* ===== verification/Sql_Dump.thy ===== *)
theory Sql_Dump
  imports Text_Ops
begin

text \<open>
  The reader of MySQL dumps in \<^verbatim>\<open>src/src/import.rs\<close>: statements, row tuples, their values, and the
  three tables of Apache Guacamole that are imported. Shown: the rows of a dump as mysqldump
  writes it are read back as they were, whatever quotes, semicolons, brackets or comment
  signs the texts hold, whatever stands around the inserts and however many columns follow the imported ones.

  A text is its bytes; the characters the reader looks for are ASCII, so going through bytes or
  through characters is the same. \<open>str::to_uppercase\<close>, which is a table of Unicode, is the
  argument \<open>up\<close>.
\<close>

section \<open>Statements\<close>

abbreviation quote_char :: char where "quote_char \<equiv> CHR 0x27"
abbreviation tick_char :: char where "tick_char \<equiv> CHR 0x60"
abbreviation backslash :: char where "backslash \<equiv> CHR 0x5C"
abbreviation newline :: char where "newline \<equiv> CHR 0x0A"

text \<open>From a line comment on: the newline that ends it stays.\<close>

definition skip_line :: "str \<Rightarrow> str" where
  "skip_line s = dropWhile (\<lambda>c. c \<noteq> newline) s"

text \<open>After \<open>/*\<close>: what follows the closing \<open>*/\<close>; without one, nothing is left.\<close>

fun skip_block :: "str \<Rightarrow> str" where
  "skip_block (c # d # s) = (if c = CHR ''*'' \<and> d = CHR ''/'' then s else skip_block (d # s))"
| "skip_block _ = []"

lemma skip_block_length: "length (skip_block s) \<le> length s"
  by (induction s rule: skip_block.induct) auto

lemma skip_line_length: "length (skip_line s) \<le> length s"
  by (simp add: skip_line_def length_dropWhile_le)

definition dash_comment :: "str \<Rightarrow> bool" where
  "dash_comment s = (case s of
     c # d # rest \<Rightarrow> c = CHR ''-'' \<and> d = CHR ''-'' \<and>
       (case rest of [] \<Rightarrow> True | e # _ \<Rightarrow> e \<in> {CHR '' '', CHR 0x09, CHR 0x0D, newline})
   | _ \<Rightarrow> False)"

definition block_comment :: "str \<Rightarrow> bool" where
  "block_comment s = (case s of c # d # _ \<Rightarrow> c = CHR ''/'' \<and> d = CHR ''*'' | _ \<Rightarrow> False)"

definition end_statement :: "str \<Rightarrow> str list \<Rightarrow> str list" where
  "end_statement cur out = (if trim cur \<noteq> [] then out @ [cur] else out)"

datatype sql_mode = Plain | In_quote | In_ident

function statement_loop :: "sql_mode \<Rightarrow> str \<Rightarrow> str \<Rightarrow> str list \<Rightarrow> str list" where
  "statement_loop mode [] cur out = end_statement cur out"
| "statement_loop In_quote (ch # s) cur out =
     (case s of
        d # rest \<Rightarrow>
          if ch = backslash then statement_loop In_quote rest (cur @ [ch, d]) out
          else statement_loop (if ch = quote_char then Plain else In_quote) s (cur @ [ch]) out
      | [] \<Rightarrow> statement_loop (if ch = quote_char then Plain else In_quote) s (cur @ [ch]) out)"
| "statement_loop In_ident (ch # s) cur out =
     statement_loop (if ch = tick_char then Plain else In_ident) s (cur @ [ch]) out"
| "statement_loop Plain (ch # s) cur out =
     (if ch = CHR ''#'' \<or> dash_comment (ch # s) then statement_loop Plain (skip_line s) cur out
      else if block_comment (ch # s) then statement_loop Plain (skip_block (tl s)) cur out
      else if ch = CHR '';'' then statement_loop Plain s [] (end_statement cur out)
      else statement_loop (if ch = quote_char then In_quote else if ch = tick_char then In_ident else Plain) s (cur @ [ch]) out)"
  by pat_completeness auto
termination
proof (relation "measure (\<lambda>(mode, s, cur, out). length s)", goal_cases)
  case (6 ch s)
  then show ?case using skip_line_length [of s] by (simp add: le_imp_less_Suc)
next
  case (7 ch s)
  then show ?case using skip_block_length [of "tl s"] by (simp add: le_imp_less_Suc)
qed auto

definition split_statements :: "str \<Rightarrow> str list" where
  "split_statements sql = statement_loop Plain sql [] []"

section \<open>Rows\<close>

definition matches_insert :: "(str \<Rightarrow> str) \<Rightarrow> str \<Rightarrow> str \<Rightarrow> bool" where
  "matches_insert up line table \<longleftrightarrow>
     contains ''INSERT INTO'' (up line) \<and>
     (contains ([tick_char] @ table @ [tick_char]) line \<or> contains ('' '' @ up table @ '' '') (up line) \<or>
      contains ('' '' @ up table @ ''('') (up line))"

text \<open>\<open>str::find\<close>; slicing at a byte that is not the start of a character is a panic.\<close>

fun find_text :: "str \<Rightarrow> str \<Rightarrow> nat option" where
  "find_text p [] = (if p = [] then Some 0 else None)"
| "find_text p (c # s) = (if take (length p) (c # s) = p then Some 0 else map_option Suc (find_text p s))"

definition slice_from :: "nat \<Rightarrow> str \<Rightarrow> str option" where
  "slice_from i s =
     (if i \<le> length s \<and> (i < length s \<longrightarrow> \<not> (128 \<le> byte_of (s ! i) \<and> byte_of (s ! i) < 192)) then Some (drop i s) else None)"

record tuple_scan =
  ts_depth :: int
  ts_quote :: bool
  ts_escape :: bool
  ts_start :: "str option"
  ts_results :: "str list"

text \<open>One character; \<open>ts_start\<close> is the text since the opening bracket.\<close>

definition tuple_step :: "tuple_scan \<Rightarrow> char \<Rightarrow> tuple_scan" where
  "tuple_step st ch =
     (let kept = st\<lparr>ts_start := map_option (\<lambda>t. t @ [ch]) (ts_start st)\<rparr> in
      if ts_escape st then kept\<lparr>ts_escape := False\<rparr>
      else if ch = backslash \<and> ts_quote st then kept\<lparr>ts_escape := True\<rparr>
      else if ch = quote_char then kept\<lparr>ts_quote := \<not> ts_quote st\<rparr>
      else if ts_quote st then kept
      else if ch = CHR ''('' then
        (let st = kept\<lparr>ts_depth := ts_depth st + 1\<rparr> in if ts_depth st = 1 then st\<lparr>ts_start := Some []\<rparr> else st)
      else if ch = CHR '')'' then
        (if ts_depth st - 1 = 0 then
           st\<lparr>ts_depth := 0, ts_start := None,
              ts_results := ts_results st @ (case ts_start st of Some t \<Rightarrow> [t] | None \<Rightarrow> [])\<rparr>
         else kept\<lparr>ts_depth := ts_depth st - 1\<rparr>)
      else kept)"

definition scan_start :: tuple_scan where
  "scan_start = \<lparr>ts_depth = 0, ts_quote = False, ts_escape = False, ts_start = None, ts_results = []\<rparr>"

text \<open>\<open>None\<close> is the panic of the slice.\<close>

definition extract_tuples :: "(str \<Rightarrow> str) \<Rightarrow> str \<Rightarrow> str list option" where
  "extract_tuples up line =
     (case find_text ''VALUES'' (up line) of
        None \<Rightarrow> Some []
      | Some p \<Rightarrow> map_option (\<lambda>rest. ts_results (foldl tuple_step scan_start rest)) (slice_from (p + 6) line))"

fun tuple_loop :: "str \<Rightarrow> str \<Rightarrow> bool \<Rightarrow> bool \<Rightarrow> str list \<Rightarrow> str list" where
  "tuple_loop [] cur in_quote escape values = values @ [trim cur]"
| "tuple_loop (ch # s) cur in_quote escape values =
     (if escape then tuple_loop s (cur @ [ch]) in_quote False values
      else if ch = backslash \<and> in_quote then tuple_loop s (cur @ [ch]) in_quote True values
      else if ch = quote_char then tuple_loop s cur (\<not> in_quote) False values
      else if ch = CHR '','' \<and> \<not> in_quote then tuple_loop s [] in_quote False (values @ [trim cur])
      else tuple_loop s (cur @ [ch]) in_quote False values)"

definition parse_tuple :: "str \<Rightarrow> str list" where
  "parse_tuple tuple = tuple_loop tuple [] False False []"

fun unescape_sql :: "str \<Rightarrow> str" where
  "unescape_sql [] = []"
| "unescape_sql [ch] = [ch]"
| "unescape_sql (ch # d # s) =
     (if ch = backslash then
        (if d = CHR ''n'' then newline else if d = CHR ''r'' then CHR 0x0D else if d = CHR ''t'' then CHR 0x09
         else if d = CHR ''0'' then CHR 0x00 else d) # unescape_sql s
      else ch # unescape_sql (d # s))"

definition parse_nullable_int :: "str \<Rightarrow> int option" where
  "parse_nullable_int s = (if eq_ignore_ascii_case s ''NULL'' then None else parse_i64 s)"

section \<open>The tables\<close>

record connection =
  cn_id :: int
  cn_name :: str
  cn_parent_id :: "int option"
  cn_protocol :: str

record group =
  gr_id :: int
  gr_parent_id :: "int option"
  gr_name :: str

text \<open>The rows of the statements that match, read one by one; a row that does not fit is skipped.\<close>

fun read_rows :: "(str \<Rightarrow> str) \<Rightarrow> (str \<Rightarrow> bool) \<Rightarrow> (str list \<Rightarrow> 'a option) \<Rightarrow> str list \<Rightarrow> 'a list option" where
  "read_rows up ok row [] = Some []"
| "read_rows up ok row (stmt # stmts) =
     (let trimmed = trim stmt in
      if \<not> ok trimmed then read_rows up ok row stmts
      else Option.bind (extract_tuples up trimmed) (\<lambda>tuples.
        map_option (\<lambda>rest. List.map_filter (\<lambda>t. row (parse_tuple t)) tuples @ rest) (read_rows up ok row stmts)))"

definition connection_row :: "str list \<Rightarrow> connection option" where
  "connection_row vals =
     (if 4 \<le> length vals then
        map_option (\<lambda>i. \<lparr>cn_id = i, cn_name = unescape_sql (vals ! 1), cn_parent_id = parse_nullable_int (vals ! 2),
          cn_protocol = unescape_sql (vals ! 3)\<rparr>) (parse_i64 (vals ! 0))
      else None)"

definition parse_connections :: "(str \<Rightarrow> str) \<Rightarrow> str \<Rightarrow> connection list option" where
  "parse_connections up sql =
     read_rows up (\<lambda>t. matches_insert up t ''guacamole_connection'' \<and>
         \<not> matches_insert up t ''guacamole_connection_parameter'' \<and> \<not> matches_insert up t ''guacamole_connection_group'')
       connection_row (split_statements sql)"

definition parameter_row :: "str list \<Rightarrow> (int \<times> str \<times> str) option" where
  "parameter_row vals =
     (if 3 \<le> length vals then
        map_option (\<lambda>i. (i, unescape_sql (vals ! 1), unescape_sql (vals ! 2))) (parse_i64 (vals ! 0))
      else None)"

text \<open>The parameters of each connection, in the order of the rows.\<close>

definition push_parameter :: "(int \<rightharpoonup> (str \<times> str) list) \<Rightarrow> int \<times> str \<times> str \<Rightarrow> (int \<rightharpoonup> (str \<times> str) list)" where
  "push_parameter results = (\<lambda>(i, param). results(i \<mapsto> (case results i of Some ps \<Rightarrow> ps | None \<Rightarrow> []) @ [param]))"

definition parse_parameters :: "(str \<Rightarrow> str) \<Rightarrow> str \<Rightarrow> (int \<rightharpoonup> (str \<times> str) list) option" where
  "parse_parameters up sql =
     map_option (foldl push_parameter Map.empty)
       (read_rows up (\<lambda>t. matches_insert up t ''guacamole_connection_parameter'') parameter_row (split_statements sql))"

definition group_row :: "str list \<Rightarrow> group option" where
  "group_row vals =
     (if 3 \<le> length vals then
        map_option (\<lambda>i. \<lparr>gr_id = i, gr_parent_id = parse_nullable_int (vals ! 1), gr_name = unescape_sql (vals ! 2)\<rparr>)
          (parse_i64 (vals ! 0))
      else None)"

definition parse_groups :: "(str \<Rightarrow> str) \<Rightarrow> str \<Rightarrow> group list option" where
  "parse_groups up sql = read_rows up (\<lambda>t. matches_insert up t ''guacamole_connection_group'') group_row (split_statements sql)"

section \<open>Dumps as mysqldump writes them\<close>

text \<open>
  The values are escaped as \<open>mysql_real_escape_string\<close> escapes them, Control-Z as \<open>\Z\<close> among them. The
  rows of a statement stand on one line, as older releases write them, or on a line each.
\<close>

datatype cell = Null | Num nat | Text str

datatype layout = One_line | Row_lines

abbreviation control_z :: char where "control_z \<equiv> CHR 0x1A"

fun escape_char :: "char \<Rightarrow> str" where
  "escape_char c =
     (if c = CHR 0x00 then [backslash, CHR ''0''] else if c = newline then [backslash, CHR ''n'']
      else if c = CHR 0x0D then [backslash, CHR ''r''] else if c = control_z then [backslash, CHR ''Z'']
      else if c \<in> {backslash, quote_char, CHR 0x22} then [backslash, c] else [c])"

definition escape_sql :: "str \<Rightarrow> str" where
  "escape_sql s = concat (map escape_char s)"

fun show_cell :: "cell \<Rightarrow> str" where
  "show_cell Null = ''NULL''"
| "show_cell (Num n) = show_nat n"
| "show_cell (Text s) = [quote_char] @ escape_sql s @ [quote_char]"

text \<open>
  Values are trimmed when read, and \<open>\Z\<close> is read as a Z: a text comes back if trimming leaves it alone and
  it has no Control-Z.
\<close>

definition text_ok :: "str \<Rightarrow> bool" where
  "text_ok s \<longleftrightarrow> trim (escape_sql s) = escape_sql s \<and> control_z \<notin> set s"

definition show_row :: "cell list \<Rightarrow> str" where
  "show_row row = ''('' @ join_with '','' (map show_cell row) @ '')''"

fun gap :: "layout \<Rightarrow> str" where
  "gap One_line = '' ''"
| "gap Row_lines = [newline]"

fun between :: "layout \<Rightarrow> str" where
  "between One_line = '',''"
| "between Row_lines = '','' @ [newline]"

definition insert_statement :: "layout \<Rightarrow> str \<Rightarrow> cell list list \<Rightarrow> str" where
  "insert_statement lay table rows =
     ''INSERT INTO '' @ [tick_char] @ table @ [tick_char] @ '' VALUES'' @ gap lay @ join_with (between lay) (map show_row rows)"

lemma escape_Nil [simp]: "escape_sql [] = []" and escape_Cons [simp]: "escape_sql (c # s) = escape_char c @ escape_sql s"
  by (simp_all add: escape_sql_def)

lemma unescape_sql_escape: "control_z \<notin> set s \<Longrightarrow> unescape_sql (escape_sql s) = s"
proof (induction s)
  case (Cons c s)
  have "unescape_sql (escape_char c @ t) = c # unescape_sql t" for t using Cons.prems by (cases t) auto
  then show ?case using Cons by simp
qed simp

section \<open>Scanning a literal\<close>

lemma split_literal:
  "statement_loop In_quote (escape_sql s @ [quote_char] @ r) cur out = statement_loop Plain r (cur @ escape_sql s @ [quote_char]) out"
proof (induction s arbitrary: cur)
  case Nil
  show ?case by (cases r) auto
next
  case (Cons c s)
  have "statement_loop In_quote (escape_char c @ t) cur out = statement_loop In_quote t (cur @ escape_char c) out" if "t \<noteq> []" for t
    using that by (cases t) auto
  then show ?case using Cons by simp
qed

lemma tuple_literal:
  "tuple_loop (escape_sql s @ [quote_char] @ r) cur True False vals = tuple_loop r (cur @ escape_sql s) False False vals"
proof (induction s arbitrary: cur)
  case (Cons c s)
  have "tuple_loop (escape_char c @ t) cur True False vals = tuple_loop t (cur @ escape_char c) True False vals" for t by simp
  then show ?case using Cons by simp
qed simp

lemma scan_literal:
  assumes "ts_quote st" "\<not> ts_escape st"
  shows "foldl tuple_step st (escape_sql s @ [quote_char]) =
    st\<lparr>ts_quote := False, ts_start := map_option (\<lambda>t. t @ escape_sql s @ [quote_char]) (ts_start st)\<rparr>"
  using assms
proof (induction s arbitrary: st)
  case Nil
  then show ?case by (simp add: tuple_step_def Let_def)
next
  case (Cons c s)
  have step: "foldl tuple_step st (escape_char c) = st\<lparr>ts_start := map_option (\<lambda>t. t @ escape_char c) (ts_start st)\<rparr>"
    using Cons.prems by (auto simp: tuple_step_def Let_def option.map_comp comp_def)
  show ?case using Cons by (simp add: step option.map_comp comp_def del: escape_char.simps)
qed

section \<open>Scanning a statement\<close>

definition solid :: "char \<Rightarrow> bool" where
  "solid c \<longleftrightarrow> 33 \<le> byte_of c \<and> byte_of c < 128"

lemma white_not_solid: "\<forall>p\<in>set white_spaces. p \<noteq> [] \<and> \<not> solid (hd p) \<and> \<not> solid (last p)"
  by (simp add: white_spaces_def solid_def byte_of_def)

lemma strip_all_solid:
  assumes "\<forall>p\<in>set ps. p \<noteq> [] \<longrightarrow> \<not> solid (hd p)" "s = [] \<or> solid (hd s)"
  shows "strip_all ps s = s"
proof -
  have "\<not> (p \<noteq> [] \<and> take (length p) s = p)" if "p \<in> set ps" for p
    using assms that by (cases p; cases s) auto
  then have "List.find (\<lambda>p. p \<noteq> [] \<and> take (length p) s = p) ps = None" by (simp add: find_None_iff)
  then show ?thesis by (subst strip_all.simps) simp
qed

lemma trim_solid: "s = [] \<or> solid (hd s) \<and> solid (last s) \<Longrightarrow> trim s = s"
  using white_not_solid
  by (auto simp: trim_def strip_all_solid hd_rev)

text \<open>Characters that mean nothing to any of the scanners outside a literal.\<close>

definition neutral :: "char \<Rightarrow> bool" where
  "neutral c \<longleftrightarrow> c \<notin> {CHR ''#'', CHR ''-'', CHR ''/'', CHR '';'', quote_char, tick_char, CHR ''('', CHR '')'', CHR '','', backslash}"

lemma split_neutral:
  assumes "list_all (\<lambda>c. c \<notin> {CHR ''#'', CHR ''-'', CHR ''/'', CHR '';'', quote_char, tick_char}) a"
  shows "statement_loop Plain (a @ r) cur out = statement_loop Plain r (cur @ a) out"
  using assms
proof (induction a arbitrary: cur)
  case (Cons c a)
  then show ?case by (auto simp: dash_comment_def block_comment_def split: list.splits)
qed simp

lemma split_all_neutral: "list_all neutral a \<Longrightarrow> statement_loop Plain (a @ r) cur out = statement_loop Plain r (cur @ a) out"
  by (rule split_neutral) (auto simp: list_all_iff neutral_def)

lemma split_ident:
  assumes "tick_char \<notin> set a"
  shows "statement_loop In_ident (a @ [tick_char] @ r) cur out = statement_loop Plain r (cur @ a @ [tick_char]) out"
  using assms by (induction a arbitrary: cur) auto

lemma show_nat_neutral: "list_all neutral (show_nat n)"
  using show_nat_digits [of n] by (auto simp: list_all_iff neutral_def is_ascii_digit_def byte_of_def)

lemma cell_neutral: "cell = Null \<or> (\<exists>n. cell = Num n) \<Longrightarrow> list_all neutral (show_cell cell)"
  using show_nat_neutral by (auto simp: neutral_def)

lemma split_cell: "statement_loop Plain (show_cell cell @ r) cur out = statement_loop Plain r (cur @ show_cell cell) out"
proof (cases cell)
  case (Text s)
  have "statement_loop Plain (quote_char # t) cur out = statement_loop In_quote t (cur @ [quote_char]) out" for t
    by (simp add: dash_comment_def block_comment_def split: list.splits)
  then show ?thesis using split_literal [of s r] Text by simp
qed (use split_all_neutral [OF cell_neutral [of cell]] in simp_all)

text \<open>A text the statement scanner passes over, coming out where it went in.\<close>

definition passes :: "str \<Rightarrow> bool" where
  "passes a \<longleftrightarrow> (\<forall>r cur out. statement_loop Plain (a @ r) cur out = statement_loop Plain r (cur @ a) out)"

lemma passes_plain: "list_all (\<lambda>c. c \<notin> {CHR ''#'', CHR ''-'', CHR ''/'', CHR '';'', quote_char, tick_char}) a \<Longrightarrow> passes a"
  unfolding passes_def using split_neutral by blast

lemma passes_append [simp]: "passes a \<Longrightarrow> passes b \<Longrightarrow> passes (a @ b)"
  by (simp add: passes_def)

lemma passes_join: "\<forall>w\<in>set ws. passes w \<Longrightarrow> passes sep \<Longrightarrow> passes (join_with sep ws)"
  by (induction sep ws rule: join_with.induct) (auto simp: passes_def)

lemma passes_row: "passes (show_row row)"
proof -
  have "passes ''(''" "passes '')''" "passes '',''" by (simp_all add: passes_plain)
  moreover have "\<forall>w\<in>set (map show_cell row). passes w" using split_cell by (auto simp: passes_def)
  ultimately show ?thesis unfolding show_row_def by (intro passes_append passes_join)
qed

lemma passes_ident: "tick_char \<notin> set a \<Longrightarrow> passes ([tick_char] @ a @ [tick_char])"
  using split_ident [of a] by (simp add: passes_def dash_comment_def block_comment_def split: list.splits)

lemma passes_statement:
  assumes "list_all neutral table"
  shows "passes (insert_statement lay table rows)"
proof -
  have neutral: "passes ''INSERT INTO ''" "passes ('' VALUES'' @ gap lay)" "passes (between lay)"
    by (cases lay; simp add: passes_plain)+
  have tick: "passes ([tick_char] @ table @ [tick_char])"
    using assms by (intro passes_ident) (auto simp: list_all_iff neutral_def)
  have "\<forall>w\<in>set (map show_row rows). passes w" using passes_row by simp
  from passes_append [OF neutral(1) passes_append [OF tick passes_append [OF neutral(2) passes_join [OF this neutral(3)]]]]
  show ?thesis by (simp add: insert_statement_def)
qed

section \<open>Reading rows\<close>

lemma scan_neutral:
  assumes "\<not> ts_quote st" "\<not> ts_escape st" "list_all (\<lambda>c. c \<notin> {quote_char, CHR ''('', CHR '')''}) a"
  shows "foldl tuple_step st a = st\<lparr>ts_start := map_option (\<lambda>t. t @ a) (ts_start st)\<rparr>"
  using assms
proof (induction a arbitrary: st)
  case (Cons c a)
  have "tuple_step st c = st\<lparr>ts_start := map_option (\<lambda>t. t @ [c]) (ts_start st)\<rparr>"
    using Cons.prems by (simp add: tuple_step_def Let_def)
  then show ?case using Cons by (simp add: option.map_comp comp_def)
qed (simp add: option.map_ident)

lemma scan_cell:
  assumes "\<not> ts_quote st" "\<not> ts_escape st"
  shows "foldl tuple_step st (show_cell cell) = st\<lparr>ts_start := map_option (\<lambda>t. t @ show_cell cell) (ts_start st)\<rparr>"
proof (cases cell)
  case (Text s)
  have "tuple_step st quote_char = st\<lparr>ts_quote := True, ts_start := map_option (\<lambda>t. t @ [quote_char]) (ts_start st)\<rparr>"
    using assms by (simp add: tuple_step_def Let_def)
  then show ?thesis using Text assms scan_literal [of "st\<lparr>ts_quote := True, ts_start := map_option (\<lambda>t. t @ [quote_char]) (ts_start st)\<rparr>" s]
    by (simp add: option.map_comp comp_def)
qed (rule scan_neutral [OF assms], use cell_neutral [of cell] in \<open>simp add: list_all_iff neutral_def\<close>)+

lemma scan_cells:
  assumes "\<not> ts_quote st" "\<not> ts_escape st"
  shows "foldl tuple_step st (join_with '','' (map show_cell row)) =
    st\<lparr>ts_start := map_option (\<lambda>t. t @ join_with '','' (map show_cell row)) (ts_start st)\<rparr>"
  using assms
proof (induction row arbitrary: st)
  case (Cons c row)
  show ?case
  proof (cases "row = []")
    case False
    then have "join_with '','' (map show_cell (c # row)) = (show_cell c @ '','') @ join_with '','' (map show_cell row)"
      by (cases row) simp_all
    moreover have "foldl tuple_step st (show_cell c @ '','') = st\<lparr>ts_start := map_option (\<lambda>t. t @ show_cell c @ '','') (ts_start st)\<rparr>"
      using Cons.prems scan_neutral [of "st\<lparr>ts_start := map_option (\<lambda>t. t @ show_cell c) (ts_start st)\<rparr>" "'',''"]
      by (simp add: scan_cell option.map_comp comp_def)
    ultimately show ?thesis
      using Cons.IH [of "st\<lparr>ts_start := map_option (\<lambda>t. t @ show_cell c @ '','') (ts_start st)\<rparr>"] Cons.prems
      by (simp add: option.map_comp comp_def)
  qed (use Cons.prems in \<open>simp add: scan_cell\<close>)
qed (simp add: option.map_ident)

lemma scan_row:
  assumes "\<not> ts_quote st" "\<not> ts_escape st" "ts_depth st = 0" "ts_start st = None"
  shows "foldl tuple_step st (show_row row) = st\<lparr>ts_results := ts_results st @ [join_with '','' (map show_cell row)]\<rparr>"
proof -
  let ?in = "st\<lparr>ts_depth := 1, ts_start := Some []\<rparr>"
  have "tuple_step st (CHR ''('') = ?in" using assms by (simp add: tuple_step_def Let_def)
  moreover have "foldl tuple_step ?in (join_with '','' (map show_cell row)) = ?in\<lparr>ts_start := Some (join_with '','' (map show_cell row))\<rparr>"
    using assms scan_cells [of ?in row] by simp
  ultimately show ?thesis using assms by (simp add: show_row_def tuple_step_def Let_def)
qed

lemma scan_rows:
  assumes "\<not> ts_quote st" "\<not> ts_escape st" "ts_depth st = 0" "ts_start st = None"
  shows "ts_results (foldl tuple_step st (join_with (between lay) (map show_row rows))) =
    ts_results st @ map (\<lambda>row. join_with '','' (map show_cell row)) rows"
  using assms
proof (induction rows arbitrary: st)
  case (Cons row rows)
  let ?st = "st\<lparr>ts_results := ts_results st @ [join_with '','' (map show_cell row)]\<rparr>"
  have row: "foldl tuple_step st (show_row row) = ?st" by (rule scan_row [OF Cons.prems])
  show ?case
  proof (cases "rows = []")
    case False
    then have "join_with (between lay) (map show_row (row # rows)) =
        show_row row @ between lay @ join_with (between lay) (map show_row rows)"
      by (cases rows) simp_all
    moreover have "foldl tuple_step ?st (between lay) = ?st"
      using Cons.prems scan_neutral [of ?st "between lay"] by (cases lay) simp_all
    ultimately show ?thesis using Cons.IH [of ?st] Cons.prems row by simp
  qed (simp add: row)
qed simp

fun raw_cell :: "cell \<Rightarrow> str" where
  "raw_cell (Text s) = escape_sql s"
| "raw_cell c = show_cell c"

lemma tuple_neutral:
  assumes "list_all neutral a"
  shows "tuple_loop (a @ r) cur False False vals = tuple_loop r (cur @ a) False False vals"
  using assms by (induction a arbitrary: cur) (auto simp: neutral_def)

lemma tuple_cell: "tuple_loop (show_cell c @ r) cur False False vals = tuple_loop r (cur @ raw_cell c) False False vals"
proof (cases c)
  case (Text s)
  then show ?thesis using tuple_literal [of s r cur vals] by simp
qed (use tuple_neutral [OF cell_neutral [of c]] in simp_all)

lemma digits_solid: "list_all solid (show_nat n)"
  using show_nat_digits [of n] by (auto simp: list_all_iff solid_def is_ascii_digit_def)

lemma trim_raw [simp]: "trim ''NULL'' = ''NULL''" "trim (show_nat n) = show_nat n"
proof -
  have "solid (hd (show_nat n))" "solid (last (show_nat n))"
    using digits_solid [of n] by (simp_all add: list_all_iff)
  then show "trim (show_nat n) = show_nat n" by (simp add: trim_solid)
qed (simp add: trim_solid solid_def byte_of_def)

lemma read_cells:
  assumes "row \<noteq> []"
  shows "tuple_loop (join_with '','' (map show_cell row)) [] False False vals = vals @ map (\<lambda>c. trim (raw_cell c)) row"
  using assms
proof (induction row arbitrary: vals)
  case (Cons c row)
  show ?case
  proof (cases "row = []")
    case False
    then have "join_with '','' (map show_cell (c # row)) = show_cell c @ '','' @ join_with '','' (map show_cell row)"
      by (cases row) simp_all
    then show ?thesis using Cons False by (simp add: tuple_cell)
  qed (use tuple_cell [of c "[]" "[]" vals] in simp)
qed simp

section \<open>Whole dumps\<close>

definition ascii_upper :: "char \<Rightarrow> char" where
  "ascii_upper c = (if 97 \<le> byte_of c \<and> byte_of c \<le> 122 then char_of (byte_of c - 32) else c)"

text \<open>What is relied on of \<open>str::to_uppercase\<close>: it goes character by character and is the ASCII one on ASCII.\<close>

definition upper_law :: "(str \<Rightarrow> str) \<Rightarrow> bool" where
  "upper_law up \<longleftrightarrow> (\<forall>a b. list_all is_ascii a \<longrightarrow> (\<exists>c. up (a @ b) = map ascii_upper a @ c))"

definition imported_tables :: "str list" where
  "imported_tables = [''guacamole_connection'', ''guacamole_connection_parameter'', ''guacamole_connection_group'']"

definition insert_head :: "str \<Rightarrow> str" where
  "insert_head table = ''INSERT INTO '' @ [tick_char] @ table @ [tick_char] @ '' VALUES''"

lemma insert_statement_head:
  "insert_statement lay table rows = insert_head table @ gap lay @ join_with (between lay) (map show_row rows)"
  by (simp add: insert_statement_def insert_head_def)

lemma head_facts:
  assumes "table \<in> set imported_tables"
  shows "list_all neutral table \<and> list_all is_ascii (insert_head table) \<and>
    find_text ''VALUES'' (map ascii_upper (insert_head table)) = Some (length (insert_head table) - 6) \<and>
    contains ''INSERT INTO'' (map ascii_upper (insert_head table)) \<and> contains ([tick_char] @ table @ [tick_char]) (insert_head table) \<and>
    6 \<le> length (insert_head table)"
proof -
  have "list_all (\<lambda>table. list_all neutral table \<and> list_all is_ascii (insert_head table) \<and>
    find_text ''VALUES'' (map ascii_upper (insert_head table)) = Some (length (insert_head table) - 6) \<and>
    contains ''INSERT INTO'' (map ascii_upper (insert_head table)) \<and> contains ([tick_char] @ table @ [tick_char]) (insert_head table) \<and>
    6 \<le> length (insert_head table)) imported_tables" by code_simp
  then show ?thesis using assms by (simp add: list_all_iff)
qed

lemma find_text_bound: "find_text p s = Some i \<Longrightarrow> i + length p \<le> length s"
  by (induction p s arbitrary: i rule: find_text.induct) (auto split: if_splits dest: arg_cong [where f = length])

lemma take_match: "take (length p) xs = p \<Longrightarrow> take (length p) (xs @ b) = p"
  by (metis append_take_drop_id append.assoc append_eq_conv_conj)

lemma find_text_append: "find_text p a = Some i \<Longrightarrow> find_text p (a @ b) = Some i"
proof (induction p a arbitrary: i rule: find_text.induct)
  case (1 p)
  then show ?case by (cases b) (auto split: if_splits)
next
  case (2 p c s)
  show ?case
  proof (cases "take (length p) (c # s) = p")
    case True
    then show ?thesis using 2 take_match [OF True, of b] by simp
  next
    case False
    then obtain k where k: "find_text p s = Some k" "i = Suc k" using 2 by auto
    then have "length p \<le> length s" using find_text_bound [OF k(1)] by simp
    then have "take (length p) (c # s @ b) = take (length p) (c # s)" by (cases "length p") simp_all
    then show ?thesis using 2 False k by simp
  qed
qed

lemma extract_dump:
  assumes "upper_law up" "table \<in> set imported_tables"
  shows "extract_tuples up (insert_statement lay table rows) = Some (map (\<lambda>row. join_with '','' (map show_cell row)) rows)"
proof -
  note h = head_facts [OF assms(2)]
  let ?rest = "gap lay @ join_with (between lay) (map show_row rows)"
  obtain c where "up (insert_head table @ ?rest) = map ascii_upper (insert_head table) @ c"
    using assms(1) h unfolding upper_law_def by blast
  then have "find_text ''VALUES'' (up (insert_statement lay table rows)) = Some (length (insert_head table) - 6)"
    using h find_text_append by (simp add: insert_statement_head)
  moreover have "slice_from (length (insert_head table)) (insert_statement lay table rows) = Some ?rest"
    by (cases lay) (simp_all add: slice_from_def insert_statement_head nth_append byte_of_def)
  moreover have "foldl tuple_step scan_start (gap lay) = scan_start"
    using scan_neutral [of scan_start "gap lay"] by (cases lay) (simp_all add: scan_start_def)
  ultimately show ?thesis using h scan_rows [of scan_start lay rows] by (simp add: extract_tuples_def) (simp add: scan_start_def)
qed

lemma contains_append: "contains p a \<Longrightarrow> contains p (a @ b)"
proof (induction p a rule: contains.induct)
  case (1 p)
  then show ?case by (cases b) auto
next
  case (2 p c cs)
  show ?case
  proof (cases "take (length p) (c # cs) = p")
    case True
    then show ?thesis using take_match [OF True, of b] by simp
  qed (use 2 in auto)
qed

lemma matches_own:
  assumes "upper_law up" "table \<in> set imported_tables"
  shows "matches_insert up (insert_statement lay table rows) table"
proof -
  note h = head_facts [OF assms(2)]
  let ?rest = "gap lay @ join_with (between lay) (map show_row rows)"
  obtain c where "up (insert_head table @ ?rest) = map ascii_upper (insert_head table) @ c"
    using assms(1) h unfolding upper_law_def by blast
  then have "contains ''INSERT INTO'' (up (insert_statement lay table rows))" using h contains_append by (simp add: insert_statement_head)
  moreover have "contains ([tick_char] @ table @ [tick_char]) (insert_statement lay table rows)"
    using h contains_append unfolding insert_statement_head by blast
  ultimately show ?thesis by (simp add: matches_insert_def)
qed

text \<open>
  A dump as mysqldump writes it: remarks, block comments with their semicolon, blank lines, other
  statements (\<open>DROP TABLE\<close>, \<open>CREATE TABLE\<close>, \<open>LOCK TABLES\<close>, inserts into other tables) made of words, quoted
  names and literals, and the rows of the three tables in any number of statements and in any order. The rows of connections and
  groups have further columns after those that are imported (connection limits, weights, the
  type of a group), as many as the release of the schema has.
\<close>

datatype token = Word str | Ident str | Lit str

datatype piece = Blank | Remark str | Block str | Other "token list"
  | Connections layout "(connection \<times> cell list) list" | Parameters layout "(int \<times> str \<times> str) list"
  | Groups layout "(group \<times> cell list) list"

definition id_cell :: "int option \<Rightarrow> cell" where
  "id_cell i = (case i of None \<Rightarrow> Null | Some i \<Rightarrow> Num (nat i))"

definition connection_cells :: "connection \<times> cell list \<Rightarrow> cell list" where
  "connection_cells = (\<lambda>(c, further).
     [id_cell (Some (cn_id c)), Text (cn_name c), id_cell (cn_parent_id c), Text (cn_protocol c)] @ further)"

definition parameter_cells :: "int \<times> str \<times> str \<Rightarrow> cell list" where
  "parameter_cells p = [id_cell (Some (fst p)), Text (fst (snd p)), Text (snd (snd p))]"

definition group_cells :: "group \<times> cell list \<Rightarrow> cell list" where
  "group_cells = (\<lambda>(g, further). [id_cell (Some (gr_id g)), id_cell (gr_parent_id g), Text (gr_name g)] @ further)"

fun show_token :: "token \<Rightarrow> str" where
  "show_token (Word s) = s"
| "show_token (Ident s) = [tick_char] @ s @ [tick_char]"
| "show_token (Lit s) = show_cell (Text s)"

text \<open>The statement of a piece, without its semicolon, if it is one.\<close>

fun piece_text :: "piece \<Rightarrow> str option" where
  "piece_text (Other ts) = Some (concat (map show_token ts))"
| "piece_text (Connections lay rows) = Some (insert_statement lay ''guacamole_connection'' (map connection_cells rows))"
| "piece_text (Parameters lay rows) = Some (insert_statement lay ''guacamole_connection_parameter'' (map parameter_cells rows))"
| "piece_text (Groups lay rows) = Some (insert_statement lay ''guacamole_connection_group'' (map group_cells rows))"
| "piece_text _ = None"

definition show_piece :: "piece \<Rightarrow> str" where
  "show_piece p = (case piece_text p of
     Some s \<Rightarrow> s @ '';'' @ [newline]
   | None \<Rightarrow> (case p of
       Remark s \<Rightarrow> ''--'' @ s @ [newline]
     | Block s \<Rightarrow> ''/*'' @ s @ ''*/;'' @ [newline]
     | _ \<Rightarrow> [newline]))"

definition dump :: "piece list \<Rightarrow> str" where
  "dump pieces = concat (map show_piece pieces)"

definition connections_in :: "piece list \<Rightarrow> connection list" where
  "connections_in pieces = concat (map (\<lambda>p. case p of Connections _ rows \<Rightarrow> map fst rows | _ \<Rightarrow> []) pieces)"

definition parameters_in :: "piece list \<Rightarrow> (int \<times> str \<times> str) list" where
  "parameters_in pieces = concat (map (\<lambda>p. case p of Parameters _ rows \<Rightarrow> rows | _ \<Rightarrow> []) pieces)"

definition groups_in :: "piece list \<Rightarrow> group list" where
  "groups_in pieces = concat (map (\<lambda>p. case p of Groups _ rows \<Rightarrow> map fst rows | _ \<Rightarrow> []) pieces)"

definition id_ok :: "int \<Rightarrow> bool" where
  "id_ok i \<longleftrightarrow> 0 \<le> i \<and> i < 2 ^ 63"

definition parent_ok :: "int option \<Rightarrow> bool" where
  "parent_ok i = (case i of None \<Rightarrow> True | Some i \<Rightarrow> id_ok i)"

fun token_ok :: "token \<Rightarrow> bool" where
  "token_ok (Word s) = list_all (\<lambda>c. c \<notin> {CHR ''#'', CHR ''-'', CHR ''/'', CHR '';'', quote_char, tick_char}) s"
| "token_ok (Ident s) \<longleftrightarrow> tick_char \<notin> set s"
| "token_ok (Lit s) \<longleftrightarrow> True"

fun piece_ok :: "piece \<Rightarrow> bool" where
  "piece_ok Blank \<longleftrightarrow> True"
| "piece_ok (Remark s) \<longleftrightarrow> newline \<notin> set s \<and> (s = [] \<or> hd s = CHR '' '')"
| "piece_ok (Block s) \<longleftrightarrow> \<not> contains ''*/'' s"
| "piece_ok (Other ts) \<longleftrightarrow> list_all token_ok ts \<and> trim (concat (map show_token ts)) \<noteq> []"
| "piece_ok (Connections lay rows) \<longleftrightarrow> rows \<noteq> [] \<and>
     list_all (\<lambda>(c, further). id_ok (cn_id c) \<and> parent_ok (cn_parent_id c) \<and> text_ok (cn_name c) \<and> text_ok (cn_protocol c)) rows"
| "piece_ok (Parameters lay rows) \<longleftrightarrow> rows \<noteq> [] \<and>
     list_all (\<lambda>p. id_ok (fst p) \<and> text_ok (fst (snd p)) \<and> text_ok (snd (snd p))) rows"
| "piece_ok (Groups lay rows) \<longleftrightarrow> rows \<noteq> [] \<and>
     list_all (\<lambda>(g, further). id_ok (gr_id g) \<and> parent_ok (gr_parent_id g) \<and> text_ok (gr_name g)) rows"

text \<open>
  The table a piece fills, and that no statement looks like one for another table: a text in a row
  that holds the name of another imported table in backticks or between spaces would make it so.
\<close>

fun own_table :: "piece \<Rightarrow> str option" where
  "own_table (Connections _ _) = Some ''guacamole_connection''"
| "own_table (Parameters _ _) = Some ''guacamole_connection_parameter''"
| "own_table (Groups _ _) = Some ''guacamole_connection_group''"
| "own_table _ = None"

definition unambiguous :: "(str \<Rightarrow> str) \<Rightarrow> piece list \<Rightarrow> bool" where
  "unambiguous up pieces \<longleftrightarrow> list_all (\<lambda>p. list_all (\<lambda>other. own_table p = Some other \<or>
     (case piece_text p of None \<Rightarrow> True | Some s \<Rightarrow> \<not> matches_insert up (trim s) other)) imported_tables) pieces"

lemma trim_newlines: "set a \<subseteq> {newline} \<Longrightarrow> trim (a @ s) = trim s"
proof (induction a)
  case (Cons c a)
  have "List.find (\<lambda>p. p \<noteq> [] \<and> take (length p) (newline # s) = p) white_spaces = Some [newline]" for s
    by (simp add: white_spaces_def)
  then have "strip_all white_spaces (newline # s) = strip_all white_spaces s" for s by (subst strip_all.simps) simp
  then show ?case using Cons by (simp add: trim_def)
qed simp

lemma statement_solid:
  assumes "rows \<noteq> []"
  shows "trim (insert_statement lay table rows) = insert_statement lay table rows"
proof -
  have "last (join_with sep (map show_row rows)) = CHR '')''" for sep
    using assms
  proof (induction rows)
    case (Cons r rs)
    have "show_row x \<noteq> []" "last (show_row x) = CHR '')''" for x by (simp_all add: show_row_def)
    moreover have "join_with sep (map show_row rs) \<noteq> []" if "rs \<noteq> []"
      using that by (cases rs; cases "tl rs") (auto simp: show_row_def)
    ultimately show ?case using Cons by (cases rs) auto
  qed simp
  moreover have "join_with sep (map show_row rows) \<noteq> []" for sep
    using assms by (cases rows; cases "tl rows") (auto simp: show_row_def)
  ultimately show ?thesis by (intro trim_solid) (simp add: insert_statement_def solid_def byte_of_def)
qed

text \<open>What the statement scanner does with each kind of piece.\<close>

lemma split_remark:
  assumes "newline \<notin> set s" "s = [] \<or> hd s = CHR '' ''"
  shows "statement_loop Plain (''--'' @ s @ [newline] @ r) cur out = statement_loop Plain r (cur @ [newline]) out"
proof -
  have "skip_line (CHR ''-'' # s @ newline # r) = newline # r"
    using assms(1) by (induction s) (auto simp: skip_line_def)
  moreover have "dash_comment (''--'' @ s @ newline # r)" using assms(2) by (cases s) (simp_all add: dash_comment_def)
  ultimately show ?thesis using split_neutral [of "[newline]" r cur out] by simp
qed

lemma skip_block_text: "\<not> contains ''*/'' s \<Longrightarrow> skip_block (s @ ''*/'' @ r) = r"
proof (induction s)
  case (Cons c s)
  then show ?case by (cases s) auto
qed simp

lemma split_block:
  assumes "\<not> contains ''*/'' s" "trim cur = []"
  shows "statement_loop Plain (''/*'' @ s @ ''*/;'' @ [newline] @ r) cur out = statement_loop Plain r [newline] out"
proof -
  have "statement_loop Plain (''/*'' @ s @ ''*/;'' @ [newline] @ r) cur out = statement_loop Plain ('';'' @ [newline] @ r) cur out"
    using skip_block_text [OF assms(1), of "'';'' @ [newline] @ r"] by (simp add: dash_comment_def block_comment_def)
  also have "\<dots> = statement_loop Plain ([newline] @ r) [] out"
    using assms(2) by (simp add: dash_comment_def block_comment_def end_statement_def)
  also have "\<dots> = statement_loop Plain r [newline] out" using split_neutral [of "[newline]" r "[]" out] by simp
  finally show ?thesis .
qed

lemma split_end:
  assumes "passes s" "trim (cur @ s) \<noteq> []"
  shows "statement_loop Plain (s @ '';'' @ [newline] @ r) cur out = statement_loop Plain r [newline] (out @ [cur @ s])"
proof -
  have "statement_loop Plain (s @ '';'' @ [newline] @ r) cur out = statement_loop Plain ('';'' @ [newline] @ r) (cur @ s) out"
    using assms(1) by (simp add: passes_def)
  also have "\<dots> = statement_loop Plain ([newline] @ r) [] (out @ [cur @ s])"
    using assms(2) by (simp add: dash_comment_def block_comment_def end_statement_def)
  also have "\<dots> = statement_loop Plain r [newline] (out @ [cur @ s])" using split_neutral [of "[newline]" r "[]"] by simp
  finally show ?thesis .
qed

lemma table_neutral: "table \<in> set imported_tables \<Longrightarrow> list_all neutral table"
  using head_facts by blast

lemma tables_imported [simp]:
  "''guacamole_connection'' \<in> set imported_tables" "''guacamole_connection_parameter'' \<in> set imported_tables"
  "''guacamole_connection_group'' \<in> set imported_tables"
  by (simp_all add: imported_tables_def)

lemma passes_token: "token_ok t \<Longrightarrow> passes (show_token t)"
proof (cases t)
  case (Lit s)
  have "passes (show_cell (Text s))" using split_cell unfolding passes_def by blast
  then show ?thesis using Lit by simp
qed (use passes_plain passes_ident in auto)

lemma passes_tokens: "list_all token_ok ts \<Longrightarrow> passes (concat (map show_token ts))"
  by (induction ts) (simp_all add: passes_token, simp add: passes_def)

lemma insert_passes:
  assumes "table \<in> set imported_tables" "rows \<noteq> []"
  shows "passes (insert_statement lay table rows) \<and> trim (insert_statement lay table rows) \<noteq> []"
  using assms statement_solid [of rows lay table] passes_statement [OF table_neutral] by (simp add: insert_statement_def)

lemma piece_statement:
  assumes "piece_ok p" "piece_text p = Some s"
  shows "passes s \<and> trim s \<noteq> []"
  using assms insert_passes passes_tokens by (cases p) auto

lemma split_piece:
  assumes "piece_ok p" "set cur \<subseteq> {newline}"
  shows "\<exists>cur'. set cur' \<subseteq> {newline} \<and> statement_loop Plain (show_piece p @ r) cur out =
    statement_loop Plain r cur' (out @ (case piece_text p of None \<Rightarrow> [] | Some s \<Rightarrow> [cur @ s]))"
proof (cases "piece_text p")
  case None
  have "trim [] = []" by code_simp
  then have trim: "trim cur = []" using trim_newlines [OF assms(2), of "[]"] by simp
  show ?thesis
  proof (cases p)
    case Blank
    then show ?thesis using None assms(2) split_neutral [of "[newline]" r cur out]
      by (intro exI [of _ "cur @ [newline]"]) (simp add: show_piece_def)
  next
    case (Remark s)
    then show ?thesis using None assms split_remark [of s r cur out]
      by (intro exI [of _ "cur @ [newline]"]) (simp add: show_piece_def)
  next
    case (Block s)
    then show ?thesis using None assms(1) split_block [OF _ trim, of s r out]
      by (intro exI [of _ "[newline]"]) (simp add: show_piece_def)
  qed (use None in simp_all)
next
  case (Some s)
  then have "passes s" "trim (cur @ s) \<noteq> []" using piece_statement [OF assms(1)] trim_newlines [OF assms(2)] by simp_all
  then show ?thesis using Some split_end [of s cur r out] by (intro exI [of _ "[newline]"]) (simp add: show_piece_def)
qed

definition texts :: "piece list \<Rightarrow> str list" where
  "texts pieces = map trim (List.map_filter piece_text pieces)"

lemma split_dump_from:
  assumes "list_all piece_ok pieces" "set cur \<subseteq> {newline}"
  shows "map trim (statement_loop Plain (dump pieces) cur out) = map trim out @ texts pieces"
  using assms
proof (induction pieces arbitrary: cur out)
  case Nil
  have "trim [] = []" by code_simp
  then show ?case using trim_newlines [OF Nil(2), of "[]"] by (simp add: dump_def end_statement_def texts_def List.map_filter_simps)
next
  case (Cons p pieces)
  obtain cur' where cur': "set cur' \<subseteq> {newline}" "statement_loop Plain (show_piece p @ dump pieces) cur out =
      statement_loop Plain (dump pieces) cur' (out @ (case piece_text p of None \<Rightarrow> [] | Some s \<Rightarrow> [cur @ s]))"
    using split_piece [of p cur "dump pieces" out] Cons.prems by auto
  have "statement_loop Plain (dump (p # pieces)) cur out =
      statement_loop Plain (dump pieces) cur' (out @ (case piece_text p of None \<Rightarrow> [] | Some s \<Rightarrow> [cur @ s]))"
    using cur'(2) by (simp add: dump_def)
  then show ?case using Cons.IH [OF _ cur'(1)] Cons.prems trim_newlines [OF Cons.prems(2)]
    by (simp add: texts_def List.map_filter_simps split: option.split)
qed

lemma split_dump: "list_all piece_ok pieces \<Longrightarrow> map trim (split_statements (dump pieces)) = texts pieces"
  using split_dump_from [of pieces "[]" "[]"] by (simp add: split_statements_def)

section \<open>Reading the tables back\<close>

lemma parse_id:
  assumes "id_ok i"
  shows "parse_i64 (show_nat (nat i)) = Some i" "parse_nullable_int (show_nat (nat i)) = Some i"
proof -
  have "list_all is_ascii_digit (show_nat (nat i))" by simp
  then have c: "is_ascii_digit (hd (show_nat (nat i)))" by (simp add: list_all_iff)
  obtain a l where s: "show_nat (nat i) = a # l" by (cases "show_nat (nat i)") auto
  have "a \<noteq> CHR ''-''" "a \<noteq> CHR ''+''" using c s by auto
  moreover have "parse_digits (a # l) = Some (nat i)" using parse_digits_show_nat [of "nat i"] s by simp
  moreover have "nat i < 2 ^ 63" using assms by (simp add: id_ok_def nat_less_iff)
  ultimately show p: "parse_i64 (show_nat (nat i)) = Some i" using assms by (simp add: parse_signed_def s id_ok_def)
  have "to_ascii_lowercase (show_nat (nat i)) \<noteq> to_ascii_lowercase ''NULL''"
    using c by (cases "show_nat (nat i)") (auto simp: to_ascii_lowercase_def ascii_lower_def is_ascii_digit_def byte_of_def split: if_splits)
  then show "parse_nullable_int (show_nat (nat i)) = Some i" using p by (simp add: parse_nullable_int_def eq_ignore_ascii_case_def)
qed

text \<open>What a row reader gets to see of a row that was written.\<close>

abbreviation cells_seen :: "cell list \<Rightarrow> str list" where
  "cells_seen \<equiv> map (\<lambda>c. trim (raw_cell c))"

lemma seen_id [simp]: "trim (raw_cell (id_cell i)) = (case i of None \<Rightarrow> ''NULL'' | Some i \<Rightarrow> show_nat (nat i))"
  by (simp add: id_cell_def split: option.split)

lemma seen_text: "text_ok s \<Longrightarrow> unescape_sql (trim (escape_sql s)) = s"
  by (simp add: text_ok_def unescape_sql_escape)

lemma seen_parent: "parent_ok i \<Longrightarrow> parse_nullable_int (case i of None \<Rightarrow> ''NULL'' | Some i \<Rightarrow> show_nat (nat i)) = i"
  by (simp add: parent_ok_def parse_id parse_nullable_int_def [of "''NULL''"] eq_ignore_ascii_case_def split: option.splits)

lemma read_connection:
  assumes "id_ok (cn_id c)" "parent_ok (cn_parent_id c)" "text_ok (cn_name c)" "text_ok (cn_protocol c)"
  shows "connection_row (cells_seen (connection_cells (c, further))) = Some c"
  using assms by (simp add: connection_row_def connection_cells_def parse_id seen_parent seen_text)

lemma read_parameter:
  "id_ok (fst p) \<Longrightarrow> text_ok (fst (snd p)) \<Longrightarrow> text_ok (snd (snd p)) \<Longrightarrow> parameter_row (cells_seen (parameter_cells p)) = Some p"
  by (simp add: parameter_row_def parameter_cells_def parse_id seen_text)

lemma read_group:
  assumes "id_ok (gr_id g)" "parent_ok (gr_parent_id g)" "text_ok (gr_name g)"
  shows "group_row (cells_seen (group_cells (g, further))) = Some g"
  using assms by (simp add: group_row_def group_cells_def parse_id seen_parent seen_text)

text \<open>What is read from one statement, and from all of them.\<close>

definition read_text :: "(str \<Rightarrow> str) \<Rightarrow> (str \<Rightarrow> bool) \<Rightarrow> (str list \<Rightarrow> 'a option) \<Rightarrow> str \<Rightarrow> 'a list option" where
  "read_text up ok row t =
     (if ok t then map_option (List.map_filter (\<lambda>t. row (parse_tuple t))) (extract_tuples up t) else Some [])"

lemma read_insert:
  assumes "upper_law up" "table \<in> set imported_tables" "ok (insert_statement lay table (map cells rows))"
    and "\<forall>r\<in>set rows. cells r \<noteq> [] \<and> row (cells_seen (cells r)) = Some (f r)"
  shows "read_text up ok row (insert_statement lay table (map cells rows)) = Some (map f rows)"
proof -
  have "row (parse_tuple (join_with '','' (map show_cell (cells r)))) = Some (f r)" if "r \<in> set rows" for r
    using assms(4) that read_cells [of "cells r" "[]"] by (simp add: parse_tuple_def)
  then have "List.map_filter (\<lambda>t. row (parse_tuple t)) (map (\<lambda>r. join_with '','' (map show_cell (cells r))) rows) = map f rows"
    by (induction rows) (simp_all add: List.map_filter_simps)
  then show ?thesis using assms(3) extract_dump [OF assms(1,2)] by (simp add: read_text_def comp_def)
qed

lemma read_rows_pieces:
  assumes "map trim stmts = texts pieces"
    and "\<forall>p\<in>set pieces. case piece_text p of None \<Rightarrow> got p = [] | Some t \<Rightarrow> read_text up ok row (trim t) = Some (got p)"
  shows "read_rows up ok row stmts = Some (concat (map got pieces))"
  using assms
proof (induction pieces arbitrary: stmts)
  case Nil
  then show ?case by (simp add: texts_def List.map_filter_simps)
next
  case (Cons p pieces)
  show ?case
  proof (cases "piece_text p")
    case None
    then show ?thesis using Cons by (simp add: texts_def List.map_filter_simps)
  next
    case (Some t)
    then obtain stmt rest where s: "stmts = stmt # rest" "trim stmt = trim t" "map trim rest = texts pieces"
      using Cons.prems(1) by (auto simp: texts_def List.map_filter_simps map_eq_Cons_conv)
    then have "read_rows up ok row rest = Some (concat (map got pieces))" using Cons by simp
    then show ?thesis using Cons.prems(2) Some s(1,2)
      by (auto simp: read_text_def Let_def split: if_splits)
  qed
qed

text \<open>The parameters a connection has among the rows.\<close>

definition parameters_of :: "(int \<times> str \<times> str) list \<Rightarrow> (int \<rightharpoonup> (str \<times> str) list)" where
  "parameters_of params i =
     (let own = map snd (filter (\<lambda>p. fst p = i) params) in if own = [] then None else Some own)"

lemma push_parameters: "foldl push_parameter Map.empty params = parameters_of params"
proof (induction params rule: rev_induct)
  case (snoc p params)
  obtain i v where p: "p = (i, v)" by (cases p)
  show ?case unfolding foldl_append snoc p
    by (rule ext) (simp add: push_parameter_def parameters_of_def Let_def)
qed (simp add: parameters_of_def fun_eq_iff)

lemma matches_piece:
  assumes "upper_law up" "unambiguous up pieces" "p \<in> set pieces" "piece_ok p" "piece_text p = Some t" "other \<in> set imported_tables"
  shows "matches_insert up (trim t) other \<longleftrightarrow> own_table p = Some other"
proof -
  have "matches_insert up (trim t) other" if "own_table p = Some other"
    using that assms(4,5) matches_own [OF assms(1)] by (cases p) (auto simp: statement_solid)
  then show ?thesis using assms(2,3,5,6) by (fastforce simp: unambiguous_def list_all_iff)
qed

lemma dump_connections:
  assumes "upper_law up" "list_all piece_ok pieces" "unambiguous up pieces"
  shows "read_rows up (\<lambda>t. matches_insert up t ''guacamole_connection'' \<and> \<not> matches_insert up t ''guacamole_connection_parameter'' \<and> \<not> matches_insert up t ''guacamole_connection_group'') connection_row (split_statements (dump pieces)) =
    Some (connections_in pieces)"
  unfolding connections_in_def
proof (intro read_rows_pieces [OF split_dump [OF assms(2)]] ballI)
  fix p assume p: "p \<in> set pieces"
  with assms(2) have ok: "piece_ok p" by (simp add: list_all_iff)
  note own = matches_piece [OF assms(1,3) p ok]
  show "case piece_text p of None \<Rightarrow> (case p of Connections _ rows \<Rightarrow> map fst rows | _ \<Rightarrow> []) = []
    | Some t \<Rightarrow> read_text up (\<lambda>t. matches_insert up t ''guacamole_connection'' \<and> \<not> matches_insert up t ''guacamole_connection_parameter'' \<and> \<not> matches_insert up t ''guacamole_connection_group'') connection_row (trim t) =
        Some (case p of Connections _ rows \<Rightarrow> map fst rows | _ \<Rightarrow> [])"
  proof (cases p)
    case (Connections lay rows)
    let ?t = "insert_statement lay ''guacamole_connection'' (map connection_cells rows)"
    have "trim ?t = ?t" using ok Connections by (simp add: statement_solid)
    then show ?thesis
      using own [of ?t] ok Connections
      by (auto simp: list_all_iff connection_cells_def intro!: read_insert [OF assms(1)] read_connection [unfolded connection_cells_def, simplified])
  qed (use own in \<open>auto simp: read_text_def\<close>)
qed

lemma dump_parameters:
  assumes "upper_law up" "list_all piece_ok pieces" "unambiguous up pieces"
  shows "read_rows up (\<lambda>t. matches_insert up t ''guacamole_connection_parameter'') parameter_row (split_statements (dump pieces)) =
    Some (parameters_in pieces)"
  unfolding parameters_in_def
proof (intro read_rows_pieces [OF split_dump [OF assms(2)]] ballI)
  fix p assume p: "p \<in> set pieces"
  with assms(2) have ok: "piece_ok p" by (simp add: list_all_iff)
  note own = matches_piece [OF assms(1,3) p ok]
  show "case piece_text p of None \<Rightarrow> (case p of Parameters _ rows \<Rightarrow> rows | _ \<Rightarrow> []) = []
    | Some t \<Rightarrow> read_text up (\<lambda>t. matches_insert up t ''guacamole_connection_parameter'') parameter_row (trim t) =
        Some (case p of Parameters _ rows \<Rightarrow> rows | _ \<Rightarrow> [])"
  proof (cases p)
    case (Parameters lay rows)
    let ?t = "insert_statement lay ''guacamole_connection_parameter'' (map parameter_cells rows)"
    have "trim ?t = ?t" using ok Parameters by (simp add: statement_solid)
    then show ?thesis
      using own [of ?t] ok Parameters
      by (auto simp: list_all_iff read_parameter intro!: read_insert [OF assms(1), where f = id, simplified]) (simp add: parameter_cells_def)
  qed (use own in \<open>auto simp: read_text_def\<close>)
qed

lemma dump_groups:
  assumes "upper_law up" "list_all piece_ok pieces" "unambiguous up pieces"
  shows "read_rows up (\<lambda>t. matches_insert up t ''guacamole_connection_group'') group_row (split_statements (dump pieces)) =
    Some (groups_in pieces)"
  unfolding groups_in_def
proof (intro read_rows_pieces [OF split_dump [OF assms(2)]] ballI)
  fix p assume p: "p \<in> set pieces"
  with assms(2) have ok: "piece_ok p" by (simp add: list_all_iff)
  note own = matches_piece [OF assms(1,3) p ok]
  show "case piece_text p of None \<Rightarrow> (case p of Groups _ rows \<Rightarrow> map fst rows | _ \<Rightarrow> []) = []
    | Some t \<Rightarrow> read_text up (\<lambda>t. matches_insert up t ''guacamole_connection_group'') group_row (trim t) =
        Some (case p of Groups _ rows \<Rightarrow> map fst rows | _ \<Rightarrow> [])"
  proof (cases p)
    case (Groups lay rows)
    let ?t = "insert_statement lay ''guacamole_connection_group'' (map group_cells rows)"
    have "trim ?t = ?t" using ok Groups by (simp add: statement_solid)
    then show ?thesis
      using own [of ?t] ok Groups
      by (auto simp: list_all_iff group_cells_def intro!: read_insert [OF assms(1)] read_group [unfolded group_cells_def, simplified])
  qed (use own in \<open>auto simp: read_text_def\<close>)
qed

lemma dump_read:
  assumes "upper_law up" and "list_all piece_ok pieces" and "unambiguous up pieces"
  shows "parse_connections up (dump pieces) = Some (connections_in pieces) \<and>
    parse_parameters up (dump pieces) = Some (parameters_of (parameters_in pieces)) \<and>
    parse_groups up (dump pieces) = Some (groups_in pieces)"
  using dump_connections [OF assms] dump_parameters [OF assms] dump_groups [OF assms]
  by (simp add: parse_connections_def parse_parameters_def parse_groups_def push_parameters)

text \<open>
  C23: A dump is read back. From a dump with remarks, block comments and other statements around the
  inserts, with the rows of a table in any number of statements and any further columns after
  the imported ones, exactly the connections, parameters and groups that were written are read,
  in order, each connection with its own parameters, whatever quotes, backslashes, brackets, commas,
  semicolons or comment signs their texts hold. Provided: no imported text begins or ends with white space
  or holds a Control-Z, and no statement looks like one for another imported table.
\<close>

theorem import_reads_dump:
  assumes "upper_law up" and "list_all piece_ok pieces" and "unambiguous up pieces"
  shows "parse_connections up (dump pieces) = Some (connections_in pieces) \<and>
    parse_parameters up (dump pieces) = Some (parameters_of (parameters_in pieces)) \<and>
    parse_groups up (dump pieces) = Some (groups_in pieces)"
  using dump_read [OF assms] .

section \<open>Witnesses\<close>

definition demo_conns :: "connection list" where
  "demo_conns = [\<lparr>cn_id = 1, cn_name = [quote_char, CHR '';''], cn_parent_id = Some 7, cn_protocol = ''ssh''\<rparr>]"

definition demo_params :: "(int \<times> str \<times> str) list" where
  "demo_params = [(1, ''port'', ''22'')]"

definition demo_groups :: "group list" where
  "demo_groups = [\<lparr>gr_id = 7, gr_parent_id = None, gr_name = ''('' @ [backslash]\<rparr>]"

text \<open>Eleven columns for a connection and seven for a group, as in the schema.\<close>

definition demo_dump :: "piece list" where
  "demo_dump =
     [Remark '' MySQL dump'', Block ''!40101 SET NAMES utf8 '', Blank,
      Groups Row_lines (map (\<lambda>g. (g, [Text ''ORGANIZATIONAL'', Null, Null, Num 0])) demo_groups),
      Other [Word ''DROP TABLE IF EXISTS '', Ident ''guacamole_connection''],
      Connections One_line (map (\<lambda>c. (c, [Null, Null, Null, Num 0, Null, Null, Null])) demo_conns),
      Parameters Row_lines demo_params, Other [Word ''UNLOCK TABLES'']]"

lemma upper_law_ascii: "upper_law (map ascii_upper)"
  by (simp add: upper_law_def)

text \<open>Searching by comparing character by character, for evaluation.\<close>

lemma contains_strip: "contains p (c # cs) \<longleftrightarrow> strip_prefix p (c # cs) \<noteq> None \<or> contains p cs"
proof -
  have take: "take (length p) s = p \<longleftrightarrow> (\<exists>r. s = p @ r)" for s :: str
  proof
    assume "take (length p) s = p"
    then have "p @ drop (length p) s = s" using append_take_drop_id [of "length p" s] by metis
    then show "\<exists>r. s = p @ r" by (metis)
  qed auto
  have "(strip_prefix p s \<noteq> None) \<longleftrightarrow> (\<exists>r. s = p @ r)" for s
    unfolding not_None_eq strip_prefix_Some by (rule refl)
  with take show ?thesis unfolding contains.simps by presburger
qed

lemma demo_in:
  "connections_in demo_dump = demo_conns" "parameters_in demo_dump = demo_params" "groups_in demo_dump = demo_groups"
  by (simp_all add: connections_in_def parameters_in_def groups_in_def demo_dump_def comp_def)

lemma demo_dumpable: "list_all piece_ok demo_dump"
  by code_simp

text \<open>The statements of the dump, for evaluation.\<close>

definition stated :: "piece list \<Rightarrow> (str option \<times> str) list" where
  "stated pieces = List.map_filter (\<lambda>p. map_option (\<lambda>s. (own_table p, trim s)) (piece_text p)) pieces"

lemma unambiguous_stated:
  "unambiguous up pieces \<longleftrightarrow> list_all (\<lambda>(own, t). list_all (\<lambda>other. own = Some other \<or> \<not> matches_insert up t other) imported_tables) (stated pieces)"
  by (induction pieces) (auto simp: unambiguous_def stated_def List.map_filter_simps list_all_iff split: option.splits)

abbreviation demo_group_line :: str where
  "demo_group_line \<equiv> ''(7,NULL,'' @ [quote_char] @ ''('' @ [backslash, backslash, quote_char] @ '','' @ [quote_char] @ ''ORGANIZATIONAL'' @ [quote_char] @ '',NULL,NULL,0)''"

lemma demo_stated:
  "stated demo_dump =
    [(Some ''guacamole_connection_group'', ''INSERT INTO `guacamole_connection_group` VALUES'' @ [newline] @ demo_group_line),
     (None, ''DROP TABLE IF EXISTS `guacamole_connection`''),
     (Some ''guacamole_connection'', ''INSERT INTO `guacamole_connection` VALUES (1,'' @ [quote_char, backslash, quote_char] @ '';'' @ [quote_char] @ '',7,'' @
        [quote_char] @ ''ssh'' @ [quote_char] @ '',NULL,NULL,NULL,0,NULL,NULL,NULL)''),
     (Some ''guacamole_connection_parameter'', ''INSERT INTO `guacamole_connection_parameter` VALUES'' @ [newline] @ ''(1,'' @ [quote_char] @ ''port'' @ [quote_char] @
        '','' @ [quote_char] @ ''22'' @ [quote_char] @ '')''),
     (None, ''UNLOCK TABLES'')]"
  by code_simp

lemma demo_upper:
  "map ascii_upper (''INSERT INTO `guacamole_connection_group` VALUES'' @ [newline] @ demo_group_line) =
     ''INSERT INTO `GUACAMOLE_CONNECTION_GROUP` VALUES'' @ [newline] @ demo_group_line"
  "map ascii_upper ''DROP TABLE IF EXISTS `guacamole_connection`'' = ''DROP TABLE IF EXISTS `GUACAMOLE_CONNECTION`''"
  "map ascii_upper (''INSERT INTO `guacamole_connection` VALUES (1,'' @ [quote_char, backslash, quote_char] @ '';'' @ [quote_char] @ '',7,'' @
        [quote_char] @ ''ssh'' @ [quote_char] @ '',NULL,NULL,NULL,0,NULL,NULL,NULL)'') =
     ''INSERT INTO `GUACAMOLE_CONNECTION` VALUES (1,'' @ [quote_char, backslash, quote_char] @ '';'' @ [quote_char] @ '',7,'' @
        [quote_char] @ ''SSH'' @ [quote_char] @ '',NULL,NULL,NULL,0,NULL,NULL,NULL)''"
  "map ascii_upper (''INSERT INTO `guacamole_connection_parameter` VALUES'' @ [newline] @ ''(1,'' @ [quote_char] @ ''port'' @ [quote_char] @
        '','' @ [quote_char] @ ''22'' @ [quote_char] @ '')'') =
     ''INSERT INTO `GUACAMOLE_CONNECTION_PARAMETER` VALUES'' @ [newline] @ ''(1,'' @ [quote_char] @ ''PORT'' @ [quote_char] @
        '','' @ [quote_char] @ ''22'' @ [quote_char] @ '')''"
  "map ascii_upper ''UNLOCK TABLES'' = ''UNLOCK TABLES''"
  "map ascii_upper ''guacamole_connection_group'' = ''GUACAMOLE_CONNECTION_GROUP''"
  "map ascii_upper ''guacamole_connection'' = ''GUACAMOLE_CONNECTION''"
  "map ascii_upper ''guacamole_connection_parameter'' = ''GUACAMOLE_CONNECTION_PARAMETER''"
  by code_simp+

lemma demo_unambiguous: "unambiguous (map ascii_upper) demo_dump"
  unfolding unambiguous_stated demo_stated imported_tables_def matches_insert_def list.pred_inject prod.case demo_upper
  by (simp add: contains_strip del: contains.simps(2))

theorem import_reads_dump_witness:
  "parse_connections (map ascii_upper) (dump demo_dump) = Some demo_conns"
  using import_reads_dump [OF upper_law_ascii demo_dumpable demo_unambiguous] unfolding demo_in by blast

text \<open>Values are trimmed even inside quotes, and a doubled quote is dropped: two ways to lose part of a password.\<close>

theorem quoted_values_altered:
  "map unescape_sql (parse_tuple ([quote_char] @ '' pw '' @ [quote_char])) = [''pw''] \<and>
   map unescape_sql (parse_tuple ([quote_char] @ ''it'' @ [quote_char, quote_char] @ ''s'' @ [quote_char])) = [''its'']"
  by code_simp

text \<open>
  A connection whose name mentions the group table makes its statement look like one for that
  table, so all its rows are left out of the import.
\<close>

theorem statement_lost_by_name:
  assumes "matches_insert up t ''guacamole_connection_group''" and "split_statements sql = [t]" and "trim t = t"
  shows "parse_connections up sql = Some []"
  using assms by (simp add: parse_connections_def)

end
