(* ===== verification/Import_Plan.thy ===== *)
theory Import_Plan
  imports Sql_Dump Address_Book
begin

text \<open>
  What \<^verbatim>\<open>src/src/import.rs\<close> makes of the rows of a dump: folder paths from the groups, names that
  Vault accepts, the entries, and their distinct names. Shown: the paths of groups that form a
  forest are found (a cycle never ends), names are valid but for the reserved ones, and
  entries keep distinct names under a condition that is needed.
\<close>

section \<open>Credential maps\<close>

definition parse_credential_map :: "str \<Rightarrow> str + str \<times> str" where
  "parse_credential_map m =
     (case split_at_char CHR ''='' m of
        Some (from, to) \<Rightarrow> if from \<noteq> [] then Inr (from, to) else Inl (''--map must be FROM=TO (got '' @ [CHR 0x22] @ m @ [CHR 0x22] @ '')'')
      | None \<Rightarrow> Inl (''--map must be FROM=TO (got '' @ [CHR 0x22] @ m @ [CHR 0x22] @ '')''))"

fun parse_credential_maps :: "str list \<Rightarrow> str + (str \<times> str) list" where
  "parse_credential_maps [] = Inr []"
| "parse_credential_maps (m # ms) =
     (case parse_credential_map m of
        Inl e \<Rightarrow> Inl e
      | Inr p \<Rightarrow> (case parse_credential_maps ms of Inl e \<Rightarrow> Inl e | Inr ps \<Rightarrow> Inr (p # ps)))"

definition apply_credential_maps :: "str \<Rightarrow> (str \<times> str) list \<Rightarrow> str" where
  "apply_credential_maps value maps = foldl (\<lambda>out (from, to). replace_all from to out) value maps"

section \<open>Names\<close>

definition sanitize_name :: "str \<Rightarrow> str" where
  "sanitize_name name =
     (let sanitized = filter (\<lambda>c. c \<noteq> CHR 0x00) (map (\<lambda>c.
            if c = CHR '' '' then CHR ''-''
            else if is_ascii_alphanumeric c \<or> c = CHR ''-'' \<or> c = CHR ''_'' \<or> c = CHR ''.'' then c
            else CHR 0x00) name);
          truncated = (if 64 < length sanitized then take 64 sanitized else sanitized)
      in if truncated = [] then ''unnamed'' else truncated)"

section \<open>Folder paths\<close>

text \<open>
  The recursion has no guard against a cycle of parents: not returning (the stack overflows) is
  \<open>None\<close>. The cache is passed on.
\<close>

partial_function (option) resolve_group_path ::
  "(int \<rightharpoonup> group) \<Rightarrow> int \<Rightarrow> (int \<rightharpoonup> str) \<Rightarrow> (str \<times> (int \<rightharpoonup> str)) option" where
  "resolve_group_path groups i cache =
     (case cache i of
        Some cached \<Rightarrow> Some (cached, cache)
      | None \<Rightarrow>
          (case groups i of
             None \<Rightarrow> Some ([], cache)
           | Some g \<Rightarrow>
               (case filter_opt (\<lambda>pid. groups pid \<noteq> None) (gr_parent_id g) of
                  Some pid \<Rightarrow>
                    Option.bind (resolve_group_path groups pid cache) (\<lambda>(parent_path, cache).
                      let full = (if parent_path = [] then sanitize_name (gr_name g)
                                  else parent_path @ ''/'' @ sanitize_name (gr_name g))
                      in Some (full, cache(i \<mapsto> full)))
                | None \<Rightarrow> Some (sanitize_name (gr_name g), cache(i \<mapsto> sanitize_name (gr_name g))))))"

declare resolve_group_path.simps [code]

fun group_paths_loop :: "(int \<rightharpoonup> group) \<Rightarrow> group list \<Rightarrow> (int \<rightharpoonup> str) \<Rightarrow> (int \<rightharpoonup> str) option" where
  "group_paths_loop group_map [] paths = Some paths"
| "group_paths_loop group_map (g # gs) paths =
     (if paths (gr_id g) \<noteq> None then group_paths_loop group_map gs paths
      else Option.bind (resolve_group_path group_map (gr_id g) paths) (\<lambda>(path, paths).
        group_paths_loop group_map gs (paths(gr_id g \<mapsto> path))))"

text \<open>Collected into a \<open>HashMap\<close>, the last of several groups with one id wins.\<close>

definition group_map_of :: "group list \<Rightarrow> (int \<rightharpoonup> group)" where
  "group_map_of groups = map_of (rev (map (\<lambda>g. (gr_id g, g)) groups))"

definition build_group_paths :: "group list \<Rightarrow> (int \<rightharpoonup> str) option" where
  "build_group_paths groups = group_paths_loop (group_map_of groups) groups Map.empty"

section \<open>Entries\<close>

definition imported_entry :: "(str \<rightharpoonup> str) \<Rightarrow> (str \<times> str) list \<Rightarrow> str \<Rightarrow> str \<Rightarrow> address_book_entry" where
  "imported_entry param_map cred_maps protocol name =
     (let text = (\<lambda>k. param_map k);
          credential = (\<lambda>k. map_option (\<lambda>s. apply_credential_maps s cred_maps) (param_map k));
          flag = (\<lambda>k. map_option (\<lambda>s. eq_ignore_ascii_case s ''true'') (param_map k));
          number = (\<lambda>w k. Option.bind (param_map k) (parse_unsigned w)) in
      \<lparr>ab_session_type = protocol, ab_hostname = text ''hostname'', ab_port = number 16 ''port'',
       ab_username = credential ''username'', ab_password = credential ''password'', ab_private_key = credential ''private-key'',
       ab_url = None, ab_domain = credential ''domain'', ab_security = text ''security'', ab_server_layout = text ''server-layout'',
       ab_ignore_cert = flag ''ignore-cert'', ab_display_name = Some name, ab_enable_drive = flag ''enable-drive'',
       ab_auth_pkg = None, ab_kdc_url = None, ab_prompt_credentials = None, ab_color_depth = number 8 ''color-depth'',
       ab_jump_hosts = None, ab_jump_host = None, ab_jump_port = None, ab_jump_username = None, ab_jump_password = None,
       ab_jump_private_key = None, ab_remote_app = text ''remote-app'', ab_remote_app_dir = text ''remote-app-dir'',
       ab_remote_app_args = text ''remote-app-args'', ab_enable_recording = None, ab_max_recordings = None,
       ab_record_typescript = None, ab_login_script = None, ab_autofill = None, ab_allowed_domains = None, ab_vnc_resize = None,
       ab_vnc_network = None, ab_disable_copy = None, ab_disable_paste = None, ab_banner = None, ab_enable_gfx = None,
       ab_enable_desktop_composition = None, ab_enable_wallpaper = None, ab_enable_theming = None,
       ab_enable_full_window_drag = None, ab_force_lossless = None, ab_enable_h264 = None, ab_h264_chroma444 = None,
       ab_native_resolution = None, ab_container_image = None, ab_container_cpu_limit = None, ab_container_memory_limit = None,
       ab_container_env = None, ab_container_idle_timeout_mins = None, ab_container_username = None, ab_container_password = None,
       ab_allow_sharing = None, ab_auto_open_if_singleton = None, ab_fullscreen_on_connect = None, ab_autohide_side_tabs = None,
       ab_spice_tls = None, ab_spice_tls_port = None, ab_spice_ca_cert = None, ab_spice_cert_subject = None, ab_spice_proxy = None,
       ab_proxmox_url = None, ab_proxmox_node = None, ab_proxmox_vmid = None, ab_proxmox_token_id = None,
       ab_proxmox_token_secret = None, ab_proxmox_verify_tls = None, ab_max_monitors = None,
       ab_ssh_font_size = number 32 ''font-size'', ab_wol_send_packet = flag ''wol-send-packet'',
       ab_wol_mac_addr = text ''wol-mac-addr'', ab_wol_broadcast_addr = text ''wol-broadcast-addr'',
       ab_wol_udp_port = number 16 ''wol-udp-port'', ab_wol_wait_time = number 32 ''wol-wait-time'', ab_external_id = None\<rparr>)"

type_synonym planned = "(str \<times> str) \<times> address_book_entry"

text \<open>One connection: \<open>None\<close> when its protocol is not imported. \<open>low\<close> is \<open>str::to_lowercase\<close>.\<close>

definition plan_connection ::
  "(str \<Rightarrow> str) \<Rightarrow> (str \<times> str) list \<Rightarrow> (int \<rightharpoonup> (str \<times> str) list) \<Rightarrow> (int \<rightharpoonup> str) \<Rightarrow> connection \<Rightarrow> planned option" where
  "plan_connection low cred_maps parameters group_paths conn =
     (let protocol = low (cn_protocol conn) in
      if protocol \<notin> {''ssh'', ''rdp'', ''vnc''} then None
      else
        (let params = (case parameters (cn_id conn) of Some ps \<Rightarrow> ps | None \<Rightarrow> []);
             param_map = map_of (rev params);
             subfolder = or_default (Option.bind (cn_parent_id conn) group_paths)
         in Some ((subfolder, sanitize_name (cn_name conn)), imported_entry param_map cred_maps protocol (cn_name conn))))"

fun dedup_loop :: "planned list \<Rightarrow> (str \<times> str \<Rightarrow> nat) \<Rightarrow> planned list" where
  "dedup_loop [] seen = []"
| "dedup_loop (((subfolder, name), entry) # entries) seen =
     (let n = seen (subfolder, name) + 1;
          suffix = ''-'' @ show_nat n;
          max_base = 64 - length suffix;
          base = (if max_base < length name then take max_base name else name);
          name' = (if 1 < n then base @ suffix else name)
      in ((subfolder, name'), entry) # dedup_loop entries (seen((subfolder, name) := n)))"

definition deduplicate_names :: "planned list \<Rightarrow> planned list" where
  "deduplicate_names entries = dedup_loop entries (\<lambda>_. 0)"

text \<open>What the command is about to write, or why it refuses; \<open>None\<close> is a crash.\<close>

datatype import_refusal = Bad_scope | Bad_map str | No_connections

definition import_plan ::
  "(str \<Rightarrow> str) \<Rightarrow> (str \<Rightarrow> str) \<Rightarrow> str \<Rightarrow> str list \<Rightarrow> str \<Rightarrow> (import_refusal + planned list) option" where
  "import_plan up low scope maps sql =
     (if scope \<noteq> ''shared'' \<and> scope \<noteq> ''instance'' then Some (Inl Bad_scope)
      else
        (case parse_credential_maps maps of
           Inl e \<Rightarrow> Some (Inl (Bad_map e))
         | Inr cred_maps \<Rightarrow>
             Option.bind (parse_connections up sql) (\<lambda>connections.
             Option.bind (parse_parameters up sql) (\<lambda>parameters.
             Option.bind (parse_groups up sql) (\<lambda>groups.
               if connections = [] then Some (Inl No_connections)
               else Option.bind (build_group_paths groups) (\<lambda>group_paths.
                 Some (Inr (deduplicate_names (List.map_filter (plan_connection low cred_maps parameters group_paths) connections)))))))))"

section \<open>Names are accepted\<close>

lemma sanitized_chars: "c \<in> set (sanitize_name name) \<Longrightarrow> name_char c"
proof -
  let ?s = "filter (\<lambda>c. c \<noteq> CHR 0x00) (map (\<lambda>c. if c = CHR '' '' then CHR ''-''
    else if is_ascii_alphanumeric c \<or> c = CHR ''-'' \<or> c = CHR ''_'' \<or> c = CHR ''.'' then c else CHR 0x00) name)"
  have "\<forall>d\<in>set ?s. name_char d" by (auto simp: name_char_def)
  moreover have "\<forall>d\<in>set ''unnamed''. name_char d" by code_simp
  moreover have "sanitize_name name \<in> {''unnamed'', take 64 ?s}" unfolding sanitize_name_def Let_def by simp
  ultimately show "name_char c" if "c \<in> set (sanitize_name name)" using that in_set_takeD [of c 64 ?s] by fastforce
qed

lemma sanitized_length: "sanitize_name name \<noteq> [] \<and> length (sanitize_name name) \<le> 64"
  by (auto simp: sanitize_name_def Let_def)

lemma sanitized_no_slash [simp]: "CHR ''/'' \<notin> set (sanitize_name name)"
  using sanitized_chars [of "CHR ''/''" name] by (auto simp: name_char_def is_ascii_alphanumeric_def byte_of_def)

lemma sanitized_no_backslash [simp]: "CHR 0x5C \<notin> set (sanitize_name name)"
  using sanitized_chars [of "CHR 0x5C" name] by (auto simp: name_char_def is_ascii_alphanumeric_def byte_of_def)

lemma sanitize_name_valid:
  "validate_name (sanitize_name name) = Inr () \<longleftrightarrow> sanitize_name name \<notin> {''.config'', ''.defaults'', ''.'', ''..''}"
  using sanitized_length [of name] sanitized_chars [of _ name] by (auto simp: validate_name_def list_all_iff)

section \<open>Folder paths\<close>

text \<open>The names from the topmost group of a chain of parents down to a group; the chain must end.\<close>

abbreviation parent_in :: "(int \<rightharpoonup> group) \<Rightarrow> group \<Rightarrow> int option" where
  "parent_in groups g \<equiv> filter_opt (\<lambda>pid. groups pid \<noteq> None) (gr_parent_id g)"

inductive group_path :: "(int \<rightharpoonup> group) \<Rightarrow> int \<Rightarrow> str list \<Rightarrow> bool" for groups where
  top_group: "groups i = Some g \<Longrightarrow> parent_in groups g = None \<Longrightarrow> group_path groups i [sanitize_name (gr_name g)]"
| sub_group: "groups i = Some g \<Longrightarrow> parent_in groups g = Some pid \<Longrightarrow> group_path groups pid segs \<Longrightarrow>
    group_path groups i (segs @ [sanitize_name (gr_name g)])"

inductive_cases group_pathE: "group_path groups i segs"

definition paths_ok :: "(int \<rightharpoonup> group) \<Rightarrow> (int \<rightharpoonup> str) \<Rightarrow> bool" where
  "paths_ok groups cache \<longleftrightarrow> (\<forall>i p. cache i = Some p \<longrightarrow> (\<exists>segs. group_path groups i segs \<and> p = join_with ''/'' segs))"

lemma group_path_det: "group_path groups i segs \<Longrightarrow> group_path groups i segs' \<Longrightarrow> segs' = segs"
proof (induction arbitrary: segs' rule: group_path.induct)
  case (top_group i g)
  from top_group(3) show ?case using top_group(1,2) by cases simp_all
next
  case (sub_group i g pid segs)
  from sub_group(5) show ?case using sub_group(1,2,4) by cases auto
qed

lemma join_snoc: "segs \<noteq> [] \<Longrightarrow> join_with sep (segs @ [x]) = join_with sep segs @ sep @ x"
  by (induction sep segs rule: join_with.induct) auto

lemma group_path_nonempty:
  "group_path groups i segs \<Longrightarrow> segs \<noteq> [] \<and> join_with ''/'' segs \<noteq> [] \<and> groups i \<noteq> None \<and> (\<forall>w\<in>set segs. CHR ''/'' \<notin> set w)"
  by (induction rule: group_path.induct) (use sanitized_length in \<open>auto simp: join_snoc\<close>)

lemma paths_ok_upd: "paths_ok groups cache \<Longrightarrow> group_path groups i segs \<Longrightarrow> paths_ok groups (cache(i \<mapsto> join_with ''/'' segs))"
  by (auto simp: paths_ok_def)

lemma resolve_found:
  assumes "group_path groups i segs" "paths_ok groups cache"
  shows "\<exists>cache'. resolve_group_path groups i cache = Some (join_with ''/'' segs, cache') \<and> paths_ok groups cache' \<and> cache \<subseteq>\<^sub>m cache'"
  using assms
proof (induction arbitrary: cache rule: group_path.induct)
  case (top_group i g)
  note path = group_path.top_group [OF top_group(1,2)]
  show ?case
  proof (cases "cache i")
    case None
    then show ?thesis using top_group paths_ok_upd [OF top_group(3) path]
      by (auto simp: resolve_group_path.simps [of groups i] map_le_def)
  next
    case (Some p)
    then have "p = sanitize_name (gr_name g)" using top_group(3) group_path_det [OF path] unfolding paths_ok_def by fastforce
    then show ?thesis using Some top_group(3) by (simp add: resolve_group_path.simps [of groups i])
  qed
next
  case (sub_group i g pid segs)
  note path = group_path.sub_group [OF sub_group(1-3)]
  show ?case
  proof (cases "cache i")
    case None
    from sub_group.IH [OF sub_group.prems] obtain cache' where c: "resolve_group_path groups pid cache = Some (join_with ''/'' segs, cache')"
        "paths_ok groups cache'" "cache \<subseteq>\<^sub>m cache'" by blast
    have "cache \<subseteq>\<^sub>m cache'(i \<mapsto> join_with ''/'' (segs @ [sanitize_name (gr_name g)]))"
      using c(3) None by (auto simp: map_le_def dom_def)
    then show ?thesis using None sub_group c paths_ok_upd [OF c(2) path] group_path_nonempty [OF sub_group(3)]
      by (simp add: resolve_group_path.simps [of groups i] join_snoc Let_def)
  next
    case (Some p)
    then have "p = join_with ''/'' (segs @ [sanitize_name (gr_name g)])"
      using sub_group.prems group_path_det [OF path] by (force simp: paths_ok_def)
    then show ?thesis using Some sub_group.prems by (simp add: resolve_group_path.simps [of groups i])
  qed
qed

lemma resolve_ends:
  assumes "resolve_group_path groups i cache = Some r"
  shows "paths_ok groups cache \<longrightarrow> groups i \<noteq> None \<longrightarrow> (\<exists>segs. group_path groups i segs)"
proof (rule resolve_group_path.raw_induct [OF _ assms], intro impI)
  fix resolve groups i cache r
  assume ih: "\<And>groups i cache r. resolve groups i cache = Some r \<Longrightarrow>
      paths_ok groups cache \<longrightarrow> groups i \<noteq> None \<longrightarrow> (\<exists>segs. group_path groups i segs)"
    and body: "(case cache i of
        Some cached \<Rightarrow> Some (cached, cache)
      | None \<Rightarrow>
          (case groups i of
             None \<Rightarrow> Some ([], cache)
           | Some g \<Rightarrow>
               (case parent_in groups g of
                  Some pid \<Rightarrow>
                    Option.bind (resolve groups pid cache) (\<lambda>(parent_path, cache).
                      let full = (if parent_path = [] then sanitize_name (gr_name g)
                                  else parent_path @ ''/'' @ sanitize_name (gr_name g))
                      in Some (full, cache(i \<mapsto> full)))
                | None \<Rightarrow> Some (sanitize_name (gr_name g), cache(i \<mapsto> sanitize_name (gr_name g)))))) = Some r"
    and ok: "paths_ok groups cache" and "groups i \<noteq> None"
  then obtain g where g: "groups i = Some g" by blast
  show "\<exists>segs. group_path groups i segs"
  proof (cases "cache i")
    case (Some p)
    then show ?thesis using ok by (auto simp: paths_ok_def)
  next
    case None
    show ?thesis
    proof (cases "parent_in groups g")
      case None
      then show ?thesis using g top_group by blast
    next
      case (Some pid)
      then obtain r' where "resolve groups pid cache = Some r'" using body None g by (auto simp: bind_eq_Some_conv)
      moreover have "groups pid \<noteq> None" using Some by (auto simp: filter_opt_def split: option.splits if_splits)
      ultimately show ?thesis using ih ok g Some sub_group by blast
    qed
  qed
qed

lemma group_paths_loop_ends:
  assumes "paths_ok groups paths" "\<forall>g\<in>set gs. groups (gr_id g) \<noteq> None"
  shows "if \<forall>g\<in>set gs. \<exists>segs. group_path groups (gr_id g) segs
    then \<exists>paths'. group_paths_loop groups gs paths = Some paths' \<and> paths_ok groups paths' \<and> paths \<subseteq>\<^sub>m paths' \<and> gr_id ` set gs \<subseteq> dom paths'
    else group_paths_loop groups gs paths = None"
  using assms
proof (induction gs arbitrary: paths)
  case (Cons g gs)
  show ?case
  proof (cases "paths (gr_id g)")
    case (Some p)
    then have "\<exists>segs. group_path groups (gr_id g) segs" using Cons.prems(1) by (auto simp: paths_ok_def)
    moreover have "gr_id g \<in> dom paths'" if "paths \<subseteq>\<^sub>m paths'" for paths' using that Some by (metis domI map_le_def)
    ultimately show ?thesis using Cons.IH [OF Cons.prems(1)] Cons.prems(2) Some by auto
  next
    case None
    show ?thesis
    proof (cases "\<exists>segs. group_path groups (gr_id g) segs")
      case False
      then have "resolve_group_path groups (gr_id g) paths = None"
        using resolve_ends [of groups "gr_id g" paths] Cons.prems by (cases "resolve_group_path groups (gr_id g) paths") auto
      then show ?thesis using False None by auto
    next
      case True
      then obtain segs c where c: "group_path groups (gr_id g) segs"
          "resolve_group_path groups (gr_id g) paths = Some (join_with ''/'' segs, c)" "paths_ok groups c" "paths \<subseteq>\<^sub>m c"
        using resolve_found [OF _ Cons.prems(1)] by blast
      let ?c = "c(gr_id g \<mapsto> join_with ''/'' segs)"
      have le: "paths \<subseteq>\<^sub>m ?c" using c(4) None by (auto simp: map_le_def dom_def)
      have grown: "paths \<subseteq>\<^sub>m paths' \<and> gr_id g \<in> dom paths'" if "?c \<subseteq>\<^sub>m paths'" for paths'
        using map_le_trans [OF le that] map_le_implies_dom_le [OF that] by auto
      have "group_paths_loop groups (g # gs) paths = group_paths_loop groups gs ?c" using None c(2) by simp
      then show ?thesis using Cons.IH [OF paths_ok_upd [OF c(3,1)]] Cons.prems(2) grown True by force
    qed
  qed
qed (simp add: map_le_def)

lemma group_map_dom: "g \<in> set groups \<Longrightarrow> group_map_of groups (gr_id g) \<noteq> None"
  by (auto simp: group_map_of_def map_of_eq_None_iff image_iff)

lemma group_map_id: "group_map_of groups i = Some g \<Longrightarrow> g \<in> set groups \<and> gr_id g = i"
  by (auto simp: group_map_of_def dest: map_of_SomeD)

text \<open>
  The folders of an import. Where the chain of parents of every group ends, each group gets the
  path of the sanitized names from the top of its chain down to it, and nothing else has one;
  where a chain does not end, the import does not return.
\<close>

theorem group_paths_exact:
  "case build_group_paths groups of
     Some paths \<Rightarrow> (\<forall>i p. paths i = Some p \<longleftrightarrow> (\<exists>segs. group_path (group_map_of groups) i segs \<and> p = join_with ''/'' segs)) \<and>
       (\<forall>i. paths i = None \<longleftrightarrow> group_map_of groups i = None)
   | None \<Rightarrow> \<exists>g\<in>set groups. \<nexists>segs. group_path (group_map_of groups) (gr_id g) segs"
proof -
  let ?gm = "group_map_of groups"
  have "paths_ok ?gm Map.empty" by (simp add: paths_ok_def)
  note loop = group_paths_loop_ends [OF this, of groups]
  show ?thesis
  proof (cases "\<forall>g\<in>set groups. \<exists>segs. group_path ?gm (gr_id g) segs")
    case False
    then show ?thesis using loop group_map_dom by (auto simp: build_group_paths_def)
  next
    case True
    then obtain paths where p: "build_group_paths groups = Some paths" "paths_ok ?gm paths" "gr_id ` set groups \<subseteq> dom paths"
      using loop group_map_dom by (auto simp: build_group_paths_def)
    have known: "?gm i \<noteq> None \<Longrightarrow> \<exists>q. paths i = Some q" for i using group_map_id [of groups i] p(3) by blast
    have "paths i = Some q \<longleftrightarrow> (\<exists>segs. group_path ?gm i segs \<and> q = join_with ''/'' segs)" for i q
      using p(2) known [of i] group_path_det [of ?gm i] group_path_nonempty [of ?gm i] unfolding paths_ok_def by metis
    moreover have "paths i = None \<longleftrightarrow> ?gm i = None" for i
      using known [of i] p(2) group_path_nonempty [of ?gm i] unfolding paths_ok_def by (metis option.exhaust option.simps(3))
    ultimately show ?thesis using p(1) by simp
  qed
qed

section \<open>Distinct names\<close>

definition numbered :: "str \<Rightarrow> bool" where
  "numbered name \<longleftrightarrow> (\<exists>base k. name = base @ ''-'' @ show_nat k)"

lemma numbered_unique:
  assumes "a @ ''-'' @ show_nat k = b @ ''-'' @ show_nat m"
  shows "a = b \<and> k = m"
proof -
  have digits: "\<forall>c\<in>set (rev (show_nat n)). c \<noteq> CHR ''-''" for n
    using show_nat_digits_set [of "CHR ''-''" n] by (auto simp: is_ascii_digit_def byte_of_def)
  have eq: "rev (show_nat k) @ CHR ''-'' # rev a = rev (show_nat m) @ CHR ''-'' # rev b"
    using arg_cong [OF assms, of rev] by simp
  have tw: "takeWhile (\<lambda>c. c \<noteq> CHR ''-'') (rev (show_nat n) @ CHR ''-'' # s) = rev (show_nat n)" for n s
    using digits [of n] by (simp add: takeWhile_append2 del: set_rev)
  have "rev (show_nat k) = rev (show_nat m)" using arg_cong [OF eq, of "takeWhile (\<lambda>c. c \<noteq> CHR ''-'')"] unfolding tw .
  then have "show_nat k = show_nat m" by simp
  then have "k = m" using digits_val_show_nat by metis
  then show ?thesis using assms by simp
qed

text \<open>The keys the loop can still give out.\<close>

definition free_keys :: "(str \<times> str \<Rightarrow> nat) \<Rightarrow> (str \<times> str) set" where
  "free_keys seen = {(s, n). seen (s, n) = 0 \<and> \<not> numbered n} \<union> {(s, n @ ''-'' @ show_nat k) |s n k. seen (s, n) < k}"

lemma free_plain: "\<not> numbered n \<Longrightarrow> (s, n) \<in> free_keys seen \<longleftrightarrow> seen (s, n) = 0"
  by (auto simp: free_keys_def numbered_def)

lemma free_numbered: "(s, n @ ''-'' @ show_nat k) \<in> free_keys seen \<longleftrightarrow> seen (s, n) < k"
  using numbered_unique [of n k] unfolding free_keys_def numbered_def by blast

lemma free_mono: "(\<And>key. seen key \<le> seen' key) \<Longrightarrow> free_keys seen' \<subseteq> free_keys seen"
  unfolding free_keys_def by (fastforce dest: le_less_trans)

lemma dedup_keys:
  assumes "\<forall>((s, n), e)\<in>set entries. \<not> numbered n \<and> (\<forall>k\<le>N. length n + length (show_nat k) < 64)"
    and "\<forall>key. seen key + length entries \<le> N"
  shows "set (map fst (dedup_loop entries seen)) \<subseteq> free_keys seen \<and> distinct (map fst (dedup_loop entries seen))"
  using assms
proof (induction entries arbitrary: seen)
  case (Cons p entries)
  obtain s n e where p: "p = ((s, n), e)" by (metis prod.exhaust)
  note prems = Cons.prems [unfolded p]
  let ?k = "seen (s, n) + 1"
  let ?n = "if 1 < ?k then n @ ''-'' @ show_nat ?k else n"
  define seen' where "seen' = seen((s, n) := ?k)"
  have "?k \<le> N" using prems(2) [rule_format, of "(s, n)"] by simp
  then have n: "length n + length (show_nat ?k) < 64" "\<not> numbered n" using prems(1) by auto
  then have "\<not> 64 - length (''-'' @ show_nat ?k) < length n" by simp
  then have step: "dedup_loop (((s, n), e) # entries) seen = ((s, ?n), e) # dedup_loop entries seen'"
    unfolding dedup_loop.simps Let_def seen'_def by simp
  have "seen' key + length entries \<le> N" for key using prems(2) [rule_format, of key] by (auto simp: seen'_def)
  then have ih: "set (map fst (dedup_loop entries seen')) \<subseteq> free_keys seen'" "distinct (map fst (dedup_loop entries seen'))"
    using Cons.IH [of seen'] prems(1) by auto
  have "(s, ?n) \<in> free_keys seen" "(s, ?n) \<notin> free_keys seen'"
    using n(2) by (simp_all add: free_plain free_numbered seen'_def del: append_Cons append_Nil)
  moreover have "free_keys seen' \<subseteq> free_keys seen" by (rule free_mono) (simp add: seen'_def)
  ultimately show ?case using ih unfolding p step by auto
qed simp

lemma dedup_keeps: "map snd (dedup_loop entries seen) = map snd entries \<and> map (fst \<circ> fst) (dedup_loop entries seen) = map (fst \<circ> fst) entries"
proof (induction entries arbitrary: seen)
  case (Cons p entries)
  then show ?case by (cases p rule: prod.exhaust, cases "fst p") (simp add: Let_def)
qed simp

text \<open>
  Names can collide all the same: a name that ends in a number the loop gives out is taken twice,
  and the second entry overwrites the first.
\<close>

lemma deduplicated_names_collide:
  "map fst (deduplicate_names [(([], ''a''), x), (([], ''a''), y), (([], ''a-2''), z)]) = [([], ''a''), ([], ''a-2''), ([], ''a-2'')]"
  by (simp add: deduplicate_names_def Let_def show_nat.simps digit_char_def)

text \<open>A cycle of parents is never left.\<close>

lemma cycle_no_path:
  assumes "group_path groups i segs" "\<forall>i\<in>C. \<exists>g pid. groups i = Some g \<and> parent_in groups g = Some pid \<and> pid \<in> C"
  shows "i \<notin> C"
  using assms(1)
proof (induction rule: group_path.induct)
  case (top_group i g)
  then show ?case using assms(2) by fastforce
next
  case (sub_group i g pid segs)
  then show ?case using assms(2) by fastforce
qed

lemma group_cycle_never_ends:
  assumes "\<forall>i\<in>C. \<exists>g pid. group_map_of groups i = Some g \<and> parent_in (group_map_of groups) g = Some pid \<and> pid \<in> C" and "C \<noteq> {}"
  shows "build_group_paths groups = None"
proof -
  obtain i g where i: "i \<in> C" "group_map_of groups i = Some g" using assms by blast
  then have "g \<in> set groups" "gr_id g = i" using group_map_id by blast+
  then have "\<not> (\<forall>g\<in>set groups. \<exists>segs. group_path (group_map_of groups) (gr_id g) segs)"
    using cycle_no_path [OF _ assms(1)] i(1) by blast
  moreover have "paths_ok (group_map_of groups) Map.empty" by (simp add: paths_ok_def)
  ultimately show ?thesis
    using group_paths_loop_ends [of "group_map_of groups" Map.empty groups] group_map_dom unfolding build_group_paths_def by metis
qed

section \<open>The whole import\<close>

lemma show_nat_length_mono: "k \<le> m \<Longrightarrow> length (show_nat k) \<le> length (show_nat m)"
proof (induction m arbitrary: k rule: show_nat.induct)
  case (1 m)
  show ?case
  proof (cases "k < 10")
    case True
    then show ?thesis by (simp add: show_nat.simps [of k] Suc_le_eq)
  next
    case False
    then have "length (show_nat (k div 10)) \<le> length (show_nat (m div 10))" using 1 by (simp add: div_le_mono)
    then show ?thesis using False "1.prems" by (simp add: show_nat.simps [of k] show_nat.simps [of m])
  qed
qed

definition supported :: "(str \<Rightarrow> str) \<Rightarrow> connection \<Rightarrow> bool" where
  "supported low c \<longleftrightarrow> low (cn_protocol c) \<in> {''ssh'', ''rdp'', ''vnc''}"

text \<open>The parameters of a connection by name; the last row with a name counts.\<close>

definition own_parameters :: "(int \<times> str \<times> str) list \<Rightarrow> connection \<Rightarrow> (str \<rightharpoonup> str)" where
  "own_parameters params c = map_of (rev (map snd (filter (\<lambda>p. fst p = cn_id c) params)))"

definition own_folder :: "(int \<rightharpoonup> str) \<Rightarrow> connection \<Rightarrow> str" where
  "own_folder paths c = or_default (Option.bind (cn_parent_id c) paths)"

lemma planned_entries:
  "List.map_filter (plan_connection low cred_maps (parameters_of params) paths) conns =
     map (\<lambda>c. ((own_folder paths c, sanitize_name (cn_name c)),
       imported_entry (own_parameters params c) cred_maps (low (cn_protocol c)) (cn_name c))) (filter (supported low) conns)"
proof -
  have own: "(case parameters_of params (cn_id c) of Some ps \<Rightarrow> ps | None \<Rightarrow> []) = map snd (filter (\<lambda>p. fst p = cn_id c) params)" for c
    by (simp add: parameters_of_def Let_def)
  have "plan_connection low cred_maps (parameters_of params) paths c = (if supported low c then
      Some ((own_folder paths c, sanitize_name (cn_name c)),
        imported_entry (own_parameters params c) cred_maps (low (cn_protocol c)) (cn_name c)) else None)" for c
    unfolding plan_connection_def Let_def own supported_def own_parameters_def own_folder_def by simp
  then show ?thesis by (induction conns) (simp_all add: List.map_filter_simps)
qed

text \<open>
  C24: The import takes over every connection of a dump whose protocol it supports, in order: an entry
  with the connection's own parameters (credentials rewritten by the maps), in the folder of
  its group; and if no name ends in a number of its own or is too long to get one, no two
  entries get the same place. The dump is one that is read back: remarks, comments and other statements around
  the rows, with any further columns after the imported ones.
\<close>

theorem import_takes_every_connection:
  assumes "upper_law up" "list_all piece_ok pieces" "unambiguous up pieces"
    and "scope \<in> {''shared'', ''instance''}" "parse_credential_maps maps = Inr cred_maps"
    and "conns = connections_in pieces" "conns \<noteq> []" "build_group_paths (groups_in pieces) = Some paths"
  shows "\<exists>plan. import_plan up low scope maps (dump pieces) = Some (Inr plan) \<and>
    map snd plan = map (\<lambda>c. imported_entry (own_parameters (parameters_in pieces) c) cred_maps (low (cn_protocol c)) (cn_name c)) (filter (supported low) conns) \<and>
    map (fst \<circ> fst) plan = map (own_folder paths) (filter (supported low) conns) \<and>
    ((\<forall>c\<in>set conns. \<not> numbered (sanitize_name (cn_name c)) \<and> length (sanitize_name (cn_name c)) + length (show_nat (length conns)) < 64) \<longrightarrow>
       distinct (map fst plan))"
proof -
  let ?entries = "map (\<lambda>c. ((own_folder paths c, sanitize_name (cn_name c)),
      imported_entry (own_parameters (parameters_in pieces) c) cred_maps (low (cn_protocol c)) (cn_name c))) (filter (supported low) conns)"
  have "import_plan up low scope maps (dump pieces) = Some (Inr (deduplicate_names ?entries))"
    using assms(4-8) by (auto simp: import_plan_def dump_read [OF assms(1-3)] planned_entries)
  moreover have "distinct (map fst (deduplicate_names ?entries))"
    if "\<forall>c\<in>set conns. \<not> numbered (sanitize_name (cn_name c)) \<and> length (sanitize_name (cn_name c)) + length (show_nat (length conns)) < 64"
  proof -
    have "length n + length (show_nat k) < 64" if "((s, n), e) \<in> set ?entries" "k \<le> length conns" for s n e k
      using that(1) \<open>\<forall>c\<in>set conns. _ c\<close> show_nat_length_mono [OF that(2)] by fastforce
    moreover have "length ?entries \<le> length conns" by simp
    ultimately show ?thesis using that dedup_keys [of ?entries "length conns" "\<lambda>_. 0"] unfolding deduplicate_names_def by fastforce
  qed
  ultimately show ?thesis using dedup_keeps [of ?entries "\<lambda>_. 0"] by (auto simp: deduplicate_names_def comp_def)
qed

section \<open>Witness\<close>

lemma demo_group_paths: "build_group_paths demo_groups = Some [7 \<mapsto> ''unnamed'']"
  by (simp add: build_group_paths_def demo_groups_def group_map_of_def resolve_group_path.simps filter_opt_def sanitize_name_def is_ascii_alphanumeric_def byte_of_def)

lemma imported_port: "ab_port (imported_entry param_map cred_maps protocol name) = Option.bind (param_map ''port'') (parse_unsigned 16)"
  by (simp add: imported_entry_def Let_def)

lemma demo_supported: "filter (supported to_ascii_lowercase) demo_conns = demo_conns"
  by (simp add: demo_conns_def supported_def to_ascii_lowercase_def ascii_lower_def byte_of_def)

lemma demo_folders: "map (own_folder [7 \<mapsto> ''unnamed'']) demo_conns = [''unnamed'']"
  by (simp add: demo_conns_def own_folder_def or_default_def)

lemma demo_ports:
  "map (\<lambda>c. ab_port (imported_entry (own_parameters demo_params c) [] (to_ascii_lowercase (cn_protocol c)) (cn_name c))) demo_conns = [Some 22]"
proof -
  have "parse_unsigned 16 ''22'' = Some 22"
    using parse_unsigned_show_nat [of 16 22] by (simp add: show_nat.simps digit_char_def)
  then show ?thesis by (simp add: imported_port demo_conns_def demo_params_def own_parameters_def)
qed

theorem import_takes_every_connection_witness:
  "\<exists>plan. import_plan (map ascii_upper) to_ascii_lowercase ''shared'' [] (dump demo_dump) = Some (Inr plan) \<and>
     map (fst \<circ> fst) plan = [''unnamed''] \<and> map ab_port (map snd plan) = [Some 22]"
proof -
  have facts: "''shared'' \<in> {''shared'', ''instance''}" "parse_credential_maps [] = Inr []" "demo_conns = connections_in demo_dump" "demo_conns \<noteq> []"
    "build_group_paths (groups_in demo_dump) = Some [7 \<mapsto> ''unnamed'']"
    using demo_group_paths by (simp_all add: demo_in) (simp add: demo_conns_def)
  from import_takes_every_connection [OF upper_law_ascii demo_dumpable demo_unambiguous facts, of to_ascii_lowercase]
  obtain plan where plan: "import_plan (map ascii_upper) to_ascii_lowercase ''shared'' [] (dump demo_dump) = Some (Inr plan)"
    "map snd plan = map (\<lambda>c. imported_entry (own_parameters demo_params c) [] (to_ascii_lowercase (cn_protocol c)) (cn_name c)) demo_conns"
    "map (fst \<circ> fst) plan = [''unnamed'']"
    unfolding demo_supported demo_folders demo_in by (elim exE conjE)
  have "map ab_port (map snd plan) = [Some 22]" unfolding plan(2) list.map_comp comp_def by (rule demo_ports)
  with plan(1,3) show ?thesis by (intro exI [of _ plan] conjI)
qed

end
