(* ===== verification/Spec2Isabelle.thy ===== *)
theory Spec2Isabelle
  imports Protocol Binary_Blob Wire_Scan H264_Rewrite Aux_Drop Frame_Stats Websocket Recording Sessions Vault_Contract Change_Log Import_Plan
begin

text \<open>
  \<^bold>\<open>A verification development for rustguac.\<close>

  rustguac is a gateway in Rust that puts browsers in front of Apache guacd. A browser opens a
  WebSocket; the gateway authenticates it, connects to guacd and pumps the Guacamole protocol
  (a stream of length-prefixed text instructions, with H.264 pictures as base64 blobs inside)
  in both directions, watching, thinning and repairing the H.264 streams on the way. Around the
  pumps are the accounts (a SQLite database), the recordings on disk and the address book.

  \<^bold>\<open>Theories and what they model\<close> (paths are under \<^verbatim>\<open>src/src\<close>)

  \<^item> \<open>Prelude\<close>, \<open>Text_Ops\<close>, \<open>Net_Addr\<close>: what the program uses of the Rust standard
    library. A \<open>str\<close> is the list of its UTF-8 bytes; number parsing, trimming, splitting,
    UTF-8 validity, IP address parsing.
  \<^item> \<open>Protocol\<close> (\<^verbatim>\<open>protocol.rs\<close>): \<open>Instruction::encode\<close> and \<open>parse\<close>, the framing scanner
    \<open>last_instruction_boundary\<close>. Shown: the round trip and its one exception, the scanner finds
    exactly the longest run of complete instructions.
  \<^item> \<open>Chunk\<close>: chunks of complete instructions as token lists, and the locales \<open>token_walker\<close> and
    \<open>text_walker\<close> for a component that walks a chunk instruction by instruction: what it does
    to a chunk is the fold of what it does to its instructions. The splitter, the rewriter and
    the dropper are interpretations.
  \<^item> \<open>Binary_Blob\<close> (\<^verbatim>\<open>binary_blob.rs\<close>): \<open>BlobSplitter\<close>; nothing is lost, reordered or changed.
  \<^item> \<open>Wire_Scan\<close> (scanners of \<^verbatim>\<open>frame_stats.rs\<close>): the byte-counting scanners; exact on ASCII.
  \<^item> \<open>Bits\<close>, \<open>H264_Sps\<close> (\<^verbatim>\<open>h264_sps.rs\<close>): bit reader and writer, exp-Golomb codes, emulation
    prevention, the SPS parser and its three edits, each shown to change what it should and
    nothing else of what a decoder reads.
  \<^item> \<open>H264_Rewrite\<close> (\<^verbatim>\<open>h264_rewrite.rs\<close>): \<open>SpsRewriter\<close>; only SPSs inside blobs change, each edit is
    reported once a session.
  \<^item> \<open>Tally\<close>, \<open>H264_Refs\<close> (\<^verbatim>\<open>h264_refs.rs\<close>): counters, \<open>NalProbe\<close> and its slice parsers, the
    verdicts; when exactly the slice headers that were read get the verdict \<open>Safe\<close>.
  \<^item> \<open>Aux_Drop\<close> (\<^verbatim>\<open>h264_aux_drop.rs\<close>): \<open>AuxDropper\<close>; the phases of a session, and that what it
    passes on is a consistent stream.
  \<^item> \<open>Frame_Stats\<close> (\<^verbatim>\<open>frame_stats.rs\<close>): \<open>FrameStats\<close>; counters and log bounds for any traffic.
  \<^item> \<open>Websocket\<close> (\<^verbatim>\<open>websocket.rs\<close>): the two pumps as functions of one read, composed of all of the
    above; what reaches the browser, that nothing guacd sends is lost.
  \<^item> \<open>Recording\<close> (\<^verbatim>\<open>recording.rs\<close>): rotation over a directory; the locale \<open>pruner\<close> is the contract
    of deleting candidates one by one, interpreted for closed recordings and for the recordings
    of an entry.
  \<^item> \<open>Accounts\<close>, \<open>Account_History\<close> (\<^verbatim>\<open>db.rs\<close>): the account tables and every operation on them; the
    locale \<open>op_system\<close> carries invariants over histories; which operations can fail, that no
    account is taken over and a deleted user stays out.
  \<^item> \<open>Auth\<close> (\<^verbatim>\<open>auth.rs\<close>, the login of \<^verbatim>\<open>oidc.rs\<close>): identities, roles, WebSocket tickets, the client's
    address behind proxies, the two authentication middlewares, the OIDC callback from the
    verified claims on; who passes, that a login ends in a session that works.
  \<^item> \<open>Guacd\<close> (\<^verbatim>\<open>guacd.rs\<close>): connection parameters and their argument values, the instruction
    reader, both handshakes over an abstract stream; the dialogue is the one guacd expects and
    nothing past it is read.
  \<^item> \<open>Session_Request\<close>, \<open>Session_Policy\<close>, \<open>Session_Create\<close> (\<^verbatim>\<open>session.rs\<close>, parts of
    \<^verbatim>\<open>config.rs\<close> and \<^verbatim>\<open>drive.rs\<close>): the request, the policy for callers below administrator, the
    network allowlists, \<open>create_session\<close> for the seven session types; what a caller cannot
    reach, and the one address that escapes.
  \<^item> \<open>Sessions\<close> (\<^verbatim>\<open>session.rs\<close>, \<open>ws_handler\<close> and \<open>handle_ws\<close> of \<^verbatim>\<open>websocket.rs\<close>): the session manager, and
    the gateway as a transition system whose steps are the critical sections of concurrent
    requests; its invariant gives who gets the owner's stream, exact connection counts,
    and that ending a session reaches every connection.
  \<^item> \<open>Address_Book\<close> (\<^verbatim>\<open>vault.rs\<close>, the access checks of \<^verbatim>\<open>api.rs\<close>): stored entries and what of them is
    shown, names and paths, who may open a folder, which credentials a folder lends; a lent
    secret reaches nobody new, entries never collide.
  \<^item> \<open>Vault_Store\<close> (the client of \<^verbatim>\<open>vault.rs\<close>, the trait \<open>EntryStore\<close> of \<^verbatim>\<open>api.rs\<close>): requests to a Vault
    that answers, reading, writing, listing and deleting; the folder walks end for any answers.
  \<^item> \<open>Entry_Ops\<close> (\<^verbatim>\<open>api.rs\<close>): copy, move, the update that finds a device by its external id, bulk
    actions, for any store; the locale \<open>entry_store_laws\<close> is the contract they rely on, with
    calls that fail having taken effect or not.
  \<^item> \<open>Vault_Contract\<close>: the locale \<open>kv_vault\<close> states the documented behaviour of Vault's KV engine;
    the sublocale \<open>kv_backends\<close> derives the store's contract for the code's own store, in a
    deployment with one Vault, and a Vault in memory satisfies it. Shown: nothing is lost. The
    requests of one operation are taken without another writer between them.
  \<^item> \<open>Change_Log\<close> (\<^verbatim>\<open>api.rs\<close>): the bounded log of address book changes, the middleware that records
    them and the poll; a poll misses nothing and names no folder its caller cannot open.
  \<^item> \<open>Sql_Dump\<close> (\<^verbatim>\<open>import.rs\<close>): the reader of MySQL dumps; from a dump with comments, other
    statements and further columns the imported rows are read back as they were. \<open>str::to_uppercase\<close> is an argument with the law \<open>upper_law\<close>.
  \<^item> \<open>Import_Plan\<close> (\<^verbatim>\<open>import.rs\<close>): what the import makes of the rows, up to the writes: folder paths,
    names, entries; every supported connection is taken over, and when names stay distinct.

  \<^bold>\<open>Conventions.\<close> State is passed explicitly; each handler is one function of the state, the time
  and its inputs. \<open>Result\<close> and \<open>Option\<close> are sums and options, so every early return is a branch.
  Unbounded counters (\<open>u64\<close>) are natural numbers; widths are kept where the code can reach them
  (parsed integers, the 32-bit arithmetic of the bit reader). Log lines are datatypes with the
  values they quote. \<open>f64\<close> values are exact rationals. A lock held for a whole operation makes a
  session a sequence of operations.

  \<^bold>\<open>Parameters.\<close> Code outside the repository is an argument: the base64 engine (\<open>dec\<close>, \<open>enc\<close>), the
  iteration order of a \<open>HashMap\<close> (\<open>pick\<close>), time (\<open>now\<close>), environment variables (\<open>env\<close>), the file
  system's answers, serde, Vault (the record \<open>vault\<close>), and the record \<open>platform\<close> (SHA-256, SQLite's \<open>datetime\<close>, chrono,
  ipnetwork). Random keys are arguments of the operations that draw them.

  \<^bold>\<open>Bounds.\<close> No fuel is used: loops are structural or have a measure, except the disk limit of the
  rotation, which is a \<open>partial_function\<close> and is proved to return, and the folder paths of the
  import, which return exactly when no chain of parents is a cycle.

  \<^bold>\<open>Not modelled.\<close> HTTP routing and handlers (\<^verbatim>\<open>api.rs\<close>, \<^verbatim>\<open>main.rs\<close>), loading the configuration
  file (\<^verbatim>\<open>config.rs\<close>), SSH tunnels, browser processes, containers and Proxmox (\<^verbatim>\<open>tunnel.rs\<close>,
  \<^verbatim>\<open>browser.rs\<close>, \<^verbatim>\<open>vdi\<close>, \<^verbatim>\<open>pve.rs\<close>: their answers are the record \<open>services\<close>), Vault login,
  token renewal, writing folder settings and user credentials (\<^verbatim>\<open>vault.rs\<close>, \<^verbatim>\<open>migrate.rs\<close>), the reading of files and the writes of the import (\<^verbatim>\<open>import.rs\<close>), video conversion
  (\<^verbatim>\<open>recording_mp4.rs\<close>), audit logs and session history (\<^verbatim>\<open>db.rs\<close>): asynchronous glue around
  network services and processes, apart from what is named above.
\<close>

end
